(* ===== verification/Kernel_Prelude.thy ===== *)
theory Kernel_Prelude
  imports "HOL-Library.Word"
begin

text \<open>
  The vocabulary shared by every component of the development: the machine types of
  \<open>src/src/include/base.h\<close>, the outcome of a C function that may stop the machine, the two
  combinators with which the models sequence such functions, and the generic facts about words,
  powers of two and buffers that the component proofs use.

  A call of a C function either returns a value or does not return. The reasons for not returning
  are the constructors of \<open>panic\<close>: a failed \<open>kernel_assert\<close> (or \<open>kernel_assert_d\<close>,
  \<open>kernel_expect\<close>, \<open>kernel_ensure\<close>, which are the same macro in the default debug build),
  an explicit \<open>kernel_panic\<close>, and what C and the processor add: an access outside an
  object, a division by zero, an access to an unmapped page, an operation whose behaviour C leaves
  undefined, and a loop that never ends.
\<close>

unbundle bit_operations_syntax

type_synonym u8 = "8 word"
type_synonym u16 = "16 word"
type_synonym u32 = "32 word"
type_synonym u64 = "64 word"

datatype panic =
    AssertFail
  | KernelPanic string
  | OutOfBounds
  | DivByZero
  | PageFault
  | Undefined
  | Diverges

type_synonym 'a res = "panic + 'a"

abbreviation Ret :: "'a \<Rightarrow> 'a res" where
  "Ret \<equiv> Inr"

abbreviation Stop :: "panic \<Rightarrow> 'a res" where
  "Stop \<equiv> Inl"

text \<open>
  \<open>rbind m f\<close> runs \<open>m\<close> and hands its value to \<open>f\<close>; nothing runs after a stop.
  \<open>kassert b k\<close> is \<open>kernel_assert(b)\<close> followed by \<open>k\<close>.
\<close>

definition rbind :: "'a res \<Rightarrow> ('a \<Rightarrow> 'b res) \<Rightarrow> 'b res" where
  "rbind m f = (case m of Inl e \<Rightarrow> Inl e | Inr x \<Rightarrow> f x)"

definition kassert :: "bool \<Rightarrow> 'a res \<Rightarrow> 'a res" where
  "kassert b k = (if b then k else Inl AssertFail)"

text \<open>An access that C allows only inside an object: outside it the model stops.\<close>

definition inbounds :: "bool \<Rightarrow> 'a res \<Rightarrow> 'a res" where
  "inbounds b k = (if b then k else Inl OutOfBounds)"

named_theorems run_simps \<open>equations that run a sequence of calls\<close>
named_theorems page_arith \<open>arithmetic of page sizes and alignments\<close>

lemma rbind_Inr [simp, run_simps]: "rbind (Inr x) f = f x"
  by (simp add: rbind_def)

lemma rbind_Inl [simp, run_simps]: "rbind (Inl e) f = Inl e"
  by (simp add: rbind_def)

lemma rbind_eq_Inr [simp, run_simps]: "rbind m f = Inr y \<longleftrightarrow> (\<exists>x. m = Inr x \<and> f x = Inr y)"
  by (cases m) auto

lemma rbind_eq_Inl: "rbind m f = Inl e \<longleftrightarrow> m = Inl e \<or> (\<exists>x. m = Inr x \<and> f x = Inl e)"
  by (cases m) auto

lemma rbind_assoc: "rbind (rbind m f) g = rbind m (\<lambda>x. rbind (f x) g)"
  by (cases m) auto

lemma rbind_cong [fundef_cong]:
  "m = m' \<Longrightarrow> (\<And>x. m' = Inr x \<Longrightarrow> f x = f' x) \<Longrightarrow> rbind m f = rbind m' f'"
  by (cases m') auto

lemma kassert_True [simp, run_simps]: "b \<Longrightarrow> kassert b k = k"
  by (simp add: kassert_def)

lemma kassert_False [simp, run_simps]: "\<not> b \<Longrightarrow> kassert b k = Inl AssertFail"
  by (simp add: kassert_def)

lemma kassert_eq_Inr [simp, run_simps]: "kassert b k = Inr y \<longleftrightarrow> b \<and> k = Inr y"
  by (simp add: kassert_def)

lemma kassert_cong [fundef_cong]:
  "b = b' \<Longrightarrow> (b' \<Longrightarrow> k = k') \<Longrightarrow> kassert b k = kassert b' k'"
  by (simp add: kassert_def)

lemma inbounds_True [simp, run_simps]: "b \<Longrightarrow> inbounds b k = k"
  by (simp add: inbounds_def)

lemma inbounds_False [simp, run_simps]: "\<not> b \<Longrightarrow> inbounds b k = Inl OutOfBounds"
  by (simp add: inbounds_def)

lemma inbounds_eq_Inr [simp, run_simps]: "inbounds b k = Inr y \<longleftrightarrow> b \<and> k = Inr y"
  by (simp add: inbounds_def)

lemma inbounds_cong [fundef_cong]:
  "b = b' \<Longrightarrow> (b' \<Longrightarrow> k = k') \<Longrightarrow> inbounds b k = inbounds b' k'"
  by (simp add: inbounds_def)

subsection \<open>Powers of two and alignment\<close>

lemma and_pred_nat: "0 < n \<Longrightarrow> n AND (n - 1) = 0 \<Longrightarrow> \<exists>k. (n::nat) = 2 ^ k"
proof (induction n rule: less_induct)
  case (less n)
  show ?case
  proof (cases "even n")
    case True
    then obtain m where m: "n = 2 * m" by blast
    with less.prems have "0 < m" by simp
    have "(2 * m) AND (2 * m - 1) = 2 * (m AND (m - 1))"
      using \<open>0 < m\<close> by (subst and_nat_rec) (simp add: bit_0 , cases m, auto)
    with less.prems m have "m AND (m - 1) = 0" by simp
    with less.IH [of m] m \<open>0 < m\<close> obtain k where "m = 2 ^ k" by auto
    with m have "n = 2 ^ Suc k" by simp
    then show ?thesis by blast
  next
    case False
    then obtain m where m: "n = 2 * m + 1" by (metis oddE)
    have "n AND (n - 1) = 2 * m"
      using m by (subst and_nat_rec) simp
    with less.prems m have "n = 2 ^ 0" by simp
    then show ?thesis by blast
  qed
qed

lemma unat_u64_bound: "unat (w :: u64) < 18446744073709551616"
  using unsigned_less [of w, where 'a = nat] by simp

lemma u64_eq_iff_unat: "(a :: u64) = b \<longleftrightarrow> unat a = unat b"
  by (rule word_unat_eq_iff)

lemma two_power_lt_64: "k < 64 \<Longrightarrow> (2::nat) ^ k < 18446744073709551616"
  using power_strict_increasing [of k 64 "2::nat"] by simp

lemma unat_u64_2p [page_arith]: "k < 64 \<Longrightarrow> unat ((2::u64) ^ k) = 2 ^ k"
proof -
  assume "k < 64"
  moreover have "(2::u64) ^ k = of_nat (2 ^ k)" by simp
  ultimately show ?thesis
    by (simp add: unat_of_nat two_power_lt_64 del: of_nat_power of_nat_numeral)
qed

lemma u64_pow2_cases:
  fixes n :: u64
  assumes "n AND (n - 1) = 0" "n \<noteq> 0"
  obtains k where "k < 64" "n = 2 ^ k"
proof -
  have 1: "unat (n - 1) = unat n - 1" using assms(2)
    by (metis unat_minus_one)
  have "unat n AND (unat n - 1) = 0"
    using assms(1) 1 by (metis unsigned_0 unsigned_and_eq)
  moreover have "0 < unat n" using assms(2) by (simp add: unat_gt_0)
  ultimately obtain k where k: "unat n = 2 ^ k" using and_pred_nat by blast
  have "k < 64"
  proof (rule ccontr)
    assume "\<not> k < 64"
    then have "(2::nat) ^ 64 \<le> 2 ^ k" by (intro power_increasing) auto
    with k unat_u64_bound [of n] show False by simp
  qed
  moreover from this k have "n = 2 ^ k"
    by (simp add: u64_eq_iff_unat unat_u64_2p)
  ultimately show ?thesis using that by blast
qed

lemma u64_pow2_and_pred: "k < 64 \<Longrightarrow> (2 ^ k :: u64) AND (2 ^ k - 1) = 0"
  by (rule bit_word_eqI) (auto simp: bit_simps mask_eq_exp_minus_1 [symmetric])

lemma unat_and_not_mask [page_arith]:
  fixes p :: u64
  assumes "k < 64"
  shows "unat (p AND NOT (2 ^ k - 1)) = unat p div 2 ^ k * 2 ^ k"
proof -
  have "p AND NOT (2 ^ k - 1) = push_bit k (drop_bit k p)"
    by (rule bit_word_eqI) (auto simp: bit_simps mask_eq_exp_minus_1 [symmetric])
  moreover have "unat p div 2 ^ k * 2 ^ k < 18446744073709551616"
    using unat_u64_bound [of p] div_times_less_eq_dividend [of "unat p" "2 ^ k"] by linarith
  then have "unat (p div 2 ^ k * 2 ^ k) = unat p div 2 ^ k * 2 ^ k"
    using assms by (simp add: unat_word_ariths(2) unat_div unat_u64_2p)
  ultimately show ?thesis
    by (simp add: push_bit_eq_mult drop_bit_eq_div)
qed

subsection \<open>Additions and subtractions that do not wrap\<close>

lemma unat_u64_add: "unat (a :: u64) + unat b < 18446744073709551616 \<Longrightarrow> unat (a + b) = unat a + unat b"
  by (simp add: unat_word_ariths)

lemma unat_u64_sub: "unat b \<le> unat (a :: u64) \<Longrightarrow> unat (a - b) = unat a - unat b"
  by (simp add: unat_sub word_le_nat_alt)

lemma unat_u64_mult: "unat (a :: u64) * unat b < 18446744073709551616 \<Longrightarrow> unat (a * b) = unat a * unat b"
  by (simp add: unat_word_ariths)

text \<open>A counting loop \<open>for (i = 0; i < n; i++)\<close> never wraps its counter.\<close>

lemma unat_u64_Suc: "(i :: u64) < n \<Longrightarrow> unat (i + 1) = Suc (unat i)"
proof -
  assume "i < n"
  then have "unat i + unat (1::u64) < 18446744073709551616"
    using unat_u64_bound [of n] by (simp add: word_less_nat_alt)
  then show ?thesis by (simp add: unat_u64_add)
qed

lemma u64_loop_decr: "(i :: u64) < n \<Longrightarrow> unat n - unat (i + 1) < unat n - unat i"
  by (simp add: unat_u64_Suc word_less_nat_alt diff_less_mono2)

subsection \<open>Writing a run of elements into an array\<close>

definition overwrite :: "'a list \<Rightarrow> nat \<Rightarrow> 'a list \<Rightarrow> 'a list" where
  "overwrite b k xs = take k b @ xs @ drop (k + length xs) b"

lemma length_overwrite [simp]: "k + length xs \<le> length b \<Longrightarrow> length (overwrite b k xs) = length b"
  by (simp add: overwrite_def)

lemma overwrite_Nil [simp]: "overwrite b k [] = b"
  by (simp add: overwrite_def)

lemma overwrite_single: "k < length b \<Longrightarrow> b[k := x] = overwrite b k [x]"
  by (simp add: overwrite_def upd_conv_take_nth_drop)

lemma overwrite_overwrite [simp]:
  "k + length xs \<le> length b \<Longrightarrow> overwrite (overwrite b k xs) (k + length xs) ys = overwrite b k (xs @ ys)"
  by (cases xs) (auto simp: overwrite_def min_def ac_simps)

lemma overwrite_front:
  "k + length xs + length ys \<le> length b \<Longrightarrow>
   overwrite (overwrite b (k + length xs) ys) k xs = overwrite b k (xs @ ys)"
  by (auto simp: overwrite_def min_def ac_simps)

lemma nth_overwrite:
  "k + length xs \<le> length b \<Longrightarrow> i < length b \<Longrightarrow>
   overwrite b k xs ! i = (if k \<le> i \<and> i < k + length xs then xs ! (i - k) else b ! i)"
  by (auto simp: overwrite_def nth_append min_def)

lemma take_overwrite [simp]: "k \<le> length b \<Longrightarrow> take k (overwrite b k xs) = take k b"
  by (simp add: overwrite_def)

lemma page_multiple: "p mod 4096 = 0 \<Longrightarrow> (p + 4096 * k) mod 4096 = (0 :: u64)"
proof -
  assume "p mod 4096 = 0"
  then have "unat p mod 4096 = 0" by (simp add: u64_eq_iff_unat unat_mod)
  then have "(unat p + 4096 * unat k) mod 4096 = 0" by simp
  then have "(unat p + 4096 * unat k) mod 18446744073709551616 mod 4096 = 0" by (subst mod_mod_cancel) auto
  then have "unat ((p + 4096 * k) mod 4096) = 0" by (simp add: unat_mod unat_word_ariths mod_simps)
  then show ?thesis by (simp add: u64_eq_iff_unat)
qed

end
