(* ===== verification/Util.thy ===== *)
theory Util
  imports Kernel_Prelude
begin

text \<open>
  \<open>src/src/util\<close>: integer logarithms, powers of two and the pseudo-random sequence used by the
  built-in tests. Every value is a 64-bit word, so products wrap as they do in C.
\<close>

subsection \<open>util\_math.c\<close>

text \<open>
  The loop of \<open>util_math_log_2_down\<close> doubles \<open>res\<close> until it reaches \<open>val\<close>. Nothing stops
  \<open>res\<close> from wrapping to zero, so the loop is a partial function: \<open>None\<close> is \<open>does not
  return\<close>.
\<close>

partial_function (option) log_2_down_loop :: "u64 \<Rightarrow> u64 \<Rightarrow> u64 \<Rightarrow> (u64 \<times> u64) option" where
  "log_2_down_loop val res ex =
     (if res < val then log_2_down_loop val (res * 2) (ex + 1) else Some (res, ex))"

definition util_math_log_2_down :: "u64 \<Rightarrow> u64 res" where
  "util_math_log_2_down val =
     kassert (val > 0)
       (case log_2_down_loop val 1 0 of
          None \<Rightarrow> Stop Diverges
        | Some (res, ex) \<Rightarrow>
            (if res > val then kassert (res div 2 < val) (Ret (ex - 1))
             else kassert (res = val) (Ret ex)))"

function log_2_up_loop :: "u64 \<Rightarrow> u64 \<Rightarrow> u64" where
  "log_2_up_loop val res =
     (let val = val div 2 in if val = 0 then res else log_2_up_loop val (res + 1))"
  by pat_completeness auto
termination
proof (relation "measure (\<lambda>(val, res). unat val)", goal_cases)
  case (2 val res x)
  then have "unat val div 2 \<noteq> 0"
    by (simp add: u64_eq_iff_unat unat_div)
  then show ?case using 2 by (simp add: unat_div)
qed simp

definition util_math_log_2_up :: "u64 \<Rightarrow> u64" where
  "util_math_log_2_up val = (if val = 0 then 1 else log_2_up_loop (val - 1) 0 + 1)"

text \<open>A shift by the width or more is undefined in C.\<close>

definition util_math_2_exp :: "u8 \<Rightarrow> u64 res" where
  "util_math_2_exp ex = (if unat ex < 64 then Ret (push_bit (unat ex) 1) else Stop Undefined)"

definition util_math_is_pow2 :: "u64 \<Rightarrow> bool" where
  "util_math_is_pow2 n = (n AND (n - 1) = 0)"

subsection \<open>util\_random.c\<close>

definition util_rand_int_next :: "u64 \<Rightarrow> u64" where
  "util_rand_int_next c0 =
     (let c1 = 119785373 * c0 + 126792457;
          c2 = 187678878 XOR c1;
          c3 = push_bit 20 c2 + drop_bit (64 - 20) c2;
          c4 = 85689495 * c3 + 63498502;
          c5 = 143537923 XOR c4;
          c6 = push_bit 20 c5 + drop_bit (64 - 20) c5
      in 151117737 * c6 + 98781234)"


subsection \<open>Correctness\<close>

declare log_2_up_loop.simps [simp del]

lemma log_2_up_loop_spec:
  "0 < val \<Longrightarrow> unat res + unat val < 18446744073709551616 \<Longrightarrow>
   \<exists>k. unat (log_2_up_loop val res) = unat res + k \<and> 2 ^ k \<le> unat val \<and> unat val < 2 ^ Suc k"
proof (induction val res rule: log_2_up_loop.induct)
  case (1 val res)
  show ?case
  proof (cases "val div 2 = 0")
    case True
    then have "unat val < 2" by (simp add: u64_eq_iff_unat unat_div)
    moreover have "0 < unat val" using "1.prems" by (simp add: word_less_nat_alt)
    ultimately have "unat (log_2_up_loop val res) = unat res + 0 \<and> 2 ^ 0 \<le> unat val \<and> unat val < 2 ^ Suc 0"
      using True by (simp add: log_2_up_loop.simps [of val res])
    then show ?thesis by blast
  next
    case False
    then have half: "0 < val div 2" "unat (val div 2) = unat val div 2" "0 < unat val div 2"
      by (auto simp: word_less_nat_alt unat_div u64_eq_iff_unat)
    then have res': "unat (res + 1) = unat res + 1"
      using "1.prems" by (subst unat_u64_add) auto
    have "unat (res + 1) + unat (val div 2) < 18446744073709551616"
      using half res' "1.prems"(2) by simp
    with "1.IH" [OF refl False half(1)] obtain k where
      k: "unat (log_2_up_loop (val div 2) (res + 1)) = unat (res + 1) + k"
        "2 ^ k \<le> unat (val div 2)" "unat (val div 2) < 2 ^ Suc k" by blast
    then have "unat (log_2_up_loop val res) = unat res + Suc k \<and> 2 ^ Suc k \<le> unat val \<and>
        unat val < 2 ^ Suc (Suc k)"
      using False half res' by (simp add: log_2_up_loop.simps [of val res]) arith
    then show ?thesis by blast
  qed
qed

lemma log_2_down_loop_stuck: "0 < val \<Longrightarrow> log_2_down_loop val 0 e = None"
proof (rule ccontr)
  assume "0 < val" "log_2_down_loop val 0 e \<noteq> None"
  then obtain r where "log_2_down_loop val 0 e = Some r" by auto
  then have "\<not> (0 < val \<and> (0::u64) = 0)"
    by (rule log_2_down_loop.raw_induct [where P = "\<lambda>val res e r. \<not> (0 < val \<and> res = 0)", rotated])
       (force split: if_splits)
  with \<open>0 < val\<close> show False by simp
qed

lemma log_2_down_loop_reaches:
  "i \<le> k \<Longrightarrow> k < 64 \<Longrightarrow> unat val \<le> 2 ^ k \<Longrightarrow> (\<forall>j. i \<le> j \<longrightarrow> j < k \<longrightarrow> 2 ^ j < unat val) \<Longrightarrow>
   log_2_down_loop val (2 ^ i) (of_nat i) = Some (2 ^ k, of_nat k)"
proof (induction "k - i" arbitrary: i)
  case 0
  then show ?case
    by (subst log_2_down_loop.simps) (simp add: word_less_nat_alt unat_u64_2p)
next
  case (Suc d)
  then have "(2::u64) ^ i < val"
    by (simp add: word_less_nat_alt unat_u64_2p)
  moreover have "log_2_down_loop val (2 ^ Suc i) (of_nat (Suc i)) = Some (2 ^ k, of_nat k)"
    using Suc by (intro Suc.hyps) auto
  ultimately show ?case
    by (subst log_2_down_loop.simps) (simp add: mult.commute add.commute)
qed

lemma util_math_is_pow2_iff: "util_math_is_pow2 n \<longleftrightarrow> n = 0 \<or> (\<exists>k<64. n = 2 ^ k)"
  unfolding util_math_is_pow2_def
  by (metis u64_pow2_cases u64_pow2_and_pred and_zero_eq and.commute)


lemma log_2_down_loop_wraps:
  "i \<le> 64 \<Longrightarrow> 2 ^ 63 < unat val \<Longrightarrow> log_2_down_loop val (2 ^ i) e = None"
proof (induction "64 - i" arbitrary: i e)
  case 0
  then have "i = 64" by simp
  then have "(2::u64) ^ i = 0" by simp
  moreover have "0 < val" using 0 by (simp add: word_less_nat_alt)
  ultimately show ?case by (simp only: log_2_down_loop_stuck)
next
  case (Suc d)
  then have "i < 64" by simp
  then have "(2::nat) ^ i \<le> 2 ^ 63" by (intro power_increasing) auto
  then have "(2::u64) ^ i < val"
    using Suc.prems \<open>i < 64\<close> by (simp add: word_less_nat_alt unat_u64_2p)
  moreover have "log_2_down_loop val (2 ^ Suc i) (e + 1) = None"
    using Suc by (intro Suc.hyps) auto
  ultimately show ?case
    by (subst log_2_down_loop.simps) (simp add: mult.commute)
qed

text \<open>
  For a value from 1 to \<open>2^63\<close>, \<open>util_math_log_2_down\<close> returns, and its result is the largest exponent
  whose power of two does not exceed the value.
\<close>

theorem util_math_log_2_down_floor:
  assumes "0 < val" and "val \<le> 2 ^ 63"
  shows "\<exists>e. util_math_log_2_down val = Ret e \<and> 2 ^ unat e \<le> unat val \<and> unat val < 2 ^ (unat e + 1)"
proof -
  have v: "1 \<le> unat val" "unat val \<le> 2 ^ 63"
    using assms by (auto simp: word_less_nat_alt word_le_nat_alt)
  then obtain k where k: "2 ^ k \<le> unat val" "unat val < 2 ^ (k + 1)"
    using ex_power_ivl1 [of 2 "unat val"] by auto
  have "k < 64"
  proof (rule ccontr)
    assume "\<not> k < 64"
    then have "(2::nat) ^ 64 \<le> 2 ^ k" by (intro power_increasing) auto
    with k(1) v(2) show False by simp
  qed
  have below: "2 ^ j < unat val" if "j < k" for j
    using k(1) that power_strict_increasing [of j k "2::nat"] by linarith
  show ?thesis
  proof (cases "unat val = 2 ^ k")
    case True
    then have val: "val = 2 ^ k" using \<open>k < 64\<close> by (simp add: u64_eq_iff_unat unat_u64_2p)
    have "log_2_down_loop val (2 ^ 0) (of_nat 0) = Some (2 ^ k, of_nat k)"
      using True below \<open>k < 64\<close> by (intro log_2_down_loop_reaches) auto
    then have "util_math_log_2_down val = Ret (of_nat k)"
      using assms(1) val by (simp add: util_math_log_2_down_def)
    then show ?thesis using k \<open>k < 64\<close> by (simp add: unat_of_nat)
  next
    case False
    with k(1) have lt: "2 ^ k < unat val" by simp
    have "Suc k < 64"
    proof (rule ccontr)
      assume "\<not> Suc k < 64"
      with \<open>k < 64\<close> have "k = 63" by simp
      with lt v(2) show False by simp
    qed
    have le: "unat val \<le> 2 ^ Suc k" using k(2) by simp
    have "log_2_down_loop val (2 ^ 0) (of_nat 0) = Some (2 ^ Suc k, of_nat (Suc k))"
      using lt le below \<open>Suc k < 64\<close> by (intro log_2_down_loop_reaches) (auto simp: less_Suc_eq)
    moreover have "(2::u64) ^ Suc k div 2 = 2 ^ k"
      using \<open>Suc k < 64\<close> \<open>k < 64\<close> by (simp add: u64_eq_iff_unat unat_div unat_u64_2p del: power_Suc) simp
    moreover have "val < (2::u64) ^ Suc k" "(2::u64) ^ k < val"
      using k(2) lt \<open>Suc k < 64\<close> \<open>k < 64\<close> by (simp_all add: word_less_nat_alt unat_u64_2p del: power_Suc)
    ultimately have "util_math_log_2_down val = Ret (of_nat k)"
      using assms(1) by (simp add: util_math_log_2_down_def del: power_Suc)
    then show ?thesis using k \<open>k < 64\<close> by (simp add: unat_of_nat)
  qed
qed

theorem util_math_log_2_down_floor_witness:
  "\<exists>e. util_math_log_2_down 1000 = Ret e \<and> 2 ^ unat e \<le> (1000::nat) \<and> (1000::nat) < 2 ^ (unat e + 1)"
  using util_math_log_2_down_floor [of 1000] by simp

text \<open>
  Above \<open>2^63\<close> the power of two in the loop of \<open>util_math_log_2_down\<close> wraps to 0 and stays there, so
  that the function never returns.
\<close>

theorem util_math_log_2_down_diverges:
  assumes "2 ^ 63 < val"
  shows "util_math_log_2_down val = Stop Diverges"
proof -
  have "(2::nat) ^ 63 < unat val" using assms by (simp add: word_less_nat_alt)
  then have "log_2_down_loop val (2 ^ 0) 0 = None" by (intro log_2_down_loop_wraps) auto
  moreover have "0 < val" using assms by (metis word_gt_0 word_not_simps(1))
  ultimately show ?thesis by (simp add: util_math_log_2_down_def)
qed

theorem util_math_log_2_down_diverges_witness: "util_math_log_2_down 9223372036854775809 = Stop Diverges"
  by (rule util_math_log_2_down_diverges) simp

lemma util_math_log_2_up_bounds:
  assumes "2 \<le> val"
  shows "2 ^ (unat (util_math_log_2_up val) - 1) < unat val \<and> unat val \<le> 2 ^ unat (util_math_log_2_up val)"
proof -
  have v: "2 \<le> unat val" using assms by (simp add: word_le_nat_alt)
  then have pred: "unat (val - 1) = unat val - 1" by (subst unat_u64_sub) auto
  with v have "0 < val - 1" by (simp add: word_less_nat_alt)
  with log_2_up_loop_spec [of "val - 1" 0] obtain k where
    k: "unat (log_2_up_loop (val - 1) 0) = k" "2 ^ k \<le> unat (val - 1)" "unat (val - 1) < 2 ^ Suc k"
    by (auto simp: unat_u64_bound)
  have "k < 2 ^ k" by simp
  also have "\<dots> < 18446744073709551615" using k(2) pred v unat_u64_bound [of val] by linarith
  finally have "unat (util_math_log_2_up val) = Suc k"
    using v k(1) by (subst util_math_log_2_up_def) (auto simp: unat_u64_add)
  then show ?thesis using k pred v by auto
qed

text \<open>
  For a value of at least 2, \<open>util_math_log_2_up\<close> returns the smallest exponent whose power of two is
  not below the value.
\<close>

theorem util_math_log_2_up_ceil:
  assumes "2 \<le> val"
  shows "2 ^ (unat (util_math_log_2_up val) - 1) < unat val \<and> unat val \<le> 2 ^ unat (util_math_log_2_up val)"
  using assms by (rule util_math_log_2_up_bounds)

theorem util_math_log_2_up_ceil_witness:
  "2 ^ (unat (util_math_log_2_up 1000) - 1) < (1000::nat) \<and> (1000::nat) \<le> 2 ^ unat (util_math_log_2_up 1000)"
  using util_math_log_2_up_ceil [of 1000] by simp

lemma u64_bit_ge: "bit (c::u64) n \<Longrightarrow> n < 64"
  using bit_imp_le_length by force

lemma rotate_20_or: "push_bit 20 (c::u64) + drop_bit 44 c = push_bit 20 c OR drop_bit 44 c"
  by (rule disjunctive_add_eq_or) (rule bit_word_eqI, auto simp: bit_simps dest: u64_bit_ge)

lemma rotate_20_inverse:
  "drop_bit 20 (push_bit 20 (c::u64) OR drop_bit 44 c) OR push_bit 44 (push_bit 20 c OR drop_bit 44 c) = c"
proof (rule bit_word_eqI)
  fix n
  assume "n < LENGTH(64)"
  then show "bit (drop_bit 20 (push_bit 20 c OR drop_bit 44 c) OR push_bit 44 (push_bit 20 c OR drop_bit 44 c)) n =
      bit c n"
    by (cases "n < 44") (auto simp: bit_simps dest: u64_bit_ge)
qed

lemma rotate_20_inj:
  "push_bit 20 (c::u64) + drop_bit 44 c = push_bit 20 d + drop_bit 44 d \<longleftrightarrow> c = d"
  by (metis rotate_20_or rotate_20_inverse)

lemma u64_mult_cancel:
  assumes "i * a = (1::u64)"
  shows "a * c = a * d \<longleftrightarrow> c = d"
proof
  assume "a * c = a * d"
  then have "(i * a) * c = (i * a) * d" by (simp only: mult.assoc)
  with assms show "c = d" by simp
qed simp

lemma rand_mult_cancels:
  "119785373 * c = 119785373 * d \<longleftrightarrow> c = (d::u64)"
  "85689495 * c = 85689495 * d \<longleftrightarrow> c = (d::u64)"
  "151117737 * c = 151117737 * d \<longleftrightarrow> c = (d::u64)"
  by (rule u64_mult_cancel [of 1656435614431573685], simp)
     (rule u64_mult_cancel [of 17795728612188502823], simp,
      rule u64_mult_cancel [of 17373344895703135385], simp)

lemma u64_xor_cancel: "(a::u64) XOR c = a XOR d \<longleftrightarrow> c = d"
proof
  assume "a XOR c = a XOR d"
  then have "(a XOR a) XOR c = (a XOR a) XOR d" by (simp only: xor.assoc)
  then show "c = d" by simp
qed simp

text \<open>
  One step of the random number generator is injective: two different states never lead to the
  same next state.
\<close>

theorem util_rand_int_next_inj: "util_rand_int_next c = util_rand_int_next d \<longleftrightarrow> c = d"
proof -
  have "(64::nat) - 20 = 44" by simp
  then show ?thesis
    by (simp only: util_rand_int_next_def Let_def rotate_20_inj rand_mult_cancels u64_xor_cancel
        add_right_cancel)
qed

end
