(* ===== verification/Containers_String.thy ===== *)
theory Containers_String
  imports Util
begin

text \<open>
  \<open>src/src/containers/containers_string.c\<close>: the routines that write text into caller-supplied
  character buffers (\<open>str_buf_marshal_*\<close>), the reader of decimal numbers, the format
  interpreter behind the log, and the bit and byte accessors.

  A \<open>ch_t\<close> array is the list of its characters. Its C length is the length of the list, and an
  access outside it stops the model with \<open>OutOfBounds\<close>; the parameter \<open>buf_len\<close> is only what the
  caller claims. Offsets and lengths are 64-bit words, so a difference such as
  \<open>buf_len - buf_off\<close> wraps when the offset is beyond the length.
\<close>

type_synonym buf = "char list"

abbreviation NUL :: char where
  "NUL \<equiv> CHR 0x00"

definition buf_get :: "'a list \<Rightarrow> u64 \<Rightarrow> 'a res" where
  "buf_get b i = inbounds (unat i < length b) (Ret (b ! unat i))"

definition buf_set :: "'a list \<Rightarrow> u64 \<Rightarrow> 'a \<Rightarrow> 'a list res" where
  "buf_set b i c = inbounds (unat i < length b) (Ret (b[unat i := c]))"

subsection \<open>Reading strings\<close>

text \<open>The scan of \<open>str_len\<close>: the list is what is left of the object from \<open>str + len\<close> on.\<close>

fun str_len_loop :: "buf \<Rightarrow> u64 \<Rightarrow> u64 res" where
  "str_len_loop [] len = Stop OutOfBounds"
| "str_len_loop (c # cs) len = (if c \<noteq> NUL then str_len_loop cs (len + 1) else Ret len)"

definition str_len :: "buf \<Rightarrow> u64 res" where
  "str_len str = str_len_loop str 0"

text \<open>\<open>ch_t\<close> is a signed 8-bit integer on this target.\<close>

definition ch_int :: "char \<Rightarrow> int" where
  "ch_int c = (let n = of_char c in if n < 128 then n else n - 256)"

definition str_char_is_digit :: "char \<Rightarrow> bool" where
  "str_char_is_digit ch = (ch_int ch \<ge> 48 \<and> ch_int ch \<le> 57)"

definition str_char_to_uint :: "char \<Rightarrow> u64" where
  "str_char_to_uint ch = word_of_int (ch_int ch - 48)"

function str_to_uint_loop :: "buf \<Rightarrow> u64 \<Rightarrow> u64 \<Rightarrow> u64 \<Rightarrow> (u64 \<times> u64) res" where
  "str_to_uint_loop str slen str_ptr val =
     (if str_ptr < slen then
        rbind (buf_get str str_ptr) (\<lambda>ch.
          if str_char_is_digit ch
          then str_to_uint_loop str slen (str_ptr + 1) (val * 10 + str_char_to_uint ch)
          else Ret (val, str_ptr))
      else Ret (val, str_ptr))"
  by pat_completeness auto
termination
  by (relation "measure (\<lambda>(str, n, i, v). unat n - unat i)")
     (auto simp: u64_loop_decr)

definition str_to_uint :: "buf \<Rightarrow> u64 \<Rightarrow> u64 \<Rightarrow> (u64 \<times> u64) res" where
  "str_to_uint str str_off slen =
     rbind (str_to_uint_loop str slen str_off 0) (\<lambda>(val, str_ptr).
       kassert (str_ptr > str_off) (Ret (val, str_ptr - str_off)))"

subsection \<open>Writing text\<close>

function marshal_str_loop :: "buf \<Rightarrow> u64 \<Rightarrow> buf \<Rightarrow> u64 \<Rightarrow> u64 \<Rightarrow> buf res" where
  "marshal_str_loop b buf_off str slen i =
     (if i < slen then
        rbind (buf_get str i) (\<lambda>c.
        rbind (buf_set b (buf_off + i) c) (\<lambda>b.
          marshal_str_loop b buf_off str slen (i + 1)))
      else Ret b)"
  by pat_completeness auto
termination
  by (relation "measure (\<lambda>(b, off, str, n, i). unat n - unat i)")
     (auto simp: u64_loop_decr)

definition str_buf_marshal_str :: "buf \<Rightarrow> u64 \<Rightarrow> u64 \<Rightarrow> buf \<Rightarrow> u64 \<Rightarrow> (buf \<times> u64) res" where
  "str_buf_marshal_str b buf_off buf_len str slen =
     kassert (buf_len - buf_off > slen)
       (rbind (marshal_str_loop b buf_off str slen 0) (\<lambda>b. Ret (b, slen)))"

text \<open>One hexadecimal digit: \<open>val + '0'\<close> or \<open>val - 10 + 'A'\<close>, cut to \<open>ch_t\<close>.\<close>

definition hex_digit :: "u64 \<Rightarrow> char res" where
  "hex_digit val = (if val < 10 then Ret (char_of (unat (val + 48)))
     else kassert (val < 16) (Ret (char_of (unat (val - 10 + 65)))))"

definition buf_marshal_byte_in_hex :: "buf \<Rightarrow> u64 \<Rightarrow> u64 \<Rightarrow> u8 \<Rightarrow> buf res" where
  "buf_marshal_byte_in_hex b buf_off buf_len byte =
     kassert (buf_off < buf_len - 2)
       (rbind (hex_digit (ucast (drop_bit 4 byte AND 0x0f))) (\<lambda>c.
        rbind (buf_set b buf_off c) (\<lambda>b.
        rbind (hex_digit (ucast (byte AND 0x0f))) (\<lambda>c.
          buf_set b (buf_off + 1) c))))"

function marshal_hex_loop :: "buf \<Rightarrow> u64 \<Rightarrow> u64 \<Rightarrow> u8 list \<Rightarrow> u64 \<Rightarrow> u64 \<Rightarrow> (buf \<times> u64) res" where
  "marshal_hex_loop b buf_ptr buf_len str slen i =
     (if i < slen then
        rbind (buf_set b buf_ptr CHR '' '') (\<lambda>b.
        rbind (buf_get str i) (\<lambda>byte.
        rbind (buf_marshal_byte_in_hex b (buf_ptr + 1) buf_len byte) (\<lambda>b.
          marshal_hex_loop b (buf_ptr + 1 + 2) buf_len str slen (i + 1))))
      else Ret (b, buf_ptr))"
  by pat_completeness auto
termination
  by (relation "measure (\<lambda>(b, p, l, str, n, i). unat n - unat i)")
     (auto simp: u64_loop_decr)

definition str_buf_marshal_bytes_in_hex ::
  "buf \<Rightarrow> u64 \<Rightarrow> u64 \<Rightarrow> u8 list \<Rightarrow> u64 \<Rightarrow> (buf \<times> u64) res" where
  "str_buf_marshal_bytes_in_hex b buf_off buf_len str slen =
     kassert (slen > 0) (kassert (buf_len > 0) (kassert (buf_off < buf_len)
     (kassert (buf_len - buf_off > slen * 3 - 1)
       (rbind (buf_get str 0) (\<lambda>byte.
        rbind (buf_marshal_byte_in_hex b buf_off buf_len byte) (\<lambda>b.
        rbind (marshal_hex_loop b (buf_off + 2) buf_len str slen 1) (\<lambda>(b, buf_ptr).
          kassert (buf_ptr < buf_len) (Ret (b, buf_ptr - buf_off)))))))))"

function count_digits :: "u64 \<Rightarrow> u64 \<Rightarrow> u64" where
  "count_digits val_pro digit_cnt =
     (let val_pro = val_pro div 10; digit_cnt = digit_cnt + 1 in
      if val_pro > 0 then count_digits val_pro digit_cnt else digit_cnt)"
  by pat_completeness auto
termination
  by (relation "measure (\<lambda>(v, c). unat v)") (auto simp: word_less_nat_alt unat_div)

function write_digits :: "buf \<Rightarrow> u64 \<Rightarrow> u64 \<Rightarrow> (buf \<times> u64) res" where
  "write_digits b buf_off_pro val_pro =
     (let digit = val_pro mod 10 in
      rbind (buf_set b buf_off_pro (char_of (unat (digit + 48)))) (\<lambda>b.
        let val_pro = val_pro div 10 in
        if val_pro = 0 then Ret (b, buf_off_pro)
        else write_digits b (buf_off_pro - 1) val_pro))"
  by pat_completeness auto
termination
  by (relation "measure (\<lambda>(b, p, v). unat v)")
     (auto simp: word_less_nat_alt unat_div u64_eq_iff_unat)

definition str_buf_marshal_uint :: "buf \<Rightarrow> u64 \<Rightarrow> u64 \<Rightarrow> u64 \<Rightarrow> (buf \<times> u64) res" where
  "str_buf_marshal_uint b buf_off buf_len val =
     (let digit_cnt = count_digits val 0 in
      kassert (buf_len - buf_off > digit_cnt)
        (rbind (write_digits b (buf_off + digit_cnt - 1) val) (\<lambda>(b, buf_off_pro).
           kassert (buf_off_pro = buf_off) (Ret (b, digit_cnt)))))"

definition size_units :: "(u64 \<times> string) list" where
  "size_units =
     [(1024 * 1024 * 1024 * 1024 * 1024 * 1024, ''ZB''), (1024 * 1024 * 1024 * 1024 * 1024, ''PB''),
      (1024 * 1024 * 1024 * 1024, ''TB''), (1024 * 1024 * 1024, ''GB''), (1024 * 1024, ''MB''),
      (1024, ''KB'')]"

fun marshal_size_loop ::
  "(u64 \<times> string) list \<Rightarrow> buf \<Rightarrow> u64 \<Rightarrow> u64 \<Rightarrow> u64 \<Rightarrow> (buf \<times> u64) res" where
  "marshal_size_loop [] b buf_ptr buf_len val = Ret (b, buf_ptr)"
| "marshal_size_loop ((unit, note) # us) b buf_ptr buf_len val =
     (let part = val div unit in
      if part > 0 then
        rbind (str_buf_marshal_uint b buf_ptr buf_len part) (\<lambda>(b, n).
        let buf_ptr = buf_ptr + n in
        kassert (buf_ptr + 2 \<le> buf_len)
          (rbind (str_buf_marshal_str b buf_ptr buf_len note 2) (\<lambda>(b, n).
             marshal_size_loop us b buf_ptr buf_len val)))
      else marshal_size_loop us b buf_ptr buf_len val)"

definition str_buf_marshal_uint_in_size :: "buf \<Rightarrow> u64 \<Rightarrow> u64 \<Rightarrow> u64 \<Rightarrow> (buf \<times> u64) res" where
  "str_buf_marshal_uint_in_size b buf_off buf_len val =
     kassert (buf_off < buf_len)
       (rbind (marshal_size_loop size_units b buf_off buf_len val) (\<lambda>(b, buf_ptr).
          kassert (buf_ptr \<le> buf_len) (Ret (b, buf_ptr - buf_off))))"

definition str_buf_marshal_terminator :: "buf \<Rightarrow> u64 \<Rightarrow> u64 \<Rightarrow> (buf \<times> u64) res" where
  "str_buf_marshal_terminator b buf_off buf_len =
     kassert (buf_len - buf_off > 1) (rbind (buf_set b buf_off NUL) (\<lambda>b. Ret (b, 1)))"

subsection \<open>The format interpreter\<close>

text \<open>
  A \<open>va_list\<close> is the list of the arguments that are left; \<open>va_arg\<close> at the wrong type, or with
  no argument left, is undefined in C. The loop of \<open>str_buf_marshal_format_v\<close> carries fuel:
  every turn moves \<open>format_ptr\<close> forward, so one more unit than \<open>format_len\<close> is enough, and
  \<open>str_buf_marshal_format_ends\<close> below proves it.
\<close>

datatype va_arg = VaStr buf | VaU64 u64

fun va_str :: "va_arg list \<Rightarrow> (buf \<times> va_arg list) res" where
  "va_str (VaStr s # vs) = Ret (s, vs)"
| "va_str _ = Stop Undefined"

fun va_u64 :: "va_arg list \<Rightarrow> (u64 \<times> va_arg list) res" where
  "va_u64 (VaU64 v # vs) = Ret (v, vs)"
| "va_u64 _ = Stop Undefined"

function format_str_prefix :: "buf \<Rightarrow> u64 \<Rightarrow> u64 \<Rightarrow> buf \<Rightarrow> u64 \<Rightarrow> u64 \<Rightarrow> (buf \<times> u64) res" where
  "format_str_prefix b buf_ptr buf_len str strlen str_ptr =
     (if str_ptr < strlen then
        rbind (buf_get str str_ptr) (\<lambda>c.
          if c = NUL then Ret (b, buf_ptr)
          else kassert (buf_ptr < buf_len)
            (rbind (buf_set b buf_ptr c) (\<lambda>b.
               format_str_prefix b (buf_ptr + 1) buf_len str strlen (str_ptr + 1))))
      else Ret (b, buf_ptr))"
  by pat_completeness auto
termination
  by (relation "measure (\<lambda>(b, p, l, str, n, i). unat n - unat i)") (auto simp: u64_loop_decr)

fun format_loop ::
  "nat \<Rightarrow> buf \<Rightarrow> u64 \<Rightarrow> u64 \<Rightarrow> buf \<Rightarrow> u64 \<Rightarrow> u64 \<Rightarrow> va_arg list \<Rightarrow> (buf \<times> u64) res" where
  "format_loop 0 b buf_ptr buf_len format format_len format_ptr va = Stop Diverges"
| "format_loop (Suc fuel) b buf_ptr buf_len format format_len format_ptr va =
     (if format_ptr < format_len then
        rbind (buf_get format format_ptr) (\<lambda>c.
        if c \<noteq> CHR ''%'' then
          rbind (buf_set b buf_ptr c) (\<lambda>b.
            format_loop fuel b (buf_ptr + 1) buf_len format format_len (format_ptr + 1) va)
        else
          let format_ptr = format_ptr + 1 in
          rbind (buf_get format format_ptr) (\<lambda>c.
          if c = CHR ''%'' then
            rbind (buf_set b buf_ptr CHR ''%'') (\<lambda>b.
              format_loop fuel b (buf_ptr + 1) buf_len format format_len (format_ptr + 1) va)
          else if c = CHR ''s'' then
            rbind (va_str va) (\<lambda>(str, va).
            rbind (str_len str) (\<lambda>n.
            rbind (str_buf_marshal_str b buf_ptr buf_len str n) (\<lambda>(b, n).
              format_loop fuel b (buf_ptr + n) buf_len format format_len (format_ptr + 1) va)))
          else if c = CHR ''l'' then
            (let format_ptr = format_ptr + 1 in
             rbind (buf_get format format_ptr) (\<lambda>c.
             if c = CHR ''u'' then
               rbind (va_u64 va) (\<lambda>(uval, va).
               rbind (str_buf_marshal_uint b buf_ptr buf_len uval) (\<lambda>(b, n).
                 format_loop fuel b (buf_ptr + n) buf_len format format_len (format_ptr + 1) va))
             else Stop (KernelPanic ''TODO'')))
          else if c = CHR ''.'' then
            (let format_ptr = format_ptr + 1 in
             rbind (str_to_uint format format_ptr format_len) (\<lambda>(strlen, strlenlen).
             let format_ptr = format_ptr + strlenlen in
             rbind (va_str va) (\<lambda>(str, va).
             rbind (format_str_prefix b buf_ptr buf_len str strlen 0) (\<lambda>(b, buf_ptr).
               format_loop fuel b buf_ptr buf_len format format_len (format_ptr + 1) va))))
          else Stop (KernelPanic ''TODO'')))
      else Ret (b, buf_ptr))"

definition str_buf_marshal_format_v ::
  "buf \<Rightarrow> u64 \<Rightarrow> u64 \<Rightarrow> buf \<Rightarrow> u64 \<Rightarrow> va_arg list \<Rightarrow> (buf \<times> u64) res" where
  "str_buf_marshal_format_v b buf_off buf_len format format_len va =
     kassert (buf_off < buf_len)
       (rbind (format_loop (Suc (unat format_len)) b buf_off buf_len format format_len 0 va)
          (\<lambda>(b, buf_ptr). kassert (buf_ptr \<le> buf_len) (Ret (b, buf_ptr - buf_off))))"

definition str_buf_marshal_format :: "buf \<Rightarrow> u64 \<Rightarrow> u64 \<Rightarrow> buf \<Rightarrow> va_arg list \<Rightarrow> (buf \<times> u64) res" where
  "str_buf_marshal_format b buf_off buf_len format va =
     rbind (str_len format) (\<lambda>n.
     rbind (str_buf_marshal_format_v b buf_off buf_len format n va) (\<lambda>(b, len).
       kassert (buf_off + len \<le> buf_len) (Ret (b, len))))"

subsection \<open>Bits and bytes\<close>

definition byte_bit_get :: "u8 \<Rightarrow> u64 \<Rightarrow> bool res" where
  "byte_bit_get byte bt = kassert (bt < 8) (Ret (byte AND push_bit (unat bt) 1 \<noteq> 0))"

definition byte_bit_set :: "u8 \<Rightarrow> u64 \<Rightarrow> u8 res" where
  "byte_bit_set byte bt = kassert (bt < 8) (Ret (byte OR push_bit (unat bt) 1))"

definition byte_bit_clear :: "u8 \<Rightarrow> u64 \<Rightarrow> u8 res" where
  "byte_bit_clear byte bt = kassert (bt < 8) (Ret (byte AND NOT (push_bit (unat bt) 1)))"

definition byte_get :: "u64 \<Rightarrow> u64 \<Rightarrow> u8 res" where
  "byte_get ival byte =
     kassert (byte < 4)
       (let v64 = drop_bit (unat (8 * byte)) ival AND 0xff in
        kassert (v64 \<le> 255) (Ret (ucast v64)))"

subsection \<open>Correctness of the writers\<close>

declare str_to_uint_loop.simps [simp del] marshal_str_loop.simps [simp del]
  marshal_hex_loop.simps [simp del] count_digits.simps [simp del] write_digits.simps [simp del]
  format_str_prefix.simps [simp del]

lemma buf_get_in [simp]: "unat i < length b \<Longrightarrow> buf_get b i = Ret (b ! unat i)"
  by (simp add: buf_get_def)

lemma buf_set_in [simp]: "unat i < length b \<Longrightarrow> buf_set b i c = Ret (overwrite b (unat i) [c])"
  by (simp add: buf_set_def overwrite_single)

lemma marshal_str_loop_overwrites:
  "unat i \<le> unat n \<Longrightarrow> unat n \<le> length str \<Longrightarrow> unat off + unat n \<le> length b \<Longrightarrow>
   unat off + unat n < 18446744073709551616 \<Longrightarrow>
   marshal_str_loop b off str n i =
     Ret (overwrite b (unat off + unat i) (take (unat n - unat i) (drop (unat i) str)))"
proof (induction b off str n i rule: marshal_str_loop.induct)
  case (1 b off str n i)
  show ?case
  proof (cases "i < n")
    case True
    then have less: "unat i < unat n" by (simp add: word_less_nat_alt)
    have off_i: "unat (off + i) = unat off + unat i"
      using "1.prems" less by (intro unat_u64_add) simp
    have step: "marshal_str_loop b off str n i =
        marshal_str_loop (overwrite b (unat off + unat i) [str ! unat i]) off str n (i + 1)"
      using True less "1.prems" by (simp add: marshal_str_loop.simps [of b] off_i)
    have tl: "take (unat n - unat i) (drop (unat i) str) =
        str ! unat i # take (unat n - Suc (unat i)) (drop (Suc (unat i)) str)"
      using less "1.prems" by (subst Cons_nth_drop_Suc [symmetric]) (auto simp: take_Cons' Suc_diff_Suc)
    show ?thesis
      using "1.IH" [OF True, of "str ! unat i" "overwrite b (unat off + unat i) [str ! unat i]"]
        True less "1.prems"
      by (simp add: step tl off_i unat_u64_Suc overwrite_overwrite [of _ "[_]", simplified])
  next
    case False
    then have "unat i = unat n" using "1.prems"(1) by (simp add: word_less_nat_alt)
    with False show ?thesis by (simp add: marshal_str_loop.simps [of b])
  qed
qed

text \<open>The decimal numeral of a number, most significant digit first.\<close>

fun dec_digits :: "nat \<Rightarrow> char list" where
  "dec_digits n = (if n < 10 then [char_of (n + 48)] else dec_digits (n div 10) @ [char_of (n mod 10 + 48)])"

declare dec_digits.simps [simp del]

lemma dec_digits_rec:
  "dec_digits n = (if n div 10 = 0 then [] else dec_digits (n div 10)) @ [char_of (n mod 10 + 48)]"
  by (subst dec_digits.simps) auto

lemma dec_digits_eval:
  "n < 10 \<Longrightarrow> dec_digits n = [char_of (n + 48)]"
  "10 \<le> n \<Longrightarrow> dec_digits n = dec_digits (n div 10) @ [char_of (n mod 10 + 48)]"
  by (subst dec_digits.simps, simp)+

lemma dec_digits_nonempty [simp]: "dec_digits n \<noteq> []"
  by (subst dec_digits.simps) simp

lemma dec_digits_length_le: "length (dec_digits n) \<le> Suc n"
proof (induction n rule: dec_digits.induct)
  case (1 n)
  then show ?case by (subst dec_digits.simps) auto
qed

lemma dec_digits_length_bound: "n < 10 ^ k \<Longrightarrow> length (dec_digits n) \<le> max 1 k"
proof (induction n arbitrary: k rule: dec_digits.induct)
  case (1 n)
  show ?case
  proof (cases "n < 10")
    case False
    with "1.prems" obtain k' where k: "k = Suc k'" "k' \<noteq> 0"
      by (cases k; cases "k - 1") auto
    with "1.prems" have "n div 10 < 10 ^ k'" by (simp add: less_mult_imp_div_less mult.commute)
    with "1.IH" [OF False, of k'] k False show ?thesis by (subst dec_digits.simps) simp
  qed (subst dec_digits.simps, simp)
qed

lemma u64_dec_digits: "length (dec_digits (unat (v::u64))) \<le> 20"
  using dec_digits_length_bound [of "unat v" 20] unat_u64_bound [of v] by simp

lemma count_digits_length:
  "unat c + length (dec_digits (unat v)) < 18446744073709551616 \<Longrightarrow>
   unat (count_digits v c) = unat c + length (dec_digits (unat v))"
proof (induction v c rule: count_digits.induct)
  case (1 v c)
  have c1: "unat (c + 1) = Suc (unat c)"
    using "1.prems" by (subst unat_u64_add) (auto simp: dec_digits_rec [of "unat v"])
  show ?case
  proof (cases "v div 10 > 0")
    case True
    then have "unat v div 10 \<noteq> 0" by (simp add: word_less_nat_alt unat_div)
    then have len: "length (dec_digits (unat v)) = Suc (length (dec_digits (unat (v div 10))))"
      by (subst dec_digits_rec) (simp add: unat_div)
    have "unat (count_digits (v div 10) (c + 1)) = unat (c + 1) + length (dec_digits (unat (v div 10)))"
      using "1.prems" len c1 by (intro "1.IH" [OF refl refl True]) simp
    then show ?thesis using True len c1 by (simp add: count_digits.simps [of v c] Let_def)
  next
    case False
    then have "unat v div 10 = 0" by (simp add: word_less_nat_alt unat_div)
    then show ?thesis using False c1
      by (subst dec_digits_rec) (simp add: count_digits.simps [of v c] Let_def)
  qed
qed

lemma digit_char: "char_of (unat (v mod 10 + 48 :: u64)) = char_of (unat v mod 10 + 48)"
  by (subst unat_u64_add) (auto simp: unat_mod intro: le_less_trans [OF mod_less_eq_dividend])

lemma write_digits_overwrites:
  "unat p + 1 \<le> length b \<Longrightarrow> length (dec_digits (unat v)) \<le> unat p + 1 \<Longrightarrow>
   write_digits b p v =
     Ret (overwrite b (unat p + 1 - length (dec_digits (unat v))) (dec_digits (unat v)),
          p + 1 - of_nat (length (dec_digits (unat v))))"
proof (induction b p v rule: write_digits.induct)
  case (1 b p v)
  show ?case
  proof (cases "v div 10 = 0")
    case True
    then have "unat v div 10 = 0" by (simp add: u64_eq_iff_unat unat_div)
    then have d: "dec_digits (unat v) = [char_of (unat v mod 10 + 48)]" by (subst dec_digits_rec) simp
    show ?thesis using True "1.prems" by (simp add: write_digits.simps [of b p v] Let_def digit_char d)
  next
    case False
    let ?c = "char_of (unat v mod 10 + 48) :: char"
    let ?ds = "dec_digits (unat (v div 10))"
    from False have "unat v div 10 \<noteq> 0" by (simp add: u64_eq_iff_unat unat_div)
    then have d: "dec_digits (unat v) = ?ds @ [?c]" by (subst dec_digits_rec) (simp add: unat_div)
    then have "1 \<le> unat p" using "1.prems"(2) by (cases ?ds) auto
    then have p1: "unat (p - 1) = unat p - 1" by (subst unat_u64_sub) auto
    have "write_digits b p v = write_digits (overwrite b (unat p) [?c]) (p - 1) (v div 10)"
      using False "1.prems" by (simp add: write_digits.simps [of b p v] Let_def digit_char)
    also have "\<dots> = Ret (overwrite (overwrite b (unat p) [?c]) (unat p - length ?ds) ?ds, p - of_nat (length ?ds))"
      using "1.IH" [OF refl _ refl False, of "overwrite b (unat p) [?c]"] "1.prems" d p1 \<open>1 \<le> unat p\<close>
      by (simp add: digit_char)
    also have "overwrite (overwrite b (unat p) [?c]) (unat p - length ?ds) ?ds =
        overwrite b (unat p - length ?ds) (?ds @ [?c])"
      using overwrite_front [of "unat p - length ?ds" ?ds "[?c]" b] "1.prems" d by simp
    finally show ?thesis by (simp add: d)
  qed
qed

subsection \<open>The contract of a writer\<close>

text \<open>
  Every \<open>str_buf_marshal_*\<close> routine takes a buffer, an offset, the claimed length and a value, writes
  the text of the value at the offset and returns how many characters it wrote. The guard is strict:
  one character of the claimed length always stays unwritten, which leaves room for a terminator.
\<close>

locale marshaller =
  fixes put :: "buf \<Rightarrow> u64 \<Rightarrow> u64 \<Rightarrow> 'v \<Rightarrow> (buf \<times> u64) res"
    and valid :: "'v \<Rightarrow> bool"
    and repr :: "'v \<Rightarrow> char list"
  assumes put_fits:
      "valid v \<Longrightarrow> unat buf_len \<le> length b \<Longrightarrow> unat off + length (repr v) < unat buf_len \<Longrightarrow>
       put b off buf_len v = Ret (overwrite b (unat off) (repr v), of_nat (length (repr v)))"
    and put_refuses:
      "valid v \<Longrightarrow> unat off \<le> unat buf_len \<Longrightarrow> unat buf_len \<le> unat off + length (repr v) \<Longrightarrow>
       put b off buf_len v = Stop AssertFail"
begin

lemma put_frame:
  assumes "valid v" "unat off \<le> unat buf_len" "unat buf_len \<le> length b" "put b off buf_len v = Ret (b', n)"
  shows "length b' = length b"
    and "\<And>i. i < length b \<Longrightarrow> i < unat off \<or> unat off + unat n \<le> i \<Longrightarrow> b' ! i = b ! i"
    and "unat off + unat n < unat buf_len"
    and "take (unat n) (drop (unat off) b') = repr v"
proof -
  have fit: "unat off + length (repr v) < unat buf_len"
    using put_refuses assms by (metis Inl_Inr_False linorder_not_le)
  then have b': "b' = overwrite b (unat off) (repr v)" and n: "n = of_nat (length (repr v))"
    using put_fits [OF assms(1,3)] assms(4) by auto
  have len: "unat n = length (repr v)"
    using fit n unat_u64_bound [of buf_len] by (simp add: unat_of_nat)
  show "length b' = length b" using fit assms(3) b' by simp
  show "unat off + unat n < unat buf_len" using fit len by simp
  show "b' ! i = b ! i" if "i < length b" "i < unat off \<or> unat off + unat n \<le> i" for i
    using that fit assms(3) b' len by (auto simp: nth_overwrite)
  show "take (unat n) (drop (unat off) b') = repr v"
    using fit assms(3) b' len by (simp add: overwrite_def)
qed

end

text \<open>Two writers one after the other, as every message of the kernel is built.\<close>

locale marshaller_seq =
  fst: marshaller put1 valid1 repr1 + snd: marshaller put2 valid2 repr2
  for put1 :: "buf \<Rightarrow> u64 \<Rightarrow> u64 \<Rightarrow> 'v \<Rightarrow> (buf \<times> u64) res" and valid1 repr1
    and put2 :: "buf \<Rightarrow> u64 \<Rightarrow> u64 \<Rightarrow> 'w \<Rightarrow> (buf \<times> u64) res" and valid2 repr2
begin

lemma seq_fits:
  assumes "valid1 v" "valid2 w" "unat buf_len \<le> length b"
    and fit: "unat off + length (repr1 v) + length (repr2 w) < unat buf_len"
  shows "rbind (put1 b off buf_len v) (\<lambda>(b, n). rbind (put2 b (off + n) buf_len w) (\<lambda>(b, m). Ret (b, n + m))) =
    Ret (overwrite b (unat off) (repr1 v @ repr2 w), of_nat (length (repr1 v @ repr2 w)))"
proof -
  have n: "unat (of_nat (length (repr1 v)) :: u64) = length (repr1 v)"
    using fit unat_u64_bound [of buf_len] by (simp add: unat_of_nat)
  have off: "unat (off + of_nat (length (repr1 v))) = unat off + length (repr1 v)"
    using fit unat_u64_bound [of buf_len] n by (subst unat_u64_add) auto
  have one: "put1 b off buf_len v = Ret (overwrite b (unat off) (repr1 v), of_nat (length (repr1 v)))"
    using assms by (intro fst.put_fits) auto
  have two: "put2 (overwrite b (unat off) (repr1 v)) (off + of_nat (length (repr1 v))) buf_len w =
      Ret (overwrite (overwrite b (unat off) (repr1 v)) (unat off + length (repr1 v)) (repr2 w), of_nat (length (repr2 w)))"
    using assms off by (subst snd.put_fits) auto
  show ?thesis using one two fit assms(3) by (simp add: overwrite_overwrite)
qed

end

lemma unat_diff_gt:
  assumes "unat off \<le> unat (n :: u64)"
  shows "m < n - off \<longleftrightarrow> unat off + unat m < unat n"
  using assms by (auto simp: word_less_nat_alt unat_u64_sub)

interpretation str_put: marshaller
  "\<lambda>b off n s. str_buf_marshal_str b off n s (of_nat (length s))"
  "\<lambda>s. length s < 18446744073709551616" "\<lambda>s. s"
proof (unfold_locales, goal_cases)
  case (1 v n b off)
  then have len: "unat (of_nat (length v) :: u64) = length v" by (simp add: unat_of_nat)
  have "marshal_str_loop b off v (of_nat (length v)) 0 = Ret (overwrite b (unat off) v)"
    using 1 len unat_u64_bound [of n] by (subst marshal_str_loop_overwrites) auto
  then show ?case using 1 len by (simp add: str_buf_marshal_str_def unat_diff_gt)
next
  case (2 v off n b)
  then show ?case by (simp add: str_buf_marshal_str_def unat_diff_gt unat_of_nat)
qed

interpretation uint_put: marshaller str_buf_marshal_uint "\<lambda>_. True" "\<lambda>v. dec_digits (unat v)"
proof (unfold_locales, goal_cases)
  case (1 v n b off)
  let ?ds = "dec_digits (unat v)"
  have cnt: "count_digits v 0 = of_nat (length ?ds)" "unat (of_nat (length ?ds) :: u64) = length ?ds"
    using count_digits_length [of 0 v] u64_dec_digits [of v] by (simp_all add: u64_eq_iff_unat unat_of_nat)
  have pos: "1 \<le> length ?ds" by (cases ?ds) auto
  have "unat (off + of_nat (length ?ds)) = unat off + length ?ds"
    using 1 cnt unat_u64_bound [of n] by (subst unat_u64_add) auto
  then have last: "unat (off + of_nat (length ?ds) - 1) = unat off + length ?ds - 1"
    using pos by (subst unat_u64_sub) auto
  have "write_digits b (off + of_nat (length ?ds) - 1) v = Ret (overwrite b (unat off) ?ds, off)"
    using 1 last pos by (subst write_digits_overwrites) auto
  then show ?case using 1 cnt by (simp add: str_buf_marshal_uint_def Let_def unat_diff_gt)
next
  case (2 v off n b)
  have "unat (count_digits v 0) = length (dec_digits (unat v))"
    using count_digits_length [of 0 v] u64_dec_digits [of v] by simp
  with 2 show ?case by (simp add: str_buf_marshal_uint_def Let_def unat_diff_gt)
qed

interpretation terminator_put: marshaller "\<lambda>b off n (_::unit). str_buf_marshal_terminator b off n" "\<lambda>_. True" "\<lambda>_. [NUL]"
proof (unfold_locales, goal_cases)
  case (1 v n b off)
  then show ?case by (simp add: str_buf_marshal_terminator_def unat_diff_gt)
next
  case (2 v off n b)
  then show ?case by (simp add: str_buf_marshal_terminator_def unat_diff_gt)
qed

interpretation str_uint_put: marshaller_seq
  "\<lambda>b off n s. str_buf_marshal_str b off n s (of_nat (length s))"
  "\<lambda>s. length s < 18446744073709551616" "\<lambda>s. s"
  str_buf_marshal_uint "\<lambda>_. True" "\<lambda>v. dec_digits (unat v)" ..

interpretation uint_terminator_put: marshaller_seq
  str_buf_marshal_uint "\<lambda>_. True" "\<lambda>v. dec_digits (unat v)"
  "\<lambda>b off n (_::unit). str_buf_marshal_terminator b off n" "\<lambda>_. True" "\<lambda>_. [NUL]" ..

subsection \<open>Hexadecimal dumps\<close>

definition hex_char :: "nat \<Rightarrow> char" where
  "hex_char d = (if d < 10 then char_of (d + 48) else char_of (d + 55))"

definition hex_byte :: "u8 \<Rightarrow> char list" where
  "hex_byte v = [hex_char (unat v div 16), hex_char (unat v mod 16)]"

definition hex_tail :: "u8 list \<Rightarrow> char list" where
  "hex_tail vs = concat (map (\<lambda>v. CHR '' '' # hex_byte v) vs)"

definition hex_text :: "u8 list \<Rightarrow> char list" where
  "hex_text vs = tl (hex_tail vs)"

lemma length_hex_byte [simp]: "length (hex_byte v) = 2"
  by (simp add: hex_byte_def)

lemma hex_tail_simps [simp]: "hex_tail [] = []" "hex_tail (v # vs) = CHR '' '' # hex_byte v @ hex_tail vs"
  by (simp_all add: hex_tail_def)

lemma length_hex_tail [simp]: "length (hex_tail vs) = 3 * length vs"
  by (induction vs) auto

lemma hex_digit_char: "d < 16 \<Longrightarrow> hex_digit (of_nat d) = Ret (hex_char d)"
proof -
  assume d: "d < 16"
  then have u: "unat (of_nat d :: u64) = d" by (simp add: unat_of_nat)
  have lo: "unat (of_nat d + 48 :: u64) = d + 48" using d u by (subst unat_u64_add) auto
  have hi: "\<not> d < 10 \<Longrightarrow> unat (of_nat d - 10 + 65 :: u64) = d + 55"
    using d u by (subst unat_u64_add) (auto simp: unat_u64_sub)
  show ?thesis using d u lo hi by (simp add: hex_digit_def hex_char_def word_less_nat_alt)
qed

lemma high_nibble: "unat (drop_bit 4 (v::u8)) mod 16 = unat v div 16"
  using unsigned_less [of v, where 'a = nat] by (simp add: drop_bit_eq_div unat_div)

lemma low_nibble: "(ucast ((v::u8) AND 0x0f) :: u64) = of_nat (unat v mod 16)"
proof -
  have "v AND 0x0f = v mod 16"
    using word_mod_2p_is_mask [of 4 v] by (simp add: mask_eq_exp_minus_1)
  then show ?thesis
    by (simp add: u64_eq_iff_unat unsigned_ucast_eq take_bit_eq_mod unat_of_nat unat_mod)
qed

lemma marshal_byte_overwrites:
  assumes "unat off + 2 < unat n" "unat n \<le> length b"
  shows "buf_marshal_byte_in_hex b off n v = Ret (overwrite b (unat off) (hex_byte v))"
proof -
  have off1: "unat (off + 1) = unat off + 1"
    using assms unat_u64_bound [of n] by (subst unat_u64_add) auto
  have "off < n - 2" using assms by (simp add: word_less_nat_alt unat_u64_sub)
  moreover have "unat v div 16 < 16" using unsigned_less [of v, where 'a = nat] by simp
  ultimately show ?thesis
    using assms off1 overwrite_overwrite [of "unat off" "[hex_char (unat v div 16)]" b "[hex_char (unat v mod 16)]"]
    by (simp add: buf_marshal_byte_in_hex_def low_nibble high_nibble hex_digit_char hex_byte_def)
qed

lemma marshal_hex_loop_overwrites:
  "unat n = length str \<Longrightarrow> unat i \<le> length str \<Longrightarrow> unat l \<le> length b \<Longrightarrow>
   unat p + 3 * (length str - unat i) < unat l \<Longrightarrow>
   marshal_hex_loop b p l str n i =
     Ret (overwrite b (unat p) (hex_tail (drop (unat i) str)), p + of_nat (3 * (length str - unat i)))"
proof (induction b p l str n i rule: marshal_hex_loop.induct)
  case (1 b p l str n i)
  show ?case
  proof (cases "i < n")
    case True
    then have less: "unat i < length str" using "1.prems" by (simp add: word_less_nat_alt)
    let ?b1 = "overwrite b (unat p) [CHR '' '']" and ?v = "str ! unat i"
    let ?b2 = "overwrite b (unat p) (CHR '' '' # hex_byte ?v)"
    have p1: "unat (p + 1) = unat p + 1" "unat (p + 1 + 2) = unat p + 3"
      using "1.prems" less unat_u64_bound [of l] by (simp_all add: unat_word_ariths)
    have byte: "buf_marshal_byte_in_hex ?b1 (p + 1) l ?v = Ret ?b2"
      using "1.prems" less p1 overwrite_overwrite [of "unat p" "[CHR '' '']" b "hex_byte ?v"]
      by (subst marshal_byte_overwrites) auto
    have step: "marshal_hex_loop b p l str n i = marshal_hex_loop ?b2 (p + 1 + 2) l str n (i + 1)"
      using True less "1.prems" byte by (simp add: marshal_hex_loop.simps [of b])
    have rest: "marshal_hex_loop ?b2 (p + 1 + 2) l str n (i + 1) =
        Ret (overwrite ?b2 (unat p + 3) (hex_tail (drop (Suc (unat i)) str)),
             p + 1 + 2 + of_nat (3 * (length str - Suc (unat i))))"
      using "1.IH" [OF True, of ?b1 ?v ?b2] True less "1.prems" byte p1
      by (simp add: unat_u64_Suc)
    have tl: "hex_tail (drop (unat i) str) = (CHR '' '' # hex_byte ?v) @ hex_tail (drop (Suc (unat i)) str)"
      using less by (simp add: Cons_nth_drop_Suc [symmetric])
    have "3 * (length str - unat i) = 3 + 3 * (length str - Suc (unat i))" using less by simp
    then show ?thesis
      unfolding step rest tl using "1.prems" less
        overwrite_overwrite [of "unat p" "CHR '' '' # hex_byte ?v" b "hex_tail (drop (Suc (unat i)) str)"]
      by simp
  next
    case False
    then have "unat i = length str" using "1.prems" by (simp add: word_less_nat_alt)
    with False show ?thesis by (simp add: marshal_hex_loop.simps [of b])
  qed
qed

interpretation hex_put: marshaller
  "\<lambda>b off n vs. str_buf_marshal_bytes_in_hex b off n vs (of_nat (length vs))"
  "\<lambda>vs. vs \<noteq> [] \<and> 3 * length vs < 18446744073709551616" hex_text
proof (unfold_locales, goal_cases)
  case (1 vs n b off)
  then obtain v ws where vs: "vs = v # ws" by (cases vs) auto
  let ?k = "of_nat (length vs) :: u64"
  from 1 have k: "unat ?k = length vs" by (simp add: unat_of_nat)
  have fit: "unat off + (3 * length vs - 1) < unat n" using 1 vs by (simp add: hex_text_def)
  have off2: "unat (off + 2) = unat off + 2"
    using fit vs unat_u64_bound [of n] by (subst unat_u64_add) auto
  have "unat (?k * 3) = 3 * length vs" using k 1 by (subst unat_u64_mult) auto
  then have "unat (?k * 3 - 1) = 3 * length vs - 1" using 1 by (subst unat_u64_sub) (auto simp: Suc_le_eq)
  with fit have g: "?k * 3 - 1 < n - off" by (subst unat_diff_gt) auto
  have g': "?k > 0" "n > 0" "off < n" using fit vs k by (auto simp: word_less_nat_alt)
  have byte: "buf_marshal_byte_in_hex b off n v = Ret (overwrite b (unat off) (hex_byte v))"
    using fit vs 1 by (intro marshal_byte_overwrites) auto
  have loop: "marshal_hex_loop (overwrite b (unat off) (hex_byte v)) (off + 2) n vs ?k 1 =
      Ret (overwrite (overwrite b (unat off) (hex_byte v)) (unat off + 2) (hex_tail ws),
           off + 2 + of_nat (3 * length ws))"
    using fit vs 1 k off2 by (subst marshal_hex_loop_overwrites) auto
  have "unat (of_nat (3 * length ws) :: u64) = 3 * length ws"
    using fit vs unat_u64_bound [of n] by (simp add: unat_of_nat del: of_nat_mult)
  then have "unat (off + 2 + of_nat (3 * length ws)) = unat off + 2 + 3 * length ws"
    using fit vs off2 unat_u64_bound [of n] by (subst unat_u64_add) auto
  then have "off + 2 + of_nat (3 * length ws) < n" using fit vs by (simp add: word_less_nat_alt)
  then show ?case using g g' byte loop fit vs 1
      overwrite_overwrite [of "unat off" "hex_byte v" b "hex_tail ws"]
    by (simp add: str_buf_marshal_bytes_in_hex_def hex_text_def)
next
  case (2 vs off n b)
  then have "unat (of_nat (length vs) * 3 - 1 :: u64) = 3 * length vs - 1"
    by (subst unat_u64_sub) (auto simp: unat_u64_mult unat_of_nat Suc_le_eq)
  with 2 have "\<not> of_nat (length vs) * 3 - 1 < n - off"
    by (subst unat_diff_gt) (auto simp: hex_text_def)
  then show ?case by (auto simp: str_buf_marshal_bytes_in_hex_def kassert_def)
qed

subsection \<open>Reading numbers back\<close>

lemma digit_read:
  assumes "d < 10"
  shows "str_char_is_digit (char_of (d + 48))" "str_char_to_uint (char_of (d + 48)) = of_nat d"
proof -
  have "(of_char (char_of (d + 48) :: char) :: nat) = d + 48" using assms by simp
  then have "(of_char (char_of (d + 48) :: char) :: int) = int (d + 48)"
    by (metis of_nat_of_char)
  then have "ch_int (char_of (d + 48)) = int d + 48" using assms by (simp add: ch_int_def Let_def)
  then show "str_char_is_digit (char_of (d + 48))" "str_char_to_uint (char_of (d + 48)) = of_nat d"
    using assms by (simp_all add: str_char_is_digit_def str_char_to_uint_def)
qed

lemma dec_digits_are_digits: "c \<in> set (dec_digits n) \<Longrightarrow> str_char_is_digit c"
proof (induction n rule: dec_digits.induct)
  case (1 n)
  then show ?case by (auto simp: dec_digits.simps [of n] digit_read split: if_splits)
qed

lemma dec_digits_value:
  "foldl (\<lambda>a c. a * 10 + str_char_to_uint c) 0 (dec_digits n) = (of_nat n :: u64)"
proof (induction n rule: dec_digits.induct)
  case (1 n)
  show ?case
  proof (cases "n < 10")
    case True
    then show ?thesis by (simp add: dec_digits.simps [of n] digit_read)
  next
    case False
    have "(of_nat n :: u64) = of_nat (n div 10 * 10 + n mod 10)" by (simp only: div_mult_mod_eq)
    also have "\<dots> = of_nat (n div 10) * 10 + of_nat (n mod 10)"
      by (simp only: of_nat_add of_nat_mult of_nat_numeral)
    finally show ?thesis
      using False "1.IH" by (simp add: dec_digits.simps [of n] digit_read)
  qed
qed

lemma str_to_uint_loop_digits:
  "(\<forall>c \<in> set ds. str_char_is_digit c) \<Longrightarrow> str = pre @ ds @ post \<Longrightarrow> unat i = length pre \<Longrightarrow>
   length pre + length ds \<le> unat n \<Longrightarrow>
   length pre + length ds = unat n \<or> post \<noteq> [] \<and> \<not> str_char_is_digit (hd post) \<Longrightarrow>
   str_to_uint_loop str n i v =
     Ret (foldl (\<lambda>a c. a * 10 + str_char_to_uint c) v ds, i + of_nat (length ds))"
proof (induction ds arbitrary: pre i v)
  case Nil
  then show ?case
    by (subst str_to_uint_loop.simps, cases post) (auto simp: word_less_nat_alt nth_append)
next
  case (Cons c ds)
  then have less: "i < n" by (simp add: word_less_nat_alt)
  have "str_to_uint_loop str n (i + 1) (v * 10 + str_char_to_uint c) =
      Ret (foldl (\<lambda>a c. a * 10 + str_char_to_uint c) (v * 10 + str_char_to_uint c) ds, i + 1 + of_nat (length ds))"
    using Cons.prems less by (intro Cons.IH [of "pre @ [c]"]) (auto simp: unat_u64_Suc)
  then show ?case using Cons.prems less
    by (subst str_to_uint_loop.simps) (simp add: nth_append ac_simps)
qed

lemma str_to_uint_reads:
  assumes "str = pre @ dec_digits m @ post" "unat off = length pre" "length pre + length (dec_digits m) \<le> unat n"
    and "length pre + length (dec_digits m) = unat n \<or> post \<noteq> [] \<and> \<not> str_char_is_digit (hd post)"
  shows "str_to_uint str off n = Ret (of_nat m, of_nat (length (dec_digits m)))"
proof -
  let ?k = "of_nat (length (dec_digits m)) :: u64"
  have k: "unat ?k = length (dec_digits m)"
    using assms(3) unat_u64_bound [of n] by (simp add: unat_of_nat)
  have "unat (off + ?k) = unat off + length (dec_digits m)"
    using k assms unat_u64_bound [of n] by (subst unat_u64_add) auto
  then have "off < off + ?k" by (simp add: word_less_nat_alt)
  then show ?thesis
    using str_to_uint_loop_digits [OF _ assms(1,2,3,4), of 0] dec_digits_are_digits dec_digits_value
    by (simp add: str_to_uint_def)
qed

lemma str_len_loop_scans: "NUL \<notin> set s \<Longrightarrow> str_len_loop (s @ NUL # rest) k = Ret (k + of_nat (length s))"
  by (induction s arbitrary: k) (auto simp: add.assoc)

lemma str_len_counts: "NUL \<notin> set s \<Longrightarrow> str_len (s @ NUL # rest) = Ret (of_nat (length s))"
  by (simp add: str_len_def str_len_loop_scans)

lemma str_len_unterminated: "NUL \<notin> set s \<Longrightarrow> str_len s = Stop OutOfBounds"
proof -
  have "NUL \<notin> set s \<Longrightarrow> str_len_loop s k = Stop OutOfBounds" for k
    by (induction s arbitrary: k) auto
  then show "NUL \<notin> set s \<Longrightarrow> str_len s = Stop OutOfBounds" by (simp add: str_len_def)
qed

subsection \<open>The format language\<close>

text \<open>
  The directives \<open>str_buf_marshal_format_v\<close> understands: a plain character, \<open>%%\<close>,
  \<open>%s\<close>, \<open>%lu\<close> and \<open>%.Ns\<close>, each with its argument, the format text it is written as and the
  output it stands for. String arguments are stored with their terminator.
\<close>

datatype piece = Lit char | Percent | PStr string | PUint u64 | PStrN nat string

fun piece_fmt :: "piece \<Rightarrow> char list" where
  "piece_fmt (Lit c) = [c]"
| "piece_fmt Percent = ''%%''"
| "piece_fmt (PStr s) = ''%s''"
| "piece_fmt (PUint v) = ''%lu''"
| "piece_fmt (PStrN k s) = ''%.'' @ dec_digits k @ ''s''"

fun piece_args :: "piece \<Rightarrow> va_arg list" where
  "piece_args (PStr s) = [VaStr (s @ [NUL])]"
| "piece_args (PUint v) = [VaU64 v]"
| "piece_args (PStrN k s) = [VaStr (s @ [NUL])]"
| "piece_args _ = []"

fun piece_text :: "piece \<Rightarrow> char list" where
  "piece_text (Lit c) = [c]"
| "piece_text Percent = ''%''"
| "piece_text (PStr s) = s"
| "piece_text (PUint v) = dec_digits (unat v)"
| "piece_text (PStrN k s) = take k s"

fun piece_ok :: "piece \<Rightarrow> bool" where
  "piece_ok (Lit c) = (c \<noteq> CHR ''%'')"
| "piece_ok (PStr s) = (NUL \<notin> set s)"
| "piece_ok (PStrN k s) = (NUL \<notin> set s \<and> k < 18446744073709551616)"
| "piece_ok _ = True"

lemma format_str_prefix_copies:
  "NUL \<notin> set s \<Longrightarrow> unat i \<le> length s \<Longrightarrow> unat l \<le> length b \<Longrightarrow>
   unat p + length (take (unat k - unat i) (drop (unat i) s)) < unat l \<Longrightarrow>
   format_str_prefix b p l (s @ [NUL]) k i =
     Ret (overwrite b (unat p) (take (unat k - unat i) (drop (unat i) s)),
          p + of_nat (length (take (unat k - unat i) (drop (unat i) s))))"
proof (induction "length s - unat i" arbitrary: b p i)
  case 0
  then have "unat i = length s" by simp
  then show ?case by (simp add: format_str_prefix.simps [of b] nth_append)
next
  case (Suc m)
  then have i: "unat i < length s" by simp
  show ?case
  proof (cases "i < k")
    case False
    then show ?thesis by (simp add: format_str_prefix.simps [of b] word_less_nat_alt)
  next
    case True
    let ?c = "s ! unat i" and ?rest = "take (unat k - Suc (unat i)) (drop (Suc (unat i)) s)"
    have ik: "unat i < unat k" using True by (simp add: word_less_nat_alt)
    have tl: "take (unat k - unat i) (drop (unat i) s) = ?c # ?rest"
      using i ik by (subst Cons_nth_drop_Suc [symmetric]) (auto simp: take_Cons' Suc_diff_Suc)
    have p: "unat p < unat l" using Suc.prems(4) by simp
    have p1: "unat (p + 1) = Suc (unat p)" using p by (intro unat_u64_Suc [of _ l]) (simp add: word_less_nat_alt)
    have c: "?c \<noteq> NUL" using Suc.prems(1) i by (metis nth_mem)
    have "format_str_prefix b p l (s @ [NUL]) k i =
        format_str_prefix (overwrite b (unat p) [?c]) (p + 1) l (s @ [NUL]) k (i + 1)"
      using True i p c Suc.prems(3) by (simp add: format_str_prefix.simps [of b] word_less_nat_alt nth_append)
    also have "\<dots> = Ret (overwrite (overwrite b (unat p) [?c]) (Suc (unat p)) ?rest, p + 1 + of_nat (length ?rest))"
    proof -
      have "unat (i + 1) = Suc (unat i)" using True by (rule unat_u64_Suc)
      then show ?thesis
        using Suc.hyps(1) [of "i + 1" "overwrite b (unat p) [?c]" "p + 1"] Suc.hyps(2) Suc.prems i p p1 tl
        by simp
    qed
    also have "overwrite (overwrite b (unat p) [?c]) (Suc (unat p)) ?rest = overwrite b (unat p) (?c # ?rest)"
      using overwrite_overwrite [of "unat p" "[?c]" b ?rest] p Suc.prems(3) by simp
    finally show ?thesis by (simp add: tl)
  qed
qed

lemma format_step:
  assumes ok: "piece_ok x" and F: "F = pre @ piece_fmt x @ post" and fp: "unat fp = length pre"
    and n: "length pre + length (piece_fmt x) \<le> unat n"
    and l: "unat l \<le> length b" and fit: "unat p + length (piece_text x) < unat l"
  shows "format_loop (Suc fuel) b p l F n fp (piece_args x @ va) =
    format_loop fuel (overwrite b (unat p) (piece_text x)) (p + of_nat (length (piece_text x))) l F n
      (fp + of_nat (length (piece_fmt x))) va"
proof -
  have at: "unat (fp + of_nat k) = length pre + k" if "length pre + k \<le> unat n" for k
    using that fp unat_u64_bound [of n] by (subst unat_u64_add) (auto simp: unat_of_nat)
  have fp1: "unat (fp + 1) = length pre + 1" if "1 < length (piece_fmt x)" using at [of 1] that n by simp
  have lt: "fp < n" using n fp by (cases x) (auto simp: word_less_nat_alt)
  show ?thesis
  proof (cases x)
    case (Lit c)
    then show ?thesis using ok F fp l fit lt by (simp add: nth_append)
  next
    case Percent
    then show ?thesis using F fp l fit lt fp1 by (simp add: nth_append add.assoc)
  next
    case (PStr s)
    have len: "unat (of_nat (length s) :: u64) = length s"
      using fit PStr unat_u64_bound [of l] by (simp add: unat_of_nat)
    have "length s < 18446744073709551616" using fit PStr unat_u64_bound [of l] by simp
    have "str_buf_marshal_str b p l (s @ [NUL]) (of_nat (length s)) = Ret (overwrite b (unat p) s, of_nat (length s))"
      using fit PStr l len unat_u64_bound [of l]
      by (simp add: str_buf_marshal_str_def unat_diff_gt marshal_str_loop_overwrites)
    then show ?thesis using ok F fp lt fp1 PStr by (simp add: nth_append str_len_counts add.assoc)
  next
    case (PUint v)
    have "str_buf_marshal_uint b p l v = Ret (overwrite b (unat p) (dec_digits (unat v)), of_nat (length (dec_digits (unat v))))"
      using fit PUint l by (intro uint_put.put_fits) auto
    moreover have "unat (fp + 2) = length pre + 2" using at [of 2] n PUint by simp
    ultimately show ?thesis using F fp lt fp1 PUint by (simp add: nth_append add.assoc)
  next
    case (PStrN k s)
    have fp2: "unat (fp + 2) = length pre + 2" using at [of 2] n PStrN by simp
    have num: "str_to_uint F (fp + 2) n = Ret (of_nat k, of_nat (length (dec_digits k)))"
      using F n PStrN fp2 by (intro str_to_uint_reads [of _ "pre @ ''%.''" _ "''s'' @ post"])
        (auto simp: str_char_is_digit_def ch_int_def)
    have k: "unat (of_nat k :: u64) = k" using ok PStrN by (simp add: unat_of_nat)
    have "format_str_prefix b p l (s @ [NUL]) (of_nat k) 0 =
        Ret (overwrite b (unat p) (take k s), p + of_nat (length (take k s)))"
      using format_str_prefix_copies [of s 0 l b p "of_nat k"] ok PStrN l fit k by simp
    then show ?thesis using F fp lt fp1 PStrN num by (simp add: nth_append add.assoc)
  qed
qed

declare format_loop.simps [simp del]

lemma format_loop_renders:
  assumes "\<forall>x \<in> set ps. piece_ok x" and "F = pre @ concat (map piece_fmt ps) @ post" and "unat fp = length pre"
    and "unat n = length pre + length (concat (map piece_fmt ps))"
    and "unat l \<le> length b" and "unat p + length (concat (map piece_text ps)) < unat l" and "length ps < fuel"
  shows "format_loop fuel b p l F n fp (concat (map piece_args ps)) =
    Ret (overwrite b (unat p) (concat (map piece_text ps)), p + of_nat (length (concat (map piece_text ps))))"
  using assms
proof (induction ps arbitrary: pre fp fuel b p)
  case Nil
  then obtain f where "fuel = Suc f" by (cases fuel) auto
  with Nil show ?case by (simp add: format_loop.simps word_less_nat_alt)
next
  case (Cons x ps)
  then obtain f where f: "fuel = Suc f" by (cases fuel) auto
  let ?t = "piece_text x" and ?k = "length (piece_fmt x)"
  have small: "unat (of_nat (length ?t) :: u64) = length ?t" "unat (of_nat ?k :: u64) = ?k"
    using Cons.prems(4,6) unat_u64_bound [of l] unat_u64_bound [of n] by (simp_all add: unat_of_nat)
  have p': "unat (p + of_nat (length ?t)) = unat p + length ?t"
    using Cons.prems(6) small unat_u64_bound [of l] by (subst unat_u64_add) auto
  have fp': "unat (fp + of_nat ?k) = length (pre @ piece_fmt x)"
    using Cons.prems(3,4) small unat_u64_bound [of n] by (subst unat_u64_add) auto
  have "format_loop fuel b p l F n fp (piece_args x @ concat (map piece_args ps)) =
      format_loop f (overwrite b (unat p) ?t) (p + of_nat (length ?t)) l F n (fp + of_nat ?k) (concat (map piece_args ps))"
    unfolding f using Cons.prems by (intro format_step) auto
  also have "\<dots> = Ret (overwrite (overwrite b (unat p) ?t) (unat p + length ?t) (concat (map piece_text ps)),
      p + of_nat (length ?t) + of_nat (length (concat (map piece_text ps))))"
    using Cons.prems p' fp' f by (subst Cons.IH [of "pre @ piece_fmt x"]) auto
  finally show ?case using Cons.prems by (simp add: add.assoc)
qed

lemma piece_fmt_pos: "0 < length (piece_fmt x)"
  by (cases x) auto

lemma length_pieces: "length ps \<le> length (concat (map piece_fmt ps))"
proof (induction ps)
  case (Cons x ps)
  then show ?case using piece_fmt_pos [of x] by (cases "piece_fmt x") auto
qed simp

lemma marshal_format_v_renders:
  assumes "\<forall>x \<in> set ps. piece_ok x" and "NUL \<notin> set (concat (map piece_fmt ps))"
    and "length (concat (map piece_fmt ps)) < 18446744073709551616"
    and "unat buf_len \<le> length b" and "unat off + length (concat (map piece_text ps)) < unat buf_len"
  shows "str_len (concat (map piece_fmt ps) @ [NUL]) = Ret (of_nat (length (concat (map piece_fmt ps))))"
    and "str_buf_marshal_format_v b off buf_len (concat (map piece_fmt ps) @ [NUL]) (of_nat (length (concat (map piece_fmt ps))))
        (concat (map piece_args ps)) =
      Ret (overwrite b (unat off) (concat (map piece_text ps)), of_nat (length (concat (map piece_text ps))))"
    and "off + of_nat (length (concat (map piece_text ps))) \<le> buf_len"
proof -
  let ?f = "concat (map piece_fmt ps)" and ?t = "concat (map piece_text ps)"
  have n: "unat (of_nat (length ?f) :: u64) = length ?f" using assms(3) by (simp add: unat_of_nat)
  have t: "unat (off + of_nat (length ?t)) = unat off + length ?t"
    using assms(5) unat_u64_bound [of buf_len] by (subst unat_u64_add) (auto simp: unat_of_nat)
  have loop: "format_loop (Suc (length ?f)) b off buf_len (?f @ [NUL]) (of_nat (length ?f)) 0 (concat (map piece_args ps)) =
      Ret (overwrite b (unat off) ?t, off + of_nat (length ?t))"
    using assms n length_pieces [of ps] by (intro format_loop_renders [of _ _ "[]" "[NUL]"]) auto
  have lt: "off < buf_len" and le: "off + of_nat (length ?t) \<le> buf_len"
    using assms(5) t by (auto simp: word_less_nat_alt word_le_nat_alt)
  show "off + of_nat (length ?t) \<le> buf_len" by (rule le)
  show "str_len (?f @ [NUL]) = Ret (of_nat (length ?f))" using assms(2) by (simp add: str_len_counts)
  show "str_buf_marshal_format_v b off buf_len (?f @ [NUL]) (of_nat (length ?f)) (concat (map piece_args ps)) =
      Ret (overwrite b (unat off) ?t, of_nat (length ?t))"
    using loop n lt le by (simp add: str_buf_marshal_format_v_def)
qed

text \<open>
  C22: given a format assembled from plain characters, \<open>%%\<close>, \<open>%s\<close>, \<open>%lu\<close> and \<open>%.<n>s\<close> with matching
  arguments, and a buffer with room for the output and one more character, \<open>str_buf_marshal_format\<close>
  returns, leaves exactly the rendered text at the offset (every other character of the buffer as it
  was) and reports its length.
\<close>

theorem str_buf_marshal_format_renders:
  assumes "\<forall>x \<in> set ps. piece_ok x" and "NUL \<notin> set (concat (map piece_fmt ps))"
    and "length (concat (map piece_fmt ps)) < 18446744073709551616"
    and "unat buf_len \<le> length b" and "unat off + length (concat (map piece_text ps)) < unat buf_len"
  shows "str_buf_marshal_format b off buf_len (concat (map piece_fmt ps) @ [NUL]) (concat (map piece_args ps)) =
    Ret (overwrite b (unat off) (concat (map piece_text ps)), of_nat (length (concat (map piece_text ps))))"
  using marshal_format_v_renders [OF assms] by (simp add: str_buf_marshal_format_def)

theorem str_buf_marshal_format_renders_witness:
  "str_buf_marshal_format ''................'' 1 16
      (''a=%lu %.2s%%'' @ [NUL]) [VaU64 407, VaStr (''xyz'' @ [NUL])] =
    Ret (''.a=407 xy%......'', 9)"
  using str_buf_marshal_format_renders
    [of "[Lit CHR ''a'', Lit CHR ''='', PUint 407, Lit CHR '' '', PStrN 2 ''xyz'', Percent]" 16
      "''................''" 1]
  by (simp add: dec_digits_eval overwrite_def char_of_def bit_0)

subsection \<open>Fuel\<close>

text \<open>The interpreter never runs out of fuel: whatever the format, it returns or stops for a reason of its own.\<close>

definition ends :: "'a res \<Rightarrow> bool" where
  "ends m \<longleftrightarrow> m \<noteq> Stop Diverges"

named_theorems ends_intros

lemma ends_rbind [ends_intros]: "ends m \<Longrightarrow> (\<And>x. m = Ret x \<Longrightarrow> ends (f x)) \<Longrightarrow> ends (rbind m f)"
  by (cases m) (auto simp: ends_def)

lemma ends_kassert [ends_intros]: "(b \<Longrightarrow> ends k) \<Longrightarrow> ends (kassert b k)"
  by (simp add: ends_def kassert_def)

lemma ends_basic [simp]:
  "ends (Ret x)" "ends (buf_get b i)" "ends (buf_set b i c)" "ends (Stop OutOfBounds)" "ends (Stop (KernelPanic msg))"
  by (simp_all add: ends_def buf_get_def buf_set_def inbounds_def)

lemma ends_va [simp]: "ends (va_str va)" "ends (va_u64 va)"
  by (cases va rule: va_str.cases; simp add: ends_def) (cases va rule: va_u64.cases; simp add: ends_def)

lemma ends_str_len_loop [simp]: "ends (str_len_loop s k)"
  by (induction s k rule: str_len_loop.induct) auto

lemma ends_marshal_str_loop [simp]: "ends (marshal_str_loop b off str n i)"
proof (induction b off str n i rule: marshal_str_loop.induct)
  case (1 b off str n i)
  then show ?case by (subst marshal_str_loop.simps) (auto intro!: ends_intros)
qed

lemma ends_write_digits [simp]: "ends (write_digits b p v)"
proof (induction b p v rule: write_digits.induct)
  case (1 b p v)
  then show ?case by (subst write_digits.simps) (auto simp: Let_def intro!: ends_intros)
qed

lemma ends_str_to_uint_loop [simp]: "ends (str_to_uint_loop str n j w)"
proof (induction str n j w rule: str_to_uint_loop.induct)
  case (1 str n j w)
  then show ?case by (subst str_to_uint_loop.simps) (auto intro!: ends_intros)
qed

lemma ends_format_str_prefix [simp]: "ends (format_str_prefix b p l str n i)"
proof (induction b p l str n i rule: format_str_prefix.induct)
  case (1 b p l str n i)
  then show ?case by (subst format_str_prefix.simps) (auto intro!: ends_intros)
qed

lemma str_to_uint_loop_end:
  "str_to_uint_loop str n j w = Ret (v, e) \<Longrightarrow> e = j \<or> unat j < unat e \<and> unat e \<le> length str"
proof (induction str n j w rule: str_to_uint_loop.induct)
  case (1 str n j w)
  show ?case
  proof (cases "j < n \<and> unat j < length str \<and> str_char_is_digit (str ! unat j)")
    case True
    then have "str_to_uint_loop str n (j + 1) (w * 10 + str_char_to_uint (str ! unat j)) = Ret (v, e)"
      using "1.prems" by (simp add: str_to_uint_loop.simps [of str n j])
    with "1.IH" [of "str ! unat j"] True have "e = j + 1 \<or> unat (j + 1) < unat e \<and> unat e \<le> length str"
      by simp
    with True show ?thesis by (auto simp: unat_u64_Suc [of j n])
  next
    case False
    then show ?thesis using "1.prems"
      by (subst (asm) str_to_uint_loop.simps) (auto simp: buf_get_def split: if_splits)
  qed
qed

lemma str_to_uint_end:
  assumes "str_to_uint str off n = Ret (v, k)"
  shows "unat off < unat (off + k) \<and> unat (off + k) \<le> length str"
  using assms str_to_uint_loop_end [of str n off 0]
  by (auto simp: str_to_uint_def word_less_nat_alt)

lemma ends_calls [simp]:
  "ends (str_len s)" "ends (str_buf_marshal_str b off l s n)" "ends (str_buf_marshal_uint b off l v)"
  "ends (str_to_uint s off n)"
  by (auto simp: str_len_def str_buf_marshal_str_def str_buf_marshal_uint_def str_to_uint_def Let_def
      intro!: ends_intros)

lemma buf_get_RetD: "buf_get b i = Ret c \<Longrightarrow> unat i < length b"
  by (simp add: buf_get_def)

lemma ends_if [ends_intros]: "(c \<Longrightarrow> ends x) \<Longrightarrow> (\<not> c \<Longrightarrow> ends y) \<Longrightarrow> ends (if c then x else y)"
  by simp

lemma ends_case_prod [ends_intros]: "(\<And>u v. x = (u, v) \<Longrightarrow> ends (f u v)) \<Longrightarrow> ends (case x of (u, v) \<Rightarrow> f u v)"
  by (cases x) simp

lemma format_loop_ends:
  "length F < 18446744073709551615 \<Longrightarrow> unat n < unat fp + fuel \<Longrightarrow> 0 < fuel \<Longrightarrow>
   ends (format_loop fuel b p l F n fp va)"
proof (induction fuel arbitrary: b p fp va)
  case (Suc fuel)
  show ?case
  proof (cases "fp < n")
    case True
    then have fp1: "unat (fp + 1) = Suc (unat fp)" and "unat fp < unat n"
      by (auto simp: unat_u64_Suc word_less_nat_alt)
    have inc: "unat (i + 1) = Suc (unat i)" if "unat i \<le> length F" for i :: u64
      using unat_u64_add [of i 1] that Suc.prems(1) by simp
    have IH: "ends (format_loop fuel b p l F n i va)" if "unat fp < unat i" for b p i va
      using that Suc.prems \<open>unat fp < unat n\<close> by (intro Suc.IH) auto
    have IH1: "ends (format_loop fuel b p l F n (fp + 1) va)" for b p va
      using fp1 by (intro IH) simp
    have IH2: "ends (format_loop fuel b p l F n (fp + 1 + 1) va)" if "buf_get F (fp + 1) = Ret c" for b p va c
      using buf_get_RetD [OF that] inc [of "fp + 1"] fp1 by (intro IH) simp
    have IH3: "ends (format_loop fuel b p l F n (fp + 1 + 1 + 1) va)"
      if "buf_get F (fp + 1) = Ret c" "buf_get F (fp + 1 + 1) = Ret d" for b p va c d
      using buf_get_RetD [OF that(1)] buf_get_RetD [OF that(2)] inc [of "fp + 1"] inc [of "fp + 1 + 1"] fp1
      by (intro IH) simp
    have IHn: "ends (format_loop fuel b p l F n (fp + 1 + 1 + k + 1) va)"
      if "buf_get F (fp + 1) = Ret c" "str_to_uint F (fp + 1 + 1) n = Ret (v, k)" for b p va c v k
      using buf_get_RetD [OF that(1)] str_to_uint_end [OF that(2)] inc [of "fp + 1"] inc [of "fp + 1 + 1 + k"] fp1
      by (intro IH) simp
    show ?thesis
      unfolding format_loop.simps Let_def
      by (intro ends_intros IH1; (rule ends_basic ends_va ends_calls ends_format_str_prefix)?)
        (erule IH2 | erule (1) IH3 | erule IHn, simp only:)+
  qed (simp add: format_loop.simps)
qed simp

text \<open>
  \<open>str_buf_marshal_format\<close> always ends, whatever the format string holds (unknown directives,
  a \<open>%\<close> as the last character, missing arguments): it returns or stops the machine, it never loops.
\<close>

theorem str_buf_marshal_format_ends:
  assumes "length fmt < 18446744073709551615"
  shows "str_buf_marshal_format b off buf_len fmt va \<noteq> Stop Diverges"
proof -
  have "ends (str_buf_marshal_format b off buf_len fmt va)"
    unfolding str_buf_marshal_format_def str_buf_marshal_format_v_def
    using assms by (intro ends_intros ends_basic ends_calls format_loop_ends) auto
  then show ?thesis by (simp add: ends_def)
qed

theorem str_buf_marshal_format_ends_witness:
  "str_buf_marshal_format (replicate 4 CHR ''.'') 0 4 ''%'' [] \<noteq> Stop Diverges"
  using str_buf_marshal_format_ends [of "''%''" "replicate 4 CHR ''.''" 0 4 "[]"] by simp

subsection \<open>What callers rely on\<close>

text \<open>
  C38: a number written by \<open>str_buf_marshal_uint\<close> into a buffer with room is read back by
  \<open>str_to_uint\<close>, which consumes exactly the characters the writer reports; the rest of the buffer is
  untouched, and a buffer without room (including the spare character) is refused.
\<close>

theorem str_buf_marshal_uint_roundtrip:
  assumes "unat off \<le> unat buf_len" "unat buf_len \<le> length b"
  shows "if unat off + length (dec_digits (unat v)) < unat buf_len
    then \<exists>b' n. str_buf_marshal_uint b off buf_len v = Ret (b', n) \<and>
      b' = overwrite b (unat off) (dec_digits (unat v)) \<and> unat n = length (dec_digits (unat v)) \<and>
      str_to_uint b' off (off + n) = Ret (v, n)
    else str_buf_marshal_uint b off buf_len v = Stop AssertFail"
proof (cases "unat off + length (dec_digits (unat v)) < unat buf_len")
  case True
  let ?ds = "dec_digits (unat v)" and ?n = "of_nat (length (dec_digits (unat v))) :: u64"
  have n: "unat ?n = length ?ds" using u64_dec_digits [of v] by (simp add: unat_of_nat)
  have "unat (off + ?n) = unat off + length ?ds"
    using True n unat_u64_bound [of buf_len] by (subst unat_u64_add) auto
  then have "str_to_uint (overwrite b (unat off) ?ds) off (off + ?n) = Ret (of_nat (unat v), ?n)"
    using True assms by (intro str_to_uint_reads [of _ "take (unat off) b" _ "drop (unat off + length ?ds) b"])
      (auto simp: overwrite_def)
  with True n show ?thesis
    using uint_put.put_fits [where v = v and b = b] assms by simp
qed (use uint_put.put_refuses [where b = b] assms in simp)

theorem str_buf_marshal_uint_roundtrip_witness:
  "\<exists>b' n. str_buf_marshal_uint ''        '' 2 8 65535 = Ret (b', n) \<and>
     b' = ''  65535 '' \<and> unat n = length ''65535'' \<and> str_to_uint b' 2 (2 + n) = Ret (65535, n)"
  using str_buf_marshal_uint_roundtrip [of 2 8 "''        ''" 65535]
  by (simp add: dec_digits_eval overwrite_def char_of_def bit_0)

text \<open>
  \<open>str_buf_marshal_bytes_in_hex\<close> writes two upper-case hexadecimal digits per byte, separated by
  single blanks, when the buffer has room for them and one more character, and refuses otherwise.
\<close>

theorem str_buf_marshal_bytes_in_hex_dumps:
  assumes "vs \<noteq> []" "3 * length vs < 18446744073709551616" "unat off \<le> unat buf_len" "unat buf_len \<le> length b"
  shows "str_buf_marshal_bytes_in_hex b off buf_len vs (of_nat (length vs)) =
    (if unat off + (3 * length vs - 1) < unat buf_len
     then Ret (overwrite b (unat off) (hex_text vs), of_nat (3 * length vs - 1)) else Stop AssertFail)"
proof -
  have len: "length (hex_text vs) = 3 * length vs - 1" by (simp add: hex_text_def)
  have "unat off + (3 * length vs - 1) < unat buf_len \<Longrightarrow>
      str_buf_marshal_bytes_in_hex b off buf_len vs (of_nat (length vs)) =
        Ret (overwrite b (unat off) (hex_text vs), of_nat (3 * length vs - 1))"
    using assms hex_put.put_fits [of vs buf_len b off] len by simp
  moreover have "\<not> unat off + (3 * length vs - 1) < unat buf_len \<Longrightarrow>
      str_buf_marshal_bytes_in_hex b off buf_len vs (of_nat (length vs)) = Stop AssertFail"
    using assms hex_put.put_refuses [where b = b] len by simp
  ultimately show ?thesis by simp
qed

theorem str_buf_marshal_bytes_in_hex_dumps_witness:
  "str_buf_marshal_bytes_in_hex ''.......'' 1 7 [0xde, 0x07] 2 = Ret (''.DE 07.'', 5)"
  using str_buf_marshal_bytes_in_hex_dumps [of "[0xde, 0x07]" 1 7 "''.......''"]
  by (simp add: overwrite_def hex_text_def hex_byte_def hex_char_def char_of_def bit_0)

lemma u8_single_bit: "byte AND push_bit n (1 :: u8) \<noteq> 0 \<longleftrightarrow> bit byte n"
proof -
  have "byte AND push_bit n 1 = (if bit byte n then push_bit n 1 else 0)"
    by (rule bit_word_eqI) (auto simp: bit_simps)
  moreover have "bit byte n \<Longrightarrow> push_bit n (1::u8) \<noteq> 0"
    using bit_imp_le_length [of byte n] by (simp add: bit_eq_iff bit_simps) blast
  ultimately show ?thesis by auto
qed

text \<open>
  The bit accessors agree with one another: a set bit reads as set, a cleared one as clear, the
  other seven bits read as before, and a position of 8 or more stops all three.
\<close>

theorem byte_bit_laws:
  "if i < 8 then
     (\<exists>s c. byte_bit_set byte i = Ret s \<and> byte_bit_clear byte i = Ret c \<and>
        byte_bit_get s i = Ret True \<and> byte_bit_get c i = Ret False \<and>
        (j = i \<or> byte_bit_get s j = byte_bit_get byte j \<and> byte_bit_get c j = byte_bit_get byte j))
   else byte_bit_set byte i = Stop AssertFail \<and> byte_bit_clear byte i = Stop AssertFail \<and>
     byte_bit_get byte i = Stop AssertFail"
  by (auto simp: byte_bit_set_def byte_bit_clear_def byte_bit_get_def u8_single_bit
      word_less_nat_alt u64_eq_iff_unat bit_or_iff bit_and_iff bit_not_iff bit_push_bit_iff bit_1_iff kassert_def
      simp del: push_bit_of_1)

text \<open>
  \<open>byte_get\<close> returns the byte it is asked for, and the four bytes it gives of a 64-bit value
  are its low half: bytes 4 to 7 cannot be read.
\<close>

theorem byte_get_low_half:
  "(i < 4 \<longrightarrow> byte_get v i = Ret (of_nat (unat v div 256 ^ unat i))) \<and>
   (\<not> i < 4 \<longrightarrow> byte_get v i = Stop AssertFail)"
proof (cases "i < 4")
  case True
  then have i: "unat i < 4" by (simp add: word_less_nat_alt)
  then have sh: "unat (8 * i) = 8 * unat i" by (subst unat_u64_mult) auto
  have le: "drop_bit n v AND 0xff \<le> 255" for n
    by (rule word_and_le1)
  have ff: "(0xff :: u64) = mask 8" by (simp add: mask_eq_exp_minus_1)
  have "ucast (drop_bit n v AND 0xff) = (ucast (drop_bit n v) :: u8)" for n
    by (rule bit_word_eqI) (auto simp: bit_simps ff)
  moreover have "(ucast (drop_bit (8 * k) v) :: u8) = of_nat (unat v div 256 ^ k)" for k
  proof -
    have "unat (drop_bit (8 * k) v) = unat v div 256 ^ k"
      using unat_u64_bound [of v]
      by (subst unsigned_drop_bit_eq) (simp add: drop_bit_eq_div power_mult take_bit_eq_mod)
    then show ?thesis by (metis of_nat_unat)
  qed
  ultimately show ?thesis using True sh le by (simp add: byte_get_def Let_def)
qed (simp add: byte_get_def)

theorem byte_get_low_half_witness:
  "byte_get 0x1122334455667788 2 = Ret 0x66 \<and> byte_get 0x1122334455667788 4 = Stop AssertFail"
  using byte_get_low_half [of 2 "0x1122334455667788"] byte_get_low_half [of 4 "0x1122334455667788"] by simp

text \<open>
  For 1024 bytes \<open>str_buf_marshal_uint_in_size\<close> reports one character written although it wrote
  three (\<open>1KB\<close>), and 1536 bytes give the same text: the pointer is not moved past the unit and the part
  already written is never subtracted.
\<close>

theorem str_buf_marshal_uint_in_size_short:
  "str_buf_marshal_uint_in_size (replicate 8 NUL) 0 8 1024 = Ret (''1KB'' @ replicate 5 NUL, 1) \<and>
   str_buf_marshal_uint_in_size (replicate 8 NUL) 0 8 1536 = Ret (''1KB'' @ replicate 5 NUL, 1)"
  by code_simp

end
