(* ===== verification/Mm.thy ===== *)
theory Mm
  imports Containers_String
begin

text \<open>
  \<open>src/src/mm/mm.c\<close> and \<open>src/src/mm/mm_private.h\<close>: the alignment arithmetic, the byte-wise memory
  primitives, the reading of the kernel image bounds from the boot loader's ELF sections, and the
  constants of the virtual address layout.

  The byte primitives work on a memory of bytes addressed by 64-bit words, so that source and
  destination may overlap. Tables handed over by the boot loader are byte lists read little-endian;
  a read beyond the end stops with \<open>OutOfBounds\<close>.
\<close>

subsection \<open>Layout of the virtual address space\<close>

definition PAGE_SIZE_4K :: u64 where "PAGE_SIZE_4K = 4096"
definition PAGE_SIZE_2M :: u64 where "PAGE_SIZE_2M = 2 * 1024 * 1024"
definition PAGE_SIZE_1G :: u64 where "PAGE_SIZE_1G = 1024 * 1024 * 1024"
definition PAGE_SIZE_VALUE_LOG_4K :: u64 where "PAGE_SIZE_VALUE_LOG_4K = 12"

definition VA_48_LOW_START :: u64 where "VA_48_LOW_START = 0"
definition VA_48_LOW_END :: u64 where "VA_48_LOW_END = 0x00007FFFFFFFFFFF"
definition VA_48_HIGH_START :: u64 where "VA_48_HIGH_START = 0xFFFF800000000000"
definition VA_48_STACK_TOP_GUARD :: u64 where "VA_48_STACK_TOP_GUARD = VA_48_HIGH_START"
definition VA_48_STACK_TOP :: u64 where "VA_48_STACK_TOP = VA_48_HIGH_START + PAGE_SIZE_4K"
definition VA_48_STACK_BOTTOM :: u64 where "VA_48_STACK_BOTTOM = VA_48_STACK_TOP + 253 * PAGE_SIZE_4K"
definition VA_48_STACK_BOTTOM_GUARD :: u64 where
  "VA_48_STACK_BOTTOM_GUARD = VA_48_STACK_BOTTOM + PAGE_SIZE_4K"
definition VA_48_FRAME_BUFFER :: u64 where "VA_48_FRAME_BUFFER = VA_48_STACK_BOTTOM_GUARD + PAGE_SIZE_4K"
definition VA_48_PCIE_CFG_START :: u64 where "VA_48_PCIE_CFG_START = VA_48_HIGH_START + 4096 * PAGE_SIZE_4K"
definition VA_48_PCIE_CFG_END :: u64 where
  "VA_48_PCIE_CFG_END = VA_48_PCIE_CFG_START + 1024 * 1024 * PAGE_SIZE_4K"
definition VA_48_DIRECT_ACCESS_PAGE :: u64 where "VA_48_DIRECT_ACCESS_PAGE = VA_48_PCIE_CFG_END"
definition VA_48_HEAP :: u64 where "VA_48_HEAP = VA_48_DIRECT_ACCESS_PAGE + PAGE_SIZE_4K"
definition VA_48_HIGH_END :: u64 where "VA_48_HIGH_END = 0xFFFFFFFFFFFFFFFF"

lemmas page_size_defs = PAGE_SIZE_4K_def PAGE_SIZE_2M_def PAGE_SIZE_1G_def PAGE_SIZE_VALUE_LOG_4K_def

lemmas va_layout_defs = page_size_defs VA_48_LOW_START_def VA_48_LOW_END_def VA_48_HIGH_START_def
  VA_48_STACK_TOP_GUARD_def VA_48_STACK_TOP_def VA_48_STACK_BOTTOM_def VA_48_STACK_BOTTOM_GUARD_def
  VA_48_FRAME_BUFFER_def VA_48_PCIE_CFG_START_def VA_48_PCIE_CFG_END_def VA_48_DIRECT_ACCESS_PAGE_def
  VA_48_HEAP_def VA_48_HIGH_END_def

definition mm_va_pcie_cfg_space :: u64 where "mm_va_pcie_cfg_space = VA_48_PCIE_CFG_START"
definition mm_va_pcie_cfg_space_bound :: u64 where "mm_va_pcie_cfg_space_bound = VA_48_PCIE_CFG_END"
definition mm_va_stack_bottom :: u64 where "mm_va_stack_bottom = VA_48_STACK_BOTTOM"
definition mm_va_stack_top :: u64 where "mm_va_stack_top = VA_48_STACK_TOP"

subsection \<open>Alignment\<close>

definition math_is_pow2 :: "u64 \<Rightarrow> bool" where
  "math_is_pow2 n = (n AND (n - 1) = 0)"

definition mm_align_up :: "u64 \<Rightarrow> u64 \<Rightarrow> u64 res" where
  "mm_align_up p align =
     (let a = align - 1 in
      kassert (align > 0) (kassert (math_is_pow2 align) (Ret ((p + a) AND NOT a))))"

definition mm_align_down :: "u64 \<Rightarrow> u64 \<Rightarrow> u64 res" where
  "mm_align_down p align =
     (let a = align - 1 in
      kassert (align > 0) (kassert (math_is_pow2 align) (Ret (p AND NOT a))))"

text \<open>\<open>mm_align_check\<close> is only called with a non-zero alignment; the processor faults on 0.\<close>

definition mm_align_check :: "u64 \<Rightarrow> u64 \<Rightarrow> bool res" where
  "mm_align_check p align = (if align = 0 then Stop DivByZero else Ret (p mod align = 0))"

partial_function (option) align_class_loop :: "u64 \<Rightarrow> u64 \<Rightarrow> u64 res option" where
  "align_class_loop p align =
     (if align = 0 then Some (Stop DivByZero)
      else if p mod align = 0 then align_class_loop p (align * 2)
      else Some (Ret align))"

definition mm_align_class :: "u64 \<Rightarrow> u64 res" where
  "mm_align_class p =
     (case align_class_loop p 1 of
        None \<Rightarrow> Stop Diverges
      | Some r \<Rightarrow> rbind r (\<lambda>align. let align = align div 2 in
          rbind (mm_align_check p align) (\<lambda>ok.
          kassert ok (kassert (align > 1) (Ret align)))))"

subsection \<open>Bytes in memory\<close>

type_synonym memory = "u64 \<Rightarrow> u8"

function mm_copy_loop :: "memory \<Rightarrow> u64 \<Rightarrow> u64 \<Rightarrow> u64 \<Rightarrow> u64 \<Rightarrow> memory" where
  "mm_copy_loop m dest src copy_len i =
     (if i < copy_len then mm_copy_loop (m(dest + i := m (src + i))) dest src copy_len (i + 1) else m)"
  by pat_completeness auto
termination
  by (relation "measure (\<lambda>(m, d, s, n, i). unat n - unat i)") (auto simp: u64_loop_decr)

definition mm_copy :: "memory \<Rightarrow> u64 \<Rightarrow> u64 \<Rightarrow> u64 \<Rightarrow> memory" where
  "mm_copy m dest src copy_len = mm_copy_loop m dest src copy_len 0"

function mm_fill_loop :: "memory \<Rightarrow> u64 \<Rightarrow> u64 \<Rightarrow> u8 \<Rightarrow> u64 \<Rightarrow> memory" where
  "mm_fill_loop m mem sz data i =
     (if i < sz then mm_fill_loop (m(mem + i := data)) mem sz data (i + 1) else m)"
  by pat_completeness auto
termination
  by (relation "measure (\<lambda>(m, d, n, v, i). unat n - unat i)") (auto simp: u64_loop_decr)

definition mm_fill_bytes :: "memory \<Rightarrow> u64 \<Rightarrow> u64 \<Rightarrow> u8 \<Rightarrow> memory" where
  "mm_fill_bytes m mem sz data = mm_fill_loop m mem sz data 0"

definition mm_clean :: "memory \<Rightarrow> u64 \<Rightarrow> u64 \<Rightarrow> memory res" where
  "mm_clean m mem sz = kassert (sz > 0) (Ret (mm_fill_loop m mem sz 0 0))"

text \<open>\<open>cmp = mem1[i] - mem2[i]\<close> is computed on \<open>int\<close>, after promotion of the two bytes.\<close>

function mm_compare_loop :: "memory \<Rightarrow> u64 \<Rightarrow> u64 \<Rightarrow> u64 \<Rightarrow> u64 \<Rightarrow> int \<Rightarrow> int" where
  "mm_compare_loop m mem1 mem2 len i cmp =
     (if i < len then
        let cmp = uint (m (mem1 + i)) - uint (m (mem2 + i)) in
        if cmp \<noteq> 0 then cmp else mm_compare_loop m mem1 mem2 len (i + 1) cmp
      else cmp)"
  by pat_completeness auto
termination
  by (relation "measure (\<lambda>(m, a, b, n, i, c). unat n - unat i)") (auto simp: u64_loop_decr)

definition mm_compare :: "memory \<Rightarrow> u64 \<Rightarrow> u64 \<Rightarrow> u64 \<Rightarrow> int res" where
  "mm_compare m mem1 mem2 len = kassert (len > 0) (Ret (mm_compare_loop m mem1 mem2 len 0 0))"

subsection \<open>Little-endian fields of boot tables\<close>

definition le_value :: "u8 list \<Rightarrow> u64" where
  "le_value bs = foldr (\<lambda>x v. ucast x + 256 * v) bs 0"

definition ld_bytes :: "nat \<Rightarrow> u8 list \<Rightarrow> u64 \<Rightarrow> u64 res" where
  "ld_bytes k bs off = inbounds (unat off + k \<le> length bs) (Ret (le_value (take k (drop (unat off) bs))))"

abbreviation ld_u32 :: "u8 list \<Rightarrow> u64 \<Rightarrow> u64 res" where
  "ld_u32 \<equiv> ld_bytes 4"

abbreviation ld_u64 :: "u8 list \<Rightarrow> u64 \<Rightarrow> u64 res" where
  "ld_u64 \<equiv> ld_bytes 8"

declare mm_copy_loop.simps [simp del] mm_fill_loop.simps [simp del] mm_compare_loop.simps [simp del]

subsection \<open>Alignment is rounding to multiples\<close>

lemma math_is_pow2_2p [simp]: "k < 64 \<Longrightarrow> math_is_pow2 (2 ^ k)"
  by (simp add: math_is_pow2_def u64_pow2_and_pred)

lemma u64_2p_pos [simp]: "k < 64 \<Longrightarrow> (0::u64) < 2 ^ k"
  by (simp add: word_less_nat_alt unat_u64_2p)

lemma unat_u64_2p_pred: "k < 64 \<Longrightarrow> unat ((2::u64) ^ k - 1) = 2 ^ k - 1"
  by (subst unat_u64_sub) (auto simp: unat_u64_2p)

lemma mm_align_down_2p: "k < 64 \<Longrightarrow> mm_align_down p (2 ^ k) = Ret (p AND NOT (2 ^ k - 1))"
  by (simp add: mm_align_down_def Let_def)

text \<open>
  For a power of two \<open>align\<close>, \<open>mm_align_up\<close> and \<open>mm_align_down\<close> return the nearest multiples of
  \<open>align\<close> above and below the address (the upper one when it exists below \<open>2^64\<close>); for any other
  alignment, 0 included, both stop on their assertion.
\<close>

theorem mm_align_nearest:
  "(if \<exists>k<64. align = 2 ^ k then
     (\<exists>d. mm_align_down p align = Ret d \<and> unat align dvd unat d \<and>
        unat d \<le> unat p \<and> unat p < unat d + unat align) \<and>
     (unat p + unat align \<le> 2 ^ 64 \<longrightarrow> (\<exists>u. mm_align_up p align = Ret u \<and> unat align dvd unat u \<and>
        unat p \<le> unat u \<and> unat u < unat p + unat align))
   else mm_align_down p align = Stop AssertFail \<and> mm_align_up p align = Stop AssertFail)"
proof (cases "\<exists>k<64. align = 2 ^ k")
  case True
  then obtain k where k: "k < 64" "align = 2 ^ k" by blast
  have a: "unat align = 2 ^ k" using k by (simp add: unat_u64_2p)
  have near: "2 ^ k dvd n div 2 ^ k * 2 ^ k \<and> n div 2 ^ k * 2 ^ k \<le> n \<and> n < n div 2 ^ k * 2 ^ k + 2 ^ k" for n :: nat
  proof -
    have "n mod 2 ^ k < 2 ^ k" by (rule mod_less_divisor) simp
    then have "n < n div 2 ^ k * 2 ^ k + 2 ^ k" using div_mult_mod_eq [of n "2 ^ k"] by linarith
    then show ?thesis by simp
  qed
  have down: "mm_align_down p align = Ret (p AND NOT (2 ^ k - 1))"
    using k by (simp add: mm_align_down_2p)
  have up: "mm_align_up p align = Ret ((p + (2 ^ k - 1)) AND NOT (2 ^ k - 1))"
    using k by (simp add: mm_align_up_def Let_def)
  have sum: "unat (p + (2 ^ k - 1)) = unat p + (2 ^ k - 1)" if "unat p + unat align \<le> 2 ^ 64"
    using that k a by (subst unat_u64_add) (auto simp: unat_u64_2p_pred)
  have "unat p + unat align \<le> 2 ^ 64 \<Longrightarrow> \<exists>u. mm_align_up p align = Ret u \<and> unat align dvd unat u \<and>
      unat p \<le> unat u \<and> unat u < unat p + unat align"
  proof -
    have "(unat p + (2 ^ k - 1)) div 2 ^ k * 2 ^ k < unat p + 2 ^ k"
      by (rule le_less_trans [OF div_times_less_eq_dividend]) simp
    then show "unat p + unat align \<le> 2 ^ 64 \<Longrightarrow> ?thesis"
      using up sum near [of "unat p + (2 ^ k - 1)"] a by (auto simp: unat_and_not_mask k)
  qed
  moreover have "\<exists>d. mm_align_down p align = Ret d \<and> unat align dvd unat d \<and>
        unat d \<le> unat p \<and> unat p < unat d + unat align"
    using down near [of "unat p"] a by (simp add: unat_and_not_mask k)
  ultimately show ?thesis using True by simp
next
  case False
  then have "align = 0 \<or> \<not> math_is_pow2 align"
    by (metis math_is_pow2_def u64_pow2_cases)
  with False show ?thesis by (auto simp: mm_align_down_def mm_align_up_def Let_def kassert_def)
qed

theorem mm_align_nearest_witness:
  "(\<exists>d. mm_align_down 0x12345 4096 = Ret d \<and> 4096 dvd unat d \<and> unat d \<le> 74565 \<and> 74565 < unat d + 4096) \<and>
   (\<exists>u. mm_align_up 0x12345 4096 = Ret u \<and> 4096 dvd unat u \<and> 74565 \<le> unat u \<and> unat u < 74565 + 4096)"
proof -
  have "\<exists>k<64. (4096::u64) = 2 ^ k" by (rule exI [of _ 12]) simp
  then show ?thesis using mm_align_nearest [of 4096 "0x12345"] by simp
qed

lemma align_class_loop_found:
  assumes "k < 64" "\<not> 2 ^ k dvd unat p" "\<And>j. j < k \<Longrightarrow> 2 ^ j dvd unat p" "i \<le> k"
  shows "align_class_loop p (2 ^ i) = Some (Ret (2 ^ k))"
  using assms(4)
proof (induction "k - i" arbitrary: i)
  case 0
  then have "i = k" by simp
  moreover have "(2::u64) ^ k \<noteq> 0" using u64_2p_pos [OF assms(1)] by (metis less_irrefl)
  moreover have "p mod 2 ^ k \<noteq> 0" using assms(1,2) by (simp add: u64_eq_iff_unat unat_mod unat_u64_2p mod_eq_0_iff_dvd)
  ultimately show ?case by (subst align_class_loop.simps) simp
next
  case (Suc d)
  then have i: "i < k" "i < 64" using assms(1) by auto
  then have "(2::u64) ^ i \<noteq> 0" using u64_2p_pos [of i] by (metis less_irrefl)
  moreover have "p mod 2 ^ i = 0" using assms(3) [OF i(1)] i by (simp add: u64_eq_iff_unat unat_mod unat_u64_2p)
  moreover have "align_class_loop p (2 ^ Suc i) = Some (Ret (2 ^ k))" using Suc by (intro Suc.hyps) auto
  ultimately show ?case by (subst align_class_loop.simps) (simp add: mult.commute)
qed

lemma align_class_loop_wraps:
  assumes "2 ^ 63 dvd unat p"
  shows "i \<le> 64 \<Longrightarrow> align_class_loop p (2 ^ i) = Some (Stop DivByZero)"
proof (induction "64 - i" arbitrary: i)
  case 0
  then have "(2::u64) ^ i = 0" by simp
  then show ?case by (subst align_class_loop.simps) (simp only: if_True simp_thms)
next
  case (Suc d)
  then have i: "i < 64" by simp
  have "(2::nat) ^ i dvd 2 ^ 63" using i by (intro le_imp_power_dvd) simp
  with assms have "2 ^ i dvd unat p" by (rule dvd_trans [rotated])
  with i have "p mod 2 ^ i = 0" by (simp add: u64_eq_iff_unat unat_mod unat_u64_2p)
  moreover have "align_class_loop p (2 ^ Suc i) = Some (Stop DivByZero)" using Suc by (intro Suc.hyps) auto
  ultimately show ?case by (subst align_class_loop.simps) (simp add: mult.commute)
qed

text \<open>
  \<open>mm_align_class\<close> returns the largest power of two that divides an even address, provided that
  the double of that power is below \<open>2^64\<close>. It stops on its assertion for an odd address, and for the
  addresses 0 and \<open>2^63\<close> the candidate wraps to 0 and the loop ends in a division by zero.
\<close>

theorem mm_align_class_max:
  "(if 2 ^ 63 dvd unat p then mm_align_class p = Stop DivByZero
    else if odd (unat p) then mm_align_class p = Stop AssertFail
    else \<exists>k. mm_align_class p = Ret (2 ^ k) \<and> 0 < k \<and> k < 63 \<and> 2 ^ k dvd unat p \<and> \<not> 2 ^ Suc k dvd unat p)"
proof (cases "2 ^ 63 dvd unat p")
  case True
  then show ?thesis using align_class_loop_wraps [of p 0] by (simp add: mm_align_class_def)
next
  case False
  define k where "k = (LEAST k. \<not> 2 ^ k dvd unat p)"
  have k: "\<not> 2 ^ k dvd unat p" unfolding k_def using False by (rule LeastI)
  have least: "2 ^ j dvd unat p" if "j < k" for j using that not_less_Least k_def by blast
  have "k \<le> 63" unfolding k_def using False by (rule Least_le)
  obtain m where m: "k = Suc m" using k by (cases k) auto
  then have m63: "k < 64" "m < 64" "m < 63" using \<open>k \<le> 63\<close> by auto
  have "align_class_loop p 1 = Some (Ret (2 ^ k))"
    using align_class_loop_found [OF m63(1) k least, of 0] by simp
  moreover have half: "(2::u64) ^ k div 2 = 2 ^ m"
    using m63 m by (simp add: u64_eq_iff_unat unat_div unat_u64_2p del: power_Suc) simp
  moreover have "p mod 2 ^ m = 0" using least [of m] m m63 by (simp add: u64_eq_iff_unat unat_mod unat_u64_2p)
  moreover have "(2::u64) ^ m \<noteq> 0" using u64_2p_pos [OF m63(2)] by (metis less_irrefl)
  ultimately have cls: "mm_align_class p = kassert (1 < (2::u64) ^ m) (Ret (2 ^ m))"
    by (simp add: mm_align_class_def mm_align_check_def Let_def)
  have one: "1 < (2::u64) ^ m \<longleftrightarrow> 0 < m"
    using m63 one_less_power [of "2::nat" m] by (cases m) (auto simp: word_less_nat_alt unat_u64_2p simp del: power_Suc)
  have odd: "odd (unat p) \<longleftrightarrow> m = 0" using k least [of 1] m by (cases m) auto
  show ?thesis using False cls one odd least [of m] k m m63 by auto
qed

subsection \<open>The byte primitives\<close>

lemma mm_copy_loop_moves:
  assumes "dest = src \<or> n \<le> dest - src"
  shows "i \<le> n \<Longrightarrow>
    mm_copy_loop (\<lambda>a. if a - dest < i then m (src + (a - dest)) else m a) dest src n i =
    (\<lambda>a. if a - dest < n then m (src + (a - dest)) else m a)"
proof (induction "unat n - unat i" arbitrary: i)
  case 0
  then have "i = n" by (simp add: word_le_nat_alt u64_eq_iff_unat)
  then show ?case by (subst mm_copy_loop.simps) simp
next
  case (Suc d)
  let ?cpy = "\<lambda>i a. if a - dest < i then m (src + (a - dest)) else m a"
  from Suc have less: "i < n" by (simp add: word_less_nat_alt)
  have ahead: "\<not> src + i - dest < i"
  proof (cases "dest = src")
    case False
    then have n: "unat n \<le> unat (dest - src)" using assms by (simp add: word_le_nat_alt)
    have "unat (i - x) = 18446744073709551616 + unat i - unat x" if "unat i < unat x" for x
      using that unat_u64_bound [of x] by (simp add: unat_word_ariths unat_sub_if')
    then have "\<not> i - (dest - src) < i"
      using n less unat_u64_bound [of "dest - src"] by (simp add: word_less_nat_alt)
    moreover have "src + i - dest = i - (dest - src)" by simp
    ultimately show ?thesis by (simp only: not_False_eq_True)
  qed simp
  have grow: "a - dest < i + 1 \<longleftrightarrow> a - dest < i \<or> a = dest + i" for a
  proof -
    have "a = dest + i \<longleftrightarrow> a - dest = i" by (auto simp: algebra_simps)
    then show ?thesis using unat_u64_Suc [OF less]
      by (simp only: word_less_nat_alt u64_eq_iff_unat [of "a - dest" i] less_Suc_eq)
  qed
  have "(?cpy i)(dest + i := ?cpy i (src + i)) = ?cpy (i + 1)"
    using ahead by (auto simp: fun_eq_iff grow)
  moreover have "mm_copy_loop (?cpy (i + 1)) dest src n (i + 1) = ?cpy n"
    using Suc less by (intro Suc.hyps) (auto simp: unat_u64_Suc word_le_nat_alt word_less_nat_alt)
  ultimately show ?case using less by (subst mm_copy_loop.simps) simp
qed

text \<open>
  \<open>mm_copy\<close> moves \<open>copy_len\<close> bytes as \<open>memmove\<close> would, and touches nothing else, unless the
  destination starts inside the source after its first byte; overlapping towards lower addresses is safe.
\<close>

theorem mm_copy_moves:
  assumes "dest = src \<or> copy_len \<le> dest - src"
  shows "mm_copy m dest src copy_len = (\<lambda>a. if a - dest < copy_len then m (src + (a - dest)) else m a)"
  using mm_copy_loop_moves [OF assms, of 0 m] by (simp add: mm_copy_def)

theorem mm_copy_moves_witness:
  "mm_copy (\<lambda>a. ucast a) 0x10 0x12 4 = (\<lambda>a. if a - 0x10 < 4 then ucast (0x12 + (a - 0x10)) else ucast a)"
  using mm_copy_moves [of "0x10" "0x12" 4 "\<lambda>a. ucast a"] by simp

lemma mm_compare_loop_first:
  "i < n \<Longrightarrow> (\<forall>j. j < i \<longrightarrow> m (a + j) = m (b + j)) \<Longrightarrow>
   (mm_compare_loop m a b n i c = 0 \<longleftrightarrow> (\<forall>j<n. m (a + j) = m (b + j))) \<and>
   (mm_compare_loop m a b n i c \<noteq> 0 \<longrightarrow> (\<exists>k<n. (\<forall>j<k. m (a + j) = m (b + j)) \<and>
      mm_compare_loop m a b n i c = uint (m (a + k)) - uint (m (b + k))))"
proof (induction m a b n i c rule: mm_compare_loop.induct)
  case (1 m a b n i c)
  show ?case
  proof (cases "m (a + i) = m (b + i)")
    case False
    then have "uint (m (a + i)) - uint (m (b + i)) \<noteq> 0" by (simp add: word_uint_eq_iff)
    then have "mm_compare_loop m a b n i c = uint (m (a + i)) - uint (m (b + i))"
      using "1.prems" by (subst mm_compare_loop.simps) (simp add: Let_def)
    with \<open>_ \<noteq> 0\<close> show ?thesis using "1.prems" False by metis
  next
    case True
    have rec: "mm_compare_loop m a b n i c = mm_compare_loop m a b n (i + 1) 0"
      using "1.prems" True by (subst mm_compare_loop.simps) (simp add: Let_def)
    have upto: "j < i + 1 \<longleftrightarrow> j < i \<or> j = i" for j
      using unat_u64_Suc [OF "1.prems"(1)] by (auto simp: word_less_nat_alt u64_eq_iff_unat)
    show ?thesis
    proof (cases "i + 1 < n")
      case lt: True
      then show ?thesis using "1.IH" [of 0] "1.prems" True upto by (auto simp: rec)
    next
      case ge: False
      then have "unat n = Suc (unat i)"
        using unat_u64_Suc [OF "1.prems"(1)] "1.prems"(1) by (simp add: word_less_nat_alt)
      then have "\<forall>j<n. m (a + j) = m (b + j)"
        using "1.prems" True by (auto simp: word_less_nat_alt less_Suc_eq dest: u64_eq_iff_unat [THEN iffD2])
      moreover have "mm_compare_loop m a b n (i + 1) 0 = 0" using ge by (subst mm_compare_loop.simps) simp
      ultimately show ?thesis by (simp add: rec)
    qed
  qed
qed

text \<open>
  \<open>mm_compare\<close> returns 0 exactly when the two ranges hold the same bytes, and otherwise the
  difference of the first two bytes that differ; an empty range is refused.
\<close>

theorem mm_compare_first_difference:
  "(if len = 0 then mm_compare m a b len = Stop AssertFail
    else \<exists>d. mm_compare m a b len = Ret d \<and> (d = 0 \<longleftrightarrow> (\<forall>j<len. m (a + j) = m (b + j))) \<and>
      (d \<noteq> 0 \<longrightarrow> (\<exists>k<len. (\<forall>j<k. m (a + j) = m (b + j)) \<and> d = uint (m (a + k)) - uint (m (b + k)))))"
proof (cases "len = 0")
  case False
  then have "0 < len" by (simp add: word_gt_0)
  then show ?thesis using mm_compare_loop_first [of 0 len m a b 0] False by (simp add: mm_compare_def)
qed (simp add: mm_compare_def)

theorem mm_compare_first_difference_witness:
  "\<exists>d. mm_compare (\<lambda>a. ucast a) 10 20 4 = Ret d \<and> d \<noteq> 0"
proof -
  have "(ucast (10 + (0::u64)) :: u8) \<noteq> ucast (20 + (0::u64))" "(0::u64) < 4" by simp_all
  then have "\<not> (\<forall>j::u64<4. (ucast (10 + j) :: u8) = ucast (20 + j))" by blast
  then show ?thesis using mm_compare_first_difference [of 4 "\<lambda>a. ucast a" 10 20] by auto
qed

end
