(* ===== verification/Mm_Table.thy ===== *)
theory Mm_Table
  imports Mm
begin

text \<open>
  The page-table half of \<open>src/src/mm/mm_page.c\<close> that the frame allocator of
  \<open>src/src/mm/mm_frame.c\<close> already needs: table entries, the indices of a virtual address, and the
  window through which the kernel reaches a physical page (\<open>mm_page_direct_access_setup\<close> and
  \<open>mm_page_direct_access_reset\<close>), together with the state the memory managers share and the
  address translation that the processor performs on it.

  Physical memory is \<open>pmem\<close>, a function from the address of an aligned 8-byte word to its value.
  Objects of the kernel image (\<open>_tab_4\<close>, \<open>_direct_tab_space\<close>, \<open>_early_frame_pool\<close>) are identity
  mapped, so their virtual address is the physical one; the linker's choice of it is a field of the
  state that no operation changes. Everything else is reached through a virtual address, which
  \<open>walk\<close> translates by reading the tables in \<open>pmem\<close> as the processor does; an access to an
  unmapped address stops with \<open>PageFault\<close>. Logging leaves the state alone and is not modelled here.
\<close>

record phy_mem_section =
  sec_base :: u64
  sec_len :: u64

record mm_state =
  pmem :: "u64 \<Rightarrow> u64"
  cr3 :: u64
  tab_4 :: u64
  early_frame_pool :: u64
  direct_tab_space :: u64
  direct_tab_arr :: u64
  direct_tab :: "u64 list"
  direct_tab_entry :: u64
  direct_vadd :: u64
  early_map_end :: u64
  phy_mem_secs :: "phy_mem_section list"
  phy_mem_size :: u64
  early_frame_count :: u64
  is_early_stage :: bool
  free_head :: u64
  free_count :: u64

definition UPTR_NULL :: u64 where "UPTR_NULL = 0"

subsection \<open>Table entries\<close>

text \<open>
  A \<open>tab_entry_t\<close> is the packed 64-bit word: bit 0 is \<open>present\<close>, bit 1 \<open>writable\<close>, bit 7 \<open>huge\<close>.
\<close>

definition tab_entry_is_zero :: "u64 \<Rightarrow> bool" where
  "tab_entry_is_zero e = (e = 0)"

definition tab_entry_is_present :: "u64 \<Rightarrow> bool" where
  "tab_entry_is_present e = bit e 0"

definition tab_entry_is_huge :: "u64 \<Rightarrow> bool" where
  "tab_entry_is_huge e = bit e 7"

definition tab_entry_get_padd :: "u64 \<Rightarrow> u64" where
  "tab_entry_get_padd ent = ent AND 0x0ffffffffffff000"

definition tab_entry_init :: "nat \<Rightarrow> bool \<Rightarrow> bool \<Rightarrow> u64 \<Rightarrow> u64 \<Rightarrow> u64 res" where
  "tab_entry_init level present write padd padd_size =
     rbind (if level = 4 \<or> level = 1 then kassert (padd_size = PAGE_SIZE_4K) (Ret ())
            else if level = 2 then kassert (padd_size = PAGE_SIZE_4K \<or> padd_size = PAGE_SIZE_2M) (Ret ())
            else if level = 3 then kassert (padd_size = PAGE_SIZE_4K \<or> padd_size = PAGE_SIZE_1G) (Ret ())
            else Stop (KernelPanic ''Invalid page table level'')) (\<lambda>_.
     rbind (mm_align_check padd padd_size) (\<lambda>aligned.
     kassert aligned
     (kassert (padd \<le> VA_48_LOW_END \<or> padd \<ge> VA_48_HIGH_START)
       (let e = padd;
            e = (if present then e OR 1 else e);
            e = (if write then e OR 2 else e);
            e = (if padd_size = PAGE_SIZE_2M \<or> padd_size = PAGE_SIZE_1G then e OR 0x80 else e)
        in Ret e))))"

text \<open>
  \<open>_vadd_tab_index\<close>: the 9 bits of the address that select the entry at a level.
\<close>

definition tab_index :: "u64 \<Rightarrow> nat \<Rightarrow> u64" where
  "tab_index va level = drop_bit ((level - 1) * 9 + 12) va AND 0x1ff"

definition vadd_tab_index :: "u64 \<Rightarrow> nat \<Rightarrow> u64 res" where
  "vadd_tab_index va level =
     kassert (1 \<le> level \<and> level \<le> 4)
       (let idx = tab_index va level in kassert (idx < 512) (Ret idx))"

definition vadd_page_offset :: "u64 \<Rightarrow> nat \<Rightarrow> u64 res" where
  "vadd_page_offset va lv =
     (if lv = 1 then Ret (va AND 0xfff)
      else if lv = 2 then Ret (va AND 0x1fffff)
      else Stop (KernelPanic ''Invalid page table level''))"

subsection \<open>Translation by the processor\<close>

text \<open>
  The four-level translation of the x86-64 architecture, which is the specification the mapping code
  is checked against. Bits 12 to 51 of an entry are the address; an entry of level 3 or 2 with bit 7
  set maps a page of 1 GB or 2 MB.
\<close>

definition canonical :: "u64 \<Rightarrow> bool" where
  "canonical va \<longleftrightarrow> va \<le> VA_48_LOW_END \<or> va \<ge> VA_48_HIGH_START"

definition hw_padd :: "u64 \<Rightarrow> u64" where
  "hw_padd e = e AND 0x000ffffffffff000"

fun walk_from :: "(u64 \<Rightarrow> u64) \<Rightarrow> nat \<Rightarrow> u64 \<Rightarrow> u64 \<Rightarrow> u64 option" where
  "walk_from m 0 t va = Some (t + (va AND 0xfff))"
| "walk_from m (Suc l) t va =
     (let e = m (t + 8 * tab_index va (Suc l)) in
      if \<not> bit e 0 then None
      else if bit e 7 \<and> (l = 1 \<or> l = 2)
        then Some ((hw_padd e AND NOT (mask (12 + 9 * l))) + (va AND mask (12 + 9 * l)))
      else walk_from m l (hw_padd e) va)"

definition walk :: "'a mm_state_scheme \<Rightarrow> u64 \<Rightarrow> u64 option" where
  "walk s va = (if canonical va then walk_from (pmem s) 4 (cr3 s) va else None)"

definition vload :: "u64 \<Rightarrow> 'a mm_state_scheme \<Rightarrow> u64 res" where
  "vload va s = (case walk s va of None \<Rightarrow> Stop PageFault | Some pa \<Rightarrow> Ret (pmem s pa))"

definition pmem_store :: "u64 \<Rightarrow> u64 \<Rightarrow> 'a mm_state_scheme \<Rightarrow> 'a mm_state_scheme" where
  "pmem_store pa v s = s\<lparr>pmem := (pmem s)(pa := v)\<rparr>"

definition vstore :: "u64 \<Rightarrow> u64 \<Rightarrow> 'a mm_state_scheme \<Rightarrow> 'a mm_state_scheme res" where
  "vstore va v s = (case walk s va of None \<Rightarrow> Stop PageFault | Some pa \<Rightarrow> Ret (pmem_store pa v s))"

subsection \<open>The direct access window\<close>

definition mm_page_direct_access_setup :: "u64 \<Rightarrow> 'a mm_state_scheme \<Rightarrow> (u64 \<times> 'a mm_state_scheme) res" where
  "mm_page_direct_access_setup padd s =
     rbind (mm_align_check padd PAGE_SIZE_4K) (\<lambda>aligned.
     kassert aligned
     (kassert (tab_entry_is_zero (pmem s (direct_tab_entry s)))
     (rbind (tab_entry_init 1 True True padd PAGE_SIZE_4K) (\<lambda>e.
        Ret (direct_vadd s, pmem_store (direct_tab_entry s) e s)))))"

definition mm_page_direct_access_reset :: "'a mm_state_scheme \<Rightarrow> 'a mm_state_scheme res" where
  "mm_page_direct_access_reset s =
     kassert (tab_entry_is_present (pmem s (direct_tab_entry s)))
       (Ret (pmem_store (direct_tab_entry s) 0 s))"

definition direct_access_is_reset :: "'a mm_state_scheme \<Rightarrow> bool res" where
  "direct_access_is_reset s =
     (let e = pmem s (direct_tab_entry s); present = tab_entry_is_present e in
      if \<not> present then kassert (tab_entry_is_zero e) (Ret (present = False)) else Ret (present = False))"

text \<open>\<open>_tab_zero\<close>: \<open>mm_clean\<close> of the 512 entries of a table, through its virtual address.\<close>

fun tab_zero_loop :: "nat \<Rightarrow> u64 \<Rightarrow> 'a mm_state_scheme \<Rightarrow> 'a mm_state_scheme res" where
  "tab_zero_loop 0 va s = Ret s"
| "tab_zero_loop (Suc n) va s = rbind (vstore va 0 s) (tab_zero_loop n (va + 8))"

definition tab_zero :: "u64 \<Rightarrow> 'a mm_state_scheme \<Rightarrow> 'a mm_state_scheme res" where
  "tab_zero tab s = tab_zero_loop 512 tab s"

fun tab_is_zero_loop :: "nat \<Rightarrow> u64 \<Rightarrow> 'a mm_state_scheme \<Rightarrow> bool res" where
  "tab_is_zero_loop 0 va s = Ret True"
| "tab_is_zero_loop (Suc n) va s =
     rbind (vload va s) (\<lambda>e. if \<not> tab_entry_is_zero e then Ret False else tab_is_zero_loop n (va + 8) s)"

definition tab_is_zero :: "u64 \<Rightarrow> 'a mm_state_scheme \<Rightarrow> bool res" where
  "tab_is_zero tab s =
     rbind (mm_align_check tab PAGE_SIZE_4K) (\<lambda>aligned. kassert aligned (tab_is_zero_loop 512 tab s))"

subsection \<open>Frames and their entries\<close>

text \<open>A frame the kernel can hand out: page aligned, not null, below the end of the low half.\<close>

definition frame_ok :: "u64 \<Rightarrow> bool" where
  "frame_ok f \<longleftrightarrow> f mod 4096 = 0 \<and> f \<noteq> 0 \<and> f \<le> VA_48_LOW_END"

abbreviation mk_entry :: "u64 \<Rightarrow> u64" where
  "mk_entry f \<equiv> f OR 3"

lemma frame_ok_unat: "frame_ok f \<longleftrightarrow> 4096 dvd unat f \<and> 0 < unat f \<and> unat f < 140737488355328"
proof -
  have "f mod 4096 = 0 \<longleftrightarrow> 4096 dvd unat f" by (simp add: u64_eq_iff_unat unat_mod mod_eq_0_iff_dvd)
  moreover have "f \<noteq> 0 \<longleftrightarrow> 0 < unat f" by (simp add: unat_gt_0)
  moreover have "f \<le> VA_48_LOW_END \<longleftrightarrow> unat f < 140737488355328" by (auto simp: VA_48_LOW_END_def word_le_nat_alt)
  ultimately show ?thesis by (simp only: frame_ok_def)
qed

lemma frame_ok_bits: "f mod 4096 = 0 \<Longrightarrow> f \<le> VA_48_LOW_END \<Longrightarrow> bit f n \<Longrightarrow> 12 \<le> n \<and> n < 47"
proof -
  assume al: "f mod 4096 = 0" and le: "f \<le> VA_48_LOW_END" and b: "bit f n"
  have low: "f AND mask 12 = 0" using al word_mod_2p_is_mask [of 12 f] by simp
  have "n < 12 \<Longrightarrow> bit (f AND mask 12) n" using b by (simp add: bit_and_iff bit_mask_iff)
  with low have "\<not> n < 12" by auto
  moreover have "unat f < 2 ^ 47" using le by (simp add: VA_48_LOW_END_def word_le_nat_alt)
  then have "take_bit 47 f = f" by (simp add: u64_eq_iff_unat unsigned_take_bit_eq take_bit_nat_eq_self)
  then have "n < 47" using b by (metis bit_take_bit_iff)
  ultimately show ?thesis by simp
qed

lemma mk_entry_fields:
  assumes "f mod 4096 = 0" "f \<le> VA_48_LOW_END"
  shows "bit (mk_entry f) 0" "\<not> bit (mk_entry f) 7" "hw_padd (mk_entry f) = f"
    "tab_entry_get_padd (mk_entry f) = f" "mk_entry f \<noteq> 0"
proof -
  note bits = frame_ok_bits [OF assms]
  have m: "(0x000ffffffffff000 :: u64) = mask 52 AND NOT (mask 12)" "(0x0ffffffffffff000 :: u64) = mask 60 AND NOT (mask 12)"
    by (simp_all add: mask_eq_exp_minus_1)
  have m2: "(3::u64) = mask 2" by (simp add: mask_eq_exp_minus_1)
  have b3: "bit (3::u64) n \<longleftrightarrow> n < 2" for n unfolding m2 by (auto simp: bit_mask_iff)
  show "bit (mk_entry f) 0" by (simp add: bit_or_iff b3)
  show "\<not> bit (mk_entry f) 7" using bits [of 7] by (auto simp: bit_or_iff b3)
  have "mk_entry f AND mask k AND NOT (mask 12) = f" if "47 \<le> k" "k \<le> 64" for k
  proof (rule bit_word_eqI)
    fix n
    show "bit (mk_entry f AND mask k AND NOT (mask 12)) n = bit f n"
      using that bits [of n] b3 [of n]
      by (simp only: bit_and_iff bit_or_iff bit_not_iff bit_mask_iff possible_bit_word) auto
  qed
  then show "hw_padd (mk_entry f) = f" "tab_entry_get_padd (mk_entry f) = f"
    unfolding hw_padd_def tab_entry_get_padd_def m by simp_all
  show "mk_entry f \<noteq> 0" using \<open>bit (mk_entry f) 0\<close> by auto
qed

lemma mk_entry_present [simp]: "bit (mk_entry f) 0"
proof -
  have m2: "(3::u64) = mask 2" by (simp add: mask_eq_exp_minus_1)
  show ?thesis unfolding m2 bit_or_iff by (simp only: bit_mask_iff possible_bit_word) simp
qed

lemma tab_entry_init_4K:
  "1 \<le> l \<Longrightarrow> l \<le> 4 \<Longrightarrow> f mod 4096 = 0 \<Longrightarrow> f \<le> VA_48_LOW_END \<Longrightarrow>
   tab_entry_init l True True f PAGE_SIZE_4K = Ret (mk_entry f)"
  by (auto simp: tab_entry_init_def mm_align_check_def page_size_defs Let_def kassert_def or.assoc)

lemma tab_index_less: "tab_index va l < 512" "unat (tab_index va l) < 512"
proof -
  have "tab_index va l \<le> 0x1ff" unfolding tab_index_def by (rule word_and_le1)
  then show "tab_index va l < 512" "unat (tab_index va l) < 512"
    by (auto simp: word_less_nat_alt word_le_nat_alt)
qed

lemma vadd_tab_index_Ret [simp]: "1 \<le> l \<Longrightarrow> l \<le> 4 \<Longrightarrow> vadd_tab_index va l = Ret (tab_index va l)"
  by (simp add: vadd_tab_index_def tab_index_less)

text \<open>Entries of different frames, or different entries of one frame, are different words.\<close>

lemma unat_entry: "frame_ok t \<Longrightarrow> unat i < 512 \<Longrightarrow> unat (t + 8 * i) = unat t + 8 * unat i"
  by (subst unat_u64_add) (auto simp: unat_u64_mult frame_ok_unat)

lemma entry_inj:
  assumes "frame_ok t" "frame_ok t'" "unat i < 512" "unat i' < 512"
  shows "t + 8 * i = t' + 8 * i' \<longleftrightarrow> t = t' \<and> i = i'"
proof
  assume "t + 8 * i = t' + 8 * i'"
  then have "unat (t + 8 * i) = unat (t' + 8 * i')" by (rule arg_cong)
  then have eq: "unat t + 8 * unat i = unat t' + 8 * unat i'" using assms by (simp only: unat_entry)
  from assms(1,2) obtain a b where ab: "unat t = 4096 * a" "unat t' = 4096 * b"
    unfolding frame_ok_unat by (metis dvdE)
  have "(4096 * a + 8 * unat i) div 4096 = a" "(4096 * b + 8 * unat i') div 4096 = b"
    using assms(3,4) by auto
  with eq ab have "a = b" by simp
  with eq ab show "t = t' \<and> i = i'" by (simp add: u64_eq_iff_unat)
qed simp

subsection \<open>The tree of page tables\<close>

text \<open>
  \<open>tab_at m r va d\<close> is the table that the walk of \<open>va\<close> reaches after \<open>d\<close> levels, if it gets so far;
  its level is \<open>4 - d\<close>, and depth 4 is the 4 KB frame itself.
\<close>

definition next_tab :: "nat \<Rightarrow> u64 \<Rightarrow> u64 option" where
  "next_tab l e = (if bit e 0 \<and> \<not> (bit e 7 \<and> (l = 2 \<or> l = 3)) then Some (hw_padd e) else None)"

abbreviation entry_at :: "u64 \<Rightarrow> u64 \<Rightarrow> nat \<Rightarrow> u64" where
  "entry_at t va d \<equiv> t + 8 * tab_index va (4 - d)"

fun tab_at :: "(u64 \<Rightarrow> u64) \<Rightarrow> u64 \<Rightarrow> u64 \<Rightarrow> nat \<Rightarrow> u64 option" where
  "tab_at m r va 0 = Some r"
| "tab_at m r va (Suc d) =
     (case tab_at m r va d of None \<Rightarrow> None | Some t \<Rightarrow> next_tab (4 - d) (m (entry_at t va d)))"

lemma tab_at_cong:
  assumes "\<And>k t. k < d \<Longrightarrow> tab_at m r va k = Some t \<Longrightarrow> m' (entry_at t va k) = m (entry_at t va k)"
  shows "tab_at m' r va d = tab_at m r va d"
  using assms
proof (induction d)
  case (Suc d)
  then have "tab_at m' r va d = tab_at m r va d" by simp
  with Suc.prems [of d] show ?case by (cases "tab_at m r va d") auto
qed simp

lemma tab_at_below: "tab_at m r va d = Some t \<Longrightarrow> k \<le> d \<Longrightarrow> \<exists>t'. tab_at m r va k = Some t'"
proof (induction d arbitrary: t)
  case (Suc d)
  then show ?case by (cases "k = Suc d") (auto split: option.splits)
qed simp

lemma walk_tab_at: "d \<le> 4 \<Longrightarrow> tab_at m r va d = Some t \<Longrightarrow> walk_from m 4 r va = walk_from m (4 - d) t va"
proof (induction d arbitrary: t)
  case (Suc d)
  then obtain u where u: "tab_at m r va d = Some u" "next_tab (4 - d) (m (entry_at u va d)) = Some t"
    by (auto split: option.splits)
  obtain l where l: "4 - d = Suc l" using Suc.prems(1) by (cases "4 - d") auto
  then have "4 - Suc d = l" by simp
  with Suc.IH [of u] Suc.prems(1) u l show ?case
    by (auto simp: next_tab_def Let_def split: if_splits)
qed simp

lemma walk_from_cong:
  assumes "\<And>k t. k < 4 \<Longrightarrow> tab_at m r va k = Some t \<Longrightarrow> m' (entry_at t va k) = m (entry_at t va k)"
  shows "n \<le> 4 \<Longrightarrow> tab_at m r va (4 - n) = Some t \<Longrightarrow> walk_from m' n t va = walk_from m n t va"
proof (induction n arbitrary: t)
  case (Suc l)
  let ?e = "m (entry_at t va (4 - Suc l))"
  have lev: "4 - (4 - Suc l) = Suc l" "Suc (4 - Suc l) = 4 - l" using Suc.prems(1) by auto
  have e: "m' (t + 8 * tab_index va (Suc l)) = m (t + 8 * tab_index va (Suc l))"
    using assms [of "4 - Suc l"] Suc.prems lev by (metis diff_less zero_less_Suc zero_less_numeral)
  have "next_tab (Suc l) (m (t + 8 * tab_index va (Suc l))) = Some u \<Longrightarrow> tab_at m r va (4 - l) = Some u" for u
    using Suc.prems lev by (metis option.simps(5) tab_at.simps(2))
  with Suc.IH Suc.prems(1) e show ?case by (auto simp: next_tab_def Let_def)
qed simp

text \<open>Two addresses take the same turns at the first \<open>d\<close> levels.\<close>

definition same_path :: "nat \<Rightarrow> u64 \<Rightarrow> u64 \<Rightarrow> bool" where
  "same_path d va va' \<longleftrightarrow> (\<forall>k<d. tab_index va (4 - k) = tab_index va' (4 - k))"

lemma same_path_refl [simp]: "same_path d va va"
  by (simp add: same_path_def)

lemma same_path_Suc: "same_path (Suc d) va va' \<longleftrightarrow> same_path d va va' \<and> tab_index va (4 - d) = tab_index va' (4 - d)"
  by (auto simp: same_path_def less_Suc_eq)

lemma same_path_mono: "same_path d va va' \<Longrightarrow> k \<le> d \<Longrightarrow> same_path k va va'"
  by (simp add: same_path_def)

lemma tab_at_same_path: "same_path d va va' \<Longrightarrow> tab_at m r va d = tab_at m r va' d"
  by (induction d) (auto simp: same_path_Suc split: option.splits)

text \<open>
  A well-formed tree: every table is a usable frame, is reached along one path only, and holds
  entries that are zero or present, whose address the kernel and the processor read alike.
\<close>

definition entry_ok :: "nat \<Rightarrow> u64 \<Rightarrow> bool" where
  "entry_ok d e \<longleftrightarrow> (e = 0 \<or> bit e 0) \<and> (d < 3 \<longrightarrow> next_tab (4 - d) e \<noteq> None \<longrightarrow> tab_entry_get_padd e = hw_padd e)"

lemma entry_ok_0 [simp]: "entry_ok d 0"
  by (simp add: entry_ok_def next_tab_def)

definition tree_ok :: "(u64 \<Rightarrow> u64) \<Rightarrow> u64 \<Rightarrow> bool" where
  "tree_ok m r \<longleftrightarrow>
     (\<forall>va d t. d \<le> 3 \<longrightarrow> tab_at m r va d = Some t \<longrightarrow> frame_ok t \<and> entry_ok d (m (entry_at t va d))) \<and>
     (\<forall>va va' d d' t. d \<le> 3 \<longrightarrow> d' \<le> 3 \<longrightarrow> tab_at m r va d = Some t \<longrightarrow> tab_at m r va' d' = Some t \<longrightarrow>
        d = d' \<and> same_path d va va')"

definition is_table :: "(u64 \<Rightarrow> u64) \<Rightarrow> u64 \<Rightarrow> u64 \<Rightarrow> bool" where
  "is_table m r t \<longleftrightarrow> (\<exists>va d. d \<le> 3 \<and> tab_at m r va d = Some t)"

lemma tree_okD:
  assumes "tree_ok m r" "tab_at m r va d = Some t" "d \<le> 3"
  shows "frame_ok t" "entry_ok d (m (entry_at t va d))" "is_table m r t"
  using assms unfolding tree_ok_def is_table_def by blast+

lemma tree_ok_unique:
  assumes "tree_ok m r" "tab_at m r va d = Some t" "tab_at m r va' d' = Some t" "d \<le> 3" "d' \<le> 3"
  shows "d = d'" "same_path d va va'"
  using assms unfolding tree_ok_def by blast+

lemma entry_unique:
  assumes ok: "tree_ok m r" and t: "tab_at m r va d = Some t" "d \<le> 3" and t0: "tab_at m r va0 d0 = Some t0" "d0 \<le> 3"
    and eq: "entry_at t va d = entry_at t0 va0 d0"
  shows "d = d0" "same_path (Suc d0) va va0"
proof -
  have "t = t0" "tab_index va (4 - d) = tab_index va0 (4 - d0)"
    using eq entry_inj [OF tree_okD(1) [OF ok t] tree_okD(1) [OF ok t0] tab_index_less(2) tab_index_less(2)] by blast+
  with tree_ok_unique [OF ok t(1) _ t(2) t0(2)] t0 show "d = d0" "same_path (Suc d0) va va0"
    by (auto simp: same_path_Suc)
qed

text \<open>Writes that miss every table change neither the tree nor the translation.\<close>

lemma tree_outside:
  assumes ok: "tree_ok m r" and out: "\<And>t i. is_table m r t \<Longrightarrow> unat i < 512 \<Longrightarrow> m' (t + 8 * i) = m (t + 8 * i)"
  shows "d \<le> 4 \<Longrightarrow> tab_at m' r va d = tab_at m r va d" "tree_ok m' r" "is_table m' r = is_table m r"
    "walk_from m' 4 r va = walk_from m 4 r va"
proof -
  have same: "m' (entry_at t va k) = m (entry_at t va k)" if "k < 4" "tab_at m r va k = Some t" for va k t
  proof -
    have "is_table m r t" using that unfolding is_table_def by (intro exI [of _ va] exI [of _ k]) simp
    then show ?thesis using out tab_index_less(2) by blast
  qed
  then show at: "tab_at m' r va d = tab_at m r va d" if "d \<le> 4" for va d
    using that by (intro tab_at_cong) auto
  show "tree_ok m' r" using ok same at unfolding tree_ok_def by (simp add: le_imp_less_Suc)
  have "d \<le> 3 \<and> tab_at m' r va d = Some t \<longleftrightarrow> d \<le> 3 \<and> tab_at m r va d = Some t" for va d t
    using at [of d va] by auto
  then show "is_table m' r = is_table m r" by (simp add: is_table_def fun_eq_iff)
  show "walk_from m' 4 r va = walk_from m 4 r va"
    using walk_from_cong [of m r va m' 4 r] same by simp
qed

text \<open>A write to one entry is only seen by the addresses whose path goes through that entry.\<close>

lemma upd_miss:
  assumes ok: "tree_ok m r" and t0: "tab_at m r va0 d0 = Some t0" "d0 \<le> 3"
    and miss: "d \<le> d0 \<or> \<not> same_path (Suc d0) va va0" "d \<le> 4"
  shows "tab_at (m(entry_at t0 va0 d0 := v)) r va d = tab_at m r va d"
proof (rule tab_at_cong)
  fix k t
  assume k: "k < d" "tab_at m r va k = Some t"
  then have "entry_at t va k \<noteq> entry_at t0 va0 d0"
    using entry_unique [OF ok k(2) _ t0] miss by auto
  then show "(m(entry_at t0 va0 d0 := v)) (entry_at t va k) = m (entry_at t va k)" by simp
qed

lemma upd_hit:
  assumes ok: "tree_ok m r" and t0: "tab_at m r va0 d0 = Some t0" "d0 \<le> 3" and same: "same_path (Suc d0) va va0"
  shows "tab_at (m(entry_at t0 va0 d0 := v)) r va (Suc d0) = next_tab (4 - d0) v"
proof -
  have "tab_at (m(entry_at t0 va0 d0 := v)) r va d0 = tab_at m r va d0"
    using upd_miss [OF ok t0, of d0] t0(2) by simp
  also have "\<dots> = Some t0" using same t0 by (metis same_path_Suc tab_at_same_path)
  finally show ?thesis using same by (simp add: same_path_Suc)
qed

lemma upd_walk_miss:
  assumes ok: "tree_ok m r" and t0: "tab_at m r va0 d0 = Some t0" "d0 \<le> 3" and miss: "\<not> same_path (Suc d0) va va0"
  shows "walk_from (m(entry_at t0 va0 d0 := v)) 4 r va = walk_from m 4 r va"
proof -
  have "entry_at t va k \<noteq> entry_at t0 va0 d0" if "k < 4" "tab_at m r va k = Some t" for k t
    using entry_unique [OF ok that(2) _ t0] that(1) miss by auto
  then show ?thesis by (intro walk_from_cong [of m r va _ 4 r]) auto
qed

lemma walk_hit:
  assumes t0: "tab_at m r va0 d0 = Some t0" "d0 \<le> 3" and same: "same_path (Suc d0) va va0"
    and none: "m (entry_at t0 va0 d0) = 0"
  shows "walk_from m 4 r va = None"
proof -
  have t: "tab_at m r va d0 = Some t0" using same t0 by (metis same_path_Suc tab_at_same_path)
  obtain l where l: "4 - d0 = Suc l" using t0(2) by (cases "4 - d0") auto
  show ?thesis using walk_tab_at [OF _ t] t0(2) same none l by (simp add: same_path_Suc)
qed

text \<open>Hanging a zeroed frame below an empty entry adds one table and maps nothing.\<close>

lemma tab_at_link:
  assumes ok: "tree_ok m r" and t0: "tab_at m r va0 d0 = Some t0" "d0 < 3"
    and f: "frame_ok f" "\<not> is_table m r f" "\<And>i. unat i < 512 \<Longrightarrow> m (f + 8 * i) = 0" and d: "d \<le> 4"
  shows "tab_at (m(entry_at t0 va0 d0 := mk_entry f)) r va d =
    (if same_path (Suc d0) va va0 \<and> d0 < d then if d = Suc d0 then Some f else None else tab_at m r va d)"
proof (cases "same_path (Suc d0) va va0 \<and> d0 < d")
  case False
  then have "tab_at (m(entry_at t0 va0 d0 := mk_entry f)) r va d = tab_at m r va d"
    using t0 d by (intro upd_miss [OF ok]) auto
  then show ?thesis using False by (simp only: if_False)
next
  case True
  let ?m = "m(entry_at t0 va0 d0 := mk_entry f)"
  have f': "f mod 4096 = 0" "f \<le> VA_48_LOW_END" using f(1) by (auto simp: frame_ok_def)
  have one: "tab_at ?m r va (Suc d0) = Some f"
    using upd_hit [OF ok t0(1)] t0(2) True mk_entry_fields [OF f'] by (simp add: next_tab_def)
  have "t0 \<noteq> f" using tree_okD(3) [OF ok t0(1)] t0(2) f(2) by auto
  then have zero: "?m (entry_at f va (Suc d0)) = 0"
    using f entry_inj [OF f(1) tree_okD(1) [OF ok t0(1)] tab_index_less(2) tab_index_less(2)] t0(2) tab_index_less(2)
    by simp
  have two: "tab_at ?m r va (Suc (Suc d0)) = None"
    by (simp only: tab_at.simps(2) [of ?m r va "Suc d0"] one option.case zero) (simp add: next_tab_def)
  have "tab_at ?m r va k = None" if "Suc (Suc d0) \<le> k" for k
    using tab_at_below [OF _ that, of ?m r va] two by (cases "tab_at ?m r va k") (auto simp del: tab_at.simps)
  then show ?thesis using True one by auto
qed

lemma tree_link:
  assumes ok: "tree_ok m r" and t0: "tab_at m r va0 d0 = Some t0" "d0 < 3" and e0: "m (entry_at t0 va0 d0) = 0"
    and f: "frame_ok f" "\<not> is_table m r f" "\<And>i. unat i < 512 \<Longrightarrow> m (f + 8 * i) = 0"
  defines "m' \<equiv> m(entry_at t0 va0 d0 := mk_entry f)"
  shows "tree_ok m' r" "is_table m' r t \<longleftrightarrow> t = f \<or> is_table m r t" "walk_from m' 4 r va = walk_from m 4 r va"
    "tab_at m' r va0 (Suc d0) = Some f"
proof -
  note at = tab_at_link [OF ok t0 f, folded m'_def]
  have f': "f mod 4096 = 0" "f \<le> VA_48_LOW_END" using f(1) by (auto simp: frame_ok_def)
  have t0f: "frame_ok t0" "t0 \<noteq> f" using tree_okD [OF ok t0(1)] t0(2) f(2) by auto
  show new: "tab_at m' r va0 (Suc d0) = Some f" using at [of "Suc d0" va0] t0(2) by simp
  have dead: "tab_at m r va d = None" if "same_path (Suc d0) va va0" "d0 < d" for va d
  proof -
    have "tab_at m r va d0 = Some t0" using that t0(1) by (metis same_path_Suc tab_at_same_path)
    then have "tab_at m r va (Suc d0) = None" using e0 that by (simp add: next_tab_def same_path_Suc)
    then show ?thesis using tab_at_below [of m r va d _ "Suc d0"] that(2) by (cases "tab_at m r va d") auto
  qed
  have cases: "(tab_at m r va d = Some t \<and> t \<noteq> f) \<or> (t = f \<and> d = Suc d0 \<and> same_path (Suc d0) va va0)"
    if "tab_at m' r va d = Some t" "d \<le> 3" for va d t
    using that at [of d va] f(2) unfolding is_table_def by (auto split: if_splits)
  have entry: "m' (entry_at t va d) = (if d = d0 \<and> same_path (Suc d0) va va0 then mk_entry f else m (entry_at t va d))"
    if "tab_at m r va d = Some t" "d \<le> 3" for va d t
  proof (cases "d = d0 \<and> same_path (Suc d0) va va0")
    case True
    then have "t = t0" using that t0(1) by (metis same_path_Suc tab_at_same_path option.inject)
    then show ?thesis using True by (simp add: m'_def same_path_Suc)
  next
    case False
    then show ?thesis using entry_unique [OF ok that t0(1)] t0(2) by (auto simp: m'_def)
  qed
  have fentry: "m' (entry_at f va d) = 0" for va d
    using f entry_inj [OF f(1) t0f(1) tab_index_less(2) tab_index_less(2)] t0f(2) tab_index_less(2) by (simp add: m'_def)
  have eok: "entry_ok d (mk_entry f)" for d
    using mk_entry_fields [OF f'] by (simp add: entry_ok_def)
  show "tree_ok m' r"
    unfolding tree_ok_def
  proof (intro conjI allI impI)
    fix va d t
    assume a: "d \<le> 3" "tab_at m' r va d = Some t"
    show "frame_ok t" using cases [OF a(2,1)] tree_okD(1) [OF ok] f(1) a(1) by blast
    show "entry_ok d (m' (entry_at t va d))"
      using cases [OF a(2,1)] entry [of va d t] a(1) tree_okD(2) [OF ok, of va d t] fentry eok
      by (metis entry_ok_0)
  next
    fix va va' d d' t
    assume a: "d \<le> 3" "d' \<le> 3" "tab_at m' r va d = Some t" "tab_at m' r va' d' = Some t"
    show "d = d'" using cases [OF a(3,1)] cases [OF a(4,2)] tree_ok_unique(1) [OF ok] a(1,2) by blast
    show "same_path d va va'"
      using cases [OF a(3,1)] cases [OF a(4,2)] tree_ok_unique(2) [OF ok _ _ a(1,2)] by (auto simp: same_path_def)
  qed
  show "is_table m' r t \<longleftrightarrow> t = f \<or> is_table m r t"
  proof
    show "is_table m' r t \<Longrightarrow> t = f \<or> is_table m r t" using cases unfolding is_table_def by blast
    assume "t = f \<or> is_table m r t"
    then show "is_table m' r t"
    proof
      assume "t = f"
      then show ?thesis using new t0(2) unfolding is_table_def by (intro exI [of _ va0] exI [of _ "Suc d0"]) simp
    next
      assume "is_table m r t"
      then obtain va d where vd: "d \<le> 3" "tab_at m r va d = Some t" unfolding is_table_def by blast
      then have "tab_at m' r va d = Some t" using at [of d va] dead [of va d] by auto
      with vd show ?thesis unfolding is_table_def by blast
    qed
  qed
  show "walk_from m' 4 r va = walk_from m 4 r va"
  proof (cases "same_path (Suc d0) va va0")
    case False
    then show ?thesis using upd_walk_miss [OF ok t0(1)] t0(2) by (simp add: m'_def)
  next
    case True
    have tf: "tab_at m' r va (Suc d0) = Some f" using at [of "Suc d0" va] True t0(2) by simp
    have "walk_from m' 4 r va = None"
      using walk_hit [OF tf _ same_path_refl fentry] t0(2) by simp
    moreover have "walk_from m 4 r va = None" using walk_hit [OF t0(1) _ True e0] t0(2) by simp
    ultimately show ?thesis by simp
  qed
qed

text \<open>Writing an entry of level 1 changes the translation of one page and no table.\<close>

lemma tree_leaf:
  assumes ok: "tree_ok m r" and t0: "tab_at m r va0 3 = Some t0" and v: "v = 0 \<or> bit v 0"
  defines "m' \<equiv> m(entry_at t0 va0 3 := v)"
  shows "d \<le> 3 \<Longrightarrow> tab_at m' r va d = tab_at m r va d" "tree_ok m' r" "is_table m' r = is_table m r"
    "walk_from m' 4 r va =
      (if same_path 4 va va0 then if bit v 0 then Some (hw_padd v + (va AND 0xfff)) else None
       else walk_from m 4 r va)"
proof -
  show at: "tab_at m' r va d = tab_at m r va d" if "d \<le> 3" for va d
    unfolding m'_def using that upd_miss [OF ok t0] by simp
  have entry: "m' (entry_at t va d) = (if d = 3 \<and> same_path 4 va va0 then v else m (entry_at t va d))"
    if "tab_at m r va d = Some t" "d \<le> 3" for va d t
  proof (cases "d = 3 \<and> same_path 4 va va0")
    case True
    then have "same_path 3 va va0" using same_path_mono [of 4 va va0 3] by simp
    with True that t0 have "t = t0" by (simp add: tab_at_same_path)
    then show ?thesis using True same_path_Suc [of 3 va va0] by (simp add: m'_def)
  next
    case False
    then show ?thesis using entry_unique [OF ok that t0] by (auto simp: m'_def)
  qed
  show "tree_ok m' r"
    unfolding tree_ok_def
  proof (intro conjI allI impI)
    fix va d t
    assume a: "d \<le> 3" "tab_at m' r va d = Some t"
    then have b: "tab_at m r va d = Some t" using at by simp
    show "frame_ok t" using tree_okD(1) [OF ok b a(1)] .
    show "entry_ok d (m' (entry_at t va d))"
      using entry [OF b a(1)] tree_okD(2) [OF ok b a(1)] v by (auto simp: entry_ok_def)
  next
    fix va va' d d' t
    assume a: "d \<le> 3" "d' \<le> 3" "tab_at m' r va d = Some t" "tab_at m' r va' d' = Some t"
    then show "d = d'" "same_path d va va'" using tree_ok_unique [OF ok _ _ a(1,2)] at by auto
  qed
  have "d \<le> 3 \<and> tab_at m' r va d = Some t \<longleftrightarrow> d \<le> 3 \<and> tab_at m r va d = Some t" for va d t
    using at [of d va] by auto
  then show "is_table m' r = is_table m r" by (simp add: is_table_def fun_eq_iff)
  show "walk_from m' 4 r va = (if same_path 4 va va0 then if bit v 0 then Some (hw_padd v + (va AND 0xfff)) else None
       else walk_from m 4 r va)"
  proof (cases "same_path 4 va va0")
    case False
    then show ?thesis using upd_walk_miss [OF ok t0, of va v] by (simp add: m'_def)
  next
    case True
    then have s3: "same_path 3 va va0" by (rule same_path_mono) simp
    then have t: "tab_at m' r va 3 = Some t0" using at [of 3 va] t0 tab_at_same_path by simp
    have "m' (entry_at t0 va 3) = v" using True same_path_Suc [of 3 va va0] by (simp add: m'_def)
    then show ?thesis using walk_tab_at [OF _ t] True by (simp add: Let_def)
  qed
qed

text \<open>Canonical addresses that take the same turns at all four levels lie in the same page.\<close>

lemma bit_tab_index: "bit (tab_index va l) n \<longleftrightarrow> n < 9 \<and> bit va ((l - 1) * 9 + 12 + n)"
proof -
  have m: "(0x1ff :: u64) = mask 9" by (simp add: mask_eq_exp_minus_1)
  show ?thesis unfolding tab_index_def m by (auto simp: bit_and_iff bit_mask_iff bit_drop_bit_eq)
qed

lemma tab_index_bits:
  assumes "tab_index va l = tab_index va' l" "(l - 1) * 9 + 12 \<le> n" "n < (l - 1) * 9 + 21"
  shows "bit va n = bit va' n"
  using bit_tab_index [of va l "n - ((l - 1) * 9 + 12)"] bit_tab_index [of va' l "n - ((l - 1) * 9 + 12)"] assms
  by auto

lemma same_path_bits:
  assumes "same_path 4 va va'" "12 \<le> n" "n < 48"
  shows "bit va n = bit va' n"
proof -
  let ?l = "Suc ((n - 12) div 9)"
  have "?l \<le> 4" "1 \<le> ?l" using assms(2,3) by auto
  then have "tab_index va ?l = tab_index va' ?l"
    using assms(1) unfolding same_path_def by (metis Suc_leD diff_diff_cancel diff_less zero_less_Suc less_Suc_eq_0_disj zero_less_numeral)
  moreover have "(?l - 1) * 9 + 12 \<le> n" "n < (?l - 1) * 9 + 21" using assms(2) by auto
  ultimately show ?thesis by (rule tab_index_bits)
qed

lemma low_half_bits: "x \<le> VA_48_LOW_END \<Longrightarrow> 47 \<le> n \<Longrightarrow> \<not> bit x n"
proof -
  assume "x \<le> VA_48_LOW_END" "47 \<le> n"
  then have "unat x < 2 ^ 47" by (simp add: VA_48_LOW_END_def word_le_nat_alt)
  then have "take_bit 47 x = x" by (simp add: u64_eq_iff_unat unsigned_take_bit_eq take_bit_nat_eq_self)
  then show ?thesis using \<open>47 \<le> n\<close> by (metis bit_take_bit_iff not_le)
qed

lemma canonical_bits: "canonical va \<Longrightarrow> 47 \<le> n \<Longrightarrow> n < 64 \<Longrightarrow> bit va n = bit va 47"
proof -
  assume c: "canonical va" and n: "47 \<le> n" "n < 64"
  have high: "NOT va \<le> VA_48_LOW_END" if "va \<ge> VA_48_HIGH_START"
  proof -
    have "unat (-1 - va) = unat (-1::u64) - unat va" by (rule unat_sub) simp
    moreover have "NOT va = -1 - va" by (simp add: not_eq_complement)
    moreover have "unat (-1::u64) = 18446744073709551615" by (simp add: unsigned_minus_1_eq_mask mask_eq_exp_minus_1)
    ultimately have "unat (NOT va) = 18446744073709551615 - unat va" by simp
    then show ?thesis using that by (simp add: VA_48_HIGH_START_def VA_48_LOW_END_def word_le_nat_alt)
  qed
  show ?thesis
  proof (cases "va \<le> VA_48_LOW_END")
    case True
    then show ?thesis using low_half_bits n by blast
  next
    case False
    with c have "NOT va \<le> VA_48_LOW_END" by (simp add: canonical_def high)
    then have "\<not> bit (NOT va) n" "\<not> bit (NOT va) 47" using low_half_bits n by blast+
    then show ?thesis using n by (simp add: bit_not_iff)
  qed
qed

definition same_page :: "u64 \<Rightarrow> u64 \<Rightarrow> bool" where
  "same_page va va' \<longleftrightarrow> va AND NOT 0xfff = va' AND NOT 0xfff"

lemma same_page_bits: "same_page va va' \<longleftrightarrow> (\<forall>n. 12 \<le> n \<longrightarrow> n < 64 \<longrightarrow> bit va n = bit va' n)"
proof -
  have m: "(0xfff :: u64) = mask 12" by (simp add: mask_eq_exp_minus_1)
  have "bit (va AND NOT (mask 12)) n \<longleftrightarrow> 12 \<le> n \<and> n < 64 \<and> bit va n" for va :: u64 and n
    using bit_imp_le_length [of va n] by (auto simp: bit_and_iff bit_not_iff bit_mask_iff)
  then show ?thesis unfolding same_page_def m by (auto simp: bit_eq_iff)
qed

lemma same_path_page:
  assumes "canonical va" "canonical va'"
  shows "same_path 4 va va' \<longleftrightarrow> same_page va va'"
proof
  assume p: "same_path 4 va va'"
  have "bit va n = bit va' n" if "12 \<le> n" "n < 64" for n
    using same_path_bits [OF p, of n] same_path_bits [OF p, of 47] canonical_bits [OF assms(1), of n]
      canonical_bits [OF assms(2), of n] that by (cases "n < 48") auto
  then show "same_page va va'" by (simp add: same_page_bits)
next
  assume p: "same_page va va'"
  have "tab_index va l = tab_index va' l" if "1 \<le> l" "l \<le> 4" for l
    using p that by (intro bit_word_eqI) (auto simp: bit_tab_index same_page_bits)
  then show "same_path 4 va va'" by (simp add: same_path_def)
qed

subsection \<open>The window at work\<close>

lemma page_offset:
  assumes "p mod 4096 = 0" "unat x < 4096"
  shows "(p + x) AND 0xfff = (x :: u64)" "(p + x) AND NOT 0xfff = p"
proof -
  have m: "(0xfff :: u64) = mask 12" by (simp add: mask_eq_exp_minus_1)
  have p: "bit p n \<Longrightarrow> 12 \<le> n" for n
  proof -
    assume b: "bit p n"
    have low: "p AND mask 12 = 0" using assms(1) word_mod_2p_is_mask [of 12 p] by simp
    have "n < 12 \<Longrightarrow> bit (p AND mask 12) n" using b by (simp add: bit_and_iff bit_mask_iff)
    with low show ?thesis by (metis bit_0_eq bot_apply bot_bool_def not_le)
  qed
  have x: "bit x n \<Longrightarrow> n < 12" for n
  proof -
    assume b: "bit x n"
    have "take_bit 12 x = x" using assms(2) by (simp add: u64_eq_iff_unat unsigned_take_bit_eq take_bit_nat_eq_self)
    then show ?thesis using b by (metis bit_take_bit_iff)
  qed
  have "p + x = p OR x"
    by (rule disjunctive_add_eq_or) (rule bit_word_eqI, auto simp: bit_and_iff dest!: p x)
  then show "(p + x) AND 0xfff = x" "(p + x) AND NOT 0xfff = p"
    unfolding m using p x leD by (auto intro!: bit_word_eqI simp: bit_and_iff bit_or_iff bit_not_iff bit_mask_iff) blast+
qed

lemma unat_8_mult: "unat (i :: u64) < 512 \<Longrightarrow> unat (8 * i) < 4096"
  by (simp add: unat_u64_mult)

text \<open>
  The window is ready when the direct access page has its level-1 table in the tree and its entry,
  the first of that table, is zero.
\<close>

definition page_ok :: "'a mm_state_scheme \<Rightarrow> bool" where
  "page_ok s \<longleftrightarrow> cr3 s = tab_4 s \<and> tree_ok (pmem s) (tab_4 s) \<and> direct_vadd s = VA_48_DIRECT_ACCESS_PAGE \<and>
     tab_at (pmem s) (tab_4 s) VA_48_DIRECT_ACCESS_PAGE 3 = Some (direct_tab_entry s) \<and>
     pmem s (direct_tab_entry s) = 0"

lemma direct_page_facts:
  "VA_48_DIRECT_ACCESS_PAGE mod 4096 = 0" "tab_index VA_48_DIRECT_ACCESS_PAGE (Suc 0) = 0" "canonical VA_48_DIRECT_ACCESS_PAGE"
  by (simp_all add: va_layout_defs tab_index_def canonical_def)

lemma canonical_direct: "unat i < 512 \<Longrightarrow> canonical (VA_48_DIRECT_ACCESS_PAGE + 8 * i)"
proof -
  assume i: "unat i < 512"
  then have "unat (VA_48_DIRECT_ACCESS_PAGE + 8 * i) = unat VA_48_DIRECT_ACCESS_PAGE + 8 * unat i"
    by (subst unat_u64_add) (auto simp: unat_u64_mult va_layout_defs)
  then show ?thesis by (simp add: canonical_def word_le_nat_alt va_layout_defs)
qed

lemma page_ok_cell:
  assumes "page_ok s"
  shows "tab_at (pmem s) (tab_4 s) VA_48_DIRECT_ACCESS_PAGE 3 = Some (direct_tab_entry s)"
    "entry_at (direct_tab_entry s) VA_48_DIRECT_ACCESS_PAGE 3 = direct_tab_entry s"
    "is_table (pmem s) (tab_4 s) (direct_tab_entry s)" "frame_ok (direct_tab_entry s)"
  using assms tree_okD [of "pmem s" "tab_4 s" VA_48_DIRECT_ACCESS_PAGE 3 "direct_tab_entry s"]
  by (auto simp: page_ok_def direct_page_facts)

text \<open>The state while the window shows the frame \<open>f\<close>.\<close>

definition window :: "u64 \<Rightarrow> 'a mm_state_scheme \<Rightarrow> 'a mm_state_scheme" where
  "window f s = pmem_store (direct_tab_entry s) (mk_entry f) s"

lemma pmem_store_simps [simp]:
  "pmem (pmem_store a v s) = (pmem s)(a := v)" "cr3 (pmem_store a v s) = cr3 s" "tab_4 (pmem_store a v s) = tab_4 s"
  "direct_tab_entry (pmem_store a v s) = direct_tab_entry s" "direct_vadd (pmem_store a v s) = direct_vadd s"
  "free_head (pmem_store a v s) = free_head s" "free_count (pmem_store a v s) = free_count s"
  "is_early_stage (pmem_store a v s) = is_early_stage s"
  by (simp_all add: pmem_store_def)

lemma window_setup:
  assumes "page_ok s" "f mod 4096 = 0" "f \<le> VA_48_LOW_END"
  shows "mm_page_direct_access_setup f s = Ret (VA_48_DIRECT_ACCESS_PAGE, window f s)"
  using assms
  by (simp add: mm_page_direct_access_setup_def mm_align_check_def tab_entry_init_4K PAGE_SIZE_4K_def
      page_ok_def tab_entry_is_zero_def window_def tab_entry_init_4K [unfolded PAGE_SIZE_4K_def])

lemma window_tree:
  assumes "page_ok s" "f mod 4096 = 0" "f \<le> VA_48_LOW_END"
  shows "tree_ok (pmem (window f s)) (tab_4 s)" "is_table (pmem (window f s)) (tab_4 s) = is_table (pmem s) (tab_4 s)"
    "d \<le> 3 \<Longrightarrow> tab_at (pmem (window f s)) (tab_4 s) va d = tab_at (pmem s) (tab_4 s) va d"
  using tree_leaf [of "pmem s" "tab_4 s" VA_48_DIRECT_ACCESS_PAGE "direct_tab_entry s" "mk_entry f"] assms
    page_ok_cell [OF assms(1)] mk_entry_fields [OF assms(2,3)]
  by (auto simp: window_def page_ok_def)

lemma window_walk:
  assumes "page_ok s" "f mod 4096 = 0" "f \<le> VA_48_LOW_END" "unat i < 512"
  shows "walk (window f s) (VA_48_DIRECT_ACCESS_PAGE + 8 * i) = Some (f + 8 * i)"
proof -
  let ?va = "VA_48_DIRECT_ACCESS_PAGE + 8 * i"
  note off = page_offset [OF direct_page_facts(1) unat_8_mult [OF assms(4)]]
  have "same_page ?va VA_48_DIRECT_ACCESS_PAGE"
    using off page_offset(2) [OF direct_page_facts(1), of 0] by (simp add: same_page_def)
  then have "same_path 4 ?va VA_48_DIRECT_ACCESS_PAGE"
    by (simp add: same_path_page canonical_direct [OF assms(4)] direct_page_facts)
  then show ?thesis
    using tree_leaf(4) [of "pmem s" "tab_4 s" VA_48_DIRECT_ACCESS_PAGE "direct_tab_entry s" "mk_entry f" ?va] assms(1)
      page_ok_cell [OF assms(1)] mk_entry_fields [OF assms(2,3)] off canonical_direct [OF assms(4)]
    by (simp add: walk_def window_def page_ok_def)
qed

lemma window_walk_0:
  "page_ok s \<Longrightarrow> f mod 4096 = 0 \<Longrightarrow> f \<le> VA_48_LOW_END \<Longrightarrow> walk (window f s) VA_48_DIRECT_ACCESS_PAGE = Some f"
  using window_walk [of s f 0] by simp

end
