(* ===== verification/Mm_Frame.thy ===== *)
theory Mm_Frame
  imports Mm_Table
begin

text \<open>
  \<open>src/src/mm/mm_frame.c\<close>: the physical memory sections read from the boot loader's memory map, the
  pool of early frames, and the free list, whose links are stored in the first word of the free
  frames themselves and are reached through the direct access window.

  \<open>phy_mem_secs\<close> is the used part of the array \<open>_phy_mem_secs\<close>, so \<open>_phy_mem_sec_count\<close> is its length.
  The boolean result with an out parameter of the two allocators is an option.
\<close>

definition PHY_MEM_SECTION_MAX :: nat where "PHY_MEM_SECTION_MAX = 1024"
definition EARLY_FRAME_CAP :: u64 where "EARLY_FRAME_CAP = 16 * 1024"
definition FRAME_SIZE_4K :: u64 where "FRAME_SIZE_4K = 4 * 1024"

subsection \<open>Operations\<close>

text \<open>One entry of the memory map; the list is what is left of the map from \<open>ptr\<close> on.\<close>

definition mmap_entry :: "u8 list \<Rightarrow> 'a mm_state_scheme \<Rightarrow> 'a mm_state_scheme res" where
  "mmap_entry ptr s =
     rbind (ld_u64 ptr 0) (\<lambda>base.
     rbind (ld_u64 ptr 8) (\<lambda>len.
     rbind (ld_u32 ptr 16) (\<lambda>type.
     rbind (ld_u32 ptr 20) (\<lambda>reserve.
       if type = 1 then
         kassert (length (phy_mem_secs s) < PHY_MEM_SECTION_MAX)
         (kassert (phy_mem_secs s = [] \<or>
             base > sec_base (last (phy_mem_secs s)) + sec_len (last (phy_mem_secs s)))
           (Ret (s\<lparr>phy_mem_secs := phy_mem_secs s @ [\<lparr>sec_base = base, sec_len = len\<rparr>],
                  phy_mem_size := phy_mem_size s + len\<rparr>)))
       else Ret s))))"

fun mmap_loop :: "nat \<Rightarrow> u8 list \<Rightarrow> 'a mm_state_scheme \<Rightarrow> 'a mm_state_scheme res" where
  "mmap_loop 0 ptr s = Ret s"
| "mmap_loop (Suc n) ptr s = rbind (mmap_entry ptr s) (mmap_loop n (drop 24 ptr))"

definition bootstrap_mmap_info :: "u8 list \<Rightarrow> u64 \<Rightarrow> 'a mm_state_scheme \<Rightarrow> 'a mm_state_scheme res" where
  "bootstrap_mmap_info ptr sz s =
     rbind (ld_u32 ptr 0) (\<lambda>entry_size.
     rbind (ld_u32 ptr 4) (\<lambda>entry_ver.
     kassert (entry_ver = 0)
     (kassert (entry_size = 24)
     (kassert ((sz - 8) mod entry_size = 0)
       (let entry_cnt = (sz - 8) div entry_size in
        mmap_loop (unat entry_cnt) (drop 8 ptr) (s\<lparr>phy_mem_secs := [], phy_mem_size := 0\<rparr>))))))"

definition mm_frame_early_bootstrap :: "u8 list \<Rightarrow> u64 \<Rightarrow> 'a mm_state_scheme \<Rightarrow> 'a mm_state_scheme res" where
  "mm_frame_early_bootstrap mmap_info mmap_info_len s =
     rbind (bootstrap_mmap_info mmap_info mmap_info_len (s\<lparr>early_frame_count := 0\<rparr>)) (\<lambda>s.
       Ret (s\<lparr>is_early_stage := True\<rparr>))"

definition mm_frame_bootstrap :: "'a mm_state_scheme \<Rightarrow> 'a mm_state_scheme res" where
  "mm_frame_bootstrap s =
     kassert (is_early_stage s) (Ret (s\<lparr>free_head := UPTR_NULL, free_count := 0, is_early_stage := False\<rparr>))"

definition mm_frame_alloc_early :: "'a mm_state_scheme \<Rightarrow> (u64 option \<times> 'a mm_state_scheme) res" where
  "mm_frame_alloc_early s =
     kassert (is_early_stage s)
       (if early_frame_count s < EARLY_FRAME_CAP then
          let out_frame = early_frame_pool s + early_frame_count s * FRAME_SIZE_4K in
          Ret (Some out_frame, s\<lparr>early_frame_count := early_frame_count s + 1\<rparr>)
        else Ret (None, s))"

definition mm_frame_alloc :: "'a mm_state_scheme \<Rightarrow> (u64 option \<times> 'a mm_state_scheme) res" where
  "mm_frame_alloc s =
     kassert (\<not> is_early_stage s)
       (if free_head s = 0 then Ret (None, s)
        else
          rbind (mm_align_check (free_head s) FRAME_SIZE_4K) (\<lambda>aligned.
          kassert aligned
            (let out_frame = free_head s in
             rbind (mm_page_direct_access_setup out_frame s) (\<lambda>(free_head_va, s).
             rbind (vload free_head_va s) (\<lambda>nxt.
             let s = s\<lparr>free_head := nxt, free_count := free_count s - 1\<rparr> in
             rbind (mm_page_direct_access_reset s) (\<lambda>s. Ret (Some out_frame, s)))))))"

definition mm_frame_free :: "u64 \<Rightarrow> u64 \<Rightarrow> 'a mm_state_scheme \<Rightarrow> 'a mm_state_scheme res" where
  "mm_frame_free frame_va frame_pa s =
     rbind (vstore frame_va (free_head s) s) (\<lambda>s.
       Ret (s\<lparr>free_head := frame_pa, free_count := free_count s + 1\<rparr>))"

definition mm_frame_free_count :: "'a mm_state_scheme \<Rightarrow> u64" where
  "mm_frame_free_count s = free_count s"

definition mm_pa_start :: "'a mm_state_scheme \<Rightarrow> u64 res" where
  "mm_pa_start s = kassert (phy_mem_secs s \<noteq> []) (Ret (sec_base (hd (phy_mem_secs s))))"

definition mm_pa_end :: "'a mm_state_scheme \<Rightarrow> u64 res" where
  "mm_pa_end s = kassert (phy_mem_secs s \<noteq> [])
     (Ret (sec_base (last (phy_mem_secs s)) + sec_len (last (phy_mem_secs s))))"

fun pa_range_loop :: "phy_mem_section list \<Rightarrow> u64 \<Rightarrow> u64 \<Rightarrow> bool" where
  "pa_range_loop [] start fin = False"
| "pa_range_loop (sec # secs) start fin =
     (let sec_start = sec_base sec; sec_end = sec_start + sec_len sec in
      if sec_start \<le> start \<and> sec_end > fin then True else pa_range_loop secs start fin)"

definition mm_pa_range_valid :: "u64 \<Rightarrow> u64 \<Rightarrow> 'a mm_state_scheme \<Rightarrow> bool" where
  "mm_pa_range_valid start fin s = pa_range_loop (phy_mem_secs s) start fin"

subsection \<open>The free list as a stack of frames\<close>

fun free_chain :: "(u64 \<Rightarrow> u64) \<Rightarrow> u64 \<Rightarrow> u64 list \<Rightarrow> bool" where
  "free_chain m h [] \<longleftrightarrow> h = 0"
| "free_chain m h (x # xs) \<longleftrightarrow> h = x \<and> frame_ok x \<and> free_chain m (m x) xs"

definition mm_inv :: "'a mm_state_scheme \<Rightarrow> u64 list \<Rightarrow> bool" where
  "mm_inv s xs \<longleftrightarrow> page_ok s \<and> \<not> is_early_stage s \<and> free_chain (pmem s) (free_head s) xs \<and> distinct xs \<and>
     (\<forall>x \<in> set xs. \<not> is_table (pmem s) (tab_4 s) x) \<and> free_count s = of_nat (length xs)"

text \<open>A frame that is in nobody's hands but the caller's: neither free nor a table.\<close>

definition spare :: "'a mm_state_scheme \<Rightarrow> u64 list \<Rightarrow> u64 \<Rightarrow> bool" where
  "spare s xs f \<longleftrightarrow> frame_ok f \<and> f \<notin> set xs \<and> \<not> is_table (pmem s) (tab_4 s) f"

lemma free_chain_cong: "(\<And>x. x \<in> set xs \<Longrightarrow> m' x = m x) \<Longrightarrow> free_chain m' h xs = free_chain m h xs"
  by (induction xs arbitrary: h) auto

lemma free_chain_frames: "free_chain m h xs \<Longrightarrow> x \<in> set xs \<Longrightarrow> frame_ok x"
  by (induction xs arbitrary: h) auto

lemma frame_okD: "frame_ok f \<Longrightarrow> f mod 4096 = 0" "frame_ok f \<Longrightarrow> f \<le> VA_48_LOW_END" "frame_ok f \<Longrightarrow> f \<noteq> 0"
  by (auto simp: frame_ok_def)

lemma mm_frame_alloc_empty: "mm_inv s [] \<Longrightarrow> mm_frame_alloc s = Ret (None, s)"
  by (simp add: mm_inv_def mm_frame_alloc_def)

lemma window_close:
  assumes "page_ok s"
  shows "mm_page_direct_access_reset (pmem_store (direct_tab_entry s) (mk_entry f) s) = Ret s"
proof -
  have "(pmem s)(direct_tab_entry s := 0) = pmem s" using assms by (auto simp: page_ok_def)
  then show ?thesis
    by (simp add: mm_page_direct_access_reset_def tab_entry_is_present_def pmem_store_def)
qed

lemma mm_frame_alloc_pops:
  assumes inv: "mm_inv s (x # xs)"
  shows "mm_frame_alloc s = Ret (Some x, s\<lparr>free_head := pmem s x, free_count := free_count s - 1\<rparr>)"
proof -
  let ?t = "s\<lparr>free_head := pmem s x, free_count := free_count s - 1\<rparr>"
  have ok: "page_ok s" and x: "free_head s = x" "frame_ok x" "\<not> is_table (pmem s) (tab_4 s) x" "\<not> is_early_stage s"
    using inv by (auto simp: mm_inv_def)
  note f = frame_okD [OF x(2)]
  have "x \<noteq> direct_tab_entry s" using page_ok_cell(3) [OF ok] x(3) by auto
  then have ld: "vload VA_48_DIRECT_ACCESS_PAGE (window x s) = Ret (pmem s x)"
    using window_walk_0 [OF ok f(1,2)] by (simp add: vload_def) (simp add: window_def)
  have "page_ok ?t" using ok by (simp add: page_ok_def)
  moreover have "(window x s)\<lparr>free_head := pmem s x, free_count := free_count s - 1\<rparr> =
      pmem_store (direct_tab_entry ?t) (mk_entry x) ?t"
    by (rule mm_state.equality) (simp_all add: window_def pmem_store_def)
  ultimately have reset: "mm_page_direct_access_reset
      ((window x s)\<lparr>free_head := pmem s x, free_count := free_count s - 1\<rparr>) = Ret ?t"
    using window_close [of ?t x] by simp
  have fc: "free_count (window x s) = free_count s" by (simp add: window_def)
  show ?thesis
    using x f ld reset window_setup [OF ok f(1,2)]
    by (simp add: mm_frame_alloc_def mm_align_check_def FRAME_SIZE_4K_def fc)
qed

text \<open>Writing into a frame that is not a table leaves tables, window and translation as they are.\<close>

lemma page_ok_outside:
  assumes ok: "page_ok s" and f: "frame_ok f" "\<not> is_table (pmem s) (tab_4 s) f"
    and same: "\<And>a. (\<forall>i. unat i < 512 \<longrightarrow> a \<noteq> f + 8 * i) \<Longrightarrow> m' a = pmem s a"
  shows "page_ok (s\<lparr>pmem := m'\<rparr>)" "is_table m' (tab_4 s) = is_table (pmem s) (tab_4 s)"
    "walk (s\<lparr>pmem := m'\<rparr>) va = walk s va" "d \<le> 4 \<Longrightarrow> tab_at m' (tab_4 s) va d = tab_at (pmem s) (tab_4 s) va d"
    "is_table (pmem s) (tab_4 s) t \<Longrightarrow> unat i < 512 \<Longrightarrow> m' (t + 8 * i) = pmem s (t + 8 * i)"
proof -
  have tree: "tree_ok (pmem s) (tab_4 s)" "cr3 s = tab_4 s" using ok by (auto simp: page_ok_def)
  show out: "m' (t + 8 * i) = pmem s (t + 8 * i)" if "is_table (pmem s) (tab_4 s) t" "unat i < 512" for t i
  proof (rule same, intro allI impI)
    fix j :: u64
    assume "unat j < 512"
    moreover have "frame_ok t" using that(1) tree_okD(1) [OF tree(1)] unfolding is_table_def by blast
    moreover have "t \<noteq> f" using that(1) f(2) by auto
    ultimately show "t + 8 * i \<noteq> f + 8 * j" using entry_inj f(1) that(2) by blast
  qed
  note o = tree_outside [of "pmem s" "tab_4 s" m', OF tree(1) out]
  show "is_table m' (tab_4 s) = is_table (pmem s) (tab_4 s)" by (rule o(3))
  show at: "d \<le> 4 \<Longrightarrow> tab_at m' (tab_4 s) va d = tab_at (pmem s) (tab_4 s) va d" for va d by (rule o(1))
  show "walk (s\<lparr>pmem := m'\<rparr>) va = walk s va" using o(4) tree(2) by (simp add: walk_def)
  have "m' (direct_tab_entry s) = 0" using out [OF page_ok_cell(3) [OF ok], of 0] ok by (simp add: page_ok_def)
  then show "page_ok (s\<lparr>pmem := m'\<rparr>)" using ok o(2) at [of 3] by (simp add: page_ok_def)
qed

lemma upd_first_word: "\<forall>i::u64. unat i < 512 \<longrightarrow> a \<noteq> f + 8 * i \<Longrightarrow> (m(f := v)) a = m a"
  by (auto dest: spec [of _ 0])

text \<open>The end of \<open>mm_page_map\<close>: a frame that was not needed is freed through the window.\<close>

definition free_through_window :: "u64 \<Rightarrow> 'a mm_state_scheme \<Rightarrow> 'a mm_state_scheme res" where
  "free_through_window frame_pa s =
     rbind (mm_page_direct_access_setup frame_pa s) (\<lambda>(frame_va, s).
     rbind (mm_frame_free frame_va frame_pa s) mm_page_direct_access_reset)"

definition pushed :: "u64 \<Rightarrow> 'a mm_state_scheme \<Rightarrow> 'a mm_state_scheme" where
  "pushed f s = s\<lparr>pmem := (pmem s)(f := free_head s), free_head := f, free_count := free_count s + 1\<rparr>"

lemma free_through_window_pushes:
  assumes ok: "page_ok s" and f: "frame_ok f" "\<not> is_table (pmem s) (tab_4 s) f"
  shows "free_through_window f s = Ret (pushed f s)"
proof -
  note ff = frame_okD [OF f(1)]
  have cell: "f \<noteq> direct_tab_entry s" using page_ok_cell(3) [OF ok] f(2) by auto
  let ?w = "(pmem_store f (free_head s) (window f s))\<lparr>free_head := f, free_count := free_count s + 1\<rparr>"
  have st: "mm_frame_free VA_48_DIRECT_ACCESS_PAGE f (window f s) = Ret ?w"
    using window_walk_0 [OF ok ff(1,2)] by (simp add: mm_frame_free_def vstore_def) (simp add: window_def)
  have "page_ok (pushed f s)"
    using page_ok_outside(1) [where m' = "(pmem s)(f := free_head s)", OF ok f upd_first_word] by (simp add: page_ok_def pushed_def)
  moreover have "?w = pmem_store (direct_tab_entry (pushed f s)) (mk_entry f) (pushed f s)"
    using cell by (intro mm_state.equality) (auto simp: window_def pmem_store_def pushed_def)
  ultimately have "mm_page_direct_access_reset ?w = Ret (pushed f s)" using window_close by metis
  then show ?thesis using st window_setup [OF ok ff(1,2)] by (simp add: free_through_window_def)
qed

lemma mm_inv_pushed:
  assumes inv: "mm_inv s xs" and f: "spare s xs f"
  shows "mm_inv (pushed f s) (f # xs)" "walk (pushed f s) va = walk s va"
proof -
  have fr: "frame_ok f" "\<not> is_table (pmem s) (tab_4 s) f" "f \<notin> set xs" and ok: "page_ok s"
    using f inv by (auto simp: spare_def mm_inv_def)
  note out = page_ok_outside [where m' = "(pmem s)(f := free_head s)", OF ok fr(1,2) upd_first_word]
  have "free_chain ((pmem s)(f := free_head s)) (free_head s) xs"
    using inv fr(3) by (subst free_chain_cong [of xs _ "pmem s"]) (auto simp: mm_inv_def)
  then show "mm_inv (pushed f s) (f # xs)"
    using inv fr out(1,2) by (auto simp: mm_inv_def pushed_def page_ok_def)
  show "walk (pushed f s) va = walk s va" using out(3) [of va] by (cases "canonical va") (simp_all add: pushed_def walk_def)
qed

lemma mm_inv_popped:
  assumes inv: "mm_inv s (x # xs)"
  defines "t \<equiv> s\<lparr>free_head := pmem s x, free_count := free_count s - 1\<rparr>"
  shows "mm_inv t xs" "spare t xs x" "walk t va = walk s va"
  using inv by (auto simp: mm_inv_def t_def spare_def page_ok_def walk_def)

subsection \<open>The interface of the frame allocator\<close>

text \<open>
  What the rest of the memory manager relies on: the free frames form a stack of distinct non-null
  frames, allocation pops it and reports failure only when it is empty, and a frame that is given
  back is the next to be handed out.
\<close>

locale frame_stack =
  fixes alloc :: "'s \<Rightarrow> (u64 option \<times> 's) res"
    and give_back :: "u64 \<Rightarrow> 's \<Rightarrow> 's res"
    and frames :: "'s \<Rightarrow> u64 list \<Rightarrow> bool"
    and owned :: "'s \<Rightarrow> u64 list \<Rightarrow> u64 \<Rightarrow> bool"
  assumes alloc_empty: "frames s [] \<Longrightarrow> alloc s = Ret (None, s)"
    and alloc_pop: "frames s (x # xs) \<Longrightarrow> \<exists>s'. alloc s = Ret (Some x, s') \<and> frames s' xs \<and> owned s' xs x"
    and give_back_push: "frames s xs \<Longrightarrow> owned s xs x \<Longrightarrow> \<exists>s'. give_back x s = Ret s' \<and> frames s' (x # xs)"
    and frames_distinct: "frames s xs \<Longrightarrow> distinct xs \<and> 0 \<notin> set xs"
begin

lemma alloc_returns: "frames s xs \<Longrightarrow> \<exists>r s'. alloc s = Ret (r, s') \<and> (r = None \<longleftrightarrow> xs = [])"
  using alloc_empty alloc_pop by (cases xs) fastforce+

lemma alloc_fresh:
  assumes "frames s xs" "alloc s = Ret (Some x, s')"
  shows "x \<noteq> 0 \<and> x \<notin> set (tl xs) \<and> frames s' (tl xs)"
proof (cases xs)
  case Nil
  then show ?thesis using alloc_empty assms by force
next
  case (Cons y ys)
  then show ?thesis using alloc_pop [of s y ys] frames_distinct [OF assms(1)] assms by auto
qed

lemma give_back_alloc:
  assumes "frames s xs" "owned s xs x"
  shows "\<exists>s' s''. give_back x s = Ret s' \<and> alloc s' = Ret (Some x, s'') \<and> frames s'' xs"
  using give_back_push [OF assms] alloc_pop by blast

end

interpretation fs: frame_stack mm_frame_alloc free_through_window mm_inv spare
proof (unfold_locales, goal_cases)
  case (1 s)
  then show ?case by (rule mm_frame_alloc_empty)
next
  case (2 s x xs)
  then show ?case using mm_frame_alloc_pops [OF 2] mm_inv_popped [OF 2] by auto
next
  case (3 s xs x)
  then show ?case using mm_inv_pushed [OF 3] free_through_window_pushes [of s x] by (auto simp: mm_inv_def spare_def)
next
  case (4 s xs)
  then show ?case using free_chain_frames frame_okD(3) by (fastforce simp: mm_inv_def)
qed

subsection \<open>Properties\<close>

fun alloc_frames :: "nat \<Rightarrow> 'a mm_state_scheme \<Rightarrow> (u64 list \<times> 'a mm_state_scheme) res" where
  "alloc_frames 0 s = Ret ([], s)"
| "alloc_frames (Suc n) s = rbind (mm_frame_alloc s) (\<lambda>(r, s).
     case r of None \<Rightarrow> Ret ([], s) | Some f \<Rightarrow> rbind (alloc_frames n s) (\<lambda>(fs, s). Ret (f # fs, s)))"

lemma alloc_frames_takes:
  "mm_inv s xs \<Longrightarrow> \<exists>s'. alloc_frames n s = Ret (take n xs, s') \<and> mm_inv s' (drop n xs)"
proof (induction n arbitrary: s xs)
  case (Suc n)
  show ?case
  proof (cases xs)
    case Nil
    then show ?thesis using Suc.prems fs.alloc_empty [of s] by simp
  next
    case (Cons y ys)
    then obtain s1 where s1: "mm_frame_alloc s = Ret (Some y, s1)" "mm_inv s1 ys"
      using fs.alloc_pop Suc.prems by blast
    with Suc.IH [OF s1(2)] Cons show ?thesis by auto
  qed
qed simp

text \<open>
  C11: as long as the free list is well formed, \<open>n\<close> calls of \<open>mm_frame_alloc\<close> return the first \<open>n\<close> free
  frames (all of them if there are fewer, then failure): they are pairwise different, page aligned,
  not null and not page tables, and \<open>mm_frame_free_count\<close> drops accordingly.
\<close>

theorem mm_frame_alloc_distinct:
  assumes "mm_inv s xs"
  shows "\<exists>fs s'. alloc_frames n s = Ret (fs, s') \<and> length fs = min n (length xs) \<and> distinct fs \<and>
    (\<forall>f \<in> set fs. frame_ok f \<and> \<not> is_table (pmem s) (tab_4 s) f) \<and>
    mm_frame_free_count s' = mm_frame_free_count s - of_nat (length fs)"
proof -
  obtain s' where s': "alloc_frames n s = Ret (take n xs, s')" "mm_inv s' (drop n xs)"
    using alloc_frames_takes [OF assms] by blast
  have "frame_ok f \<and> \<not> is_table (pmem s) (tab_4 s) f" if "f \<in> set (take n xs)" for f
    using assms in_set_takeD [OF that] free_chain_frames by (auto simp: mm_inv_def)
  moreover have "free_count s' = free_count s - of_nat (length (take n xs))"
    using assms s'(2) by (simp add: mm_inv_def of_nat_diff min_def)
  ultimately show ?thesis using s'(1) assms
    by (auto simp: mm_frame_free_count_def mm_inv_def min_def)
qed

text \<open>
  C21: a frame given back to the free list (through the window, as \<open>mm_page_map\<close> does) is the frame the
  next \<open>mm_frame_alloc\<close> returns, and neither step changes the translation of any address.
\<close>

theorem mm_frame_free_alloc:
  assumes "mm_inv s xs" "spare s xs f"
  shows "\<exists>s' s''. free_through_window f s = Ret s' \<and> mm_frame_alloc s' = Ret (Some f, s'') \<and>
    mm_inv s'' xs \<and> walk s' = walk s \<and> walk s'' = walk s"
proof -
  have f: "page_ok s" "frame_ok f" "\<not> is_table (pmem s) (tab_4 s) f" using assms by (auto simp: mm_inv_def spare_def)
  note push = free_through_window_pushes [OF f] mm_inv_pushed [OF assms]
  show ?thesis
    using push mm_frame_alloc_pops [OF push(2)] mm_inv_popped [OF push(2)]
    by (auto simp: fun_eq_iff)
qed

text \<open>Sections in the order of the memory map, each beginning after the end of the one before.\<close>

fun secs_ordered :: "phy_mem_section list \<Rightarrow> bool" where
  "secs_ordered (x # y # zs) \<longleftrightarrow> sec_base x + sec_len x < sec_base y \<and> secs_ordered (y # zs)"
| "secs_ordered _ \<longleftrightarrow> True"

lemma secs_ordered_snoc:
  "secs_ordered (xs @ [y]) \<longleftrightarrow> secs_ordered xs \<and> (xs = [] \<or> sec_base (last xs) + sec_len (last xs) < sec_base y)"
  by (induction xs rule: secs_ordered.induct) auto

lemma mmap_loop_keeps:
  "mmap_loop n ptr s = Ret s' \<Longrightarrow> secs_ordered (phy_mem_secs s) \<Longrightarrow> length (phy_mem_secs s) \<le> PHY_MEM_SECTION_MAX \<Longrightarrow>
   phy_mem_size s = sum_list (map sec_len (phy_mem_secs s)) \<Longrightarrow>
   secs_ordered (phy_mem_secs s') \<and> length (phy_mem_secs s') \<le> PHY_MEM_SECTION_MAX \<and>
   phy_mem_size s' = sum_list (map sec_len (phy_mem_secs s'))"
proof (induction n arbitrary: ptr s)
  case (Suc n)
  then obtain s1 where s1: "mmap_entry ptr s = Ret s1" "mmap_loop n (drop 24 ptr) s1 = Ret s'" by auto
  have "secs_ordered (phy_mem_secs s1) \<and> length (phy_mem_secs s1) \<le> PHY_MEM_SECTION_MAX \<and>
      phy_mem_size s1 = sum_list (map sec_len (phy_mem_secs s1))"
    using s1(1) Suc.prems by (auto simp: mmap_entry_def secs_ordered_snoc split: if_splits)
  with Suc.IH s1(2) show ?case by blast
qed simp

text \<open>
  When \<open>mm_frame_early_bootstrap\<close> returns, the recorded sections of physical memory are at most
  1024, ordered by address without touching one another, and \<open>_phy_mem_size\<close> is the sum of their lengths.
\<close>

theorem mm_frame_early_bootstrap_sections:
  assumes "mm_frame_early_bootstrap info len s = Ret s'"
  shows "secs_ordered (phy_mem_secs s') \<and> length (phy_mem_secs s') \<le> PHY_MEM_SECTION_MAX \<and>
    phy_mem_size s' = sum_list (map sec_len (phy_mem_secs s')) \<and> is_early_stage s' \<and> early_frame_count s' = 0"
proof -
  have ec: "mmap_loop n ptr u = Ret u' \<Longrightarrow> early_frame_count u' = early_frame_count u" for n ptr and u u' :: "'a mm_state_scheme"
    by (induction n arbitrary: ptr u) (auto simp: mmap_entry_def split: if_splits)
  obtain n s1 where s1: "mmap_loop n (drop 8 info) (s\<lparr>early_frame_count := 0, phy_mem_secs := [], phy_mem_size := 0\<rparr>) = Ret s1"
    and s': "s' = s1\<lparr>is_early_stage := True\<rparr>"
    using assms by (auto simp: mm_frame_early_bootstrap_def bootstrap_mmap_info_def Let_def)
  show ?thesis using mmap_loop_keeps [OF s1] ec [OF s1] s' by simp
qed

end
