(* ===== verification/Mm_Page.thy ===== *)
theory Mm_Page
  imports Mm_Frame
begin

text \<open>
  \<open>src/src/mm/mm_page.c\<close>: mapping and unmapping of pages in the four-level tables, in the early
  stage with 2 MB pages and afterwards with 4 KB pages.

  The main theorem is that \<open>mm_page_map\<close> implements an update of the processor's translation at one
  page: the page tables stay well formed, the new page translates to the given frame and every other
  address translates as before.
\<close>

subsection \<open>Mapping one page\<close>

text \<open>A frame for the next table, zeroed through the window, unless one is left over.\<close>

definition map_need_frame ::
  "bool \<Rightarrow> u64 \<Rightarrow> 'a mm_state_scheme \<Rightarrow> (bool \<times> u64 \<times> 'a mm_state_scheme) res" where
  "map_need_frame ok frame_pa s =
     (if frame_pa = UPTR_NULL then
        rbind (mm_frame_alloc s) (\<lambda>(r, s).
        case r of
          None \<Rightarrow> Ret (False, UPTR_NULL, s)
        | Some frame_pa \<Rightarrow>
            rbind (mm_page_direct_access_setup frame_pa s) (\<lambda>(frame_va, s).
            rbind (tab_zero frame_va s) (\<lambda>s.
            rbind (mm_page_direct_access_reset s) (\<lambda>s. Ret (True, frame_pa, s)))))
      else Ret (ok, frame_pa, s))"

text \<open>One level of the descent: the entry is read, and written if there is no next table yet.\<close>

definition map_level ::
  "nat \<Rightarrow> u64 \<Rightarrow> u64 \<Rightarrow> u64 \<Rightarrow> 'a mm_state_scheme \<Rightarrow> (u64 \<times> u64 \<times> 'a mm_state_scheme) res" where
  "map_level lv va tab_pa frame_pa s =
     rbind (mm_page_direct_access_setup tab_pa s) (\<lambda>(tab_va, s).
     rbind (vadd_tab_index va lv) (\<lambda>entry_idx.
     let entry = tab_va + 8 * entry_idx in
     rbind (vload entry s) (\<lambda>e.
     rbind (if \<not> tab_entry_is_present e then
              kassert (tab_entry_is_zero e)
              (kassert (frame_pa \<noteq> UPTR_NULL)
                (rbind (tab_entry_init lv True True frame_pa PAGE_SIZE_4K) (\<lambda>e.
                 rbind (vstore entry e s) (\<lambda>s. Ret (UPTR_NULL, s)))))
            else Ret (frame_pa, s)) (\<lambda>(frame_pa, s).
     rbind (vload entry s) (\<lambda>e.
     let tab_pa = tab_entry_get_padd e in
     rbind (mm_page_direct_access_reset s) (\<lambda>s. Ret (tab_pa, frame_pa, s)))))))"

text \<open>\<open>for (lv = TAB_LEVEL_4; lv > TAB_LEVEL_1; lv--)\<close>, left early when there is no frame.\<close>

fun map_loop ::
  "nat \<Rightarrow> u64 \<Rightarrow> bool \<Rightarrow> u64 \<Rightarrow> u64 \<Rightarrow> 'a mm_state_scheme \<Rightarrow>
   (bool \<times> nat \<times> u64 \<times> u64 \<times> 'a mm_state_scheme) res" where
  "map_loop lv va ok tab_pa frame_pa s =
     (if lv > 1 then
        rbind (map_need_frame ok frame_pa s) (\<lambda>(ok, frame_pa, s).
        if \<not> ok then Ret (ok, lv, tab_pa, frame_pa, s)
        else
          rbind (map_level lv va tab_pa frame_pa s) (\<lambda>(tab_pa, frame_pa, s).
            map_loop (lv - 1) va ok tab_pa frame_pa s))
      else Ret (ok, lv, tab_pa, frame_pa, s))"

declare map_loop.simps [simp del]

definition mm_page_map :: "u64 \<Rightarrow> u64 \<Rightarrow> 'a mm_state_scheme \<Rightarrow> (bool \<times> 'a mm_state_scheme) res" where
  "mm_page_map va pa s =
     rbind (mm_align_check va PAGE_SIZE_4K) (\<lambda>aligned. kassert aligned
     (rbind (mm_align_check pa PAGE_SIZE_4K) (\<lambda>aligned. kassert aligned
     (rbind (map_loop 4 va True (tab_4 s) UPTR_NULL s) (\<lambda>(ok, lv, tab_pa, frame_pa, s).
      rbind (direct_access_is_reset s) (\<lambda>closed. kassert closed
      (rbind (if ok then
                rbind (mm_page_direct_access_setup tab_pa s) (\<lambda>(tab_va, s).
                rbind (vadd_tab_index va 1) (\<lambda>entry_idx.
                let entry = tab_va + 8 * entry_idx in
                rbind (vload entry s) (\<lambda>e.
                kassert (tab_entry_is_zero e)
                (rbind (tab_entry_init lv True True pa PAGE_SIZE_4K) (\<lambda>e.
                 rbind (vstore entry e s) mm_page_direct_access_reset)))))
              else Ret s) (\<lambda>s.
       rbind (if frame_pa \<noteq> UPTR_NULL then free_through_window frame_pa s else Ret s) (\<lambda>s.
         Ret (ok, s))))))))))"

subsection \<open>Zeroing a frame through the window\<close>

fun zero_words :: "nat \<Rightarrow> u64 \<Rightarrow> (u64 \<Rightarrow> u64) \<Rightarrow> u64 \<Rightarrow> u64" where
  "zero_words 0 a m = m"
| "zero_words (Suc n) a m = zero_words n (a + 8) (m(a := 0))"

lemma zero_words_apply:
  "zero_words n a m x = (if \<exists>k<n. x = a + 8 * of_nat k then 0 else m x)"
proof (induction n arbitrary: a m)
  case (Suc n)
  have "(\<exists>k<Suc n. x = a + 8 * of_nat k) \<longleftrightarrow> x = a \<or> (\<exists>k<n. x = a + 8 + 8 * of_nat k)"
    by (subst Ex_less_Suc2) (simp add: algebra_simps)
  then show ?case unfolding zero_words.simps Suc.IH by (cases "x = a") auto
qed simp

lemma of_nat_512: "(\<exists>k<512. x = a + 8 * of_nat k) \<longleftrightarrow> (\<exists>i::u64. unat i < 512 \<and> x = a + 8 * i)"
proof
  assume "\<exists>k<512. x = a + 8 * of_nat k"
  then obtain k where "k < 512" "x = a + 8 * of_nat k" by blast
  then show "\<exists>i::u64. unat i < 512 \<and> x = a + 8 * i"
    by (intro exI [of _ "of_nat k"]) (simp add: unat_of_nat)
next
  assume "\<exists>i::u64. unat i < 512 \<and> x = a + 8 * i"
  then obtain i :: u64 where "unat i < 512" "x = a + 8 * i" by blast
  then show "\<exists>k<512. x = a + 8 * of_nat k" by (intro exI [of _ "unat i"]) simp
qed

lemma zero_page_apply: "zero_words 512 f m x = (if \<exists>i::u64. unat i < 512 \<and> x = f + 8 * i then 0 else m x)"
  unfolding zero_words_apply of_nat_512 ..

lemma tab_zero_loop_zeroes:
  assumes "\<And>m'. (\<And>a. (\<forall>i::u64. unat i < 512 \<longrightarrow> a \<noteq> f + 8 * i) \<Longrightarrow> m' a = pmem s a) \<Longrightarrow>
      (\<And>k. k < 512 \<Longrightarrow> walk (s\<lparr>pmem := m'\<rparr>) (va + 8 * of_nat k) = Some (f + 8 * of_nat k))"
  shows "n \<le> 512 \<Longrightarrow> (\<And>a. (\<forall>i::u64. unat i < 512 \<longrightarrow> a \<noteq> f + 8 * i) \<Longrightarrow> m' a = pmem s a) \<Longrightarrow>
    tab_zero_loop n (va + 8 * of_nat (512 - n)) (s\<lparr>pmem := m'\<rparr>) =
      Ret (s\<lparr>pmem := zero_words n (f + 8 * of_nat (512 - n)) m'\<rparr>)"
proof (induction n arbitrary: m')
  case (Suc n)
  obtain k where k: "512 - Suc n = k" "512 - n = Suc k" "k < 512" using Suc.prems(1) by auto
  let ?u = "m'(f + 8 * of_nat k := 0)"
  have w: "walk (s\<lparr>pmem := m'\<rparr>) (va + 8 * of_nat k) = Some (f + 8 * of_nat k)"
    using assms [of m' k] Suc.prems(2) k(3) by blast
  have st: "vstore (va + 8 * of_nat k) 0 (s\<lparr>pmem := m'\<rparr>) = Ret (s\<lparr>pmem := ?u\<rparr>)"
    using w by (simp add: vstore_def pmem_store_def)
  have "unat (of_nat k :: u64) < 512" using k(3) by (simp add: unat_of_nat)
  then have "?u a = pmem s a" if "\<forall>i::u64. unat i < 512 \<longrightarrow> a \<noteq> f + 8 * i" for a
    using that Suc.prems(2) by auto
  then have "tab_zero_loop n (va + 8 * of_nat (512 - n)) (s\<lparr>pmem := ?u\<rparr>) =
      Ret (s\<lparr>pmem := zero_words n (f + 8 * of_nat (512 - n)) ?u\<rparr>)"
    using Suc.prems(1) by (intro Suc.IH) auto
  then show ?case unfolding k tab_zero_loop.simps st rbind_Inr zero_words.simps
    by (simp add: algebra_simps)
qed simp

lemma outside_tables:
  assumes "tree_ok m r" "frame_ok f" "\<not> is_table m r f"
    and "\<And>a. (\<forall>i::u64. unat i < 512 \<longrightarrow> a \<noteq> f + 8 * i) \<Longrightarrow> m' a = m a"
    and "is_table m r t" "unat i < 512"
  shows "m' (t + 8 * i) = m (t + 8 * i)"
proof (rule assms(4), intro allI impI)
  fix j :: u64
  assume "unat j < 512"
  moreover have "frame_ok t" "t \<noteq> f" using assms(3,5) tree_okD(1) [OF assms(1)] unfolding is_table_def by blast+
  ultimately show "t + 8 * i \<noteq> f + 8 * j" using entry_inj assms(2,6) by blast
qed

lemma zero_through_window:
  assumes ok: "page_ok s" and f: "frame_ok f" "\<not> is_table (pmem s) (tab_4 s) f"
  shows "rbind (mm_page_direct_access_setup f s) (\<lambda>(va, s). rbind (tab_zero va s) mm_page_direct_access_reset) =
    Ret (s\<lparr>pmem := zero_words 512 f (pmem s)\<rparr>)"
proof -
  note ff = frame_okD [OF f(1)]
  let ?w = "window f s" and ?t = "s\<lparr>pmem := zero_words 512 f (pmem s)\<rparr>"
  note wt = window_tree [OF ok ff(1,2)]
  have walks: "walk (?w\<lparr>pmem := m'\<rparr>) (VA_48_DIRECT_ACCESS_PAGE + 8 * of_nat k) = Some (f + 8 * of_nat k)"
    if "\<And>a. (\<forall>i::u64. unat i < 512 \<longrightarrow> a \<noteq> f + 8 * i) \<Longrightarrow> m' a = pmem ?w a" "k < 512" for m' k
  proof -
    have "walk_from m' 4 (tab_4 s) v = walk_from (pmem ?w) 4 (tab_4 s) v" for v
      using outside_tables [OF wt(1) f(1) _ that(1)] f(2) wt(2) by (intro tree_outside(4) [OF wt(1)]) auto
    moreover have "cr3 ?w = tab_4 s" using ok by (simp add: window_def page_ok_def)
    moreover have "walk ?w (VA_48_DIRECT_ACCESS_PAGE + 8 * of_nat k) = Some (f + 8 * of_nat k)"
      using window_walk [OF ok ff(1,2), of "of_nat k"] that(2) by (simp add: unat_of_nat)
    ultimately show ?thesis by (simp add: walk_def split: if_splits)
  qed
  have z: "tab_zero VA_48_DIRECT_ACCESS_PAGE ?w = Ret (?w\<lparr>pmem := zero_words 512 f (pmem ?w)\<rparr>)"
    using tab_zero_loop_zeroes [of f ?w VA_48_DIRECT_ACCESS_PAGE 512 "pmem ?w", OF walks] by (simp add: tab_zero_def)
  have cell: "direct_tab_entry s \<noteq> f + 8 * i" if "unat i < 512" for i
    using entry_inj [OF page_ok_cell(4) [OF ok] f(1), of 0 i] that page_ok_cell(3) [OF ok] f(2) by auto
  have "page_ok ?t" by (rule page_ok_outside(1) [OF ok f]) (auto simp: zero_page_apply)
  moreover have "?w\<lparr>pmem := zero_words 512 f (pmem ?w)\<rparr> = pmem_store (direct_tab_entry ?t) (mk_entry f) ?t"
    using cell by (intro mm_state.equality) (auto simp: window_def pmem_store_def zero_page_apply fun_eq_iff)
  ultimately have "mm_page_direct_access_reset (?w\<lparr>pmem := zero_words 512 f (pmem ?w)\<rparr>) = Ret ?t"
    using window_close by metis
  then show ?thesis using window_setup [OF ok ff(1,2)] z by simp
qed

subsection \<open>The levels of the descent\<close>

text \<open>The frames at hand: the free list, and before it the frame the loop still holds.\<close>

abbreviation avail :: "u64 list \<Rightarrow> u64 \<Rightarrow> u64 list" where
  "avail xs fp \<equiv> (if fp = 0 then xs else fp # xs)"

definition map_inv :: "'a mm_state_scheme \<Rightarrow> u64 list \<Rightarrow> u64 \<Rightarrow> bool" where
  "map_inv s xs fp \<longleftrightarrow> mm_inv s xs \<and>
     (fp \<noteq> 0 \<longrightarrow> spare s xs fp \<and> (\<forall>i::u64. unat i < 512 \<longrightarrow> pmem s (fp + 8 * i) = 0))"

lemma map_need_frame_gets:
  assumes inv: "mm_inv s (x # xs)"
  shows "\<exists>s'. map_need_frame ok 0 s = Ret (True, x, s') \<and> map_inv s' xs x \<and> tab_4 s' = tab_4 s \<and>
    (\<forall>v. walk s' v = walk s v) \<and> (\<forall>v d. d \<le> 4 \<longrightarrow> tab_at (pmem s') (tab_4 s) v d = tab_at (pmem s) (tab_4 s) v d)"
proof -
  let ?s1 = "s\<lparr>free_head := pmem s x, free_count := free_count s - 1\<rparr>"
  let ?m = "zero_words 512 x (pmem s)"
  let ?s2 = "?s1\<lparr>pmem := ?m\<rparr>"
  note pop = mm_inv_popped [OF inv]
  have x: "frame_ok x" "\<not> is_table (pmem ?s1) (tab_4 ?s1) x" "x \<notin> set xs" and ok: "page_ok ?s1"
    using pop(1,2) by (auto simp: spare_def mm_inv_def)
  note out = page_ok_outside [where m' = ?m, OF ok x(1,2)]
  have same: "?m a = pmem ?s1 a" if "\<forall>i::u64. unat i < 512 \<longrightarrow> a \<noteq> x + 8 * i" for a
    using that by (auto simp: zero_page_apply)
  have "?m y = pmem s y" if "y \<in> set xs" for y
  proof (rule same [simplified], intro allI impI)
    fix i :: u64
    assume "unat i < 512"
    moreover have "frame_ok y" "y \<noteq> x" using that inv x(3) free_chain_frames by (auto simp: mm_inv_def)
    ultimately show "y \<noteq> x + 8 * i" using entry_inj [of y x 0 i] x(1) by auto
  qed
  then have "free_chain ?m (pmem s x) xs = free_chain (pmem s) (pmem s x) xs" by (rule free_chain_cong)
  then have "mm_inv ?s2 xs" using pop(1) out(1,2) [OF same] by (auto simp: mm_inv_def)
  moreover have "spare ?s2 xs x" using pop(2) out(2) [OF same] by (simp add: spare_def)
  ultimately have "map_inv ?s2 xs x" unfolding map_inv_def by (auto simp: zero_page_apply)
  moreover have "map_need_frame ok 0 s = Ret (True, x, ?s2)"
  proof -
    note z = zero_through_window [OF ok x(1,2)]
    obtain va w where w: "mm_page_direct_access_setup x ?s1 = Ret (va, w)" using window_setup [OF ok frame_okD(1) [OF x(1)] frame_okD(2) [OF x(1)]] by blast
    with z obtain w' where "tab_zero va w = Ret w'" "mm_page_direct_access_reset w' = Ret ?s2" by auto
    with w show ?thesis
      by (simp add: map_need_frame_def mm_frame_alloc_pops [OF inv] UPTR_NULL_def)
  qed
  moreover have "walk ?s2 v = walk s v" for v using out(3) [OF same, of v] pop(3) [of v] by simp
  moreover have "tab_at ?m (tab_4 s) v d = tab_at (pmem s) (tab_4 s) v d" if "d \<le> 4" for v d
    using out(4) [OF same, of d v] that by simp
  ultimately show ?thesis by (intro exI [of _ ?s2]) simp
qed

text \<open>An entry other than the window's own, read and written through the window.\<close>

lemma window_entry:
  assumes ok: "page_ok s" and t: "frame_ok t" and i: "unat i < 512" and cell: "t + 8 * i \<noteq> direct_tab_entry s"
  shows "vload (VA_48_DIRECT_ACCESS_PAGE + 8 * i) (window t s) = Ret (pmem s (t + 8 * i))"
    "vstore (VA_48_DIRECT_ACCESS_PAGE + 8 * i) v (window t s) = Ret (window t (pmem_store (t + 8 * i) v s))"
proof -
  note w = window_walk [OF ok frame_okD(1) [OF t] frame_okD(2) [OF t] i]
  show "vload (VA_48_DIRECT_ACCESS_PAGE + 8 * i) (window t s) = Ret (pmem s (t + 8 * i))"
    using w cell by (simp add: vload_def) (simp add: window_def)
  show "vstore (VA_48_DIRECT_ACCESS_PAGE + 8 * i) v (window t s) = Ret (window t (pmem_store (t + 8 * i) v s))"
    using w cell by (simp add: vstore_def) (auto simp: window_def pmem_store_def fun_upd_twist)
qed

lemma window_reset: "page_ok s \<Longrightarrow> mm_page_direct_access_reset (window f s) = Ret s"
  by (simp add: window_def window_close)

lemma mm_inv_link:
  assumes inv: "map_inv s xs f" "f \<noteq> 0" and t: "tab_at (pmem s) (tab_4 s) va d = Some t" "d < 3"
    and e: "pmem s (entry_at t va d) = 0"
  defines "s' \<equiv> pmem_store (entry_at t va d) (mk_entry f) s"
  shows "map_inv s' xs 0" "walk s' v = walk s v" "tab_at (pmem s') (tab_4 s) va (Suc d) = Some f"
    "page_ok s'"
proof -
  have ok: "tree_ok (pmem s) (tab_4 s)" "page_ok s" "cr3 s = tab_4 s" and f: "frame_ok f" "\<not> is_table (pmem s) (tab_4 s) f"
    "f \<notin> set xs" "\<And>i::u64. unat i < 512 \<Longrightarrow> pmem s (f + 8 * i) = 0" and mi: "mm_inv s xs"
    using inv by (auto simp: map_inv_def mm_inv_def page_ok_def spare_def)
  note link = tree_link [OF ok(1) t e f(1,2,4)]
  have m': "pmem s' = (pmem s)(entry_at t va d := mk_entry f)" by (simp add: s'_def)
  have tt: "frame_ok t" "is_table (pmem s) (tab_4 s) t" using tree_okD [OF ok(1) t(1)] t(2) by auto
  have cell: "entry_at t va d \<noteq> direct_tab_entry s"
    using entry_unique(1) [OF ok(1) t(1) _ page_ok_cell(1) [OF ok(2)]] page_ok_cell(2) [OF ok(2)] t(2) by auto
  have "tab_at (pmem s') (tab_4 s) VA_48_DIRECT_ACCESS_PAGE 3 = Some (direct_tab_entry s)"
  proof -
    have hit: "\<not> same_path (Suc d) VA_48_DIRECT_ACCESS_PAGE va"
    proof
      assume p: "same_path (Suc d) VA_48_DIRECT_ACCESS_PAGE va"
      then have "tab_at (pmem s) (tab_4 s) VA_48_DIRECT_ACCESS_PAGE d = Some t"
        using t(1) by (metis same_path_Suc tab_at_same_path)
      then have "tab_at (pmem s) (tab_4 s) VA_48_DIRECT_ACCESS_PAGE (Suc d) = None"
        using e p by (simp add: next_tab_def same_path_Suc)
      then show False using tab_at_below [OF page_ok_cell(1) [OF ok(2)], of "Suc d"] t(2) by auto
    qed
    then show ?thesis using upd_miss [OF ok(1) t(1) _ disjI2 [OF hit], of 3] t(2) page_ok_cell(1) [OF ok(2)]
      by (simp add: m')
  qed
  then show pok: "page_ok s'" using ok link(1) cell by (auto simp: page_ok_def s'_def)
  have "y \<noteq> entry_at t va d" if "y \<in> set xs" for y
  proof -
    have "frame_ok y" "y \<noteq> t" using that mi tt(2) free_chain_frames by (auto simp: mm_inv_def)
    then show ?thesis using entry_inj [of y t 0 "tab_index va (4 - d)"] tt(1) tab_index_less(2) by auto
  qed
  then have "free_chain (pmem s') h xs = free_chain (pmem s) h xs" for h by (intro free_chain_cong) (auto simp: m')
  then show "map_inv s' xs 0" using mi pok link(2) f(3) by (auto simp: map_inv_def mm_inv_def s'_def)
  show "walk s' v = walk s v" using link(3) [of v] ok(3) by (simp add: walk_def s'_def)
  show "tab_at (pmem s') (tab_4 s) va (Suc d) = Some f" using link(4) by (simp add: m')
qed

lemma map_level_descends:
  assumes inv: "map_inv s xs f" "f \<noteq> 0" and t: "tab_at (pmem s) (tab_4 s) va d = Some t" "d < 3"
    and none: "walk_from (pmem s) 4 (tab_4 s) va = None"
  shows "\<exists>t' f' s'. map_level (4 - d) va t f s = Ret (t', f', s') \<and> map_inv s' xs f' \<and> tab_4 s' = tab_4 s \<and>
    (f' = f \<or> f' = 0) \<and> (\<forall>v. walk s' v = walk s v) \<and> tab_at (pmem s') (tab_4 s) va (Suc d) = Some t'"
proof -
  have ok: "tree_ok (pmem s) (tab_4 s)" "page_ok s" and f: "frame_ok f"
    using inv by (auto simp: map_inv_def mm_inv_def page_ok_def spare_def)
  have tt: "frame_ok t" "entry_ok d (pmem s (entry_at t va d))" using tree_okD [OF ok(1) t(1)] t(2) by auto
  have cell: "entry_at t va d \<noteq> direct_tab_entry s"
    using entry_unique(1) [OF ok(1) t(1) _ page_ok_cell(1) [OF ok(2)]] page_ok_cell(2) [OF ok(2)] t(2) by auto
  let ?i = "tab_index va (4 - d)" and ?e = "pmem s (entry_at t va d)"
  let ?s' = "pmem_store (entry_at t va d) (mk_entry f) s"
  note we = window_entry [OF ok(2) tt(1) tab_index_less(2) cell]
  note su = window_setup [OF ok(2) frame_okD(1) [OF tt(1)] frame_okD(2) [OF tt(1)]]
  have lv: "1 \<le> 4 - d" "4 - d \<le> 4" using t(2) by auto
  show ?thesis
  proof (cases "bit ?e 0")
    case True
    have "\<not> (bit ?e 7 \<and> (4 - d = 2 \<or> 4 - d = 3))"
    proof
      assume h: "bit ?e 7 \<and> (4 - d = 2 \<or> 4 - d = 3)"
      obtain l where l: "4 - d = Suc l" using lv by (cases "4 - d") auto
      then have "walk_from (pmem s) (4 - d) t va \<noteq> None" using h True l by auto
      then show False using walk_tab_at [OF _ t(1)] none t(2) by simp
    qed
    then have nx: "next_tab (4 - d) ?e = Some (hw_padd ?e)" using True by (simp add: next_tab_def)
    then have "tab_entry_get_padd ?e = hw_padd ?e" using tt(2) t(2) by (simp add: entry_ok_def)
    then have "map_level (4 - d) va t f s = Ret (hw_padd ?e, f, s)"
      using su we(1) lv True window_reset [OF ok(2)]
      by (simp add: map_level_def Let_def tab_entry_is_present_def)
    then show ?thesis using inv nx t(1) by auto
  next
    case False
    then have e0: "?e = 0" using tt(2) by (simp add: entry_ok_def)
    note link = mm_inv_link [OF inv t e0]
    have we': "vload (VA_48_DIRECT_ACCESS_PAGE + 8 * ?i) (window t ?s') = Ret (mk_entry f)"
      using window_entry(1) [OF link(4) tt(1) tab_index_less(2), of va "4 - d"] cell by simp
    have "map_level (4 - d) va t f s = Ret (f, 0, ?s')"
      using su we lv e0 we' window_reset [OF link(4)] inv(2) tab_entry_init_4K [OF lv frame_okD(1) [OF f] frame_okD(2) [OF f]]
        mk_entry_fields(4) [OF frame_okD(1) [OF f] frame_okD(2) [OF f]]
      by (simp add: map_level_def Let_def tab_entry_is_present_def tab_entry_is_zero_def UPTR_NULL_def)
    then show ?thesis using link by (intro exI [of _ f] exI [of _ 0] exI [of _ ?s']) (simp del: tab_at.simps)
  qed
qed

lemma map_loop_descends:
  assumes "map_inv s xs f" "tab_at (pmem s) (tab_4 s) va d = Some t" "d \<le> 3"
    and "canonical va" "walk s va = None"
  shows "\<exists>ok lv t' f' s' ys k. map_loop (4 - d) va True t f s = Ret (ok, lv, t', f', s') \<and> map_inv s' ys f' \<and>
    tab_4 s' = tab_4 s \<and> k \<le> 3 - d \<and> avail ys f' = drop k (avail xs f) \<and> (\<forall>v. walk s' v = walk s v) \<and>
    (ok \<longrightarrow> lv = 1 \<and> tab_at (pmem s') (tab_4 s) va 3 = Some t') \<and>
    (\<not> ok \<longrightarrow> avail ys f' = [] \<and> length (avail xs f) < 3 - d)"
  using assms
proof (induction "3 - d" arbitrary: d s xs t f)
  case 0
  then have "d = 3" by simp
  then show ?case using 0 by (subst map_loop.simps) (auto intro!: exI [of _ xs])
next
  case (Suc n)
  then have d: "d < 3" "n = 3 - Suc d" and lv: "4 - d > 1" "4 - d - 1 = 4 - Suc d" by auto
  have cr: "cr3 s = tab_4 s" using Suc.prems(1) by (auto simp: map_inv_def mm_inv_def page_ok_def)
  have none: "walk_from (pmem s) 4 (tab_4 s) va = None" using Suc.prems(4,5) cr by (simp add: walk_def)
  show ?case
  proof (cases "avail xs f")
    case Nil
    then have "f = 0" "mm_inv s []" using Suc.prems(1) by (auto simp: map_inv_def split: if_splits)
    then have "map_need_frame True f s = Ret (False, 0, s)"
      by (simp add: map_need_frame_def UPTR_NULL_def mm_frame_alloc_empty)
    then have "map_loop (4 - d) va True t f s = Ret (False, 4 - d, t, 0, s)" using lv by (subst map_loop.simps) simp
    then show ?thesis using Nil d Suc.prems(1) \<open>f = 0\<close>
      by (intro exI [of _ False] exI [of _ "4 - d"] exI [of _ t] exI [of _ 0] exI [of _ s] exI [of _ xs] exI [of _ 0]) simp
  next
    case (Cons g gs)
    have "\<exists>s1. map_need_frame True f s = Ret (True, g, s1) \<and> map_inv s1 gs g \<and> g \<noteq> 0 \<and> tab_4 s1 = tab_4 s \<and>
        (\<forall>v. walk s1 v = walk s v) \<and> (\<forall>v d. d \<le> 4 \<longrightarrow> tab_at (pmem s1) (tab_4 s) v d = tab_at (pmem s) (tab_4 s) v d)"
    proof (cases "f = 0")
      case True
      then have "mm_inv s (g # gs)" using Cons Suc.prems(1) by (simp add: map_inv_def)
      moreover from this have "g \<noteq> 0" using fs.frames_distinct by fastforce
      ultimately show ?thesis using map_need_frame_gets [of s g gs True] True by blast
    next
      case False
      then show ?thesis using Cons Suc.prems(1) by (simp add: map_need_frame_def UPTR_NULL_def)
    qed
    then obtain s1 where s1: "map_need_frame True f s = Ret (True, g, s1)" "map_inv s1 gs g" "g \<noteq> 0" "tab_4 s1 = tab_4 s"
      "\<And>v. walk s1 v = walk s v" "\<And>v d. d \<le> 4 \<Longrightarrow> tab_at (pmem s1) (tab_4 s) v d = tab_at (pmem s) (tab_4 s) v d"
      by blast
    have t1: "tab_at (pmem s1) (tab_4 s1) va d = Some t" using s1(4) s1(6) [of d va] d Suc.prems(2) by simp
    have "cr3 s1 = tab_4 s1" using s1(2) by (auto simp: map_inv_def mm_inv_def page_ok_def)
    then have none1: "walk_from (pmem s1) 4 (tab_4 s1) va = None"
      using s1(5) [of va] Suc.prems(4,5) by (simp add: walk_def)
    from map_level_descends [OF s1(2,3) t1 d(1) none1] obtain t2 f2 s2 where
      s2: "map_level (4 - d) va t g s1 = Ret (t2, f2, s2)" "map_inv s2 gs f2" "tab_4 s2 = tab_4 s1" "f2 = g \<or> f2 = 0"
        "\<And>v. walk s2 v = walk s1 v" "tab_at (pmem s2) (tab_4 s2) va (Suc d) = Some t2" by auto
    define j :: nat where "j = (if f2 = g then 0 else 1)"
    have j: "j \<le> 1" "avail gs f2 = drop j (avail xs f)"
      unfolding Cons j_def using s2(4) s1(3) by auto
    have w2: "walk s2 va = None" using s1(5) s2(5) Suc.prems(5) by simp
    have d': "Suc d \<le> 3" using d(1) by simp
    from Suc.hyps(1) [OF d(2) s2(2,6) d' Suc.prems(4) w2] obtain ok l t3 f3 s3 ys k where
      s3: "map_loop (4 - Suc d) va True t2 f2 s2 = Ret (ok, l, t3, f3, s3)" "map_inv s3 ys f3" "tab_4 s3 = tab_4 s2"
        "k \<le> 3 - Suc d" "avail ys f3 = drop k (avail gs f2)" "\<forall>v. walk s3 v = walk s2 v"
        "ok \<longrightarrow> l = 1 \<and> tab_at (pmem s3) (tab_4 s2) va 3 = Some t3"
        "\<not> ok \<longrightarrow> avail ys f3 = [] \<and> length (avail gs f2) < 3 - Suc d" by (elim exE conjE) (rule that)
    have run: "map_loop (4 - d) va True t f s = Ret (ok, l, t3, f3, s3)"
      using s1(1) s2(1) s3(1) lv by (subst map_loop.simps) simp
    have av: "avail ys f3 = drop (k + j) (avail xs f)" "length (avail xs f) \<le> Suc (length (avail gs f2))"
      using s3(5) j by simp_all
    have short: "length (avail xs f) < 3 - d" if "\<not> ok"
      using s3(8) that av(2) d by linarith
    have "walk s3 v = walk s v" for v using s3(6) s2(5) s1(5) by simp
    then show ?thesis
      using run s3(2,3,4,7,8) s2(3) s1(4) j(1) d(1) av(1) short
      by (intro exI [of _ ok] exI [of _ l] exI [of _ t3] exI [of _ f3] exI [of _ s3] exI [of _ ys] exI [of _ "k + j"])
        (simp del: tab_at.simps)
  qed
qed

subsection \<open>Mapping is an update of the translation\<close>

lemma map_leaf:
  assumes inv: "map_inv s xs f" and t: "tab_at (pmem s) (tab_4 s) va 3 = Some t" and va: "canonical va"
    "\<not> same_page va VA_48_DIRECT_ACCESS_PAGE" and pa: "pa mod 4096 = 0" "pa \<le> VA_48_LOW_END"
  defines "s' \<equiv> pmem_store (entry_at t va 3) (mk_entry pa) s"
  shows "map_inv s' xs f" "entry_at t va 3 \<noteq> direct_tab_entry s"
    "walk s' v = (if canonical v \<and> same_page v va then Some (pa + (v AND 0xfff)) else walk s v)"
proof -
  have ok: "tree_ok (pmem s) (tab_4 s)" "page_ok s" "cr3 s = tab_4 s" and mi: "mm_inv s xs"
    using inv by (auto simp: map_inv_def mm_inv_def page_ok_def)
  have "\<not> same_path 4 va VA_48_DIRECT_ACCESS_PAGE" using va same_path_page direct_page_facts(3) by blast
  then show cell: "entry_at t va 3 \<noteq> direct_tab_entry s"
    using entry_unique(2) [OF ok(1) t _ page_ok_cell(1) [OF ok(2)]] page_ok_cell(2) [OF ok(2)] by auto
  note fields = mk_entry_fields [OF pa]
  note leaf = tree_leaf [OF ok(1) t, of "mk_entry pa"]
  have m': "pmem s' = (pmem s)(entry_at t va 3 := mk_entry pa)" by (simp add: s'_def)
  have tt: "frame_ok t" "is_table (pmem s) (tab_4 s) t" using tree_okD [OF ok(1) t] by auto
  have pok: "page_ok s'" using ok leaf(2) leaf(1) [of 3 VA_48_DIRECT_ACCESS_PAGE] cell fields
    by (auto simp: page_ok_def s'_def simp del: tab_at.simps)
  have miss: "y + 8 * i \<noteq> entry_at t va 3" if "frame_ok y" "\<not> is_table (pmem s) (tab_4 s) y" "unat i < 512" for y i
    using entry_inj [OF that(1) tt(1) that(3) tab_index_less(2)] that(2) tt(2) by auto
  have "y \<noteq> entry_at t va 3" if "y \<in> set xs" for y
    using miss [of y 0] that mi free_chain_frames by (auto simp: mm_inv_def)
  then have "free_chain (pmem s') h xs = free_chain (pmem s) h xs" for h by (intro free_chain_cong) (auto simp: m')
  then have "mm_inv s' xs" using mi pok leaf(3) by (auto simp: mm_inv_def s'_def)
  moreover have "spare s' xs f" "\<forall>i::u64. unat i < 512 \<longrightarrow> pmem s' (f + 8 * i) = 0" if "f \<noteq> 0"
    using inv that leaf(3) miss by (auto simp: map_inv_def spare_def m' s'_def)
  ultimately show "map_inv s' xs f" by (simp add: map_inv_def)
  show "walk s' v = (if canonical v \<and> same_page v va then Some (pa + (v AND 0xfff)) else walk s v)"
    using leaf(4) [of v] ok(3) fields same_path_page [of v va] va(1) by (auto simp: walk_def m') (simp_all add: s'_def)
qed

lemma mm_page_map_updates:
  assumes "mm_inv s xs" "va mod 4096 = 0" "canonical va" "\<not> same_page va VA_48_DIRECT_ACCESS_PAGE" "walk s va = None"
    and "pa mod 4096 = 0" "pa \<le> VA_48_LOW_END"
  shows "\<exists>ok s' k. mm_page_map va pa s = Ret (ok, s') \<and> k \<le> 3 \<and> mm_inv s' (drop k xs) \<and>
    (3 \<le> length xs \<longrightarrow> ok) \<and> (\<not> ok \<longrightarrow> drop k xs = []) \<and>
    (\<forall>v. walk s' v = (if ok \<and> canonical v \<and> same_page v va then Some (pa + (v AND 0xfff)) else walk s v))"
proof -
  have "map_inv s xs 0" using assms(1) by (simp add: map_inv_def)
  from map_loop_descends [OF this, of va 0 "tab_4 s"] assms(3,5) obtain ok lv t f s1 ys k where
    s1: "map_loop 4 va True (tab_4 s) 0 s = Ret (ok, lv, t, f, s1)" "map_inv s1 ys f" "tab_4 s1 = tab_4 s"
      "k \<le> 3" "avail ys f = drop k xs" "\<And>v. walk s1 v = walk s v"
    and fin: "ok \<Longrightarrow> lv = 1 \<and> tab_at (pmem s1) (tab_4 s) va 3 = Some t" "\<not> ok \<Longrightarrow> avail ys f = [] \<and> length xs < 3"
    by auto
  have ok1: "page_ok s1" "pmem s1 (direct_tab_entry s1) = 0" using s1(2) by (auto simp: map_inv_def mm_inv_def page_ok_def)
  have closed: "direct_access_is_reset s1 = Ret True"
    using ok1(2) by (simp add: direct_access_is_reset_def tab_entry_is_present_def tab_entry_is_zero_def Let_def)
  let ?tr = "\<lambda>v. if ok \<and> canonical v \<and> same_page v va then Some (pa + (v AND 0xfff)) else walk s v"
  obtain s2 where s2: "map_inv s2 ys f" "\<And>v. walk s2 v = ?tr v"
    and run: "mm_page_map va pa s = rbind (if f \<noteq> 0 then free_through_window f s2 else Ret s2) (\<lambda>s. Ret (ok, s))"
  proof (cases ok)
    case False
    then show ?thesis
      using that [of s1] s1 closed assms(2,6)
      by (simp add: mm_page_map_def mm_align_check_def UPTR_NULL_def PAGE_SIZE_4K_def)
  next
    case True
    then have t: "tab_at (pmem s1) (tab_4 s1) va 3 = Some t" "lv = 1" using fin s1(3) by auto
    note leaf = map_leaf [OF s1(2) t(1) assms(3,4,6,7)]
    let ?s2 = "pmem_store (entry_at t va 3) (mk_entry pa) s1"
    have tree: "tree_ok (pmem s1) (tab_4 s1)" using ok1(1) by (simp add: page_ok_def)
    have tt: "frame_ok t" "entry_ok 3 (pmem s1 (entry_at t va 3))" using tree_okD [OF tree t(1)] by auto
    have zero: "pmem s1 (entry_at t va 3) = 0"
    proof (rule ccontr)
      assume "pmem s1 (entry_at t va 3) \<noteq> 0"
      then have "walk_from (pmem s1) 4 (tab_4 s1) va \<noteq> None"
        using tt(2) walk_tab_at [OF _ t(1)] by (simp add: entry_ok_def Let_def)
      then show False using s1(6) [of va] assms(3,5) ok1(1) by (simp add: walk_def page_ok_def)
    qed
    have idx: "tab_index va (4 - 3) = tab_index va (Suc 0)" by simp
    note we = window_entry [OF ok1(1) tt(1) tab_index_less(2) leaf(2) [simplified idx], folded One_nat_def]
    have ok2: "page_ok ?s2" using leaf(1) by (simp add: map_inv_def mm_inv_def)
    have "mm_page_map va pa s = rbind (if f \<noteq> 0 then free_through_window f ?s2 else Ret ?s2) (\<lambda>s. Ret (ok, s))"
      using s1(1) closed assms(2,6) True t(2) we zero window_setup [OF ok1(1) frame_okD(1) [OF tt(1)] frame_okD(2) [OF tt(1)]]
        window_reset [OF ok2, of t] tab_entry_init_4K [of 1 pa] assms(6,7)
      by (simp add: mm_page_map_def mm_align_check_def UPTR_NULL_def PAGE_SIZE_4K_def tab_entry_is_zero_def Let_def)
    then show ?thesis using that [of ?s2] leaf(1,3) s1(6) True by simp
  qed
  obtain s3 where s3: "(if f \<noteq> 0 then free_through_window f s2 else Ret s2) = Ret s3" "mm_inv s3 (avail ys f)" "\<And>v. walk s3 v = walk s2 v"
  proof (cases "f = 0")
    case True
    then show ?thesis using that s2(1) by (simp add: map_inv_def)
  next
    case False
    then have inv: "mm_inv s2 ys" "spare s2 ys f" using s2(1) by (auto simp: map_inv_def)
    then have "free_through_window f s2 = Ret (pushed f s2)"
      by (intro free_through_window_pushes) (auto simp: mm_inv_def spare_def)
    then show ?thesis using that [of "pushed f s2"] mm_inv_pushed [OF inv] False by simp
  qed
  show ?thesis using run s3 s2(2) s1(4,5) fin
    by (intro exI [of _ ok] exI [of _ s3] exI [of _ k]) (cases ok; auto split: if_splits)
qed

subsection \<open>The interface of the page mapper\<close>

text \<open>
  What a client of \<open>mm_frame_alloc\<close> and \<open>mm_page_map\<close> relies on: allocation hands out usable frames
  and changes no translation; mapping an unmapped page needs at most three more frames and changes
  the translation of that page only.
\<close>

locale pager =
  fixes alloc :: "'s \<Rightarrow> (u64 option \<times> 's) res"
    and pmap :: "u64 \<Rightarrow> u64 \<Rightarrow> 's \<Rightarrow> (bool \<times> 's) res"
    and frames :: "'s \<Rightarrow> u64 list \<Rightarrow> bool"
    and trans :: "'s \<Rightarrow> u64 \<Rightarrow> u64 option"
    and mappable :: "u64 \<Rightarrow> bool"
  assumes alloc_frame:
      "frames s (x # xs) \<Longrightarrow> \<exists>s'. alloc s = Ret (Some x, s') \<and> frames s' xs \<and> frame_ok x \<and> (\<forall>v. trans s' v = trans s v)"
    and map_page:
      "frames s xs \<Longrightarrow> 3 \<le> length xs \<Longrightarrow> mappable va \<Longrightarrow> trans s va = None \<Longrightarrow> frame_ok f \<Longrightarrow>
       \<exists>s' k. pmap va f s = Ret (True, s') \<and> k \<le> 3 \<and> frames s' (drop k xs) \<and>
         (\<forall>v. trans s' v = (if canonical v \<and> same_page v va then Some (f + (v AND 0xfff)) else trans s v))"
begin

lemma map_page_keeps:
  assumes "frames s xs" "3 \<le> length xs" "mappable va" "trans s va = None" "frame_ok f" "trans s v \<noteq> None" "\<not> same_page v va"
  shows "\<exists>s'. pmap va f s = Ret (True, s') \<and> trans s' v = trans s v"
  using map_page [OF assms(1-5)] assms(7) by auto

end

interpretation pages: pager mm_frame_alloc mm_page_map mm_inv walk
  "\<lambda>va. va mod 4096 = 0 \<and> canonical va \<and> \<not> same_page va VA_48_DIRECT_ACCESS_PAGE"
proof (unfold_locales, goal_cases)
  case (1 s x xs)
  then have "frame_ok x" by (simp add: mm_inv_def)
  then show ?case using mm_frame_alloc_pops [OF 1] mm_inv_popped [OF 1] by auto
next
  case (2 s xs va f)
  then have va: "va mod 4096 = 0" "canonical va" "\<not> same_page va VA_48_DIRECT_ACCESS_PAGE" by auto
  from mm_page_map_updates [OF 2(1) va 2(4) frame_okD(1) [OF 2(5)] frame_okD(2) [OF 2(5)]]
  obtain ok s' k where res: "mm_page_map va f s = Ret (ok, s')" "k \<le> 3" "mm_inv s' (drop k xs)" "3 \<le> length xs \<longrightarrow> ok"
    "\<forall>v. walk s' v = (if ok \<and> canonical v \<and> same_page v va then Some (f + (v AND 0xfff)) else walk s v)" by blast
  have ok using 2(2) res(4) by simp
  with res show ?case by (intro exI [of _ s'] exI [of _ k]) simp
qed

text \<open>
  C6: on well-formed page tables, \<open>mm_page_map\<close> of an unmapped page returns; it succeeds whenever three
  frames are free, takes at most three of them, and reports failure only when the free list is used up.
  Afterwards tables, free list and window are well formed again, and the processor translates the
  addresses of the page to the given frame if the call succeeded, and every other address as before.
\<close>

theorem mm_page_map_translates:
  assumes "mm_inv s xs" "va mod 4096 = 0" "canonical va" "\<not> same_page va VA_48_DIRECT_ACCESS_PAGE" "walk s va = None"
    and "pa mod 4096 = 0" "pa \<le> VA_48_LOW_END"
  shows "\<exists>ok s' k. mm_page_map va pa s = Ret (ok, s') \<and> k \<le> 3 \<and> mm_inv s' (drop k xs) \<and>
    (3 \<le> length xs \<longrightarrow> ok) \<and> (\<not> ok \<longrightarrow> drop k xs = []) \<and>
    (\<forall>v. walk s' v = (if ok \<and> canonical v \<and> same_page v va then Some (pa + (v AND 0xfff)) else walk s v))"
  using assms by (rule mm_page_map_updates)

end
