(* ===== verification/Buddy_Tiling.thy ===== *)
theory Buddy_Tiling
  imports Main
begin

text \<open>
  The abstract heap of the buddy allocator: a partial map from page numbers to the class and state of
  the block that begins there. \<open>tm p = Some (c, f)\<close> is a block of \<open>2^c\<close> pages, free if \<open>f\<close>. The blocks
  tile the \<open>N\<close> pages of the heap, each at a multiple of its size. Splitting, merging, growing and
  changing the state of a block keep the tiling, and the buddy of a block always begins a block that
  is not larger.
\<close>

type_synonym tiling = "nat \<Rightarrow> (nat \<times> bool) option"

definition tiles :: "tiling \<Rightarrow> nat \<Rightarrow> bool" where
  "tiles tm N \<longleftrightarrow>
     (\<forall>p c f. tm p = Some (c, f) \<longrightarrow> c < 16 \<and> 2 ^ c dvd p \<and> p + 2 ^ c \<le> N) \<and>
     (\<forall>q<N. \<exists>p c f. tm p = Some (c, f) \<and> p \<le> q \<and> q < p + 2 ^ c) \<and>
     (\<forall>p c f p' c' f'. tm p = Some (c, f) \<longrightarrow> tm p' = Some (c', f') \<longrightarrow> p < p' \<longrightarrow> p + 2 ^ c \<le> p')"

lemma tilesD:
  assumes "tiles tm N" "tm p = Some (c, f)"
  shows "c < 16" "2 ^ c dvd p" "p + 2 ^ c \<le> N" "p < N"
proof -
  show a: "c < 16" "2 ^ c dvd p" "p + 2 ^ c \<le> N" using assms unfolding tiles_def by blast+
  have "(0::nat) < 2 ^ c" by simp
  with a(3) show "p < N" by linarith
qed

lemma tiles_cover:
  assumes "tiles tm N" "q < N"
  obtains p c f where "tm p = Some (c, f)" "p \<le> q" "q < p + 2 ^ c"
  using assms unfolding tiles_def by blast

lemma tiles_after:
  assumes "tiles tm N" "tm p = Some (c, f)" "tm p' = Some (c', f')" "p < p'"
  shows "p + 2 ^ c \<le> p'"
  using assms unfolding tiles_def by blast

lemma tiles_disjoint:
  assumes "tiles tm N" "tm p = Some (c, f)" "tm p' = Some (c', f')" "p \<le> q" "q < p + 2 ^ c" "p' \<le> q" "q < p' + 2 ^ c'"
  shows "p = p'"
  using tiles_after [OF assms(1,2,3)] tiles_after [OF assms(1,3,2)] assms(4-7) by linarith

text \<open>The moves of the allocator on the tiling.\<close>

lemma tiles_flag:
  assumes "tiles tm N" "tm p = Some (c, f)"
  shows "tiles (tm(p \<mapsto> (c, g))) N"
proof -
  have dom: "(tm(p \<mapsto> (c, g))) q = Some (d, f') \<Longrightarrow> \<exists>f''. tm q = Some (d, f'')" for q d f'
    using assms(2) by (auto split: if_splits)
  have dom': "tm q = Some (d, f') \<Longrightarrow> \<exists>f''. (tm(p \<mapsto> (c, g))) q = Some (d, f'')" for q d f'
    using assms(2) by auto
  show ?thesis
    unfolding tiles_def
  proof (intro conjI allI impI)
    fix q d f'
    assume "(tm(p \<mapsto> (c, g))) q = Some (d, f')"
    then show "d < 16" "2 ^ d dvd q" "q + 2 ^ d \<le> N" using dom tilesD [OF assms(1)] by blast+
  next
    fix q
    assume "q < N"
    then obtain r d f' where "tm r = Some (d, f')" "r \<le> q" "q < r + 2 ^ d" by (rule tiles_cover [OF assms(1)])
    then show "\<exists>r d f'. (tm(p \<mapsto> (c, g))) r = Some (d, f') \<and> r \<le> q \<and> q < r + 2 ^ d" using dom' by blast
  next
    fix q d f' q' d' f''
    assume "(tm(p \<mapsto> (c, g))) q = Some (d, f')" "(tm(p \<mapsto> (c, g))) q' = Some (d', f'')" "q < q'"
    then show "q + 2 ^ d \<le> q'" using dom tiles_after [OF assms(1)] by blast
  qed
qed

lemma tiles_split:
  assumes t: "tiles tm N" and p: "tm p = Some (Suc c, f)"
  shows "tiles (tm(p \<mapsto> (c, g), p + 2 ^ c \<mapsto> (c, g'))) N"
proof -
  let ?tm = "tm(p \<mapsto> (c, g), p + 2 ^ c \<mapsto> (c, g'))"
  note d = tilesD [OF t p]
  have two: "(2::nat) ^ Suc c = 2 ^ c + 2 ^ c" "(0::nat) < 2 ^ c" by simp_all
  have dv: "2 ^ c dvd p" using d(2) by (rule power_le_dvd) simp
  have old: "tm q = Some (e, f') \<and> q \<noteq> p \<and> q \<noteq> p + 2 ^ c \<or> e = c \<and> (q = p \<or> q = p + 2 ^ c)"
    if "?tm q = Some (e, f')" for q e f'
    using that by (auto split: if_splits)
  have fresh: "tm (p + 2 ^ c) = None"
  proof (rule ccontr)
    assume "tm (p + 2 ^ c) \<noteq> None"
    then obtain e f' where e: "tm (p + 2 ^ c) = Some (e, f')" by auto
    have "p + 2 ^ Suc c \<le> p + 2 ^ c" using tiles_after [OF t p e] two(2) by simp
    then show False using two by simp
  qed
  show ?thesis
    unfolding tiles_def
  proof (intro conjI allI impI)
    fix q e f'
    assume a: "?tm q = Some (e, f')"
    have "tm q = Some (e, f') \<or> e = c \<and> (q = p \<or> q = p + 2 ^ c)" using old [OF a] by blast
    then show "e < 16" "2 ^ e dvd q" "q + 2 ^ e \<le> N"
      using tilesD [OF t, of q e f'] d dv two by (auto simp: dvd_add)
  next
    fix q
    assume "q < N"
    then obtain r e f' where r: "tm r = Some (e, f')" "r \<le> q" "q < r + 2 ^ e" by (rule tiles_cover [OF t])
    show "\<exists>r e f'. ?tm r = Some (e, f') \<and> r \<le> q \<and> q < r + 2 ^ e"
    proof (cases "r = p")
      case True
      then have "e = Suc c" using r p by simp
      then show ?thesis using r True two by (cases "q < p + 2 ^ c") (force, intro exI [of _ "p + 2 ^ c"] exI [of _ c], simp)
    next
      case False
      then have "?tm r = Some (e, f')" using r(1) fresh by auto
      then show ?thesis using r by blast
    qed
  next
    fix q e f' q' e' f''
    assume a: "?tm q = Some (e, f')" "?tm q' = Some (e', f'')" "q < q'"
    have after: "p + 2 ^ Suc c \<le> r" if "tm r = Some (x, y)" "p < r" for r x y using tiles_after [OF t p that] .
    have before: "r + 2 ^ x \<le> p" if "tm r = Some (x, y)" "r < p" for r x y using tiles_after [OF t that(1) p that(2)] .
    show "q + 2 ^ e \<le> q'"
      using old [OF a(1)] old [OF a(2)] a(3) tiles_after [OF t, of q e f' q' e' f''] after [of q' e' f''] before [of q e f']
        after [of q e f'] two by (cases "q < p") auto
  qed
qed

lemma tiles_merge:
  assumes t: "tiles tm N" and p: "tm p = Some (c, f)" "tm (p + 2 ^ c) = Some (c, f')" and al: "2 ^ Suc c dvd p" "Suc c < 16"
  shows "tiles (tm(p + 2 ^ c := None, p \<mapsto> (Suc c, g))) N"
proof -
  let ?b = "p + 2 ^ c"
  let ?tm = "tm(?b := None, p \<mapsto> (Suc c, g))"
  have two: "(2::nat) ^ Suc c = 2 ^ c + 2 ^ c" "(0::nat) < 2 ^ c" by simp_all
  have old: "tm q = Some (e, h) \<and> q \<noteq> p \<and> q \<noteq> ?b \<or> e = Suc c \<and> q = p" if "?tm q = Some (e, h)" for q e h
    using that by (auto split: if_splits)
  show ?thesis
    unfolding tiles_def
  proof (intro conjI allI impI)
    fix q e h
    assume a: "?tm q = Some (e, h)"
    show "e < 16" "2 ^ e dvd q" "q + 2 ^ e \<le> N"
      using old [OF a] tilesD [OF t, of q e h] tilesD(3) [OF t p(2)] al two by auto
  next
    fix q
    assume "q < N"
    then obtain r e h where r: "tm r = Some (e, h)" "r \<le> q" "q < r + 2 ^ e" by (rule tiles_cover [OF t])
    show "\<exists>r e h. ?tm r = Some (e, h) \<and> r \<le> q \<and> q < r + 2 ^ e"
    proof (cases "r = p \<or> r = ?b")
      case True
      then have "e = c" using r p by auto
      then show ?thesis using r True two by (intro exI [of _ p] exI [of _ "Suc c"] exI [of _ g]) auto
    next
      case False
      then show ?thesis using r by (intro exI [of _ r] exI [of _ e] exI [of _ h]) auto
    qed
  next
    fix q e h q' e' h'
    assume a: "?tm q = Some (e, h)" "?tm q' = Some (e', h')" "q < q'"
    have "?b + 2 ^ c \<le> q'" if "tm q' = Some (e', h')" "p < q'" "q' \<noteq> ?b"
      using tiles_after [OF t p(1) that(1,2)] tiles_after [OF t p(2) that(1)] that(3) by linarith
    then show "q + 2 ^ e \<le> q'"
      using old [OF a(1)] old [OF a(2)] a(3) tiles_after [OF t, of q e h q' e' h'] tiles_after [OF t _ p(1), of q e h] two
      by auto
  qed
qed

lemma tiles_expand:
  assumes t: "tiles tm N" and N: "2 ^ 15 dvd N"
  shows "tiles (tm(N \<mapsto> (15, g))) (N + 2 ^ 15)"
proof -
  let ?tm = "tm(N \<mapsto> (15, g))"
  have old: "tm q = Some (e, h) \<and> q < N \<and> q + 2 ^ e \<le> N \<or> e = 15 \<and> q = N" if "?tm q = Some (e, h)" for q e h
    using that tilesD(3,4) [OF t, of q e h] by (auto split: if_splits)
  show ?thesis
    unfolding tiles_def
  proof (intro conjI allI impI)
    fix q e h
    assume a: "?tm q = Some (e, h)"
    show "e < 16" "2 ^ e dvd q" "q + 2 ^ e \<le> N + 2 ^ 15"
      using old [OF a] tilesD [OF t, of q e h] N by auto
  next
    fix q
    assume q: "q < N + 2 ^ 15"
    show "\<exists>r e h. ?tm r = Some (e, h) \<and> r \<le> q \<and> q < r + 2 ^ e"
    proof (cases "q < N")
      case True
      then obtain r e h where r: "tm r = Some (e, h)" "r \<le> q" "q < r + 2 ^ e" by (rule tiles_cover [OF t])
      then show ?thesis using tilesD(4) [OF t r(1)] by (intro exI [of _ r] exI [of _ e] exI [of _ h]) auto
    next
      case False
      then show ?thesis using q by (intro exI [of _ N] exI [of _ 15] exI [of _ g]) auto
    qed
  next
    fix q e h q' e' h'
    assume a: "?tm q = Some (e, h)" "?tm q' = Some (e', h')" "q < q'"
    then show "q + 2 ^ e \<le> q'"
      using old [OF a(1)] old [OF a(2)] tiles_after [OF t, of q e h q' e' h'] by auto
  qed
qed

text \<open>The buddy of a block: the other half of the block of the next class that contains it.\<close>

definition buddy :: "nat \<Rightarrow> nat \<Rightarrow> nat" where
  "buddy c p = (if odd (p div 2 ^ c) then p - 2 ^ c else p + 2 ^ c)"

lemma buddy_cases:
  assumes "2 ^ c dvd p"
  obtains (upper) "2 ^ Suc c dvd p - 2 ^ c" "2 ^ c \<le> p" "buddy c p = p - 2 ^ c" "odd (p div 2 ^ c)"
  | (lower) "2 ^ Suc c dvd p" "buddy c p = p + 2 ^ c" "even (p div 2 ^ c)"
proof -
  obtain k where k: "p = 2 ^ c * k" using assms by (elim dvdE)
  then have kd: "p div 2 ^ c = k" by simp
  show ?thesis
  proof (cases "odd k")
    case True
    then obtain j where "k = 2 * j + 1" by (elim oddE)
    then have "p - 2 ^ c = 2 ^ Suc c * j" "2 ^ c \<le> p" using k by (simp_all add: algebra_simps)
    then show ?thesis using upper kd True by (simp add: buddy_def)
  next
    case False
    then obtain j where "k = 2 * j" by blast
    then have "p = 2 ^ Suc c * j" using k by simp
    then show ?thesis using lower kd False by (simp add: buddy_def)
  qed
qed

lemma dvd_interval:
  assumes "(d::nat) dvd q" "d dvd l" "d dvd m" "q \<le> x" "x < q + l" "m \<le> x" "x < m + d" "m \<le> y" "y < m + d"
  shows "q \<le> y" "y < q + l"
proof -
  obtain a b e where abe: "q = d * a" "l = d * b" "m = d * e" using assms(1-3) by (metis dvdE)
  have "0 < d" using assms(8,9) by linarith
  have "d * a < d * (e + 1)" using assms(4,7) abe by (simp add: algebra_simps)
  then have "a \<le> e" using \<open>0 < d\<close> by (metis Suc_eq_plus1 less_Suc_eq_le mult_less_cancel1)
  then have "d * a \<le> d * e" by simp
  then show "q \<le> y" using assms(8) abe by linarith
  have "d * e < d * (a + b)" using assms(5,6) abe by (simp add: algebra_simps)
  then have "e + 1 \<le> a + b" using \<open>0 < d\<close> by (metis Suc_eq_plus1 Suc_leI mult_less_cancel1)
  then have "d * (e + 1) \<le> d * (a + b)" by (rule mult_le_mono2)
  then show "y < q + l" using assms(9) abe by (simp add: algebra_simps)
qed

lemma tiles_buddy:
  assumes t: "tiles tm N" and N: "2 ^ 15 dvd N" and p: "tm p = Some (c, f)" "c < 15"
  shows "\<exists>c' f'. tm (buddy c p) = Some (c', f') \<and> c' \<le> c"
proof -
  note d = tilesD [OF t p(1)]
  have pos: "(0::nat) < 2 ^ c" and two: "(2::nat) ^ Suc c = 2 ^ c + 2 ^ c" by simp_all
  have "\<exists>m. 2 ^ Suc c dvd m \<and> m \<le> p \<and> p < m + 2 ^ Suc c \<and> m \<le> buddy c p \<and> buddy c p < m + 2 ^ Suc c \<and> 2 ^ c dvd buddy c p"
  proof (rule buddy_cases [OF d(2)])
    assume "2 ^ Suc c dvd p - 2 ^ c" "2 ^ c \<le> p" "buddy c p = p - 2 ^ c"
    moreover have "p - 2 ^ c < 2 ^ c + p" using pos by linarith
    ultimately show ?thesis using two d(2) by (intro exI [of _ "p - 2 ^ c"]) (simp add: dvd_diff_nat)
  next
    assume "2 ^ Suc c dvd p" "buddy c p = p + 2 ^ c"
    then show ?thesis using pos two d(2) by (intro exI [of _ p]) simp
  qed
  then obtain m where m: "2 ^ Suc c dvd m" "m \<le> p" "p < m + 2 ^ Suc c" "m \<le> buddy c p" "buddy c p < m + 2 ^ Suc c"
    "2 ^ c dvd buddy c p" by blast
  have "2 ^ Suc c dvd N" using N p(2) by (intro power_le_dvd [of 2 15 N "Suc c"]) auto
  then have "buddy c p < N"
    using dvd_interval(2) [of "2 ^ Suc c" 0 N m p "buddy c p"] m d(4) by simp
  then obtain q c' f' where q: "tm q = Some (c', f')" "q \<le> buddy c p" "buddy c p < q + 2 ^ c'" by (rule tiles_cover [OF t])
  note dq = tilesD [OF t q(1)]
  have "c' \<le> c"
  proof (rule ccontr)
    assume "\<not> c' \<le> c"
    then have "Suc c \<le> c'" by simp
    then have "2 ^ Suc c dvd q" "(2::nat) ^ Suc c dvd 2 ^ c'"
      using dq(2) power_le_dvd le_imp_power_dvd by blast+
    then have "q \<le> p" "p < q + 2 ^ c'"
      using dvd_interval [of "2 ^ Suc c" q "2 ^ c'" m "buddy c p" p] q m by auto
    then have "p = q" using tiles_disjoint [OF t p(1) q(1), of p] pos by simp
    then show False using p(1) q(1) \<open>\<not> c' \<le> c\<close> by simp
  qed
  moreover from this have "2 ^ c' dvd buddy c p" using m(6) power_le_dvd by blast
  then have "q = buddy c p"
    using dvd_interval(1) [of "2 ^ c'" "buddy c p" "2 ^ c'" q "buddy c p" q] dq(2) q by simp
  ultimately show ?thesis using q(1) by auto
qed

lemma buddy_neq: "2 ^ c dvd p \<Longrightarrow> buddy c p \<noteq> p"
  by (rule buddy_cases) auto

lemma buddy_buddy: "2 ^ c dvd p \<Longrightarrow> buddy c (buddy c p) = p"
proof (rule buddy_cases)
  assume "2 ^ Suc c dvd p - 2 ^ c" and up: "2 ^ c \<le> p" "buddy c p = p - 2 ^ c"
  then obtain j where "p - 2 ^ c = 2 ^ c * (2 * j)" by (auto elim!: dvdE)
  then have "even ((p - 2 ^ c) div 2 ^ c)" by simp
  then show ?thesis unfolding up(2) using up(1) by (simp add: buddy_def)
next
  assume "2 ^ Suc c dvd p" and low: "buddy c p = p + 2 ^ c"
  then obtain j where "p = 2 ^ c * (2 * j)" by (auto elim!: dvdE)
  then have "(p + 2 ^ c) div 2 ^ c = 2 * j + 1" by simp
  then show ?thesis unfolding low by (simp add: buddy_def)
qed

lemma buddy_lower: "2 ^ Suc c dvd p \<Longrightarrow> buddy c p = p + 2 ^ c"
  by (auto simp: buddy_def elim!: dvdE)

subsection \<open>Blocks that could be merged\<close>

text \<open>
  The free blocks whose buddy is free as well. Between the operations of the heap there are none; splitting and
  releasing make the two halves of one block mergeable for a time, \<open>halves p c\<close>.
\<close>

definition mergeable :: "tiling \<Rightarrow> (nat \<times> nat) set" where
  "mergeable tm = {(p, c). c < 15 \<and> tm p = Some (c, True) \<and> tm (buddy c p) = Some (c, True)}"

definition halves :: "nat \<Rightarrow> nat \<Rightarrow> (nat \<times> nat) set" where
  "halves p c = {(p, c), (buddy c p, c)}"

lemma halves_upper: "2 ^ Suc c dvd p \<Longrightarrow> halves (p + 2 ^ c) c = halves p c"
  using buddy_lower [of c p] buddy_buddy [of c p] power_le_dvd [of 2 "Suc c" p c] by (auto simp: halves_def)

lemma mergeable_buddy:
  assumes "tiles tm N" "(p, c) \<in> mergeable tm"
  shows "(buddy c p, c) \<in> mergeable tm"
  using assms buddy_buddy [OF tilesD(2) [OF assms(1)], of p c True] by (auto simp: mergeable_def)

text \<open>Only the blocks of one pair are mergeable: nothing is, when one of them is not free or of the largest class.\<close>

lemma mergeable_none:
  assumes t: "tiles tm N" and m: "mergeable tm \<subseteq> halves p c" and p: "2 ^ c dvd p"
    and "c = 15 \<or> tm p \<noteq> Some (c, True) \<or> tm (buddy c p) \<noteq> Some (c, True)"
  shows "mergeable tm = {}"
proof (rule equals0I)
  fix x assume "x \<in> mergeable tm"
  then have "(p, c) \<in> mergeable tm"
    using m mergeable_buddy [OF t, of "buddy c p" c] buddy_buddy [OF p] by (auto simp: halves_def)
  then show False using assms(4) by (simp add: mergeable_def)
qed

lemma mergeable_release:
  assumes t: "tiles tm N" and p: "tm p = Some (c, False)" and m: "mergeable tm = {}"
  shows "mergeable (tm(p \<mapsto> (c, True))) \<subseteq> halves p c"
proof (rule subrelI)
  fix q e assume q: "(q, e) \<in> mergeable (tm(p \<mapsto> (c, True)))"
  have "(q, e) \<notin> mergeable tm" using m by blast
  then have "q = p \<or> buddy e q = p" using q by (auto simp: mergeable_def split: if_splits)
  moreover have "2 ^ e dvd q" using q p tilesD(2) [OF t, of q] by (auto simp: mergeable_def split: if_splits)
  ultimately show "(q, e) \<in> halves p c" using q buddy_buddy [of e q] by (auto simp: mergeable_def halves_def split: if_splits)
qed

lemma mergeable_give:
  assumes t: "tiles tm N" and p: "tm p = Some (c, True)" and m: "mergeable tm \<subseteq> halves p c"
  shows "mergeable (tm(p \<mapsto> (c, False))) = {}"
proof -
  have "mergeable (tm(p \<mapsto> (c, False))) \<subseteq> mergeable tm" by (auto simp: mergeable_def split: if_splits)
  then show ?thesis using m tilesD(2) [OF t p] by (intro mergeable_none [OF tiles_flag [OF t p]]) auto
qed

lemma mergeable_split:
  assumes t: "tiles tm N" and p: "tm p = Some (Suc c, True)" and m: "mergeable tm \<subseteq> halves p (Suc c)"
  shows "mergeable (tm(p \<mapsto> (c, True), p + 2 ^ c \<mapsto> (c, True))) \<subseteq> halves p c"
proof (rule subrelI)
  let ?q = "p + 2 ^ c"
  let ?tm = "tm(p \<mapsto> (c, True), ?q \<mapsto> (c, True))"
  fix r e assume r: "(r, e) \<in> mergeable ?tm"
  have b: "buddy c p = ?q" "buddy c ?q = p"
    using buddy_lower [of c p] buddy_buddy [of c p] tilesD(2) [OF t p] power_le_dvd [of 2 "Suc c" p c] by simp_all
  have rb: "2 ^ e dvd r" using tilesD(2) [OF tiles_split [OF t p, of True True], of r e True] r by (simp add: mergeable_def)
  show "(r, e) \<in> halves p c"
  proof (cases "r = p \<or> r = ?q \<or> buddy e r = p \<or> buddy e r = ?q")
    case True
    then show ?thesis using r b buddy_buddy [OF rb] by (auto simp: mergeable_def halves_def split: if_splits)
  next
    case False
    then have "(r, e) \<in> mergeable tm" using r by (auto simp: mergeable_def)
    then have "(r, e) = (buddy (Suc c) p, Suc c)" using m False by (auto simp: halves_def)
    then show ?thesis using False buddy_buddy [OF tilesD(2) [OF t p]] by simp
  qed
qed

lemma mergeable_merge:
  assumes t: "tiles tm N" and p: "tm p = Some (c, True)" "tm (p + 2 ^ c) = Some (c, True)" and al: "2 ^ Suc c dvd p" "Suc c < 16"
    and m: "mergeable tm \<subseteq> halves p c"
  shows "mergeable (tm(p + 2 ^ c := None, p \<mapsto> (Suc c, True))) \<subseteq> halves p (Suc c)"
proof (rule subrelI)
  let ?q = "p + 2 ^ c"
  let ?tm = "tm(?q := None, p \<mapsto> (Suc c, True))"
  fix r e assume r: "(r, e) \<in> mergeable ?tm"
  have rb: "2 ^ e dvd r" using tilesD(2) [OF tiles_merge [OF t p al, of True], of r e True] r by (simp add: mergeable_def)
  show "(r, e) \<in> halves p (Suc c)"
  proof (cases "r = p \<or> buddy e r = p")
    case True
    then show ?thesis using r buddy_buddy [OF rb] by (auto simp: mergeable_def halves_def split: if_splits)
  next
    case False
    then have "(r, e) \<in> mergeable tm" "r \<noteq> ?q" using r by (auto simp: mergeable_def split: if_splits)
    then show ?thesis using m False buddy_lower [OF al(1)] by (auto simp: halves_def)
  qed
qed

lemma mergeable_expand: "mergeable tm = {} \<Longrightarrow> tm N = None \<Longrightarrow> mergeable (tm(N \<mapsto> (15, True))) = {}"
  by (auto simp: mergeable_def split: if_splits)

text \<open>A heap in which nothing is used and nothing can be merged consists of blocks of the largest class.\<close>

lemma all_largest:
  assumes t: "tiles tm N" and N: "2 ^ 15 dvd N" and free: "\<And>p c. tm p \<noteq> Some (c, False)" and m: "mergeable tm = {}" and p: "tm p = Some (c, f)"
  shows "c = 15"
proof (rule ccontr)
  assume "c \<noteq> 15"
  then have "\<exists>c. (\<exists>p f. tm p = Some (c, f)) \<and> c < 15" using tilesD(1) [OF t p] p by (intro exI [of _ c]) auto
  then obtain d where d: "\<exists>p f. tm p = Some (d, f)" "d < 15" and least: "\<And>e. e < d \<Longrightarrow> \<not> ((\<exists>p f. tm p = Some (e, f)) \<and> e < 15)"
    using exists_least_iff [of "\<lambda>c. (\<exists>p f. tm p = Some (c, f)) \<and> c < 15"] by blast
  then obtain q g where q: "tm q = Some (d, g)" by blast
  obtain e g' where b: "tm (buddy d q) = Some (e, g')" "e \<le> d" using tiles_buddy [OF t N q d(2)] by blast
  then have "e = d" using least [of e] d(2) by (metis le_neq_implies_less order.strict_trans)
  then have "(q, d) \<in> mergeable tm" using q b d(2) free [of q d] free [of "buddy d q" d] by (cases g; cases g') (auto simp: mergeable_def)
  then show False using m by simp
qed

end
