(* ===== verification/Mm_Heap.thy ===== *)
theory Mm_Heap
  imports Mm_Page Buddy_Tiling
begin

text \<open>
  \<open>src/src/mm/mm_heap.c\<close>: the buddy allocator of the kernel heap. The heap starts at \<open>VA_48_HEAP\<close>
  and grows in regions of \<open>2^15\<close> pages; a block of class \<open>c\<close> is \<open>2^c\<close> pages, begins with a header
  \<open>block_t\<close>, and free blocks of a class are chained through \<open>next_free\<close> from \<open>_free_list[c]\<close>.

  Headers are kept in \<open>blocks\<close>, a typed view of the heap by virtual address; reading or writing a
  header at an address that the page tables do not map stops with \<open>PageFault\<close>. The null pointer is 0.
  The user's bytes are not represented, so nothing is known about what lies inside a block.
\<close>

record block =
  blk_class :: u8
  is_free :: bool
  next_free :: u64
  magic :: u32

record heap_state =
  mm :: mm_state
  free_list :: "u64 list"
  heap_end :: u64
  blocks :: "u64 \<Rightarrow> block"

definition BLOCK_MAX_CLASS :: u64 where "BLOCK_MAX_CLASS = 16"
definition sizeof_block :: u64 where "sizeof_block = 24"
definition BLOCK_MAGIC :: u32 where "BLOCK_MAGIC = 0xBABEFACE"

subsection \<open>Headers\<close>

definition blk_get :: "u64 \<Rightarrow> heap_state \<Rightarrow> block res" where
  "blk_get p h = (if walk (mm h) p = None then Stop PageFault else Ret (blocks h p))"

definition blk_set :: "u64 \<Rightarrow> block \<Rightarrow> heap_state \<Rightarrow> heap_state res" where
  "blk_set p b h = (if walk (mm h) p = None then Stop PageFault else Ret (h\<lparr>blocks := (blocks h)(p := b)\<rparr>))"

definition size_of_class :: "u64 \<Rightarrow> u64 res" where
  "size_of_class cls =
     kassert (cls < BLOCK_MAX_CLASS) (rbind (util_math_2_exp (ucast cls)) (\<lambda>e. Ret (e * PAGE_SIZE_4K)))"

definition align_assert :: "u64 \<Rightarrow> u64 \<Rightarrow> 'a res \<Rightarrow> 'a res" where
  "align_assert p align k = rbind (mm_align_check p align) (\<lambda>ok. kassert ok k)"

definition block_init :: "u64 \<Rightarrow> u8 \<Rightarrow> bool \<Rightarrow> u64 \<Rightarrow> heap_state \<Rightarrow> heap_state res" where
  "block_init block cls free next h =
     align_assert block PAGE_SIZE_4K
       (blk_set block \<lparr>blk_class = cls, is_free = free, next_free = next, magic = BLOCK_MAGIC\<rparr> h)"

definition block_validate :: "u64 \<Rightarrow> heap_state \<Rightarrow> unit res" where
  "block_validate block h =
     align_assert block PAGE_SIZE_4K (rbind (blk_get block h) (\<lambda>b. kassert (magic b = BLOCK_MAGIC) (Ret ())))"

text \<open>\<open>_block_check_out\<close> returns the user pointer and the payload length.\<close>

definition block_check_out :: "u64 \<Rightarrow> heap_state \<Rightarrow> (u64 \<times> u64 \<times> heap_state) res" where
  "block_check_out block h =
     align_assert block PAGE_SIZE_4K
     (rbind (blk_get block h) (\<lambda>b.
      kassert (ucast (blk_class b) < BLOCK_MAX_CLASS)
      (kassert (is_free b = True)
      (rbind (blk_set block (b\<lparr>is_free := False\<rparr>) h) (\<lambda>h.
       rbind (size_of_class (ucast (blk_class b))) (\<lambda>len.
         Ret (block + sizeof_block, len - sizeof_block, h)))))))"

definition block_check_in :: "u64 \<Rightarrow> heap_state \<Rightarrow> (u64 \<times> heap_state) res" where
  "block_check_in block_user h =
     (let block = block_user - sizeof_block in
      rbind (block_validate block h) (\<lambda>_.
      rbind (blk_get block h) (\<lambda>b.
      kassert (is_free b = False)
        (rbind (blk_set block (b\<lparr>is_free := True\<rparr>) h) (\<lambda>h. Ret (block, h))))))"

definition block_find_buddy :: "u64 \<Rightarrow> heap_state \<Rightarrow> u64 res" where
  "block_find_buddy blk h =
     align_assert blk PAGE_SIZE_4K
     (rbind (blk_get blk h) (\<lambda>b.
      let cls = blk_class b in
      kassert (ucast cls < BLOCK_MAX_CLASS)
      (rbind (size_of_class (ucast cls)) (\<lambda>blk_size.
       rbind (size_of_class (BLOCK_MAX_CLASS - 1)) (\<lambda>max_size.
       rbind (mm_align_down (blk - VA_48_HEAP) max_size) (\<lambda>blk_base.
       let blk_offs = blk - VA_48_HEAP - blk_base in
       align_assert blk_offs blk_size
       (rbind (mm_align_check (blk_offs - blk_size) (blk_size * 2)) (\<lambda>upper.
        rbind (if upper then Ret (blk_offs - blk_size)
               else align_assert blk_offs (blk_size * 2) (Ret (blk_offs + blk_size))) (\<lambda>buddy_addr.
        let buddy_block = buddy_addr + blk_base + VA_48_HEAP in
        rbind (block_validate buddy_block h) (\<lambda>_.
        rbind (blk_get buddy_block h) (\<lambda>bb.
        rbind (blk_get blk h) (\<lambda>b.
        kassert (blk_class bb \<le> blk_class b) (Ret buddy_block)))))))))))))"

subsection \<open>Free lists\<close>

definition fl_get :: "u8 \<Rightarrow> heap_state \<Rightarrow> u64 res" where
  "fl_get cls h = buf_get (free_list h) (ucast cls)"

definition fl_set :: "u8 \<Rightarrow> u64 \<Rightarrow> heap_state \<Rightarrow> heap_state res" where
  "fl_set cls p h = rbind (buf_set (free_list h) (ucast cls) p) (\<lambda>l. Ret (h\<lparr>free_list := l\<rparr>))"

definition free_list_dequeue :: "u8 \<Rightarrow> heap_state \<Rightarrow> (u64 \<times> heap_state) res" where
  "free_list_dequeue cls h =
     kassert (ucast cls < BLOCK_MAX_CLASS)
     (rbind (fl_get cls h) (\<lambda>blk.
      if blk \<noteq> 0 then
        rbind (block_validate blk h) (\<lambda>_.
        rbind (blk_get blk h) (\<lambda>b.
        kassert (blk_class b = cls)
          (rbind (fl_set cls (next_free b) h) (\<lambda>h. Ret (blk, h)))))
      else Ret (blk, h)))"

text \<open>
  The search of \<open>_free_list_dequeue_block\<close> follows \<open>next_free\<close> until the null pointer, which a cyclic
  list never reaches; \<open>None\<close> is \<open>does not return\<close>.
\<close>

partial_function (option) dequeue_block_loop :: "u64 \<Rightarrow> u64 \<Rightarrow> heap_state \<Rightarrow> (bool \<times> heap_state) res option" where
  "dequeue_block_loop block free h =
     (if free \<noteq> 0 then
        case blk_get block h of
          Inl e \<Rightarrow> Some (Inl e)
        | Inr b \<Rightarrow>
            if free = block then
              Some (rbind (fl_get (blk_class b) h) (\<lambda>head.
                kassert (free = head)
                  (rbind (fl_set (blk_class b) (next_free b) h) (\<lambda>h. Ret (True, h)))))
            else
              (case blk_get free h of
                 Inl e \<Rightarrow> Some (Inl e)
               | Inr fb \<Rightarrow>
                   if next_free fb = block then
                     Some (rbind (blk_set free (fb\<lparr>next_free := next_free b\<rparr>) h) (\<lambda>h. Ret (True, h)))
                   else dequeue_block_loop block (next_free fb) h)
      else Some (Ret (False, h)))"

definition free_list_dequeue_block :: "u64 \<Rightarrow> heap_state \<Rightarrow> heap_state res" where
  "free_list_dequeue_block block h =
     rbind (block_validate block h) (\<lambda>_.
     rbind (blk_get block h) (\<lambda>b.
     rbind (fl_get (blk_class b) h) (\<lambda>free.
     case dequeue_block_loop block free h of
       None \<Rightarrow> Stop Diverges
     | Some r \<Rightarrow> rbind r (\<lambda>(found, h). kassert (found = True) (Ret h)))))"

definition free_list_is_empty :: "u8 \<Rightarrow> heap_state \<Rightarrow> bool res" where
  "free_list_is_empty cls h =
     kassert (ucast cls < BLOCK_MAX_CLASS) (rbind (fl_get cls h) (\<lambda>p. Ret (p = 0)))"

definition free_list_enqueue :: "u64 \<Rightarrow> u8 \<Rightarrow> heap_state \<Rightarrow> heap_state res" where
  "free_list_enqueue free cls h =
     kassert (ucast cls < BLOCK_MAX_CLASS)
     (rbind (fl_get cls h) (\<lambda>next.
      rbind (block_init free cls True next h) (\<lambda>h.
      rbind (fl_set cls free h) (\<lambda>h.
      rbind (blk_get free h) (\<lambda>b.
      kassert (blk_class b = cls) (Ret h))))))"

subsection \<open>Growing, splitting, coalescing\<close>

text \<open>
  The loop of \<open>_expand_heap\<close>: \<open>n\<close> pages from \<open>va\<close> on, each backed by a newly allocated frame. The
  frame allocator and the mapping function are arguments, for the sake of the interface below.
\<close>

fun map_fresh ::
  "('s \<Rightarrow> (u64 option \<times> 's) res) \<Rightarrow> (u64 \<Rightarrow> u64 \<Rightarrow> 's \<Rightarrow> (bool \<times> 's) res) \<Rightarrow> nat \<Rightarrow> u64 \<Rightarrow> 's \<Rightarrow> 's res" where
  "map_fresh alloc pmap 0 va s = Ret s"
| "map_fresh alloc pmap (Suc n) va s =
     rbind (alloc s) (\<lambda>(r, s).
     case r of
       None \<Rightarrow> Stop AssertFail
     | Some frame_pa \<Rightarrow>
         kassert (frame_pa \<noteq> UPTR_NULL)
         (rbind (pmap va frame_pa s) (\<lambda>(ok, s).
          kassert (ok = True) (map_fresh alloc pmap n (va + PAGE_SIZE_4K) s))))"

definition expand_heap :: "heap_state \<Rightarrow> (bool \<times> heap_state) res" where
  "expand_heap h =
     rbind (size_of_class (BLOCK_MAX_CLASS - 1)) (\<lambda>sz.
     kassert (sz > 0)
     (kassert (sz mod PAGE_SIZE_4K = 0)
     (rbind (free_list_is_empty (ucast (BLOCK_MAX_CLASS - 1)) h) (\<lambda>empty. kassert empty
     (rbind (map_fresh mm_frame_alloc mm_page_map (unat (sz div PAGE_SIZE_4K)) (heap_end h) (mm h)) (\<lambda>m.
      let h = h\<lparr>mm := m\<rparr> in
      rbind (free_list_enqueue (heap_end h) (ucast (BLOCK_MAX_CLASS - 1)) h) (\<lambda>h.
        Ret (True, h\<lparr>heap_end := heap_end h + sz\<rparr>))))))))"

text \<open>The end of \<open>_split_from\<close>: the two halves of the block go to the list of the next lower class.\<close>

definition split_halves :: "u8 \<Rightarrow> bool \<Rightarrow> u64 \<Rightarrow> heap_state \<Rightarrow> (bool \<times> heap_state) res" where
  "split_halves cls succ free h =
     (if succ then
        rbind (size_of_class (ucast (cls - 1))) (\<lambda>next_size.
        kassert (free \<noteq> 0)
        (rbind (blk_get free h) (\<lambda>b.
         kassert (blk_class b = cls)
         (rbind (fl_get (cls - 1) h) (\<lambda>lower.
          kassert (lower = 0)
          (rbind (free_list_enqueue free (cls - 1) h) (\<lambda>h.
           let free = free + next_size in
           rbind (free_list_enqueue free (cls - 1) h) (\<lambda>h. Ret (succ, h)))))))))
      else Ret (succ, h))"

function split_from :: "u8 \<Rightarrow> heap_state \<Rightarrow> (bool \<times> heap_state) res" where
  "split_from cls h =
     kassert (ucast cls < BLOCK_MAX_CLASS)
     (kassert (cls > 0)
     (rbind (free_list_dequeue cls h) (\<lambda>(free, h).
      rbind (if free = 0 then
               if unat cls + 1 < 16 then
                 rbind (split_from (cls + 1) h) (\<lambda>(succ, h).
                 if succ then
                   rbind (free_list_dequeue cls h) (\<lambda>(free, h). kassert (free \<noteq> 0) (Ret (succ, free, h)))
                 else Ret (succ, free, h))
               else
                 kassert (ucast cls = BLOCK_MAX_CLASS - 1)
                 (rbind (expand_heap h) (\<lambda>(succ, h).
                  kassert succ
                  (rbind (free_list_dequeue cls h) (\<lambda>(free, h). kassert (free \<noteq> 0) (Ret (succ, free, h))))))
             else Ret (True, free, h)) (\<lambda>(succ, free, h). split_halves cls succ free h))))"
  by pat_completeness auto
termination
proof (relation "measure (\<lambda>(cls, h). 16 - unat cls)")
  fix cls :: u8 and h :: heap_state
  assume "unat cls + 1 < 16"
  then have "unat (cls + 1) = unat cls + 1" by (simp add: unat_word_ariths)
  then show "((cls + 1, h'), cls, h) \<in> measure (\<lambda>(cls, h). 16 - unat cls)" for h'
    using \<open>unat cls + 1 < 16\<close> by simp
qed auto

text \<open>
  \<open>_coalescing_block\<close> calls itself on a block of the next class, at most 15 times; the fuel is 16, and
  \<open>mm_heap_free_releases\<close> below shows that it is enough on every well-formed heap. \<open>mm_clean\<close> of a
  header leaves all its fields zero.
\<close>

definition block_zero :: block where
  "block_zero = \<lparr>blk_class = 0, is_free = False, next_free = 0, magic = 0\<rparr>"

fun coalescing_block :: "nat \<Rightarrow> u64 \<Rightarrow> heap_state \<Rightarrow> (u64 \<times> heap_state) res" where
  "coalescing_block 0 block h = Stop Diverges"
| "coalescing_block (Suc fuel) block h =
     rbind (block_validate block h) (\<lambda>_.
     rbind (blk_get block h) (\<lambda>b.
     if ucast (blk_class b) < BLOCK_MAX_CLASS - 1 then
       rbind (block_find_buddy block h) (\<lambda>buddy.
       rbind (blk_get buddy h) (\<lambda>bb.
       if blk_class bb = blk_class b \<and> is_free bb then
         rbind (free_list_dequeue_block buddy h) (\<lambda>h.
         rbind (if buddy < block then rbind (blk_set block block_zero h) (\<lambda>h. Ret (buddy, h))
                else rbind (blk_set buddy block_zero h) (\<lambda>h. Ret (block, h))) (\<lambda>(block, h).
         rbind (blk_get block h) (\<lambda>b.
         rbind (block_init block (blk_class b + 1) True 0 h) (\<lambda>h.
           coalescing_block fuel block h))))
       else Ret (block, h)))
     else Ret (block, h)))"

subsection \<open>The interface\<close>

definition mm_heap_alloc :: "u64 \<Rightarrow> heap_state \<Rightarrow> (u64 \<times> u64 \<times> heap_state) res" where
  "mm_heap_alloc len h =
     kassert (len > 0)
     (rbind (size_of_class (BLOCK_MAX_CLASS - 1)) (\<lambda>max_size.
      kassert (len + sizeof_block \<le> max_size)
      (let free_class = (ucast (util_math_log_2_up (len + sizeof_block)) :: u8);
           free_class = (if ucast free_class \<le> PAGE_SIZE_VALUE_LOG_4K then 0
                         else free_class - ucast PAGE_SIZE_VALUE_LOG_4K) in
       kassert (ucast free_class < BLOCK_MAX_CLASS)
       (rbind (free_list_dequeue free_class h) (\<lambda>(free, h).
        rbind (if free = 0 then
                 if ucast free_class < BLOCK_MAX_CLASS - 1 then
                   rbind (split_from (free_class + 1) h) (\<lambda>(ok, h).
                   if ok then
                     rbind (free_list_dequeue free_class h) (\<lambda>(free, h). kassert (free \<noteq> 0) (Ret (ok, free, h)))
                   else Ret (ok, free, h))
                 else
                   rbind (expand_heap h) (\<lambda>(ok, h).
                   kassert ok
                   (rbind (free_list_dequeue free_class h) (\<lambda>(free, h). kassert (free \<noteq> 0) (Ret (ok, free, h)))))
               else Ret (True, free, h)) (\<lambda>(ok, free, h).
        if ok then
          rbind (blk_get free h) (\<lambda>b.
          kassert (blk_class b = free_class)
          (kassert (free \<noteq> 0)
          (rbind (block_check_out free h) (\<lambda>(free, all_len, h).
           kassert (all_len \<ge> len) (Ret (free, all_len, h))))))
        else kassert (free = 0) (Ret (free, 0, h))))))))"

definition mm_heap_alloc_minimum :: "heap_state \<Rightarrow> (u64 \<times> u64 \<times> heap_state) res" where
  "mm_heap_alloc_minimum h = mm_heap_alloc 1 h"

definition mm_heap_free :: "u64 \<Rightarrow> heap_state \<Rightarrow> heap_state res" where
  "mm_heap_free block_user h =
     rbind (block_check_in block_user h) (\<lambda>(block, h).
     rbind (coalescing_block 16 block h) (\<lambda>(block, h).
     rbind (blk_get block h) (\<lambda>b.
       free_list_enqueue block (blk_class b) h)))"

definition mm_heap_bootstrap :: "heap_state \<Rightarrow> heap_state" where
  "mm_heap_bootstrap h = h\<lparr>free_list := replicate 16 0, heap_end := VA_48_HEAP\<rparr>"

subsection \<open>Pages of the heap\<close>

text \<open>
  Page \<open>p\<close> of the heap, counted from \<open>VA_48_HEAP\<close>. The invariant bounds the heap by \<open>2^34\<close> pages, which
  is the half of what the upper half of the address space has room for.
\<close>

definition pg :: "nat \<Rightarrow> u64" where
  "pg p = VA_48_HEAP + 4096 * of_nat p"

abbreviation PAGES_MAX :: nat where
  "PAGES_MAX \<equiv> 17179869184"

abbreviation HEAP_BASE :: nat where
  "HEAP_BASE \<equiv> 18446603340532944896"

lemma unat_VA_48_HEAP: "unat VA_48_HEAP = HEAP_BASE"
  by (simp add: va_layout_defs)

lemma unat_pg: "p \<le> PAGES_MAX \<Longrightarrow> unat (pg p) = HEAP_BASE + 4096 * p"
proof -
  assume p: "p \<le> PAGES_MAX"
  then have "unat (of_nat p :: u64) = p" by (simp add: unat_of_nat)
  then have "unat (4096 * of_nat p :: u64) = 4096 * p" using p by (subst unat_u64_mult) auto
  then show ?thesis unfolding pg_def using p by (subst unat_u64_add) (auto simp: unat_VA_48_HEAP)
qed

lemma pg_inj: "p \<le> PAGES_MAX \<Longrightarrow> q \<le> PAGES_MAX \<Longrightarrow> pg p = pg q \<longleftrightarrow> p = q"
  by (auto simp: u64_eq_iff_unat unat_pg)

lemma pg_less: "p \<le> PAGES_MAX \<Longrightarrow> q \<le> PAGES_MAX \<Longrightarrow> pg p < pg q \<longleftrightarrow> p < q"
  by (auto simp: word_less_nat_alt unat_pg)

lemma pg_neq_0: "p \<le> PAGES_MAX \<Longrightarrow> pg p \<noteq> 0"
  by (auto simp: u64_eq_iff_unat unat_pg)

lemma pg_add: "pg (p + q) = pg p + 4096 * of_nat q"
  by (simp add: pg_def algebra_simps)

lemma pg_aligned: "p \<le> PAGES_MAX \<Longrightarrow> pg p mod 4096 = 0"
proof -
  assume "p \<le> PAGES_MAX"
  then have "unat (pg p) mod 4096 = 0" by (simp add: unat_pg mod_add_eq [symmetric, of HEAP_BASE])
  then show ?thesis by (simp add: u64_eq_iff_unat unat_mod)
qed

lemma pg_canonical: "p \<le> PAGES_MAX \<Longrightarrow> canonical (pg p)"
  by (simp add: canonical_def word_le_nat_alt unat_pg va_layout_defs)

lemma same_page_aligned: "a mod 4096 = 0 \<Longrightarrow> b mod 4096 = 0 \<Longrightarrow> same_page a b \<longleftrightarrow> a = b"
  using page_offset(2) [of a 0] page_offset(2) [of b 0] by (simp add: same_page_def)

lemma pg_not_direct: "p \<le> PAGES_MAX \<Longrightarrow> \<not> same_page (pg p) VA_48_DIRECT_ACCESS_PAGE"
proof -
  assume p: "p \<le> PAGES_MAX"
  have "unat VA_48_DIRECT_ACCESS_PAGE < HEAP_BASE" by (simp add: va_layout_defs)
  then have "pg p \<noteq> VA_48_DIRECT_ACCESS_PAGE" using unat_pg [OF p] by auto
  then show ?thesis using same_page_aligned [OF pg_aligned [OF p] direct_page_facts(1)] by simp
qed

lemma cls_word: "c < 16 \<Longrightarrow> (ucast (of_nat c :: u8) :: u64) = of_nat c" "c < 16 \<Longrightarrow> unat (of_nat c :: u8) = c"
    "c < 16 \<Longrightarrow> unat (of_nat c :: u64) = c"
proof -
  show u: "c < 16 \<Longrightarrow> unat (of_nat c :: u8) = c" "c < 16 \<Longrightarrow> unat (of_nat c :: u64) = c"
    by (simp_all add: unat_of_nat)
  show "c < 16 \<Longrightarrow> (ucast (of_nat c :: u8) :: u64) = of_nat c"
    using u by (simp add: u64_eq_iff_unat unsigned_ucast_eq take_bit_eq_mod)
qed

lemma cls_inj: "c < 16 \<Longrightarrow> d < 16 \<Longrightarrow> (of_nat c :: u8) = of_nat d \<longleftrightarrow> c = d"
  by (metis cls_word(2))

lemma cls_bound: "c < 16 \<Longrightarrow> ucast (of_nat c :: u8) < BLOCK_MAX_CLASS"
  by (simp add: cls_word word_less_nat_alt BLOCK_MAX_CLASS_def)

lemma size_of_class_Ret: "c < 16 \<Longrightarrow> size_of_class (of_nat c) = Ret (4096 * of_nat (2 ^ c))"
proof -
  assume c: "c < 16"
  have "(ucast (of_nat c :: u64) :: u8) = of_nat c" using c
    by (simp add: word_unat_eq_iff unsigned_ucast_eq cls_word take_bit_eq_mod)
  then show ?thesis using c
    by (simp add: size_of_class_def util_math_2_exp_def cls_word word_less_nat_alt BLOCK_MAX_CLASS_def
        PAGE_SIZE_4K_def push_bit_eq_mult)
qed

lemma unat_class_size: "c < 16 \<Longrightarrow> unat (4096 * of_nat (2 ^ c) :: u64) = 4096 * 2 ^ c"
proof -
  assume "c < 16"
  then have le: "(2::nat) ^ c \<le> 2 ^ 15" by (intro power_increasing) auto
  then have "unat (of_nat (2 ^ c) :: u64) = 2 ^ c" by (simp only: unat_of_nat) simp
  then show ?thesis using le by (subst unat_u64_mult) (simp_all del: of_nat_power)
qed

subsection \<open>The invariant of the heap\<close>

text \<open>The chain of free blocks from a list head, as page numbers.\<close>

fun blk_chain :: "(u64 \<Rightarrow> block) \<Rightarrow> u64 \<Rightarrow> nat list \<Rightarrow> bool" where
  "blk_chain bs p [] \<longleftrightarrow> p = 0"
| "blk_chain bs p (q # qs) \<longleftrightarrow> p = pg q \<and> blk_chain bs (next_free (bs (pg q))) qs"

definition header_ok :: "block \<Rightarrow> nat \<Rightarrow> bool \<Rightarrow> bool" where
  "header_ok b c f \<longleftrightarrow> blk_class b = of_nat c \<and> is_free b = f \<and> magic b = BLOCK_MAGIC"

text \<open>
  \<open>held\<close> are the free blocks an operation has in its hands: they belong to the tiling, but are in no
  list, and nothing is required of their headers. Between operations it is empty. \<open>L c\<close> is the free
  list of class \<open>c\<close> and \<open>xs\<close> the free frames.
\<close>

definition heap_inv :: "heap_state \<Rightarrow> tiling \<Rightarrow> nat \<Rightarrow> (nat \<Rightarrow> nat list) \<Rightarrow> nat set \<Rightarrow> u64 list \<Rightarrow> bool" where
  "heap_inv h tm N L held xs \<longleftrightarrow>
     mm_inv (mm h) xs \<and> tiles tm N \<and> 2 ^ 15 dvd N \<and> N \<le> PAGES_MAX \<and> heap_end h = pg N \<and>
     (\<forall>q<PAGES_MAX. walk (mm h) (pg q) \<noteq> None \<longleftrightarrow> q < N) \<and>
     (\<forall>p c f. tm p = Some (c, f) \<longrightarrow> p \<notin> held \<longrightarrow> header_ok (blocks h (pg p)) c f) \<and>
     (\<forall>p \<in> held. \<exists>c. tm p = Some (c, True)) \<and> length (free_list h) = 16 \<and>
     (\<forall>c<16. blk_chain (blocks h) (free_list h ! c) (L c) \<and> distinct (L c) \<and>
        set (L c) = {p. tm p = Some (c, True)} - held)"

lemma heap_invD:
  assumes "heap_inv h tm N L held xs"
  shows "mm_inv (mm h) xs" "tiles tm N" "2 ^ 15 dvd N" "N \<le> PAGES_MAX" "heap_end h = pg N" "length (free_list h) = 16"
    "\<And>q. q < PAGES_MAX \<Longrightarrow> walk (mm h) (pg q) \<noteq> None \<longleftrightarrow> q < N"
    "\<And>p c f. tm p = Some (c, f) \<Longrightarrow> p \<notin> held \<Longrightarrow> header_ok (blocks h (pg p)) c f"
    "\<And>p. p \<in> held \<Longrightarrow> \<exists>c. tm p = Some (c, True)"
    "\<And>c. c < 16 \<Longrightarrow> blk_chain (blocks h) (free_list h ! c) (L c)" "\<And>c. c < 16 \<Longrightarrow> distinct (L c)"
    "\<And>c. c < 16 \<Longrightarrow> set (L c) = {p. tm p = Some (c, True)} - held"
  using assms unfolding heap_inv_def by blast+

lemma heap_in_list:
  assumes "heap_inv h tm N L held xs" "c < 16" "p \<in> set (L c)"
  shows "tm p = Some (c, True)" "p \<notin> held"
  using assms heap_invD(12) by blast+

lemma align_pg: "p \<le> PAGES_MAX \<Longrightarrow> align_assert (pg p) PAGE_SIZE_4K k = k"
  by (simp add: align_assert_def mm_align_check_def PAGE_SIZE_4K_def pg_aligned)

lemma blk_access:
  assumes inv: "heap_inv h tm N L held xs" and p: "p < N"
  shows "blk_get (pg p) h = Ret (blocks h (pg p))" "blk_set (pg p) b h = Ret (h\<lparr>blocks := (blocks h)(pg p := b)\<rparr>)"
proof -
  have "walk (mm h) (pg p) \<noteq> None" "p \<le> PAGES_MAX" using heap_invD(4,7) [OF inv] p by force+
  then show "blk_get (pg p) h = Ret (blocks h (pg p))" "blk_set (pg p) b h = Ret (h\<lparr>blocks := (blocks h)(pg p := b)\<rparr>)"
    by (simp_all add: blk_get_def blk_set_def)
qed

lemma blk_chain_cong: "(\<And>q. q \<in> set qs \<Longrightarrow> next_free (bs' (pg q)) = next_free (bs (pg q))) \<Longrightarrow> blk_chain bs' p qs = blk_chain bs p qs"
  by (induction qs arbitrary: p) auto

lemma heap_inv_lt:
  assumes "heap_inv h tm N L held xs" "tm p = Some (c, f)"
  shows "p < N" "c < 16" "p \<le> PAGES_MAX" "2 ^ c dvd p" "p + 2 ^ c \<le> N"
  using tilesD [OF heap_invD(2) [OF assms(1)] assms(2)] heap_invD(4) [OF assms(1)] by auto

lemma validate_block:
  assumes "heap_inv h tm N L held xs" "tm p = Some (c, f)" "magic (blocks h (pg p)) = BLOCK_MAGIC"
  shows "block_validate (pg p) h = Ret ()"
  using blk_access [OF assms(1) heap_inv_lt(1) [OF assms(1,2)]] assms(3)
  by (simp add: block_validate_def align_pg heap_inv_lt(3) [OF assms(1,2)])

lemma fl_access:
  assumes "length (free_list h) = 16" "c < 16"
  shows "fl_get (of_nat c) h = Ret (free_list h ! c)" "fl_set (of_nat c) p h = Ret (h\<lparr>free_list := (free_list h)[c := p]\<rparr>)"
  using assms by (simp_all add: fl_get_def fl_set_def buf_get_def buf_set_def cls_word)

subsection \<open>The free lists as stacks\<close>

lemma dequeue_empty:
  assumes inv: "heap_inv h tm N L held xs" and c: "c < 16" "L c = []"
  shows "free_list_dequeue (of_nat c) h = Ret (0, h)"
  using heap_invD(10) [OF inv c(1)] c fl_access [OF heap_invD(6) [OF inv] c(1)] cls_bound [OF c(1)]
  by (simp add: free_list_dequeue_def)

lemma dequeue_pops:
  assumes inv: "heap_inv h tm N L held xs" and c: "c < 16" "L c = p # ps"
  defines "h' \<equiv> h\<lparr>free_list := (free_list h)[c := next_free (blocks h (pg p))]\<rparr>"
  shows "free_list_dequeue (of_nat c) h = Ret (pg p, h')" "heap_inv h' tm N (L(c := ps)) (insert p held) xs"
    "blocks h' = blocks h"
proof -
  let ?b = "blocks h (pg p)"
  let ?h = "h\<lparr>free_list := (free_list h)[c := next_free ?b]\<rparr>"
  have p: "tm p = Some (c, True)" "p \<notin> held" using heap_in_list [OF inv c(1)] c(2) by auto
  have lt: "p < N" "p \<le> PAGES_MAX" using heap_inv_lt(1) [OF inv p(1)] heap_invD(4) [OF inv] by auto
  have hd: "header_ok ?b c True" using heap_invD(8) [OF inv p] .
  have ch: "free_list h ! c = pg p" "blk_chain (blocks h) (next_free ?b) ps"
    using heap_invD(10) [OF inv c(1)] c(2) by auto
  show "free_list_dequeue (of_nat c) h = Ret (pg p, h')" unfolding h'_def
    using fl_access [OF heap_invD(6) [OF inv] c(1)] cls_bound [OF c(1)] ch(1) pg_neq_0 [OF lt(2)] hd
      validate_block [OF inv p(1)] blk_access(1) [OF inv lt(1)]
    by (simp add: free_list_dequeue_def header_ok_def)
  show "blocks h' = blocks h" by (simp add: h'_def)
  show "heap_inv h' tm N (L(c := ps)) (insert p held) xs"
    unfolding heap_inv_def h'_def
  proof (intro conjI)
    show "\<forall>d<16. blk_chain (blocks ?h) (free_list ?h ! d) ((L(c := ps)) d) \<and> distinct ((L(c := ps)) d) \<and>
        set ((L(c := ps)) d) = {q. tm q = Some (d, True)} - insert p held"
    proof (intro allI impI)
      fix d :: nat
      assume d: "d < 16"
      have "distinct (p # ps)" "set (p # ps) = {q. tm q = Some (c, True)} - held"
        using heap_invD(11,12) [OF inv c(1)] c(2) by auto
      then have own: "distinct ps" "set ps = {q. tm q = Some (c, True)} - insert p held" by auto
      show "blk_chain (blocks ?h) (free_list ?h ! d) ((L(c := ps)) d) \<and> distinct ((L(c := ps)) d) \<and>
        set ((L(c := ps)) d) = {q. tm q = Some (d, True)} - insert p held"
      proof (cases "d = c")
        case True
        then show ?thesis using own ch(2) heap_invD(6) [OF inv] c(1) by simp
      next
        case False
        then show ?thesis using heap_invD(10,11,12) [OF inv d] p(1) by auto
      qed
    qed
    show "\<forall>p\<in>insert p held. \<exists>c. tm p = Some (c, True)" using heap_invD(9) [OF inv] p by auto
  qed (use heap_invD [OF inv] in auto)
qed

lemma enqueue_pushes:
  assumes inv: "heap_inv h tm N L held xs" and p: "p \<in> held" "tm p = Some (c, True)"
  shows "\<exists>h'. free_list_enqueue (pg p) (of_nat c) h = Ret h' \<and> heap_inv h' tm N (L(c := p # L c)) (held - {p}) xs \<and>
    (\<forall>q. q \<noteq> pg p \<longrightarrow> blocks h' q = blocks h q)"
proof -
  have c: "c < 16" and lt: "p < N" "p \<le> PAGES_MAX" using heap_inv_lt [OF inv p(2)] heap_invD(4) [OF inv] by auto
  let ?b = "\<lparr>blk_class = of_nat c, is_free = True, next_free = free_list h ! c, magic = BLOCK_MAGIC\<rparr>"
  let ?h1 = "h\<lparr>blocks := (blocks h)(pg p := ?b)\<rparr>"
  let ?h = "?h1\<lparr>free_list := (free_list h)[c := pg p]\<rparr>"
  have inv1: "walk (mm ?h) (pg p) \<noteq> None" using heap_invD(4,7) [OF inv] lt by force
  have len: "length (free_list ?h1) = 16" using heap_invD(6) [OF inv] by simp
  have "free_list_enqueue (pg p) (of_nat c) h = Ret ?h"
    using fl_access [OF heap_invD(6) [OF inv] c] fl_access [OF len c] cls_bound [OF c] blk_access [OF inv lt(1)] inv1
    by (simp add: free_list_enqueue_def block_init_def blk_get_def align_pg lt)
  moreover have "heap_inv ?h tm N (L(c := p # L c)) (held - {p}) xs"
    unfolding heap_inv_def
  proof (intro conjI)
    have other: "pg q \<noteq> pg p" if "q \<noteq> p" "tm q = Some (d, f)" for q d f
      using that pg_inj [of q p] heap_inv_lt(1) [OF inv that(2)] heap_invD(4) [OF inv] lt by auto
    show "\<forall>q d f. tm q = Some (d, f) \<longrightarrow> q \<notin> held - {p} \<longrightarrow> header_ok (blocks ?h (pg q)) d f"
    proof (intro allI impI)
      fix q d f
      assume q: "tm q = Some (d, f)" "q \<notin> held - {p}"
      show "header_ok (blocks ?h (pg q)) d f"
        using heap_invD(8) [OF inv q(1)] q p other [of q d f] by (cases "q = p") (auto simp: header_ok_def)
    qed
    have ch: "blk_chain (blocks ?h) r (L d) = blk_chain (blocks h) r (L d)" if "d < 16" for r d
    proof (rule blk_chain_cong)
      fix q
      assume "q \<in> set (L d)"
      then have "pg q \<noteq> pg p" using heap_in_list [OF inv that, of q] other [of q d True] p(1) by auto
      then show "next_free (blocks ?h (pg q)) = next_free (blocks h (pg q))" by simp
    qed
    show "\<forall>d<16. blk_chain (blocks ?h) (free_list ?h ! d) ((L(c := p # L c)) d) \<and> distinct ((L(c := p # L c)) d) \<and>
        set ((L(c := p # L c)) d) = {q. tm q = Some (d, True)} - (held - {p})"
    proof (intro allI impI)
      fix d :: nat
      assume d: "d < 16"
      show "blk_chain (blocks ?h) (free_list ?h ! d) ((L(c := p # L c)) d) \<and> distinct ((L(c := p # L c)) d) \<and>
        set ((L(c := p # L c)) d) = {q. tm q = Some (d, True)} - (held - {p})"
        using heap_invD(6,10,11,12) [OF inv] d p c ch [of d] by (cases "d = c") auto
    qed
  qed (use heap_invD [OF inv] in auto)
  ultimately show ?thesis by auto
qed

text \<open>Taking a given block out of the middle of its list.\<close>

abbreviation unlink :: "(u64 \<Rightarrow> block) \<Rightarrow> nat \<Rightarrow> nat \<Rightarrow> u64 \<Rightarrow> block" where
  "unlink bs a b \<equiv> bs(pg a := (bs (pg a))\<lparr>next_free := next_free (bs (pg b))\<rparr>)"

lemma blk_chain_unlink:
  assumes "\<And>q. q \<in> set (us @ a # b # vs) \<Longrightarrow> q \<le> PAGES_MAX" "distinct (us @ a # b # vs)"
  shows "blk_chain bs p (us @ a # b # vs) \<Longrightarrow> blk_chain (unlink bs a b) p (us @ a # vs)"
  using assms
proof (induction us arbitrary: p)
  case Nil
  have "pg q \<noteq> pg a" if "q \<in> set vs" for q using that Nil.prems pg_inj [of q a] by auto
  then have "blk_chain (unlink bs a b) r vs = blk_chain bs r vs" for r by (intro blk_chain_cong) auto
  moreover have "next_free (unlink bs a b (pg a)) = next_free (bs (pg b))" by simp
  ultimately show ?case using Nil.prems(1) by (simp only: append_Nil blk_chain.simps)
next
  case (Cons u us)
  then have "pg u \<noteq> pg a" using pg_inj [of u a] by auto
  then show ?case using Cons by auto
qed

lemma dequeue_block_loop_finds:
  assumes mapped: "\<And>q. q \<in> set (us @ a # b # vs) \<Longrightarrow> q \<le> PAGES_MAX \<and> walk (mm h) (pg q) \<noteq> None"
    and "distinct (us @ a # b # vs)" "blk_chain (blocks h) p (us @ a # b # vs)"
  shows "dequeue_block_loop (pg b) p h = Some (Ret (True, h\<lparr>blocks := unlink (blocks h) a b\<rparr>))"
  using assms
proof (induction us arbitrary: p)
  case Nil
  then have "pg a \<noteq> pg b" "pg a \<noteq> 0" using pg_inj [of a b] pg_neq_0 [of a] by auto
  with Nil show ?case
    by (subst dequeue_block_loop.simps) (auto simp: blk_get_def blk_set_def)
next
  case (Cons u us)
  then have u: "pg u \<noteq> pg b" "pg u \<noteq> 0" using pg_inj [of u b] pg_neq_0 [of u] by auto
  obtain w ws where w: "us @ a # b # vs = w # ws" "w \<noteq> b" using Cons.prems(2) by (cases us) auto
  have "w \<in> set (us @ a # b # vs)" unfolding w(1) by simp
  then have "w \<le> PAGES_MAX" "b \<le> PAGES_MAX" using Cons.prems(1) by auto
  then have "next_free (blocks h (pg u)) = pg w" "pg w \<noteq> pg b"
    using Cons.prems(3) w pg_inj [of w b] by auto
  moreover have "dequeue_block_loop (pg b) (next_free (blocks h (pg u))) h = Some (Ret (True, h\<lparr>blocks := unlink (blocks h) a b\<rparr>))"
    using Cons.prems by (intro Cons.IH) auto
  ultimately show ?case using u Cons.prems
    by (subst dequeue_block_loop.simps) (auto simp: blk_get_def)
qed

lemma heap_inv_unlink:
  assumes inv: "heap_inv h tm N L held xs" and c: "c < 16" "L c = us @ a # b # vs"
  shows "heap_inv (h\<lparr>blocks := unlink (blocks h) a b\<rparr>) tm N (L(c := us @ a # vs)) (insert b held) xs"
  unfolding heap_inv_def
proof (intro conjI)
  let ?h = "h\<lparr>blocks := unlink (blocks h) a b\<rparr>"
  have inl: "tm q = Some (c, True)" "q \<notin> held" "q \<le> PAGES_MAX" if "q \<in> set (L c)" for q
    using heap_in_list [OF inv c(1) that] heap_inv_lt(3) [OF inv] by auto
  have keep: "blk_class (blocks ?h q) = blk_class (blocks h q)" "is_free (blocks ?h q) = is_free (blocks h q)"
    "magic (blocks ?h q) = magic (blocks h q)" for q by auto
  show "\<forall>p\<in>insert b held. \<exists>c. tm p = Some (c, True)" using heap_invD(9) [OF inv] inl [of b] c(2) by auto
  show "\<forall>p d f. tm p = Some (d, f) \<longrightarrow> p \<notin> insert b held \<longrightarrow> header_ok (blocks ?h (pg p)) d f"
    using heap_invD(8) [OF inv] keep by (simp add: header_ok_def)
  have own: "distinct (us @ a # b # vs)" "set (us @ a # b # vs) = {q. tm q = Some (c, True)} - held"
    using heap_invD(11,12) [OF inv c(1)] c(2) by auto
  show "\<forall>d<16. blk_chain (blocks ?h) (free_list ?h ! d) ((L(c := us @ a # vs)) d) \<and> distinct ((L(c := us @ a # vs)) d) \<and>
      set ((L(c := us @ a # vs)) d) = {q. tm q = Some (d, True)} - insert b held"
  proof (intro allI impI)
    fix d :: nat
    assume d: "d < 16"
    show "blk_chain (blocks ?h) (free_list ?h ! d) ((L(c := us @ a # vs)) d) \<and> distinct ((L(c := us @ a # vs)) d) \<and>
      set ((L(c := us @ a # vs)) d) = {q. tm q = Some (d, True)} - insert b held"
    proof (cases "d = c")
      case True
      have "blk_chain (unlink (blocks h) a b) (free_list h ! c) (us @ a # vs)"
        using heap_invD(10) [OF inv c(1)] own(1) inl(3) c(2) by (intro blk_chain_unlink) auto
      moreover have "distinct (us @ a # vs)" "set (us @ a # vs) = {q. tm q = Some (c, True)} - insert b held"
        using own by auto
      ultimately show ?thesis using True by simp
    next
      case False
      have "pg q \<noteq> pg a" if "q \<in> set (L d)" for q
      proof -
        have q: "tm q = Some (d, True)" using heap_in_list [OF inv d that] by simp
        then have "q \<noteq> a" using inl(1) [of a] c(2) False by auto
        then show ?thesis using pg_inj [OF heap_inv_lt(3) [OF inv q] inl(3)] c(2) by simp
      qed
      then have "blk_chain (blocks ?h) r (L d) = blk_chain (blocks h) r (L d)" for r by (intro blk_chain_cong) auto
      then show ?thesis using False heap_invD(10,11,12) [OF inv d] inl [of b] c(2) by auto
    qed
  qed
qed (use heap_invD [OF inv] in auto)

lemma dequeue_block_removes:
  assumes inv: "heap_inv h tm N L held xs" and b: "tm b = Some (c, True)" "b \<notin> held"
  shows "\<exists>h' L'. free_list_dequeue_block (pg b) h = Ret h' \<and> heap_inv h' tm N L' (insert b held) xs \<and>
    (\<forall>q. blk_class (blocks h' q) = blk_class (blocks h q) \<and> magic (blocks h' q) = magic (blocks h q))"
proof -
  have c: "c < 16" "b < N" using heap_inv_lt [OF inv b(1)] by auto
  have bl: "b \<in> set (L c)" using heap_invD(12) [OF inv c(1)] b by auto
  have hd: "header_ok (blocks h (pg b)) c True" using heap_invD(8) [OF inv b] .
  have mapped: "q \<le> PAGES_MAX \<and> walk (mm h) (pg q) \<noteq> None" if "q \<in> set (L c)" for q
    using heap_in_list(1) [OF inv c(1) that] heap_inv_lt(1,3) [OF inv] heap_invD(4,7) [OF inv] by force
  have pre: "free_list_dequeue_block (pg b) h = (case dequeue_block_loop (pg b) (free_list h ! c) h of
      None \<Rightarrow> Stop Diverges | Some r \<Rightarrow> rbind r (\<lambda>(found, h). kassert (found = True) (Ret h)))"
    using validate_block [OF inv b(1)] blk_access [OF inv c(2)] fl_access [OF heap_invD(6) [OF inv] c(1)] hd
    by (simp add: free_list_dequeue_block_def header_ok_def)
  show ?thesis
  proof (cases "L c")
    case Nil
    then show ?thesis using bl by simp
  next
    case (Cons a as)
    show ?thesis
    proof (cases "a = b")
      case True
      have head: "free_list h ! c = pg b" using heap_invD(10) [OF inv c(1)] Cons True by simp
      let ?h = "h\<lparr>free_list := (free_list h)[c := next_free (blocks h (pg b))]\<rparr>"
      have "dequeue_block_loop (pg b) (free_list h ! c) h = Some (Ret (True, ?h))"
        using head mapped [OF bl] pg_neq_0 [of b] fl_access [OF heap_invD(6) [OF inv] c(1)] hd
        by (subst dequeue_block_loop.simps) (auto simp: blk_get_def header_ok_def)
      moreover have "heap_inv ?h tm N (L(c := as)) (insert b held) xs"
        using dequeue_pops(2) [OF inv c(1)] Cons True by simp
      ultimately show ?thesis using pre by (intro exI [of _ ?h] exI [of _ "L(c := as)"]) simp
    next
      case False
      then obtain us a' vs where L: "L c = us @ a' # b # vs"
      proof -
        obtain us vs where "as = us @ b # vs" using bl Cons False by (auto dest: split_list)
        then have "L c = (a # us) @ b # vs" using Cons by simp
        then have "L c = butlast (a # us) @ last (a # us) # b # vs"
          by (metis append.assoc append_Cons append_Nil append_butlast_last_id list.distinct(1))
        then show ?thesis using that by blast
      qed
      let ?h = "h\<lparr>blocks := unlink (blocks h) a' b\<rparr>"
      have "dequeue_block_loop (pg b) (free_list h ! c) h = Some (Ret (True, ?h))"
        using mapped heap_invD(10,11) [OF inv c(1)] unfolding L by (intro dequeue_block_loop_finds) auto
      then show ?thesis using pre heap_inv_unlink [OF inv c(1) L]
        by (intro exI [of _ ?h] exI [of _ "L(c := us @ a' # vs)"]) auto
    qed
  qed
qed

subsection \<open>Moves that only concern blocks in hand\<close>

lemma heap_inv_split:
  assumes inv: "heap_inv h tm N L held xs" and p: "p \<in> held" "tm p = Some (Suc c, True)"
  shows "heap_inv h (tm(p \<mapsto> (c, True), p + 2 ^ c \<mapsto> (c, True))) N L (insert (p + 2 ^ c) held) xs"
proof -
  let ?tm = "tm(p \<mapsto> (c, True), p + 2 ^ c \<mapsto> (c, True))"
  have fresh: "tm (p + 2 ^ c) = None"
    using tiles_after [OF heap_invD(2) [OF inv] p(2), of "p + 2 ^ c"] by (cases "tm (p + 2 ^ c)") auto
  have "{q. ?tm q = Some (d, True)} - insert (p + 2 ^ c) held = {q. tm q = Some (d, True)} - held" for d
    using p fresh by auto
  moreover have "\<forall>q d f. ?tm q = Some (d, f) \<longrightarrow> q \<notin> insert (p + 2 ^ c) held \<longrightarrow> header_ok (blocks h (pg q)) d f"
    using heap_invD(8) [OF inv] p by auto
  ultimately show ?thesis
    using inv tiles_split [OF heap_invD(2) [OF inv] p(2)] heap_invD(9) [OF inv] unfolding heap_inv_def by auto
qed

lemma heap_inv_merge:
  assumes inv: "heap_inv h tm N L held xs" and p: "p \<in> held" "p + 2 ^ c \<in> held" "tm p = Some (c, True)"
    "tm (p + 2 ^ c) = Some (c, True)" and al: "2 ^ Suc c dvd p" "Suc c < 16"
  shows "heap_inv h (tm(p + 2 ^ c := None, p \<mapsto> (Suc c, True))) N L (held - {p + 2 ^ c}) xs"
proof -
  let ?tm = "tm(p + 2 ^ c := None, p \<mapsto> (Suc c, True))"
  have "{q. ?tm q = Some (d, True)} - (held - {p + 2 ^ c}) = {q. tm q = Some (d, True)} - held" for d
    using p by auto
  moreover have "\<forall>q d f. ?tm q = Some (d, f) \<longrightarrow> q \<notin> held - {p + 2 ^ c} \<longrightarrow> header_ok (blocks h (pg q)) d f"
    using heap_invD(8) [OF inv] p by auto
  moreover have "\<forall>q \<in> held - {p + 2 ^ c}. \<exists>d. ?tm q = Some (d, True)" using heap_invD(9) [OF inv] by auto
  ultimately show ?thesis
    using inv tiles_merge [OF heap_invD(2) [OF inv] p(3,4) al] unfolding heap_inv_def by auto
qed

text \<open>Writing a header that the invariant says nothing about.\<close>

lemma heap_inv_header:
  assumes inv: "heap_inv h tm N L held xs" and p: "p \<le> PAGES_MAX" "p \<in> held \<or> tm p = None"
  shows "heap_inv (h\<lparr>blocks := (blocks h)(pg p := b)\<rparr>) tm N L held xs"
  unfolding heap_inv_def
proof (intro conjI)
  let ?h = "h\<lparr>blocks := (blocks h)(pg p := b)\<rparr>"
  have other: "pg q \<noteq> pg p" if "tm q = Some (d, f)" "q \<notin> held" for q d f
    using that pg_inj [OF heap_inv_lt(3) [OF inv that(1)] p(1)] p(2) by auto
  show "\<forall>q d f. tm q = Some (d, f) \<longrightarrow> q \<notin> held \<longrightarrow> header_ok (blocks ?h (pg q)) d f"
    using heap_invD(8) [OF inv] other by simp
  have "blk_chain (blocks ?h) r (L d) = blk_chain (blocks h) r (L d)" if "d < 16" for r d
    using heap_in_list [OF inv that] other by (intro blk_chain_cong) auto
  then show "\<forall>c<16. blk_chain (blocks ?h) (free_list ?h ! c) (L c) \<and> distinct (L c) \<and> set (L c) = {p. tm p = Some (c, True)} - held"
    using heap_invD(10,11,12) [OF inv] by simp
qed (use heap_invD [OF inv] in auto)

text \<open>A block in hand becomes a block of the user, and back.\<close>

lemma heap_inv_give:
  assumes inv: "heap_inv h tm N L held xs" and p: "p \<in> held" "tm p = Some (c, True)" and hd: "header_ok (blocks h (pg p)) c False"
  shows "heap_inv h (tm(p \<mapsto> (c, False))) N L (held - {p}) xs"
proof -
  let ?tm = "tm(p \<mapsto> (c, False))"
  have "{q. ?tm q = Some (d, True)} - (held - {p}) = {q. tm q = Some (d, True)} - held" for d using p by auto
  moreover have "\<forall>q d f. ?tm q = Some (d, f) \<longrightarrow> q \<notin> held - {p} \<longrightarrow> header_ok (blocks h (pg q)) d f"
    using heap_invD(8) [OF inv] p hd by auto
  moreover have "\<forall>q \<in> held - {p}. \<exists>d. ?tm q = Some (d, True)" using heap_invD(9) [OF inv] by auto
  ultimately show ?thesis
    using inv tiles_flag [OF heap_invD(2) [OF inv] p(2), of False] unfolding heap_inv_def by auto
qed

lemma heap_inv_take:
  assumes inv: "heap_inv h tm N L held xs" and p: "tm p = Some (c, False)"
  shows "heap_inv h (tm(p \<mapsto> (c, True))) N L (insert p held) xs"
proof -
  let ?tm = "tm(p \<mapsto> (c, True))"
  have "{q. ?tm q = Some (d, True)} - insert p held = {q. tm q = Some (d, True)} - held" for d using p by auto
  moreover have "\<forall>q d f. ?tm q = Some (d, f) \<longrightarrow> q \<notin> insert p held \<longrightarrow> header_ok (blocks h (pg q)) d f"
    using heap_invD(8) [OF inv] by auto
  moreover have "\<forall>q \<in> insert p held. \<exists>d. ?tm q = Some (d, True)" using heap_invD(9) [OF inv] by auto
  ultimately show ?thesis
    using inv tiles_flag [OF heap_invD(2) [OF inv] p, of True] unfolding heap_inv_def by auto
qed

subsection \<open>Growing the heap\<close>

context pager
begin

lemma map_fresh_maps:
  assumes "frames s xs" "4 * n \<le> length xs"
    and "\<And>i. i < n \<Longrightarrow> mappable (va + 4096 * of_nat i) \<and> trans s (va + 4096 * of_nat i) = None"
    and "\<And>i j. i < j \<Longrightarrow> j < n \<Longrightarrow> \<not> same_page (va + 4096 * of_nat j) (va + 4096 * of_nat i)"
  shows "\<exists>s' ys. map_fresh alloc pmap n va s = Ret s' \<and> frames s' ys \<and> length xs \<le> length ys + 4 * n \<and>
    (\<forall>v. canonical v \<longrightarrow> (trans s' v \<noteq> None \<longleftrightarrow> trans s v \<noteq> None \<or> (\<exists>i<n. same_page v (va + 4096 * of_nat i))))"
  using assms
proof (induction n arbitrary: s xs va)
  case 0
  then show ?case by auto
next
  case (Suc n)
  then obtain f fs where xs: "xs = f # fs" "4 * n + 3 \<le> length fs" by (cases xs) auto
  obtain s1 where s1: "alloc s = Ret (Some f, s1)" "frames s1 fs" "frame_ok f" "\<And>v. trans s1 v = trans s v"
    using alloc_frame [of s f fs] Suc.prems(1) xs(1) by blast
  have va: "mappable va" "trans s1 va = None" using Suc.prems(3) [of 0] s1(4) by auto
  have "3 \<le> length fs" using xs(2) by simp
  from map_page [OF s1(2) this va s1(3)] obtain s2 k where
    s2: "pmap va f s1 = Ret (True, s2)" "k \<le> 3" "frames s2 (drop k fs)"
      "\<And>v. trans s2 v = (if canonical v \<and> same_page v va then Some (f + (v AND 0xfff)) else trans s1 v)" by blast
  have shift: "va + 4096 + 4096 * of_nat i = va + 4096 * of_nat (Suc i)" for i by (simp add: algebra_simps)
  have "\<exists>s' ys. map_fresh alloc pmap n (va + 4096) s2 = Ret s' \<and> frames s' ys \<and> length (drop k fs) \<le> length ys + 4 * n \<and>
    (\<forall>v. canonical v \<longrightarrow> (trans s' v \<noteq> None \<longleftrightarrow> trans s2 v \<noteq> None \<or> (\<exists>i<n. same_page v (va + 4096 + 4096 * of_nat i))))"
  proof (rule Suc.IH [OF s2(3)])
    show "4 * n \<le> length (drop k fs)" using xs(2) s2(2) by simp
    show "mappable (va + 4096 + 4096 * of_nat i) \<and> trans s2 (va + 4096 + 4096 * of_nat i) = None" if "i < n" for i
      using Suc.prems(3) [of "Suc i"] Suc.prems(4) [of 0 "Suc i"] that s1(4) s2(4) unfolding shift by auto
    show "\<not> same_page (va + 4096 + 4096 * of_nat j) (va + 4096 + 4096 * of_nat i)" if "i < j" "j < n" for i j
      using Suc.prems(4) [of "Suc i" "Suc j"] that unfolding shift by simp
  qed
  then obtain s3 ys where s3: "map_fresh alloc pmap n (va + 4096) s2 = Ret s3" "frames s3 ys"
    "length (drop k fs) \<le> length ys + 4 * n"
    "\<forall>v. canonical v \<longrightarrow> (trans s3 v \<noteq> None \<longleftrightarrow> trans s2 v \<noteq> None \<or> (\<exists>i<n. same_page v (va + 4096 * of_nat (Suc i))))"
    unfolding shift by blast
  have "f \<noteq> 0" using s1(3) frame_okD(3) by blast
  then have "map_fresh alloc pmap (Suc n) va s = Ret s3"
    using s1(1) s2(1) s3(1) by (simp add: UPTR_NULL_def PAGE_SIZE_4K_def)
  moreover have "(\<exists>i<Suc n. same_page v (va + 4096 * of_nat i)) \<longleftrightarrow>
      same_page v va \<or> (\<exists>i<n. same_page v (va + 4096 * of_nat (Suc i)))" for v
    by (subst Ex_less_Suc2) simp
  then have "trans s3 v \<noteq> None \<longleftrightarrow> trans s v \<noteq> None \<or> (\<exists>i<Suc n. same_page v (va + 4096 * of_nat i))" if "canonical v" for v
    using s3(4) s2(4) [of v] s1(4) [of v] that by (simp only: simp_thms) auto
  moreover have "length xs \<le> length ys + 4 * Suc n" using s3(3) s2(2) xs by simp
  ultimately show ?case using s3(2) by blast
qed

end

lemma enqueue_heap_end:
  assumes "free_list_enqueue p c (h\<lparr>heap_end := e\<rparr>) = Ret g"
  shows "\<exists>h'. free_list_enqueue p c h = Ret h' \<and> h'\<lparr>heap_end := e\<rparr> = g \<and> heap_end h' = heap_end h"
proof -
  let ?b = "\<lambda>n. \<lparr>blk_class = c, is_free = True, next_free = n, magic = BLOCK_MAGIC\<rparr>"
  from assms obtain n y l where n: "ucast c < BLOCK_MAX_CLASS" "buf_get (free_list h) (ucast c) = Ret n" "walk (mm h) p = Some y"
    "p mod PAGE_SIZE_4K = 0" "buf_set (free_list h) (ucast c) p = Ret l"
    "g = h\<lparr>heap_end := e, blocks := (blocks h)(p := ?b n), free_list := l\<rparr>"
    by (auto simp: free_list_enqueue_def block_init_def align_assert_def mm_align_check_def blk_set_def blk_get_def
      fl_set_def fl_get_def split: if_splits)
  have "free_list_enqueue p c h = Ret (h\<lparr>blocks := (blocks h)(p := ?b n), free_list := l\<rparr>)"
    using n by (simp add: free_list_enqueue_def block_init_def align_assert_def mm_align_check_def blk_set_def blk_get_def
      fl_set_def fl_get_def PAGE_SIZE_4K_def)
  then show ?thesis using n(6) by simp
qed

lemma size_15: "size_of_class 15 = Ret 134217728"
  using size_of_class_Ret [of 15] by simp

lemma expand_heap_grows:
  assumes inv: "heap_inv h tm N L {} xs" and room: "N + 2 ^ 15 \<le> PAGES_MAX" "131072 \<le> length xs" and e: "L 15 = []"
  shows "\<exists>h' ys. expand_heap h = Ret (True, h') \<and>
    heap_inv h' (tm(N \<mapsto> (15, True))) (N + 2 ^ 15) (L(15 := [N])) {} ys \<and> length xs \<le> length ys + 131072"
proof -
  have pgs: "heap_end h + 4096 * of_nat i = pg (N + i)" for i using heap_invD(5) [OF inv] by (simp add: pg_add)
  have "\<exists>m ys. map_fresh mm_frame_alloc mm_page_map 32768 (heap_end h) (mm h) = Ret m \<and> mm_inv m ys \<and> length xs \<le> length ys + 4 * 32768 \<and>
    (\<forall>v. canonical v \<longrightarrow> (walk m v \<noteq> None \<longleftrightarrow> walk (mm h) v \<noteq> None \<or> (\<exists>i<32768. same_page v (heap_end h + 4096 * of_nat i))))"
  proof (rule pages.map_fresh_maps [OF heap_invD(1) [OF inv]])
    show "4 * 32768 \<le> length xs" using room(2) by simp
    fix i :: nat
    assume i: "i < 32768"
    then have le: "N + i < PAGES_MAX" using room(1) by simp
    then show "((heap_end h + 4096 * of_nat i) mod 4096 = 0 \<and> canonical (heap_end h + 4096 * of_nat i) \<and>
        \<not> same_page (heap_end h + 4096 * of_nat i) VA_48_DIRECT_ACCESS_PAGE) \<and> walk (mm h) (heap_end h + 4096 * of_nat i) = None"
      unfolding pgs using pg_aligned [of "N + i"] pg_canonical [of "N + i"] pg_not_direct [of "N + i"] heap_invD(7) [OF inv le] by auto
  next
    fix i j :: nat
    assume "i < j" "j < 32768"
    then have "N + i \<le> PAGES_MAX" "N + j \<le> PAGES_MAX" "N + j \<noteq> N + i" using room(1) by auto
    then show "\<not> same_page (heap_end h + 4096 * of_nat j) (heap_end h + 4096 * of_nat i)"
      unfolding pgs using same_page_aligned [OF pg_aligned pg_aligned, of "N + j" "N + i"] pg_inj [of "N + j" "N + i"] by simp
  qed
  then obtain m ys where m: "map_fresh mm_frame_alloc mm_page_map 32768 (heap_end h) (mm h) = Ret m" "mm_inv m ys"
    "length xs \<le> length ys + 131072"
    "\<And>v. canonical v \<Longrightarrow> (walk m v \<noteq> None \<longleftrightarrow> walk (mm h) v \<noteq> None \<or> (\<exists>i<32768. same_page v (pg (N + i))))"
    unfolding pgs by auto
  let ?tm = "tm(N \<mapsto> (15, True))" and ?N = "N + 2 ^ 15"
  let ?g = "h\<lparr>mm := m, heap_end := pg ?N\<rparr>"
  have new: "tm N = None" using tilesD(4) [OF heap_invD(2) [OF inv], of N] by (cases "tm N") auto
  have "heap_inv ?g ?tm ?N L {N} ys"
    unfolding heap_inv_def
  proof (intro conjI)
    show "\<forall>q<PAGES_MAX. walk (mm ?g) (pg q) \<noteq> None \<longleftrightarrow> q < ?N"
    proof (intro allI impI)
      fix q :: nat
      assume q: "q < PAGES_MAX"
      have "same_page (pg q) (pg (N + i)) \<longleftrightarrow> q = N + i" if "i < 32768" for i
        using same_page_aligned [OF pg_aligned pg_aligned, of q "N + i"] pg_inj [of q "N + i"] that q room(1) by simp
      then have "(\<exists>i<32768. same_page (pg q) (pg (N + i))) \<longleftrightarrow> (\<exists>i<32768. q = N + i)" by blast
      also have "\<dots> \<longleftrightarrow> N \<le> q \<and> q < ?N" by (auto simp: le_iff_add)
      finally have "(\<exists>i<32768. same_page (pg q) (pg (N + i))) \<longleftrightarrow> N \<le> q \<and> q < ?N" .
      then show "walk (mm ?g) (pg q) \<noteq> None \<longleftrightarrow> q < ?N"
        using m(4) [OF pg_canonical, of q] heap_invD(7) [OF inv q] q by auto
    qed
    show "\<forall>c<16. blk_chain (blocks ?g) (free_list ?g ! c) (L c) \<and> distinct (L c) \<and> set (L c) = {p. ?tm p = Some (c, True)} - {N}"
      using heap_invD(10,11,12) [OF inv] new by auto
    show "2 ^ 15 dvd ?N" using heap_invD(3) [OF inv] by simp
    show "\<forall>p c f. ?tm p = Some (c, f) \<longrightarrow> p \<notin> {N} \<longrightarrow> header_ok (blocks ?g (pg p)) c f"
      using heap_invD(8) [OF inv] by auto
  qed (use m(2) room(1) heap_invD(6) [OF inv] tiles_expand [OF heap_invD(2,3) [OF inv]] in auto)
  from enqueue_pushes [OF this, of N 15] obtain g where
    g: "free_list_enqueue (pg N) (of_nat 15) ?g = Ret g" "heap_inv g ?tm ?N (L(15 := [N])) {} ys"
    using e by auto
  from enqueue_heap_end [of "pg N" "of_nat 15" "pg ?N" "h\<lparr>mm := m\<rparr>" g] g(1) obtain h' where
    h': "free_list_enqueue (pg N) (of_nat 15) (h\<lparr>mm := m\<rparr>) = Ret h'" "h'\<lparr>heap_end := pg ?N\<rparr> = g" "heap_end h' = heap_end h"
    by auto
  have "(134217728 :: u64) div 4096 = 32768" by simp
  moreover have "heap_end h' + 134217728 = pg ?N" using h'(3) heap_invD(5) [OF inv] pg_add [of N "2 ^ 15"] by simp
  ultimately have "expand_heap h = Ret (True, g)"
    using m(1) h' heap_invD(5) [OF inv] heap_invD(10) [OF inv, of 15] e fl_access(1) [OF heap_invD(6) [OF inv], of 15]
    by (simp add: expand_heap_def size_15 free_list_is_empty_def BLOCK_MAX_CLASS_def PAGE_SIZE_4K_def)
  then show ?thesis using g(2) m(3) by blast
qed

subsection \<open>Splitting\<close>

declare split_from.simps [simp del]

text \<open>The blocks of the users.\<close>

definition used :: "tiling \<Rightarrow> (nat \<times> nat) set" where
  "used tm = {(p, c). tm p = Some (c, False)}"

lemma cls_Suc: "Suc d < 16 \<Longrightarrow> (of_nat (Suc d) :: u8) - 1 = of_nat d"
  by simp

lemma split_halves_enqueues:
  assumes inv: "heap_inv h tm N L {p} xs" and p: "tm p = Some (Suc d, True)" "blk_class (blocks h (pg p)) = of_nat (Suc d)"
    and e: "L d = []"
  shows "\<exists>h' tm'. split_halves (of_nat (Suc d)) True (pg p) h = Ret (True, h') \<and>
    heap_inv h' tm' N (L(d := [p + 2 ^ d, p])) {} xs \<and> used tm' = used tm \<and>
    (mergeable tm \<subseteq> halves p (Suc d) \<longrightarrow> mergeable tm' \<subseteq> halves p d)"
proof -
  let ?q = "p + 2 ^ d"
  let ?tm = "tm(p \<mapsto> (d, True), ?q \<mapsto> (d, True))"
  have d: "Suc d < 16" "d < 16" "p < N" "p \<le> PAGES_MAX" using heap_inv_lt [OF inv p(1)] by auto
  have fresh: "tm ?q = None"
    using tiles_after [OF heap_invD(2) [OF inv] p(1), of ?q] by (cases "tm ?q") auto
  have inv1: "heap_inv h ?tm N L {?q, p} xs" using heap_inv_split [OF inv _ p(1)] by simp
  have "{?q, p} - {p} = {?q}" by auto
  with enqueue_pushes [OF inv1, of p d] obtain h1 where
    h1: "free_list_enqueue (pg p) (of_nat d) h = Ret h1" "heap_inv h1 ?tm N (L(d := [p])) {?q} xs"
    unfolding e by fastforce
  from enqueue_pushes [OF h1(2), of ?q d] obtain h2 where
    h2: "free_list_enqueue (pg ?q) (of_nat d) h1 = Ret h2" "heap_inv h2 ?tm N (L(d := [?q, p])) {} xs" by auto
  have "fl_get (of_nat d) h = Ret 0"
    using fl_access(1) [OF heap_invD(6) [OF inv] d(2)] heap_invD(10) [OF inv d(2)] e by simp
  moreover have "size_of_class (ucast (of_nat d :: u8)) = Ret (4096 * of_nat (2 ^ d))"
    using size_of_class_Ret [OF d(2)] cls_word(1) [OF d(2)] by simp
  ultimately have "split_halves (of_nat (Suc d)) True (pg p) h = Ret (True, h2)"
    using h1(1) h2(1) [unfolded pg_add] p(2) blk_access(1) [OF inv d(3)] pg_neq_0 [OF d(4)]
    by (simp add: split_halves_def Let_def)
  moreover have "used ?tm = used tm" using p(1) fresh by (auto simp: used_def split: if_splits)
  ultimately show ?thesis using h2(2) mergeable_split [OF heap_invD(2) [OF inv] p(1)] by blast
qed

text \<open>A grown heap has a block of the largest class; the other lists are as before.\<close>

lemma expand_gives_block:
  assumes inv: "heap_inv h tm N L {} xs" and room: "N + 2 ^ 15 \<le> PAGES_MAX" "131072 \<le> length xs" and e: "L 15 = []"
  shows "\<exists>g tn M K ys r rs. expand_heap h = Ret (True, g) \<and> heap_inv g tn M K {} ys \<and> K 15 = r # rs \<and> (\<forall>k<15. K k = L k) \<and>
    used tn = used tm \<and> N \<le> M \<and> M \<le> N + 2 ^ 15 \<and> length xs \<le> length ys + 131072 \<and> (mergeable tm = {} \<longrightarrow> mergeable tn \<subseteq> halves r 15)"
proof -
  from expand_heap_grows [OF inv room e] obtain g ys where
    g: "expand_heap h = Ret (True, g)" "heap_inv g (tm(N \<mapsto> (15, True))) (N + 2 ^ 15) (L(15 := [N])) {} ys"
      "length xs \<le> length ys + 131072" by auto
  have "tm N = None" using tilesD(4) [OF heap_invD(2) [OF inv], of N] by (cases "tm N") auto
  then have "used (tm(N \<mapsto> (15, True))) = used tm" "mergeable tm = {} \<longrightarrow> mergeable (tm(N \<mapsto> (15, True))) = {}"
    using mergeable_expand by (auto simp: used_def split: if_splits)
  then show ?thesis using g
    by (intro exI [of _ g] exI [of _ "tm(N \<mapsto> (15, True))"] exI [of _ "N + 2 ^ 15"] exI [of _ "L(15 := [N])"] exI [of _ ys]
        exI [of _ N] exI [of _ "[]"]) simp
qed

text \<open>Whatever provides a block of class \<open>Suc d\<close>, its halves end up in the lower list.\<close>

lemma dequeue_and_split:
  assumes inv: "heap_inv g tn M K {} ys" and d: "Suc d < 16" and K: "K (Suc d) = r # rs" "K d = []"
  shows "\<exists>free g' h' tm' L' p q. free_list_dequeue (of_nat (Suc d)) g = Ret (free, g') \<and> free \<noteq> 0 \<and>
    split_halves (of_nat (Suc d)) True free g' = Ret (True, h') \<and> heap_inv h' tm' M L' {} ys \<and> L' d = [q, p] \<and> (\<forall>k<d. L' k = K k) \<and>
    used tm' = used tn \<and> (mergeable tn \<subseteq> halves r (Suc d) \<longrightarrow> mergeable tm' \<subseteq> halves q d)"
proof -
  note dq = dequeue_pops [OF inv d K(1)]
  have r: "tn r = Some (Suc d, True)" using heap_in_list [OF inv d] K(1) by auto
  have hd: "blk_class (blocks g (pg r)) = of_nat (Suc d)" using heap_invD(8) [OF inv r] by (simp add: header_ok_def)
  let ?g = "g\<lparr>free_list := (free_list g)[Suc d := next_free (blocks g (pg r))]\<rparr>" and ?L = "K(Suc d := rs, d := [r + 2 ^ d, r])"
  have "pg r \<noteq> 0" using pg_neq_0 heap_inv_lt(3) [OF inv r] by blast
  moreover obtain h' tm' where "split_halves (of_nat (Suc d)) True (pg r) ?g = Ret (True, h')" "heap_inv h' tm' M ?L {} ys"
    "used tm' = used tn" "mergeable tn \<subseteq> halves r (Suc d) \<longrightarrow> mergeable tm' \<subseteq> halves r d"
    using split_halves_enqueues [OF dq(2) r] hd K(2) by auto
  moreover have "halves (r + 2 ^ d) d = halves r d" using halves_upper heap_inv_lt(4) [OF inv r] by simp
  ultimately show ?thesis using dq(1)
    by (intro exI [of _ "pg r"] exI [of _ ?g] exI [of _ h'] exI [of _ tm'] exI [of _ ?L] exI [of _ r] exI [of _ "r + 2 ^ d"]) simp
qed

lemma split_from_splits:
  assumes "heap_inv h tm N L {} xs" "0 < c" "c < 16" "L (c - 1) = []" "N + 2 ^ 15 \<le> PAGES_MAX" "131072 \<le> length xs"
  shows "\<exists>h' tm' N' L' ys p q. split_from (of_nat c) h = Ret (True, h') \<and> heap_inv h' tm' N' L' {} ys \<and>
    L' (c - 1) = [q, p] \<and> (\<forall>k<c - 1. L' k = L k) \<and> used tm' = used tm \<and> N \<le> N' \<and> N' \<le> N + 2 ^ 15 \<and>
    length xs \<le> length ys + 131072 \<and> (mergeable tm = {} \<longrightarrow> mergeable tm' \<subseteq> halves q (c - 1))"
  using assms
proof (induction "16 - c" arbitrary: c h tm N L xs)
  case 0
  then show ?case by simp
next
  case (Suc n)
  obtain d where d: "c = Suc d" using Suc.prems(2) by (cases c) auto
  have bound: "ucast (of_nat c :: u8) < BLOCK_MAX_CLASS" "(of_nat c :: u8) > 0"
    using cls_bound [OF Suc.prems(3)] cls_word(2) [OF Suc.prems(3)] Suc.prems(2) by (auto simp: word_less_nat_alt)
  have uc: "unat (of_nat c :: u8) = c" using cls_word(2) [OF Suc.prems(3)] .
  have res: ?case
    if g: "heap_inv g tn M K {} ys" "K c = r # rs" "K d = []" "\<forall>k<d. K k = L k" "used tn = used tm"
      "N \<le> M" "M \<le> N + 2 ^ 15" "length xs \<le> length ys + 131072" "mergeable tm = {} \<longrightarrow> mergeable tn \<subseteq> halves r c"
    and run: "\<And>free g' h'. free_list_dequeue (of_nat c) g = Ret (free, g') \<Longrightarrow> free \<noteq> 0 \<Longrightarrow>
      split_halves (of_nat c) True free g' = Ret (True, h') \<Longrightarrow> split_from (of_nat c) h = Ret (True, h')" for g tn M K ys r rs
  proof -
    obtain free g' h' tm' L' p q where s: "free_list_dequeue (of_nat c) g = Ret (free, g')" "free \<noteq> 0"
      "split_halves (of_nat c) True free g' = Ret (True, h')" "heap_inv h' tm' M L' {} ys" "L' d = [q, p]" "\<forall>k<d. L' k = K k"
      "used tm' = used tn" "mergeable tn \<subseteq> halves r c \<longrightarrow> mergeable tm' \<subseteq> halves q d"
      using dequeue_and_split [OF g(1) Suc.prems(3) [unfolded d] g(2) [unfolded d] g(3)] unfolding d by blast
    then show ?thesis using g(4-9) run [OF s(1-3)] d
      by (intro exI [of _ h'] exI [of _ tm'] exI [of _ M] exI [of _ L'] exI [of _ ys] exI [of _ p] exI [of _ q]) simp
  qed
  show ?case
  proof (cases "L c")
    case (Cons r rs)
    show ?thesis
    proof (rule res [OF Suc.prems(1) Cons])
      show "split_from (of_nat c) h = Ret (True, h')" if "free_list_dequeue (of_nat c) h = Ret (free, g')" "free \<noteq> 0"
        "split_halves (of_nat c) True free g' = Ret (True, h')" for free g' h'
        using that bound by (subst split_from.simps) auto
    qed (use Suc.prems(4) d in simp_all)
  next
    case Nil
    note dq0 = dequeue_empty [OF Suc.prems(1,3) Nil]
    have top: "ucast (of_nat c :: u8) = BLOCK_MAX_CLASS - 1" if "\<not> c + 1 < 16"
    proof -
      have "c = 15" using that Suc.prems(3) by simp
      then show ?thesis by (simp add: BLOCK_MAX_CLASS_def)
    qed
    have "\<exists>g tn M K ys r rs. (if c + 1 < 16 then split_from (of_nat c + 1) h else expand_heap h) = Ret (True, g) \<and>
        heap_inv g tn M K {} ys \<and> K c = r # rs \<and> (\<forall>k<c. K k = L k) \<and> used tn = used tm \<and>
        N \<le> M \<and> M \<le> N + 2 ^ 15 \<and> length xs \<le> length ys + 131072 \<and> (mergeable tm = {} \<longrightarrow> mergeable tn \<subseteq> halves r c)"
    proof (cases "c + 1 < 16")
      case True
      then have "n = 16 - Suc c" "0 < Suc c" "Suc c < 16" "L (Suc c - 1) = []" using Suc.hyps(2) Nil by simp_all
      note Suc.hyps(1) [OF this(1) Suc.prems(1) this(2-4) Suc.prems(5,6), unfolded diff_Suc_1]
      moreover have "(of_nat c + 1 :: u8) = of_nat (Suc c)" by simp
      ultimately show ?thesis using True by (simp only: if_True) blast
    next
      case False
      then have c: "c = 15" using Suc.prems(3) by simp
      have "L 15 = []" using Nil c by simp
      from expand_gives_block [OF Suc.prems(1,5,6) this] show ?thesis using False unfolding c by (simp only: if_False)
    qed
    then obtain g tn M K ys r rs where g: "(if c + 1 < 16 then split_from (of_nat c + 1) h else expand_heap h) = Ret (True, g)"
      "heap_inv g tn M K {} ys" "K c = r # rs" "\<forall>k<c. K k = L k" "used tn = used tm"
      "N \<le> M" "M \<le> N + 2 ^ 15" "length xs \<le> length ys + 131072" "mergeable tm = {} \<longrightarrow> mergeable tn \<subseteq> halves r c" by blast
    show ?thesis
    proof (rule res [OF g(2,3)])
      show "split_from (of_nat c) h = Ret (True, h')" if "free_list_dequeue (of_nat c) g = Ret (free, g')" "free \<noteq> 0"
        "split_halves (of_nat c) True free g' = Ret (True, h')" for free g' h'
        using dq0 g(1) that bound uc top
        by (subst split_from.simps) (cases "c + 1 < 16"; simp only: simp_thms if_True if_False rbind_Inr kassert_True prod.case)
    qed (use g(4-9) Suc.prems(4) d in simp_all)
  qed
qed

subsection \<open>Allocation\<close>

lemma class_of_len:
  assumes "unat len + 24 \<le> 134217728"
  defines "e \<equiv> ucast (util_math_log_2_up (len + sizeof_block)) :: u8"
  defines "fc \<equiv> if ucast e \<le> PAGE_SIZE_VALUE_LOG_4K then 0 else e - ucast PAGE_SIZE_VALUE_LOG_4K"
  shows "\<exists>c<16. fc = of_nat c \<and> unat len + 24 \<le> 4096 * 2 ^ c \<and> (c = 0 \<or> 4096 * 2 ^ (c - 1) < unat len + 24)"
proof -
  let ?x = "unat (util_math_log_2_up (len + sizeof_block))" and ?n = "unat len + 24"
  have n: "unat (len + sizeof_block) = ?n" using assms(1) by (subst unat_u64_add) (auto simp: sizeof_block_def)
  have "2 \<le> len + sizeof_block" using n by (simp add: word_le_nat_alt)
  from util_math_log_2_up_bounds [OF this] n have b: "2 ^ (?x - 1) < ?n" "?n \<le> 2 ^ ?x" by auto
  have x: "?x \<le> 27"
  proof (rule ccontr)
    assume "\<not> ?x \<le> 27"
    then have "(2::nat) ^ 27 \<le> 2 ^ (?x - 1)" by (intro power_increasing) auto
    with b(1) assms(1) show False by simp
  qed
  have ue: "unat e = ?x" using x by (simp add: e_def unsigned_ucast_eq take_bit_eq_mod)
  then have uce: "unat (ucast e :: u64) = ?x" using x by (simp add: unsigned_ucast_eq take_bit_eq_mod)
  show ?thesis
  proof (cases "?x \<le> 12")
    case True
    then have "fc = of_nat 0" using uce by (simp add: fc_def word_le_nat_alt PAGE_SIZE_VALUE_LOG_4K_def)
    moreover have "(2::nat) ^ ?x \<le> 2 ^ 12" using True by (intro power_increasing) auto
    ultimately show ?thesis using b(2) by (intro exI [of _ 0]) simp
  next
    case False
    obtain c where c: "?x = 12 + Suc c" using False by (metis add_Suc_right less_iff_Suc_add not_le)
    have fc: "fc = e - 12" using uce False by (simp add: fc_def word_le_nat_alt PAGE_SIZE_VALUE_LOG_4K_def)
    have "unat (e - 12) = Suc c" using ue c by (subst unat_sub) (auto simp: word_le_nat_alt)
    then have "fc = of_nat (Suc c)" unfolding fc by (metis of_nat_unat ucast_id)
    moreover have "(2::nat) ^ ?x = 4096 * 2 ^ Suc c" "(2::nat) ^ (?x - 1) = 4096 * 2 ^ c" unfolding c by (simp_all add: power_add)
    ultimately show ?thesis using b x c by (intro exI [of _ "Suc c"]) simp
  qed
qed

lemma used_fresh: "tm p = Some (c, True) \<Longrightarrow> used (tm(p \<mapsto> (c, False))) = insert (p, c) (used tm)"
  by (auto simp: used_def split: if_splits)

lemma check_out_gives:
  assumes inv: "heap_inv h tm N L {p} xs" and p: "tm p = Some (c, True)" "header_ok (blocks h (pg p)) c True"
  shows "\<exists>h'. block_check_out (pg p) h = Ret (pg p + sizeof_block, 4096 * of_nat (2 ^ c) - sizeof_block, h') \<and>
    heap_inv h' (tm(p \<mapsto> (c, False))) N L {} xs"
proof -
  have c: "c < 16" "p < N" "p \<le> PAGES_MAX" using heap_inv_lt [OF inv p(1)] by auto
  let ?b = "blocks h (pg p)"
  let ?h = "h\<lparr>blocks := (blocks h)(pg p := ?b\<lparr>is_free := False\<rparr>)\<rparr>"
  have "heap_inv ?h tm N L {p} xs" using c(3) by (intro heap_inv_header [OF inv]) auto
  then have "heap_inv ?h (tm(p \<mapsto> (c, False))) N L {} xs"
    using heap_inv_give [of ?h tm N L "{p}" xs p c] p by (simp add: header_ok_def)
  moreover have "block_check_out (pg p) h = Ret (pg p + sizeof_block, 4096 * of_nat (2 ^ c) - sizeof_block, ?h)"
    using blk_access [OF inv c(2)] p(2) cls_bound [OF c(1)] size_of_class_Ret [OF c(1)] cls_word(1) [OF c(1)]
    by (simp add: block_check_out_def align_pg c(3) header_ok_def)
  ultimately show ?thesis by blast
qed

text \<open>The block that \<open>mm_heap_alloc\<close> finds: the head of its list, made available first if necessary.\<close>

lemma alloc_finds:
  assumes inv: "heap_inv h tm N L {} xs" and c: "c < 16" and room: "N + 2 ^ 15 \<le> PAGES_MAX" "131072 \<le> length xs"
  shows "\<exists>r g tn M K ys.
    rbind (free_list_dequeue (of_nat c) h) (\<lambda>(free, h).
        if free = 0 then
          if ucast (of_nat c :: u8) < BLOCK_MAX_CLASS - 1 then
            rbind (split_from (of_nat c + 1) h) (\<lambda>(ok, h).
            if ok then rbind (free_list_dequeue (of_nat c) h) (\<lambda>(free, h). kassert (free \<noteq> 0) (Ret (ok, free, h)))
            else Ret (ok, free, h))
          else
            rbind (expand_heap h) (\<lambda>(ok, h). kassert ok
            (rbind (free_list_dequeue (of_nat c) h) (\<lambda>(free, h). kassert (free \<noteq> 0) (Ret (ok, free, h)))))
        else Ret (True, free, h)) = Ret (True, pg r, g) \<and>
    heap_inv g tn M K {r} ys \<and> tn r = Some (c, True) \<and> header_ok (blocks g (pg r)) c True \<and> used tn = used tm \<and>
    N \<le> M \<and> M \<le> N + 2 ^ 15 \<and> length xs \<le> length ys + 131072 \<and> (mergeable tm = {} \<longrightarrow> mergeable tn \<subseteq> halves r c)"
proof -
  have take: "\<exists>g'. free_list_dequeue (of_nat c) g = Ret (pg r, g') \<and> pg r \<noteq> 0 \<and> heap_inv g' tn M (K(c := rs)) {r} ys \<and>
      tn r = Some (c, True) \<and> header_ok (blocks g' (pg r)) c True"
    if g: "heap_inv g tn M K {} ys" "K c = r # rs" for g tn M K ys r rs
  proof -
    have r: "tn r = Some (c, True)" using heap_in_list [OF g(1) c] g(2) by auto
    then show ?thesis using dequeue_pops [OF g(1) c g(2)] heap_invD(8) [OF g(1) r] pg_neq_0 [OF heap_inv_lt(3) [OF g(1) r]] by auto
  qed
  show ?thesis
  proof (cases "L c")
    case (Cons r rs)
    from take [OF inv Cons] obtain g' where
      r: "free_list_dequeue (of_nat c) h = Ret (pg r, g')" "pg r \<noteq> 0" "heap_inv g' tm N (L(c := rs)) {r} xs"
      "tm r = Some (c, True)" "header_ok (blocks g' (pg r)) c True" by blast
    then show ?thesis
      by (intro exI [of _ r] exI [of _ g'] exI [of _ tm] exI [of _ N] exI [of _ "L(c := rs)"] exI [of _ xs]) simp
  next
    case Nil
    have small: "ucast (of_nat c :: u8) < BLOCK_MAX_CLASS - 1 \<longleftrightarrow> c < 15"
      using c by (simp add: cls_word word_less_nat_alt BLOCK_MAX_CLASS_def)
    have "\<exists>g tn M K ys r rs. (if c < 15 then split_from (of_nat c + 1) h else expand_heap h) = Ret (True, g) \<and>
        heap_inv g tn M K {} ys \<and> K c = r # rs \<and> used tn = used tm \<and> N \<le> M \<and> M \<le> N + 2 ^ 15 \<and> length xs \<le> length ys + 131072 \<and>
        (mergeable tm = {} \<longrightarrow> mergeable tn \<subseteq> halves r c)"
    proof (cases "c < 15")
      case True
      have "(of_nat c + 1 :: u8) = of_nat (Suc c)" by simp
      moreover have "0 < Suc c" "Suc c < 16" "L (Suc c - 1) = []" using True Nil by simp_all
      note split_from_splits [OF inv this room, unfolded diff_Suc_1]
      ultimately obtain g tn M K ys p q where
        "(if c < 15 then split_from (of_nat c + 1) h else expand_heap h) = Ret (True, g)" "heap_inv g tn M K {} ys" "K c = [q, p]"
        "used tn = used tm" "N \<le> M" "M \<le> N + 2 ^ 15" "length xs \<le> length ys + 131072"
        "mergeable tm = {} \<longrightarrow> mergeable tn \<subseteq> halves q c" using True by (simp only: if_True) blast
      then show ?thesis by blast
    next
      case False
      then have c15: "c = 15" using c by simp
      have "L 15 = []" using Nil c15 by simp
      from expand_gives_block [OF inv room this] show ?thesis using False unfolding c15 by (simp only: if_False) blast
    qed
    then obtain g tn M K ys r rs where g: "(if c < 15 then split_from (of_nat c + 1) h else expand_heap h) = Ret (True, g)"
      "heap_inv g tn M K {} ys" "K c = r # rs" "used tn = used tm" "N \<le> M" "M \<le> N + 2 ^ 15" "length xs \<le> length ys + 131072"
      "mergeable tm = {} \<longrightarrow> mergeable tn \<subseteq> halves r c" by blast
    from take [OF g(2,3)] obtain g' where
      r: "free_list_dequeue (of_nat c) g = Ret (pg r, g')" "pg r \<noteq> 0" "heap_inv g' tn M (K(c := rs)) {r} ys"
      "tn r = Some (c, True)" "header_ok (blocks g' (pg r)) c True" by blast
    show ?thesis unfolding small
      using dequeue_empty [OF inv c Nil] g r
      by (intro exI [of _ r] exI [of _ g'] exI [of _ tn] exI [of _ M] exI [of _ "K(c := rs)"] exI [of _ ys])
        (cases "c < 15"; simp only: simp_thms if_True if_False rbind_Inr kassert_True prod.case)
  qed
qed

lemma rbind_pair_assoc: "rbind m (\<lambda>(x, y). rbind (F x y) R) = rbind (rbind m (\<lambda>(x, y). F x y)) R"
  by (cases m) auto

lemma mm_heap_alloc_gives:
  assumes inv: "heap_inv h tm N L {} xs" and len: "0 < len" "unat len + 24 \<le> 134217728"
    and room: "N + 2 ^ 15 \<le> PAGES_MAX" "131072 \<le> length xs"
  shows "\<exists>p c h' tm' N' L' ys. mm_heap_alloc len h = Ret (pg p + sizeof_block, 4096 * of_nat (2 ^ c) - sizeof_block, h') \<and>
    heap_inv h' tm' N' L' {} ys \<and> used tm' = insert (p, c) (used tm) \<and> p \<notin> fst ` used tm \<and>
    unat len + 24 \<le> 4096 * 2 ^ c \<and> (c = 0 \<or> 4096 * 2 ^ (c - 1) < unat len + 24) \<and>
    N \<le> N' \<and> N' \<le> N + 2 ^ 15 \<and> length xs \<le> length ys + 131072 \<and> (mergeable tm = {} \<longrightarrow> mergeable tm' = {})"
proof -
  from class_of_len [OF len(2)] obtain c where
    c: "c < 16" "(if ucast (ucast (util_math_log_2_up (len + sizeof_block)) :: u8) \<le> PAGE_SIZE_VALUE_LOG_4K then 0
      else ucast (util_math_log_2_up (len + sizeof_block)) - ucast PAGE_SIZE_VALUE_LOG_4K) = (of_nat c :: u8)"
      "unat len + 24 \<le> 4096 * 2 ^ c" "c = 0 \<or> 4096 * 2 ^ (c - 1) < unat len + 24" by blast
  from alloc_finds [OF inv c(1) room] obtain r g tn M K ys where
    run: "rbind (free_list_dequeue (of_nat c) h) (\<lambda>(free, h).
        if free = 0 then
          if ucast (of_nat c :: u8) < BLOCK_MAX_CLASS - 1 then
            rbind (split_from (of_nat c + 1) h) (\<lambda>(ok, h).
            if ok then rbind (free_list_dequeue (of_nat c) h) (\<lambda>(free, h). kassert (free \<noteq> 0) (Ret (ok, free, h)))
            else Ret (ok, free, h))
          else
            rbind (expand_heap h) (\<lambda>(ok, h). kassert ok
            (rbind (free_list_dequeue (of_nat c) h) (\<lambda>(free, h). kassert (free \<noteq> 0) (Ret (ok, free, h)))))
        else Ret (True, free, h)) = Ret (True, pg r, g)"
    and g: "heap_inv g tn M K {r} ys" "tn r = Some (c, True)" "header_ok (blocks g (pg r)) c True" "used tn = used tm"
      "N \<le> M" "M \<le> N + 2 ^ 15" "length xs \<le> length ys + 131072" "mergeable tm = {} \<longrightarrow> mergeable tn \<subseteq> halves r c" by blast
  from check_out_gives [OF g(1,2,3)] obtain h' where
    h': "block_check_out (pg r) g = Ret (pg r + sizeof_block, 4096 * of_nat (2 ^ c) - sizeof_block, h')"
      "heap_inv h' (tn(r \<mapsto> (c, False))) M K {} ys" by blast
  have "unat (len + sizeof_block) = unat len + 24" using len(2) by (subst unat_u64_add) (auto simp: sizeof_block_def)
  then have fit: "len + sizeof_block \<le> 134217728" using len(2) by (simp add: word_le_nat_alt)
  have one: "(1::nat) \<le> 2 ^ c" by simp
  then have "24 \<le> 4096 * (2::nat) ^ c" by linarith
  then have "unat (4096 * of_nat (2 ^ c) - sizeof_block) = 4096 * 2 ^ c - 24"
    using unat_class_size [OF c(1)] by (subst unat_u64_sub) (simp_all add: sizeof_block_def)
  then have enough: "len \<le> 4096 * of_nat (2 ^ c) - sizeof_block" using c(3) by (simp add: word_le_nat_alt)
  have "pg r \<noteq> 0" "r < M" using heap_inv_lt [OF g(1,2)] pg_neq_0 by auto
  then have "mm_heap_alloc len h = Ret (pg r + sizeof_block, 4096 * of_nat (2 ^ c) - sizeof_block, h')"
    using run h'(1) fit enough len(1) cls_bound [OF c(1)] blk_access(1) [OF g(1)] g(3) size_15
    unfolding mm_heap_alloc_def Let_def c(2)
    by (simp add: rbind_pair_assoc run header_ok_def BLOCK_MAX_CLASS_def)
  moreover have "r \<notin> fst ` used tm" unfolding g(4) [symmetric] using g(2) by (auto simp: used_def)
  ultimately show ?thesis using h'(2) g(4-8) c(3,4) used_fresh [of tn r c] mergeable_give [OF heap_invD(2) [OF g(1)] g(2)] g(2)
    by (intro exI [of _ r] exI [of _ c] exI [of _ h'] exI [of _ "tn(r \<mapsto> (c, False))"] exI [of _ M] exI [of _ K] exI [of _ ys]) simp
qed

subsection \<open>Finding the buddy\<close>

lemma u64_dvd_iff: "(a :: u64) mod b = 0 \<longleftrightarrow> unat b dvd unat a"
  by (simp add: u64_eq_iff_unat unat_mod mod_eq_0_iff_dvd)

lemma unat_diff_mod:
  assumes "k \<le> 64"
  shows "unat (a - b :: u64) mod 2 ^ k = (unat a + (2 ^ 64 - unat b)) mod 2 ^ k"
proof -
  have "unat (a - b) = (unat a + (2 ^ 64 - unat b)) mod 2 ^ 64"
    using unat_u64_bound [of a] unat_u64_bound [of b] by (simp add: unat_sub_if' word_le_nat_alt) (auto simp: mod_if)
  moreover have "(2::nat) ^ k dvd 2 ^ 64" using assms by (intro le_imp_power_dvd)
  ultimately show ?thesis by (simp add: mod_mod_cancel)
qed

text \<open>The offset of a block in its region, and the test that tells upper from lower halves.\<close>

lemma buddy_test:
  fixes offs sz :: u64
  assumes "2 ^ c dvd x" "x < 2 ^ 15" "c < 15" "unat offs = 4096 * x" "unat sz = 4096 * 2 ^ c"
  shows "(offs - sz) mod (sz * 2) = 0 \<longleftrightarrow> odd (x div 2 ^ c)" "offs mod sz = 0"
    "even (x div 2 ^ c) \<Longrightarrow> offs mod (sz * 2) = 0" "sz * 2 \<noteq> 0" "sz \<noteq> 0"
proof -
  obtain k where k: "x = 2 ^ c * k" using assms(1) by (elim dvdE)
  have xk: "x div 2 ^ c = k" using k by simp
  have le: "(2::nat) ^ c \<le> 2 ^ 14" using assms(3) by (intro power_increasing) auto
  have sz2: "unat (sz * 2) = 2 ^ (c + 13)" using assms(5) le by (subst unat_u64_mult) (auto simp: power_add)
  then show nz: "sz * 2 \<noteq> 0" "sz \<noteq> 0" using assms(5) by auto
  show "offs mod sz = 0" using assms(4,5) k by (simp add: u64_dvd_iff)
  have split: "(2::nat) ^ 64 = 2 ^ (c + 13) * 2 ^ (51 - c)" using assms(3) by (simp flip: power_add)
  have shift: "(A * k + (B * m + A)) mod B = A * (k + 1) mod B" for A B m :: nat
  proof -
    have "A * k + (B * m + A) = A * (k + 1) + B * m" by (simp add: algebra_simps)
    then show ?thesis by (simp only: mod_mult_self2)
  qed
  have uo: "unat offs = 2 ^ (c + 12) * k" using assms(4) k by (simp add: power_add)
  have sz_half: "unat sz = 2 ^ (c + 12)" using assms(5) by (simp add: power_add)
  have "unat (offs - sz) mod 2 ^ (c + 13) = (unat offs + (2 ^ 64 - unat sz)) mod 2 ^ (c + 13)"
    using assms(3) by (intro unat_diff_mod) simp
  also have "\<dots> = (2 ^ (c + 12) * k + (2 ^ 64 - 2 ^ (c + 12))) mod 2 ^ (c + 13)"
    by (simp only: uo sz_half)
  also have "(2::nat) ^ 64 - 2 ^ (c + 12) = 2 ^ (c + 13) * (2 ^ (51 - c) - 1) + 2 ^ (c + 12)"
    unfolding split by (simp add: algebra_simps power_add)
  also have "(2 ^ (c + 12) * k + (2 ^ (c + 13) * (2 ^ (51 - c) - 1) + 2 ^ (c + 12))) mod 2 ^ (c + 13) =
      2 ^ (c + 12) * (k + 1) mod 2 ^ (c + 13)"
    by (rule shift)
  also have "\<dots> = 2 ^ (c + 12) * ((k + 1) mod 2)"
  proof -
    have e13: "(2::nat) ^ (c + 13) = 2 ^ (c + 12) * 2" by (simp add: power_add)
    show ?thesis unfolding e13 mult_mod_right ..
  qed
  finally have "unat (offs - sz) mod 2 ^ (c + 13) = 2 ^ (c + 12) * ((k + 1) mod 2)" .
  then show "(offs - sz) mod (sz * 2) = 0 \<longleftrightarrow> odd (x div 2 ^ c)"
    unfolding u64_dvd_iff sz2 xk by (simp add: dvd_eq_mod_eq_0) presburger
  show "offs mod (sz * 2) = 0" if ev: "even (x div 2 ^ c)"
  proof -
    obtain j where "k = 2 * j" using ev xk by (auto elim: evenE)
    then have "unat offs = 2 ^ (c + 13) * j" using assms(4) k by (simp add: power_add)
    then show ?thesis unfolding u64_dvd_iff sz2 by simp
  qed
qed

lemma pg_minus: "q \<le> p \<Longrightarrow> pg p - 4096 * of_nat q = pg (p - q)"
  using pg_add [of "p - q" q] by simp

text \<open>Inside its region a block lies as in the whole heap, and the address of its buddy.\<close>

lemma region_parity:
  assumes "c < 15"
  shows "odd (p mod 2 ^ 15 div 2 ^ c) \<longleftrightarrow> odd (p div 2 ^ c :: nat)"
proof -
  have aux: "(a * (d * K) + x) div d = a * K + x div d" if "0 < d" for a d K x :: nat
  proof -
    have "a * (d * K) + x = x + d * (a * K)" by (simp add: algebra_simps)
    then show ?thesis using that by (simp only: div_mult_self2 not_gr0 [symmetric] simp_thms)
  qed
  have "(2::nat) ^ 15 = 2 ^ (c + (1 + (14 - c)))" using assms by simp
  then have e15: "(2::nat) ^ 15 = 2 ^ c * (2 * 2 ^ (14 - c))" by (simp only: power_add power_one_right)
  have "p div 2 ^ 15 * (2 ^ c * (2 * 2 ^ (14 - c))) + p mod 2 ^ 15 = p" unfolding e15 [symmetric] by (rule div_mult_mod_eq)
  then have "p div 2 ^ c = (p div 2 ^ 15 * (2 ^ c * (2 * 2 ^ (14 - c))) + p mod 2 ^ 15) div 2 ^ c" by (simp only:)
  also have "\<dots> = p div 2 ^ 15 * (2 * 2 ^ (14 - c)) + p mod 2 ^ 15 div 2 ^ c" by (rule aux) simp
  finally show ?thesis by (simp only: even_add even_mult_iff dvd_refl simp_thms even_numeral)
qed

lemma buddy_addr:
  assumes "2 ^ c dvd p"
  shows "(if odd (p div 2 ^ c) then pg p - 4096 * of_nat (2 ^ c) else pg p + 4096 * of_nat (2 ^ c)) = pg (buddy c p)"
proof (cases "odd (p div 2 ^ c)")
  case True
  then have "2 ^ c \<le> p" using assms by (cases "p = 0") (auto dest: dvd_imp_le)
  then show ?thesis using True pg_minus [of "2 ^ c" p] by (simp only: if_True buddy_def not_False_eq_True)
next
  case False
  then show ?thesis by (simp only: if_False buddy_def pg_add)
qed

lemma find_buddy_finds:
  assumes inv: "heap_inv h tm N L held xs" and p: "tm p = Some (c, f)" "c < 15" "blk_class (blocks h (pg p)) = of_nat c"
    and b: "tm (buddy c p) = Some (c', f')" "c' \<le> c" "buddy c p \<notin> held"
  shows "block_find_buddy (pg p) h = Ret (pg (buddy c p))"
proof -
  have c: "c < 16" "p < N" "p \<le> PAGES_MAX" "2 ^ c dvd p" using heap_inv_lt [OF inv p(1)] by auto
  let ?sz = "4096 * of_nat (2 ^ c) :: u64" and ?x = "p mod 2 ^ 15"
  have sz: "unat ?sz = 4096 * 2 ^ c" using unat_class_size [OF c(1)] .
  have rel: "unat (pg p - VA_48_HEAP) = 4096 * p" using unat_pg [OF c(3)]
    by (subst unat_u64_sub) (auto simp: unat_VA_48_HEAP)
  let ?base = "(pg p - VA_48_HEAP) AND NOT (2 ^ 27 - 1)"
  have base: "mm_align_down (pg p - VA_48_HEAP) 134217728 = Ret ?base"
    using mm_align_down_2p [of 27 "pg p - VA_48_HEAP"] by simp
  have "4096 * p div 2 ^ 27 * 2 ^ 27 = 4096 * (p div 2 ^ 15 * 2 ^ 15)"
    using div_mult2_eq [of "4096 * p" 4096 "2 ^ 15"] by simp
  then have ub: "unat ?base = 4096 * (p div 2 ^ 15 * 2 ^ 15)" using unat_and_not_mask [of 27 "pg p - VA_48_HEAP"] rel by simp
  let ?offs = "pg p - VA_48_HEAP - ?base"
  have "p div 2 ^ 15 * 2 ^ 15 \<le> p" by (rule div_times_less_eq_dividend)
  moreover have "4096 * p - 4096 * (p div 2 ^ 15 * 2 ^ 15) = 4096 * ?x"
    by (metis diff_mult_distrib2 minus_div_mult_eq_mod)
  ultimately have offs: "unat ?offs = 4096 * ?x" using rel ub by (subst unat_u64_sub) auto
  have "(2::nat) ^ c dvd 2 ^ 15" using p(2) by (intro le_imp_power_dvd) simp
  then have "2 ^ c dvd ?x" using c(4) by (simp add: dvd_mod)
  note test = buddy_test [OF this _ p(2) offs sz]
  have par: "odd (?x div 2 ^ c) \<longleftrightarrow> odd (p div 2 ^ c)" using p(2) by (rule region_parity)
  have hb: "header_ok (blocks h (pg (buddy c p))) c' f'" using heap_invD(8) [OF inv b(1,3)] .
  have c': "c' < 16" "buddy c p < N" using heap_inv_lt [OF inv b(1)] by auto
  have cmp: "(of_nat c' :: u8) \<le> of_nat c" using b(2) c(1) c'(1) by (simp add: word_le_nat_alt cls_word)
  have addr: "(if odd (p div 2 ^ c) then ?offs - ?sz else ?offs + ?sz) + ?base + VA_48_HEAP = pg (buddy c p)"
    unfolding buddy_addr [OF c(4), symmetric] by (simp add: algebra_simps)
  have mx: "size_of_class (BLOCK_MAX_CLASS - 1) = Ret 134217728" using size_15 by (simp add: BLOCK_MAX_CLASS_def)
  have get: "blk_get (pg p) h = Ret (blocks h (pg p))" "blk_get (pg (buddy c p)) h = Ret (blocks h (pg (buddy c p)))"
    "block_validate (pg (buddy c p)) h = Ret ()"
    using blk_access(1) [OF inv c(2)] blk_access(1) [OF inv c'(2)] validate_block [OF inv b(1)] hb by (auto simp: header_ok_def)
  have sc: "size_of_class (ucast (blk_class (blocks h (pg p)))) = Ret ?sz"
    using p(3) size_of_class_Ret [OF c(1)] cls_word(1) [OF c(1)] by simp
  have chk: "mm_align_check ?offs ?sz = Ret True" "mm_align_check (?offs - ?sz) (?sz * 2) = Ret (odd (p div 2 ^ c))"
    "even (p div 2 ^ c) \<Longrightarrow> mm_align_check ?offs (?sz * 2) = Ret True"
    using test par by (auto simp: mm_align_check_def)
  have al: "mm_align_check (pg p) PAGE_SIZE_4K = Ret True"
    using pg_aligned [OF c(3)] by (simp add: mm_align_check_def PAGE_SIZE_4K_def)
  show ?thesis
    using al chk addr get cmp hb p(3) cls_bound [OF c(1)]
    unfolding block_find_buddy_def align_pg [OF c(3)] get(1) rbind_Inr Let_def sc mx base align_assert_def
    by (cases "odd (p div 2 ^ c)")
      (simp_all only: if_True if_False rbind_Inr kassert_True simp_thms not_False_eq_True not_True_eq_False header_ok_def)
qed

subsection \<open>Coalescing and release\<close>

text \<open>The lower of two buddies is a block of the next class.\<close>

lemma merge_buddies:
  assumes inv: "heap_inv h tm N L {buddy c p, p} xs" and t: "tm p = Some (c, True)" "tm (buddy c p) = Some (c, True)" and c: "Suc c < 16"
  defines "m \<equiv> min p (buddy c p)"
  shows "\<exists>tm'. heap_inv h tm' N L {m} xs \<and> tm' m = Some (Suc c, True) \<and> used tm' = used tm \<and>
    (mergeable tm \<subseteq> halves p c \<longrightarrow> mergeable tm' \<subseteq> halves m (Suc c))"
proof -
  have al: "2 ^ c dvd p" using heap_inv_lt(4) [OF inv t(1)] .
  have m: "2 ^ Suc c dvd m \<and> {buddy c p, p} = {m, m + 2 ^ c}"
    using al by (rule buddy_cases) (auto simp: m_def)
  have hv: "halves m c = halves p c" using buddy_buddy [OF al] by (auto simp: m_def min_def halves_def)
  from m have tm: "tm m = Some (c, True)" "tm (m + 2 ^ c) = Some (c, True)" using t by (auto simp: doubleton_eq_iff)
  let ?tm = "tm(m + 2 ^ c := None, m \<mapsto> (Suc c, True))"
  have "heap_inv h ?tm N L ({m, m + 2 ^ c} - {m + 2 ^ c}) xs"
    using inv m tm c by (intro heap_inv_merge) auto
  moreover have "{m, m + 2 ^ c} - {m + 2 ^ c} = {m}" by auto
  moreover have "used ?tm = used tm" using tm by (auto simp: used_def split: if_splits)
  moreover have "mergeable tm \<subseteq> halves p c \<longrightarrow> mergeable ?tm \<subseteq> halves m (Suc c)"
    using mergeable_merge [OF heap_invD(2) [OF inv] tm] m c hv by blast
  ultimately show ?thesis by (intro exI [of _ ?tm]) simp
qed

text \<open>What one call of \<open>_coalescing_block\<close> sees: the block, and its buddy below the largest class.\<close>

lemma coalescing_call:
  assumes inv: "heap_inv h tm N L {p} xs" and t: "tm p = Some (c, True)" and hd: "header_ok (blocks h (pg p)) c True"
  shows "block_validate (pg p) h = Ret ()" "blk_get (pg p) h = Ret (blocks h (pg p))" "blk_class (blocks h (pg p)) = of_nat c"
    "ucast (of_nat c :: u8) < BLOCK_MAX_CLASS - 1 \<longleftrightarrow> c < 15"
    "c < 15 \<Longrightarrow> \<exists>c' f'. tm (buddy c p) = Some (c', f') \<and> block_find_buddy (pg p) h = Ret (pg (buddy c p)) \<and>
      blk_get (pg (buddy c p)) h = Ret (blocks h (pg (buddy c p))) \<and> header_ok (blocks h (pg (buddy c p))) c' f' \<and> buddy c p \<noteq> p"
proof -
  have c: "c < 16" "p < N" "2 ^ c dvd p" using heap_inv_lt [OF inv t] by auto
  show "block_validate (pg p) h = Ret ()" using validate_block [OF inv t] hd by (simp add: header_ok_def)
  show "blk_get (pg p) h = Ret (blocks h (pg p))" using blk_access(1) [OF inv c(2)] .
  show cls: "blk_class (blocks h (pg p)) = of_nat c" using hd by (simp add: header_ok_def)
  show "ucast (of_nat c :: u8) < BLOCK_MAX_CLASS - 1 \<longleftrightarrow> c < 15"
    using c(1) by (simp add: cls_word word_less_nat_alt BLOCK_MAX_CLASS_def)
  assume lt: "c < 15"
  obtain c' f' where b: "tm (buddy c p) = Some (c', f')" "c' \<le> c" using tiles_buddy [OF heap_invD(2,3) [OF inv] t lt] by blast
  have bp: "buddy c p \<notin> {p}" using buddy_neq [OF c(3)] by simp
  show "\<exists>c' f'. tm (buddy c p) = Some (c', f') \<and> block_find_buddy (pg p) h = Ret (pg (buddy c p)) \<and>
      blk_get (pg (buddy c p)) h = Ret (blocks h (pg (buddy c p))) \<and> header_ok (blocks h (pg (buddy c p))) c' f' \<and> buddy c p \<noteq> p"
    using b find_buddy_finds [OF inv t lt cls b bp] heap_invD(8) [OF inv b(1) bp] blk_access(1) [OF inv heap_inv_lt(1) [OF inv b(1)]] bp
    by blast
qed

lemma coalescing_stops:
  assumes inv: "heap_inv h tm N L {p} xs" and t: "tm p = Some (c, True)" and hd: "header_ok (blocks h (pg p)) c True"
    and last: "c = 15 \<or> tm (buddy c p) \<noteq> Some (c, True)"
  shows "coalescing_block (Suc fuel) (pg p) h = Ret (pg p, h)"
proof (cases "c < 15")
  case False
  then show ?thesis using coalescing_call(1-4) [OF inv t hd] by simp
next
  case True
  obtain c' f' where b: "tm (buddy c p) = Some (c', f')" "block_find_buddy (pg p) h = Ret (pg (buddy c p))"
      "blk_get (pg (buddy c p)) h = Ret (blocks h (pg (buddy c p)))" "header_ok (blocks h (pg (buddy c p))) c' f'"
    using coalescing_call(5) [OF inv t hd True] by blast
  have "\<not> (blk_class (blocks h (pg (buddy c p))) = of_nat c \<and> is_free (blocks h (pg (buddy c p))))"
    using b(1,4) last True cls_inj [OF heap_inv_lt(2) [OF inv b(1)] heap_inv_lt(2) [OF inv t]] by (auto simp: header_ok_def)
  then show ?thesis using coalescing_call(1-4) [OF inv t hd] True b(2,3) by auto
qed

lemma coalescing_step:
  assumes inv: "heap_inv h tm N L {p} xs" and t: "tm p = Some (c, True)" and hd: "header_ok (blocks h (pg p)) c True"
    and tb: "tm (buddy c p) = Some (c, True)" and lt: "c < 15"
  shows "\<exists>g tn K m. coalescing_block (Suc fuel) (pg p) h = coalescing_block fuel (pg m) g \<and> heap_inv g tn N K {m} xs \<and>
    tn m = Some (Suc c, True) \<and> header_ok (blocks g (pg m)) (Suc c) True \<and> used tn = used tm \<and>
    (mergeable tm \<subseteq> halves p c \<longrightarrow> mergeable tn \<subseteq> halves m (Suc c))"
proof -
  let ?b = "buddy c p"
  note call = coalescing_call [OF inv t hd]
  have b: "block_find_buddy (pg p) h = Ret (pg ?b)" "blk_get (pg ?b) h = Ret (blocks h (pg ?b))" "header_ok (blocks h (pg ?b)) c True"
    and bp: "?b \<noteq> p" using call(5) [OF lt] unfolding tb by auto
  then have same: "blk_class (blocks h (pg ?b)) = of_nat c" "is_free (blocks h (pg ?b))" by (auto simp: header_ok_def)
  have c: "p < N" "p \<le> PAGES_MAX" "?b < N" "?b \<le> PAGES_MAX" using heap_inv_lt [OF inv t] heap_inv_lt [OF inv tb] by auto
  from dequeue_block_removes [OF inv tb] bp obtain h1 K where
    h1: "free_list_dequeue_block (pg ?b) h = Ret h1" "heap_inv h1 tm N K {?b, p} xs"
      "\<And>q. blk_class (blocks h1 q) = blk_class (blocks h q)" by auto
  define m where "m = min p ?b"
  define u where "u = max p ?b"
  have mu: "{?b, p} = {m, u}" "m \<noteq> u" "m \<le> PAGES_MAX" "u \<le> PAGES_MAX" "m < N"
    using bp c by (auto simp: m_def u_def min_def max_def)
  let ?h2 = "h1\<lparr>blocks := (blocks h1)(pg u := block_zero)\<rparr>"
  let ?nb = "\<lparr>blk_class = of_nat (Suc c), is_free = True, next_free = 0, magic = BLOCK_MAGIC\<rparr>"
  let ?h3 = "?h2\<lparr>blocks := (blocks ?h2)(pg m := ?nb)\<rparr>"
  have inv2: "heap_inv ?h2 tm N K {?b, p} xs" using mu by (intro heap_inv_header [OF h1(2)]) auto
  then have inv3: "heap_inv ?h3 tm N K {?b, p} xs" using mu by (intro heap_inv_header [OF inv2]) auto
  have clean: "(if pg ?b < pg p then rbind (blk_set (pg p) block_zero h1) (\<lambda>h. Ret (pg ?b, h))
      else rbind (blk_set (pg ?b) block_zero h1) (\<lambda>h. Ret (pg p, h))) = Ret (pg m, ?h2)"
    using blk_access(2) [OF h1(2) c(1)] blk_access(2) [OF h1(2) c(3)] pg_less [OF c(4,2)] bp
    by (auto simp: m_def u_def min_def max_def)
  have "pg m \<noteq> pg u" using mu pg_inj by blast
  moreover have "blk_class (blocks h1 (pg m)) = of_nat c" using h1(3) same(1) call(3) mu(1) by (auto simp: doubleton_eq_iff)
  ultimately have c2: "blk_get (pg m) ?h2 = Ret (blocks ?h2 (pg m))" "blk_class (blocks ?h2 (pg m)) = of_nat c"
    using blk_access(1) [OF inv2 mu(5)] by auto
  have ini: "block_init (pg m) (of_nat c + 1) True 0 ?h2 = Ret ?h3"
    using blk_access(2) [OF inv2 mu(5)] by (simp add: block_init_def align_pg mu(3) add.commute)
  have step: "coalescing_block (Suc fuel) (pg p) h = coalescing_block fuel (pg m) ?h3"
    using call(1-4) lt b(1,2) same h1(1) clean c2 ini by simp
  have hd3: "header_ok (blocks ?h3 (pg m)) (Suc c) True" by (simp add: header_ok_def)
  have "Suc c < 16" using lt by simp
  from merge_buddies [OF inv3 t tb this] obtain tn where "heap_inv ?h3 tn N K {m} xs" "tn m = Some (Suc c, True)" "used tn = used tm"
      "mergeable tm \<subseteq> halves p c \<longrightarrow> mergeable tn \<subseteq> halves m (Suc c)" unfolding m_def by blast
  with step hd3 show ?thesis by (intro exI conjI)
qed

lemma coalescing_merges:
  assumes "heap_inv h tm N L {p} xs" "tm p = Some (c, True)" "header_ok (blocks h (pg p)) c True" "16 - c \<le> fuel"
  shows "\<exists>h' tm' L' q d. coalescing_block fuel (pg p) h = Ret (pg q, h') \<and> heap_inv h' tm' N L' {q} xs \<and>
    tm' q = Some (d, True) \<and> blk_class (blocks h' (pg q)) = of_nat d \<and> used tm' = used tm \<and>
    (mergeable tm \<subseteq> halves p c \<longrightarrow> mergeable tm' = {})"
  using assms
proof (induction fuel arbitrary: h tm L p c)
  case 0
  then show ?case using heap_inv_lt(2) [OF 0(1,2)] by simp
next
  case (Suc fuel)
  note inv = Suc.prems(1) and t = Suc.prems(2)
  show ?case
  proof (cases "c = 15 \<or> tm (buddy c p) \<noteq> Some (c, True)")
    case True
    then have "c = 15 \<or> tm p \<noteq> Some (c, True) \<or> tm (buddy c p) \<noteq> Some (c, True)" by simp
    then have "mergeable tm \<subseteq> halves p c \<longrightarrow> mergeable tm = {}"
      by (intro impI mergeable_none [OF heap_invD(2) [OF inv] _ heap_inv_lt(4) [OF inv t]])
    then show ?thesis using coalescing_stops [OF Suc.prems(1-3) True, of fuel] coalescing_call(3) [OF Suc.prems(1-3)] inv t
      by (intro exI [of _ h] exI [of _ tm] exI [of _ L] exI [of _ p] exI [of _ c]) simp
  next
    case False
    then have lt: "c < 15" "tm (buddy c p) = Some (c, True)" using heap_inv_lt(2) [OF inv t] by auto
    obtain g tn K m where g: "coalescing_block (Suc fuel) (pg p) h = coalescing_block fuel (pg m) g" "heap_inv g tn N K {m} xs"
      "tn m = Some (Suc c, True)" "header_ok (blocks g (pg m)) (Suc c) True" "used tn = used tm"
      "mergeable tm \<subseteq> halves p c \<longrightarrow> mergeable tn \<subseteq> halves m (Suc c)"
      using coalescing_step [OF Suc.prems(1-3) lt(2,1), of fuel] by (elim exE conjE)
    have "16 - Suc c \<le> fuel" using Suc.prems(4) by simp
    from Suc.IH [OF g(2-4) this] obtain h' tm' L' q e where "coalescing_block fuel (pg m) g = Ret (pg q, h')" "heap_inv h' tm' N L' {q} xs"
      "tm' q = Some (e, True)" "blk_class (blocks h' (pg q)) = of_nat e" "used tm' = used tn"
      "mergeable tn \<subseteq> halves m (Suc c) \<longrightarrow> mergeable tm' = {}" by blast
    then show ?thesis using g(6) unfolding g(1) g(5) [symmetric] by blast
  qed
qed

lemma mm_heap_free_takes:
  assumes inv: "heap_inv h tm N L {} xs" and u: "(p, c) \<in> used tm"
  shows "\<exists>h' tm' L'. mm_heap_free (pg p + sizeof_block) h = Ret h' \<and> heap_inv h' tm' N L' {} xs \<and> used tm' = used tm - {(p, c)} \<and>
    (mergeable tm = {} \<longrightarrow> mergeable tm' = {})"
proof -
  have t: "tm p = Some (c, False)" using u by (simp add: used_def)
  have c: "c < 16" "p < N" "p \<le> PAGES_MAX" using heap_inv_lt [OF inv t] by auto
  have hd: "header_ok (blocks h (pg p)) c False" using heap_invD(8) [OF inv t] by simp
  let ?b = "(blocks h (pg p))\<lparr>is_free := True\<rparr>"
  let ?h1 = "h\<lparr>blocks := (blocks h)(pg p := ?b)\<rparr>" and ?tm = "tm(p \<mapsto> (c, True))"
  have inv0: "heap_inv h ?tm N L {p} xs" using heap_inv_take [OF inv t] by simp
  then have inv1: "heap_inv ?h1 ?tm N L {p} xs" using c(3) by (intro heap_inv_header) auto
  have "block_check_in (pg p + sizeof_block) h = Ret (pg p, ?h1)"
    using validate_block [OF inv t] blk_access [OF inv c(2)] hd by (simp add: block_check_in_def Let_def header_ok_def)
  moreover have "header_ok (blocks ?h1 (pg p)) c True" using hd by (simp add: header_ok_def)
  then have "\<exists>h2 tm2 L2 q d. coalescing_block 16 (pg p) ?h1 = Ret (pg q, h2) \<and> heap_inv h2 tm2 N L2 {q} xs \<and> tm2 q = Some (d, True) \<and>
      blk_class (blocks h2 (pg q)) = of_nat d \<and> used tm2 = used ?tm \<and> (mergeable ?tm \<subseteq> halves p c \<longrightarrow> mergeable tm2 = {})"
    by (intro coalescing_merges [OF inv1]) simp_all
  then obtain h2 tm2 L2 q d where
    h2: "coalescing_block 16 (pg p) ?h1 = Ret (pg q, h2)" "heap_inv h2 tm2 N L2 {q} xs" "tm2 q = Some (d, True)"
      "blk_class (blocks h2 (pg q)) = of_nat d" "used tm2 = used ?tm" "mergeable ?tm \<subseteq> halves p c \<longrightarrow> mergeable tm2 = {}" by blast
  moreover from enqueue_pushes [OF h2(2) _ h2(3)] obtain h3 where
    h3: "free_list_enqueue (pg q) (of_nat d) h2 = Ret h3" "heap_inv h3 tm2 N (L2(d := q # L2 d)) {} xs" by auto
  moreover have "blk_get (pg q) h2 = Ret (blocks h2 (pg q))" using blk_access(1) [OF h2(2) heap_inv_lt(1) [OF h2(2,3)]] .
  ultimately have "mm_heap_free (pg p + sizeof_block) h = Ret h3" by (simp add: mm_heap_free_def)
  moreover have "used ?tm = used tm - {(p, c)}" using t by (auto simp: used_def split: if_splits)
  moreover have "mergeable tm = {} \<longrightarrow> mergeable tm2 = {}" using h2(6) mergeable_release [OF heap_invD(2) [OF inv] t] by blast
  ultimately show ?thesis using h3(2) h2(5) by blast
qed

end
