(* ===== verification/Mm_Sample.thy ===== *)
theory Mm_Sample
  imports Mm_Heap
begin

text \<open>
  Concrete states of the memory manager that satisfy the invariants \<open>mm_inv\<close> and \<open>heap_inv\<close>: the tables
  of the direct access window and nothing else, and any number of free frames. They are the inputs
  at which the properties of the frame allocator, the page mapper and the heap are evaluated.
\<close>

subsection \<open>Tables of the window\<close>

definition sample_pmem :: "u64 \<Rightarrow> u64" where
  "sample_pmem = (\<lambda>_. 0)
     (entry_at 0x1000 VA_48_DIRECT_ACCESS_PAGE 0 := mk_entry 0x2000,
      entry_at 0x2000 VA_48_DIRECT_ACCESS_PAGE 1 := mk_entry 0x3000,
      entry_at 0x3000 VA_48_DIRECT_ACCESS_PAGE 2 := mk_entry 0x4000)"

definition sample_empty :: mm_state where
  "sample_empty =
     \<lparr>pmem = sample_pmem, cr3 = 0x1000, tab_4 = 0x1000, early_frame_pool = 0, direct_tab_space = 0, direct_tab_arr = 0,
      direct_tab = [], direct_tab_entry = 0x4000, direct_vadd = VA_48_DIRECT_ACCESS_PAGE, early_map_end = 0,
      phy_mem_secs = [], phy_mem_size = 0, early_frame_count = 0, is_early_stage = False, free_head = 0, free_count = 0\<rparr>"

lemma zero_tree: "frame_ok r \<Longrightarrow> tree_ok (\<lambda>_. 0) r" "tab_at (\<lambda>_. 0) r va d = Some t \<longleftrightarrow> d = 0 \<and> t = r" "is_table (\<lambda>_. 0) r t \<longleftrightarrow> t = r"
proof -
  have at: "tab_at (\<lambda>_. 0) r va d = Some t \<longleftrightarrow> d = 0 \<and> t = r" for va d t
    by (cases d) (auto simp: next_tab_def split: option.splits)
  then show "tab_at (\<lambda>_. 0) r va d = Some t \<longleftrightarrow> d = 0 \<and> t = r" "is_table (\<lambda>_. 0) r t \<longleftrightarrow> t = r"
    by (auto simp: is_table_def)
  show "frame_ok r \<Longrightarrow> tree_ok (\<lambda>_. 0) r" unfolding tree_ok_def at by (auto simp: same_path_def)
qed

lemma frame_ok_small: "4096 dvd k \<Longrightarrow> 0 < k \<Longrightarrow> k < 140737488355328 \<Longrightarrow> frame_ok (of_nat k)"
  by (simp add: frame_ok_unat unat_of_nat)

lemma sample_frames_ok: "frame_ok 0x1000" "frame_ok 0x2000" "frame_ok 0x3000" "frame_ok 0x4000"
  by (simp_all add: frame_ok_unat)

lemma entry_miss: "frame_ok t \<Longrightarrow> frame_ok f \<Longrightarrow> t \<noteq> f \<Longrightarrow> unat i < 512 \<Longrightarrow> f + 8 * i \<noteq> entry_at t va d"
  using entry_inj [of f t i "tab_index va (4 - d)"] tab_index_less(2) by auto

lemma sample_tree:
  "tree_ok sample_pmem 0x1000" "is_table sample_pmem 0x1000 t \<longleftrightarrow> t \<in> {0x1000, 0x2000, 0x3000, 0x4000}"
  "tab_at sample_pmem 0x1000 VA_48_DIRECT_ACCESS_PAGE 3 = Some 0x4000" "sample_pmem 0x4000 = 0"
  "walk_from sample_pmem 4 0x1000 va = None"
proof -
  let ?va = VA_48_DIRECT_ACCESS_PAGE
  define m1 where "m1 = (\<lambda>_. 0 :: u64)(entry_at 0x1000 ?va 0 := mk_entry 0x2000)"
  define m2 where "m2 = m1(entry_at 0x2000 ?va 1 := mk_entry 0x3000)"
  have m3: "sample_pmem = m2(entry_at 0x3000 ?va 2 := mk_entry 0x4000)" by (simp add: sample_pmem_def m1_def m2_def)
  note ok = sample_frames_ok
  have z1: "m1 (f + 8 * i) = 0" if "frame_ok f" "f \<noteq> 0x1000" "unat i < 512" for f i
    using that ok entry_miss [of "0x1000" f i ?va 0] by (simp add: m1_def)
  have z2: "m2 (f + 8 * i) = 0" if "frame_ok f" "f \<noteq> 0x1000" "f \<noteq> 0x2000" "unat i < 512" for f i
    using that ok z1 entry_miss [of "0x2000" f i ?va 1] by (simp add: m2_def)
  have z3: "sample_pmem (f + 8 * i) = 0" if "frame_ok f" "f \<noteq> 0x1000" "f \<noteq> 0x2000" "f \<noteq> 0x3000" "unat i < 512" for f i
    using that ok z2 entry_miss [of "0x3000" f i ?va 2] by (simp add: m3)
  note l1 = tree_link [where ?va0.0 = ?va and ?d0.0 = 0 and f = "0x2000", OF zero_tree(1) [OF ok(1)], folded m1_def]
  have t1: "tree_ok m1 0x1000" "is_table m1 0x1000 t \<longleftrightarrow> t = 0x2000 \<or> t = 0x1000" "tab_at m1 0x1000 ?va 1 = Some 0x2000"
    "walk_from m1 4 0x1000 va = walk_from (\<lambda>_. 0) 4 0x1000 va" for t va
    using l1 [of "0x1000"] ok by (simp_all add: zero_tree m1_def)
  have "unat (tab_index ?va n) < 512" for n by (rule tab_index_less(2))
  note z = z1 [OF ok(2) _ this] z2 [OF ok(3) _ _ this]
  have neq: "(0x1000::u64) \<noteq> 0x2000" "(0x1000::u64) \<noteq> 0x3000" "(0x2000::u64) \<noteq> 0x3000" "(0x1000::u64) \<noteq> 0x4000"
    "(0x2000::u64) \<noteq> 0x4000" "(0x3000::u64) \<noteq> 0x4000" by simp_all
  have less: "1 < (3::nat)" "2 < (3::nat)" and suc: "Suc 1 = 2" "Suc 2 = 3" by simp_all
  have n1: "\<not> is_table m1 0x1000 0x3000" using t1(2) neq by auto
  note t2 = tree_link [OF t1(1,3) less(1) z(1) [OF neq(1) [symmetric]] ok(3) n1 z1 [OF ok(3) neq(2) [symmetric]],
      folded m2_def, unfolded suc]
  have n2: "\<not> is_table m2 0x1000 0x4000" using t2(2) t1(2) neq by auto
  note t3 = tree_link [OF t2(1,4) less(2) z(2) [OF neq(2,3) [symmetric]] ok(4) n2 z2 [OF ok(4) neq(4,5) [symmetric]],
      folded m3, unfolded suc]
  show "tree_ok sample_pmem 0x1000" by (rule t3(1))
  show "tab_at sample_pmem 0x1000 ?va 3 = Some 0x4000" using t3(4) .
  show "is_table sample_pmem 0x1000 t \<longleftrightarrow> t \<in> {0x1000, 0x2000, 0x3000, 0x4000}" using t3(2) t2(2) t1(2) by auto
  show "sample_pmem 0x4000 = 0" using z3 [OF ok(4) neq(4,5,6) [symmetric], of 0] by simp
  have "walk_from (\<lambda>_. 0) 4 0x1000 va = None" by (simp add: numeral_eq_Suc tab_entry_is_present_def)
  then show "walk_from sample_pmem 4 0x1000 va = None" using t3(3) t2(3) t1(4) by simp
qed

lemma sample_empty_inv: "mm_inv sample_empty []" "walk sample_empty va = None"
  using sample_tree by (simp_all add: mm_inv_def page_ok_def sample_empty_def walk_def del: tab_at.simps)

subsection \<open>Free frames\<close>

lemma pushed_keeps:
  assumes "page_ok s" "frame_ok f" "\<not> is_table (pmem s) (tab_4 s) f"
  shows "is_table (pmem (pushed f s)) (tab_4 (pushed f s)) = is_table (pmem s) (tab_4 s)"
  using page_ok_outside(2) [where m' = "(pmem s)(f := free_head s)", OF assms upd_first_word] by (simp add: pushed_def)

lemma mm_inv_foldr_pushed:
  assumes "mm_inv s []" "distinct fs" "\<And>f. f \<in> set fs \<Longrightarrow> frame_ok f \<and> \<not> is_table (pmem s) (tab_4 s) f"
  shows "mm_inv (foldr pushed fs s) fs \<and> (\<forall>va. walk (foldr pushed fs s) va = walk s va) \<and>
    is_table (pmem (foldr pushed fs s)) (tab_4 (foldr pushed fs s)) = is_table (pmem s) (tab_4 s)"
  using assms(2,3)
proof (induction fs)
  case Nil
  then show ?case using assms(1) by simp
next
  case (Cons f fs)
  let ?s = "foldr pushed fs s"
  have IH: "mm_inv ?s fs" "\<And>va. walk ?s va = walk s va" "is_table (pmem ?s) (tab_4 ?s) = is_table (pmem s) (tab_4 s)"
    using Cons by auto
  then have "spare ?s fs f" "page_ok ?s" using Cons.prems by (auto simp: spare_def mm_inv_def)
  then show ?case using mm_inv_pushed [OF IH(1)] pushed_keeps [of ?s f] Cons.prems IH(2,3) by simp
qed

definition sample_frame :: "nat \<Rightarrow> u64" where
  "sample_frame i = of_nat (0x100000 + 4096 * i)"

definition sample_free :: "nat \<Rightarrow> mm_state" where
  "sample_free n = foldr pushed (map sample_frame [0..<n]) sample_empty"

lemma sample_frame_unat: "i < 2 ^ 32 \<Longrightarrow> unat (sample_frame i) = 0x100000 + 4096 * i"
  unfolding sample_frame_def by (simp only: unat_of_nat) simp

lemma sample_frame_ok: "i < 2 ^ 32 \<Longrightarrow> frame_ok (sample_frame i)"
  by (auto simp: frame_ok_unat sample_frame_unat intro!: dvd_add)

lemma sample_frame_not_table: "i < 2 ^ 32 \<Longrightarrow> \<not> is_table (pmem sample_empty) (tab_4 sample_empty) (sample_frame i)"
  using sample_frame_unat [of i] sample_tree(2) by (auto simp: sample_empty_def)

lemma sample_free_inv:
  assumes n: "n \<le> 2 ^ 32"
  shows "mm_inv (sample_free n) (map sample_frame [0..<n])" "walk (sample_free n) va = None"
    "i < 2 ^ 32 \<Longrightarrow> n \<le> i \<Longrightarrow> spare (sample_free n) (map sample_frame [0..<n]) (sample_frame i)"
proof -
  have inj: "inj_on sample_frame {0..<2 ^ 32}"
    by (rule inj_onI) (metis add_left_cancel atLeastLessThan_iff mult_cancel1 sample_frame_unat zero_neq_numeral)
  then have dist: "distinct (map sample_frame [0..<n])" using n by (auto simp: distinct_map elim: inj_on_subset)
  note all = mm_inv_foldr_pushed [OF sample_empty_inv(1) dist]
  have fr: "frame_ok f \<and> \<not> is_table (pmem sample_empty) (tab_4 sample_empty) f" if "f \<in> set (map sample_frame [0..<n])" for f
    using that n sample_frame_ok sample_frame_not_table by auto
  show "mm_inv (sample_free n) (map sample_frame [0..<n])" "walk (sample_free n) va = None"
    using all [OF fr] sample_empty_inv(2) by (simp_all add: sample_free_def)
  show "spare (sample_free n) (map sample_frame [0..<n]) (sample_frame i)" if "i < 2 ^ 32" "n \<le> i"
  proof -
    have "sample_frame i \<notin> set (map sample_frame [0..<n])" using inj_onD [OF inj, of i] that n by fastforce
    then show ?thesis using that all [OF fr] sample_frame_ok sample_frame_not_table by (simp add: spare_def sample_free_def)
  qed
qed

subsection \<open>The properties at the sample states\<close>

theorem mm_frame_alloc_distinct_witness:
  "\<exists>fs s'. alloc_frames 2 (sample_free 3) = Ret (fs, s') \<and> length fs = 2 \<and> distinct fs"
  using mm_frame_alloc_distinct [OF sample_free_inv(1), of 3 2] by auto

theorem mm_frame_free_alloc_witness:
  "\<exists>s' s''. free_through_window (sample_frame 7) (sample_free 3) = Ret s' \<and> mm_frame_alloc s' = Ret (Some (sample_frame 7), s'')"
  using mm_frame_free_alloc [OF sample_free_inv(1) sample_free_inv(3), of 3 7] by auto

theorem mm_page_map_translates_witness:
  "\<exists>s'. mm_page_map VA_48_HEAP (sample_frame 7) (sample_free 3) = Ret (True, s') \<and> walk s' VA_48_HEAP = Some (sample_frame 7)"
proof -
  have va: "VA_48_HEAP mod 4096 = 0" "canonical VA_48_HEAP" "\<not> same_page VA_48_HEAP VA_48_DIRECT_ACCESS_PAGE"
    using pg_aligned [of 0] pg_canonical [of 0] pg_not_direct [of 0] by (simp_all add: pg_def)
  have f: "frame_ok (sample_frame 7)" by (rule sample_frame_ok) simp
  obtain ok s' k where r: "mm_page_map VA_48_HEAP (sample_frame 7) (sample_free 3) = Ret (ok, s')" "3 \<le> (3::nat) \<longrightarrow> ok"
    "\<forall>v. walk s' v = (if ok \<and> canonical v \<and> same_page v VA_48_HEAP then Some (sample_frame 7 + (v AND 0xfff)) else walk (sample_free 3) v)"
    using mm_page_map_translates [OF sample_free_inv(1) va sample_free_inv(2) frame_okD(1) [OF f] frame_okD(2) [OF f], of 3] by auto
  moreover have "VA_48_HEAP AND 0xfff = 0" by (simp add: va_layout_defs)
  ultimately show ?thesis using va(2) by (simp add: same_page_def)
qed

text \<open>A memory map with one usable section of \<open>0x1000\<close> bytes at \<open>0x2000\<close>.\<close>

definition sample_mmap :: "u8 list" where
  "sample_mmap = [24, 0, 0, 0, 0, 0, 0, 0,
     0, 0x20, 0, 0, 0, 0, 0, 0, 0, 0x10, 0, 0, 0, 0, 0, 0, 1, 0, 0, 0, 0, 0, 0, 0]"

theorem mm_frame_early_bootstrap_sections_witness:
  "\<exists>s'. mm_frame_early_bootstrap sample_mmap 32 sample_empty = Ret s' \<and> phy_mem_size s' = sum_list (map sec_len (phy_mem_secs s'))"
proof -
  have "mm_frame_early_bootstrap sample_mmap 32 sample_empty =
      Ret (sample_empty\<lparr>early_frame_count := 0, phy_mem_secs := [\<lparr>sec_base = 0x2000, sec_len = 0x1000\<rparr>], phy_mem_size := 0x1000, is_early_stage := True\<rparr>)"
    by (simp add: mm_frame_early_bootstrap_def bootstrap_mmap_info_def ld_bytes_def le_value_def inbounds_def sample_mmap_def
        mmap_entry_def PHY_MEM_SECTION_MAX_def sample_empty_def)
  from mm_frame_early_bootstrap_sections [OF this] this show ?thesis by blast
qed

end
