(* ===== verification/Mm_Heap_Contract.thy ===== *)
theory Mm_Heap_Contract
  imports Mm_Sample
begin

text \<open>
  What \<open>src/src/mm/mm_heap.c\<close> promises to its callers: the areas it hands out are large enough and never
  overlap, what is freed can be had again, and the invariant of the buddy system holds in every state
  that calls of \<open>mm_heap_alloc\<close> and \<open>mm_heap_free\<close> lead to. The locale \<open>block_allocator\<close> is the interface
  on which the allocator of \<open>src/src/mm/mm_allocator.c\<close> rests.
\<close>

subsection \<open>The interface of the heap\<close>

text \<open>
  The user's part of a block: from behind the header to the end of the block. \<open>heap_owns\<close> is the
  contract with the callers: the set of user areas that are handed out. Between calls all free blocks are
  coalesced.
\<close>

definition user_area :: "nat \<times> nat \<Rightarrow> u64 \<times> u64" where
  "user_area = (\<lambda>(p, c). (pg p + sizeof_block, 4096 * of_nat (2 ^ c) - sizeof_block))"

definition heap_owns :: "heap_state \<Rightarrow> (u64 \<times> u64) set \<Rightarrow> bool" where
  "heap_owns h A \<longleftrightarrow> (\<exists>tm N L xs. heap_inv h tm N L {} xs \<and> mergeable tm = {} \<and> A = user_area ` used tm)"

lemma heap_ownsI: "heap_inv h tm N L {} xs \<Longrightarrow> mergeable tm = {} \<Longrightarrow> A = user_area ` used tm \<Longrightarrow> heap_owns h A"
  by (auto simp: heap_owns_def)

text \<open>Enough frames and virtual addresses to grow by \<open>n\<close> regions.\<close>

definition heap_room :: "nat \<Rightarrow> heap_state \<Rightarrow> bool" where
  "heap_room n h \<longleftrightarrow> n * 131072 \<le> unat (mm_frame_free_count (mm h)) \<and>
     unat (heap_end h) + n * 2 ^ 27 \<le> HEAP_BASE + 4096 * PAGES_MAX"

definition apart :: "u64 \<times> u64 \<Rightarrow> u64 \<times> u64 \<Rightarrow> bool" where
  "apart a b \<longleftrightarrow> unat (fst a) + unat (snd a) < unat (fst b) \<or> unat (fst b) + unat (snd b) < unat (fst a)"

lemma frames_length:
  assumes "mm_inv s xs"
  shows "unat (free_count s) = length xs"
proof -
  have "distinct xs" "0 \<notin> set xs" using fs.frames_distinct [OF assms] by auto
  then have "length xs = card (set xs)" "set xs \<subset> UNIV" by (auto simp: distinct_card)
  then have "length xs < card (UNIV :: u64 set)" by (simp add: psubset_card_mono)
  then have "length xs < 2 ^ 64" by (simp add: card_word)
  then show ?thesis using assms by (simp add: mm_inv_def unat_of_nat)
qed

lemma heap_room_iff:
  assumes inv: "heap_inv h tm N L {} xs"
  shows "heap_room n h \<longleftrightarrow> n * 131072 \<le> length xs \<and> N + n * 2 ^ 15 \<le> PAGES_MAX"
proof -
  have "unat (heap_end h) = HEAP_BASE + 4096 * N" using heap_invD(4,5) [OF inv] by (simp add: unat_pg)
  then show ?thesis using frames_length [OF heap_invD(1) [OF inv]] by (auto simp: heap_room_def mm_frame_free_count_def)
qed

lemma user_area_unat:
  assumes "heap_inv h tm N L {} xs" "(p, c) \<in> used tm"
  shows "unat (fst (user_area (p, c))) = HEAP_BASE + 4096 * p + 24" "unat (snd (user_area (p, c))) = 4096 * 2 ^ c - 24"
    "p + 2 ^ c \<le> PAGES_MAX"
proof -
  have t: "tm p = Some (c, False)" using assms(2) by (simp add: used_def)
  note b = heap_inv_lt [OF assms(1) t]
  show le: "p + 2 ^ c \<le> PAGES_MAX" using b(5) heap_invD(4) [OF assms(1)] by simp
  show "unat (fst (user_area (p, c))) = HEAP_BASE + 4096 * p + 24"
    unfolding user_area_def using b(3) by (simp, subst unat_u64_add) (auto simp: unat_pg sizeof_block_def)
  have "(1::nat) \<le> 2 ^ c" by simp
  then have "24 \<le> 4096 * (2::nat) ^ c" by linarith
  then have "(24::u64) \<le> 4096 * of_nat (2 ^ c)" using unat_class_size [OF b(2)] by (simp only: word_le_nat_alt) simp
  then show "unat (snd (user_area (p, c))) = 4096 * 2 ^ c - 24"
    unfolding user_area_def using unat_class_size [OF b(2)] by (simp only: split snd_conv sizeof_block_def unat_sub) simp
qed

lemma used_apart:
  assumes inv: "heap_inv h tm N L {} xs" and u: "(p, c) \<in> used tm" "(q, d) \<in> used tm" "p < q"
  shows "unat (fst (user_area (p, c))) + unat (snd (user_area (p, c))) < unat (fst (user_area (q, d)))"
proof -
  have "p + 2 ^ c \<le> q" using u tiles_after [OF heap_invD(2) [OF inv]] by (auto simp: used_def)
  then have "4096 * p + 4096 * 2 ^ c \<le> 4096 * q" by (metis distrib_left mult_le_mono2)
  moreover have "(1::nat) \<le> 2 ^ c" by simp
  ultimately show ?thesis unfolding user_area_unat [OF inv u(1)] user_area_unat [OF inv u(2)] by linarith
qed

lemma used_apart_cases:
  assumes "heap_inv h tm N L {} xs" "(p, c) \<in> used tm" "(q, d) \<in> used tm" "p \<noteq> q"
  shows "apart (user_area (p, c)) (user_area (q, d))"
  using assms used_apart [of h tm N L xs p c q d] used_apart [of h tm N L xs q d p c] by (auto simp: apart_def neq_iff)

lemma user_area_inj:
  assumes "heap_inv h tm N L {} xs" "u \<in> used tm" "v \<in> used tm" "fst (user_area u) = fst (user_area v)"
  shows "u = v"
proof -
  obtain p c q d where uv: "u = (p, c)" "v = (q, d)" by (cases u, cases v)
  then have "p = q" using user_area_unat(1) [of h tm N L xs] assms by (metis add_right_cancel add_left_cancel mult_cancel1 zero_neq_numeral)
  then show ?thesis using assms uv by (auto simp: used_def)
qed

text \<open>
  What a client of the heap relies on. \<open>owns s A\<close> holds when \<open>A\<close> are the areas, as start and length,
  that the clients hold.
\<close>

locale block_allocator =
  fixes alloc :: "u64 \<Rightarrow> 's \<Rightarrow> (u64 \<times> u64 \<times> 's) res"
    and free :: "u64 \<Rightarrow> 's \<Rightarrow> 's res"
    and owns :: "'s \<Rightarrow> (u64 \<times> u64) set \<Rightarrow> bool"
    and room :: "nat \<Rightarrow> 's \<Rightarrow> bool"
    and max_len min_len :: nat
  assumes alloc_area:
      "owns s A \<Longrightarrow> room (Suc n) s \<Longrightarrow> 0 < len \<Longrightarrow> unat len \<le> max_len \<Longrightarrow>
       \<exists>p l s'. alloc len s = Ret (p, l, s') \<and> owns s' (insert (p, l) A) \<and> (p, l) \<notin> A \<and> len \<le> l \<and> room n s'"
    and free_area: "owns s A \<Longrightarrow> (p, l) \<in> A \<Longrightarrow> \<exists>s'. free p s = Ret s' \<and> owns s' (A - {(p, l)}) \<and> (\<forall>n. room n s \<longrightarrow> room n s')"
    and room_less: "room (Suc n) s \<Longrightarrow> room n s"
    and owned_apart: "owns s A \<Longrightarrow> a \<in> A \<Longrightarrow> b \<in> A \<Longrightarrow> a \<noteq> b \<Longrightarrow> apart a b"
    and owned_bounds: "owns s A \<Longrightarrow> a \<in> A \<Longrightarrow>
       unat (fst a) + unat (snd a) + max_len < 2 ^ 64 \<and> fst a \<noteq> 0 \<and> fst a mod 8 = 0 \<and> snd a mod 8 = 0 \<and> min_len \<le> unat (snd a)"
begin

lemma alloc_apart:
  assumes "owns s A" "room (Suc n) s" "0 < len" "unat len \<le> max_len"
  shows "\<exists>p l s'. alloc len s = Ret (p, l, s') \<and> owns s' (insert (p, l) A) \<and> len \<le> l \<and> (\<forall>a \<in> A. apart a (p, l))"
proof -
  obtain p l s' where r: "alloc len s = Ret (p, l, s')" "owns s' (insert (p, l) A)" "(p, l) \<notin> A" "len \<le> l"
    using alloc_area [OF assms] by blast
  moreover have "apart a (p, l)" if "a \<in> A" for a using owned_apart [OF r(2)] that r(3) by blast
  ultimately show ?thesis by blast
qed

lemma alloc_free:
  assumes "owns s A" "room (Suc n) s" "0 < len" "unat len \<le> max_len"
  shows "\<exists>p l s' s''. alloc len s = Ret (p, l, s') \<and> free p s' = Ret s'' \<and> owns s'' A"
proof -
  obtain p l s' where r: "alloc len s = Ret (p, l, s')" "owns s' (insert (p, l) A)" "(p, l) \<notin> A"
    using alloc_area [OF assms] by blast
  moreover have "insert (p, l) A - {(p, l)} = A" using r(3) by auto
  ultimately show ?thesis using free_area [OF r(2), of p l] by auto
qed

end

lemma mm_heap_alloc_owns:
  assumes own: "heap_owns h A" and room: "heap_room (Suc n) h" and len: "0 < len" "unat len \<le> 134217704"
  shows "\<exists>p l h'. mm_heap_alloc len h = Ret (p, l, h') \<and> heap_owns h' (insert (p, l) A) \<and> (p, l) \<notin> A \<and> len \<le> l \<and> heap_room n h'"
proof -
  from own obtain tm N L xs where inv: "heap_inv h tm N L {} xs" and m: "mergeable tm = {}" and A: "A = user_area ` used tm"
    by (auto simp: heap_owns_def)
  have "unat len + 24 \<le> 134217728" using len(2) by simp
  moreover have rm: "Suc n * 131072 \<le> length xs" "N + Suc n * 2 ^ 15 \<le> PAGES_MAX" using room heap_room_iff [OF inv] by auto
  then have "N + 2 ^ 15 \<le> PAGES_MAX" "131072 \<le> length xs" by auto
  ultimately obtain p c h' tm' N' L' ys where
    r: "mm_heap_alloc len h = Ret (pg p + sizeof_block, 4096 * of_nat (2 ^ c) - sizeof_block, h')"
      "heap_inv h' tm' N' L' {} ys" "used tm' = insert (p, c) (used tm)" "p \<notin> fst ` used tm" "unat len + 24 \<le> 4096 * 2 ^ c"
      "N' \<le> N + 2 ^ 15" "length xs \<le> length ys + 131072" "mergeable tm' = {}"
    using mm_heap_alloc_gives [OF inv len(1)] m by blast
  have left: "heap_room n h'" unfolding heap_room_iff [OF r(2)] using rm r(6,7) by auto
  have u: "(p, c) \<in> used tm'" using r(3) by simp
  have ua: "user_area (p, c) = (pg p + sizeof_block, 4096 * of_nat (2 ^ c) - sizeof_block)" by (simp add: user_area_def)
  have "user_area (p, c) \<notin> A"
  proof
    assume "user_area (p, c) \<in> A"
    then obtain v where "v \<in> used tm" "user_area v = user_area (p, c)" using A by auto
    then have "v = (p, c)" using user_area_inj [OF r(2), of v "(p, c)"] r(3) by simp
    then show False using \<open>v \<in> used tm\<close> r(4) by force
  qed
  moreover have "len \<le> snd (user_area (p, c))" using user_area_unat(2) [OF r(2) u] r(5) by (simp add: word_le_nat_alt)
  moreover have "heap_owns h' (insert (user_area (p, c)) A)" using r(3,8) A by (intro heap_ownsI [OF r(2)]) simp_all
  ultimately show ?thesis using r(1) left by (simp add: ua)
qed

lemma mm_heap_free_owns:
  assumes own: "heap_owns h A" and a: "(p, l) \<in> A"
  shows "\<exists>h'. mm_heap_free p h = Ret h' \<and> heap_owns h' (A - {(p, l)}) \<and> (\<forall>n. heap_room n h \<longrightarrow> heap_room n h')"
proof -
  from own obtain tm N L xs where inv: "heap_inv h tm N L {} xs" and m: "mergeable tm = {}" and A: "A = user_area ` used tm"
    by (auto simp: heap_owns_def)
  with a obtain q c where u: "(q, c) \<in> used tm" "(p, l) = user_area (q, c)" by auto
  have "inj_on user_area (used tm)" using user_area_inj [OF inv] by (intro inj_onI) metis
  then have "A - {(p, l)} = user_area ` (used tm - {(q, c)})" using u A by (simp add: inj_on_image_set_diff)
  moreover have "p = pg q + sizeof_block" using u(2) by (simp add: user_area_def)
  moreover obtain h' tm' L' where h': "mm_heap_free (pg q + sizeof_block) h = Ret h'" "heap_inv h' tm' N L' {} xs" "used tm' = used tm - {(q, c)}" "mergeable tm' = {}"
    using mm_heap_free_takes [OF inv u(1)] m by blast
  moreover have "heap_room n h \<longrightarrow> heap_room n h'" for n using heap_room_iff [OF inv] heap_room_iff [OF h'(2)] by simp
  ultimately show ?thesis by (metis heap_ownsI)
qed

interpretation heap: block_allocator mm_heap_alloc mm_heap_free heap_owns heap_room 134217704 4072
proof (unfold_locales, goal_cases)
  case (1 s A n len)
  then show ?case by (rule mm_heap_alloc_owns)
next
  case (2 s A p l)
  then show ?case by (rule mm_heap_free_owns)
next
  case (3 n s)
  then show ?case by (auto simp: heap_room_def)
next
  case (4 s A a b)
  then obtain tm N L xs u v where *: "heap_inv s tm N L {} xs" "u \<in> used tm" "v \<in> used tm" "a = user_area u" "b = user_area v"
    by (auto simp: heap_owns_def)
  moreover have "fst u \<noteq> fst v" using * 4 by (auto simp: used_def user_area_def)
  ultimately show ?case using used_apart_cases [OF *(1), of "fst u" "snd u" "fst v" "snd v"] by simp
next
  case (5 s A a)
  then obtain tm N L xs p c where *: "heap_inv s tm N L {} xs" "(p, c) \<in> used tm" "a = user_area (p, c)"
    by (auto simp: heap_owns_def)
  note u = user_area_unat [OF *(1,2)]
  have "4096 * p + 4096 * 2 ^ c \<le> 4096 * PAGES_MAX" using u(3) by linarith
  moreover have "8 dvd unat (fst a)" "8 dvd unat (snd a)" using u *(3) by (auto intro!: dvd_add dvd_diff_nat)
  moreover have "(1::nat) \<le> 2 ^ c" by simp
  then have "4072 \<le> unat (snd a)" unfolding *(3) u(2) by linarith
  ultimately show ?case using u *(3) by (auto simp: u64_eq_iff_unat unat_mod)
qed

lemma mm_heap_bootstrap_inv:
  assumes "mm_inv (mm h) xs" "\<And>q. q < PAGES_MAX \<Longrightarrow> walk (mm h) (pg q) = None"
  shows "heap_inv (mm_heap_bootstrap h) Map.empty 0 (\<lambda>_. []) {} xs"
  using assms by (auto simp: heap_inv_def mm_heap_bootstrap_def tiles_def pg_def)

subsection \<open>The heap as a state machine\<close>

text \<open>
  The states that calls of the interface lead to from \<open>mm_heap_bootstrap\<close>, with the areas handed out
  and not yet freed. A call of \<open>mm_heap_alloc\<close> is a step when the request fits into a block and the heap
  can grow; \<open>mm_heap_free\<close> when its argument was handed out.
\<close>

inductive heap_run :: "heap_state \<Rightarrow> (u64 \<times> u64) set \<Rightarrow> bool" where
  boot: "mm_inv (mm h) xs \<Longrightarrow> \<forall>q<PAGES_MAX. walk (mm h) (pg q) = None \<Longrightarrow> heap_run (mm_heap_bootstrap h) {}"
| alloc: "heap_run h A \<Longrightarrow> heap_room 1 h \<Longrightarrow> 0 < len \<Longrightarrow> unat len \<le> 134217704 \<Longrightarrow>
    mm_heap_alloc len h = Ret (p, l, h') \<Longrightarrow> heap_run h' (insert (p, l) A)"
| free: "heap_run h A \<Longrightarrow> (p, l) \<in> A \<Longrightarrow> mm_heap_free p h = Ret h' \<Longrightarrow> heap_run h' (A - {(p, l)})"

lemma heap_run_owns: "heap_run h A \<Longrightarrow> heap_owns h A"
proof (induction rule: heap_run.induct)
  case (boot h xs)
  then have "heap_inv (mm_heap_bootstrap h) Map.empty 0 (\<lambda>_. []) {} xs" by (intro mm_heap_bootstrap_inv) auto
  then show ?case by (rule heap_ownsI) (simp_all add: used_def mergeable_def)
next
  case (alloc h A len p l h')
  then show ?case using heap.alloc_area [OF alloc.IH alloc.hyps(2) [unfolded One_nat_def] alloc.hyps(3,4)] by auto
next
  case (free h A p l h')
  then show ?case using heap.free_area [OF free.IH free.hyps(2)] by auto
qed

text \<open>
  C2: in every state of the heap that allocations and releases lead to from \<open>mm_heap_bootstrap\<close>, the
  areas in use do not overlap; a request of up to \<open>2^27 - 24\<close> bytes is served by an area that is large
  enough and apart from all the others (as long as frames and addresses are left for one more region);
  and the release of any area in use returns. No assertion of \<open>mm_heap.c\<close> fails on the way.
\<close>

theorem mm_heap_run_safe:
  assumes "heap_run h A"
  shows "(\<forall>a \<in> A. \<forall>b \<in> A. a \<noteq> b \<longrightarrow> apart a b) \<and>
    (\<forall>len. heap_room 1 h \<longrightarrow> 0 < len \<longrightarrow> unat len \<le> 134217704 \<longrightarrow>
       (\<exists>p l h'. mm_heap_alloc len h = Ret (p, l, h') \<and> heap_run h' (insert (p, l) A) \<and> len \<le> l \<and> (\<forall>a \<in> A. apart a (p, l)))) \<and>
    (\<forall>(p, l) \<in> A. \<exists>h'. mm_heap_free p h = Ret h' \<and> heap_run h' (A - {(p, l)}))"
proof (intro conjI ballI allI impI, goal_cases)
  case (1 a b)
  then show ?case using heap.owned_apart [OF heap_run_owns [OF assms]] by simp
next
  case (2 len)
  then show ?case using heap.alloc_apart [OF heap_run_owns [OF assms] 2(1) [unfolded One_nat_def] 2(2,3)] heap_run.alloc [OF assms 2] by blast
next
  case (3 a)
  then show ?case using heap.free_area [OF heap_run_owns [OF assms]] heap_run.free [OF assms] by fast
qed

definition sample_heap :: "nat \<Rightarrow> heap_state" where
  "sample_heap n = mm_heap_bootstrap \<lparr>mm = sample_free n, free_list = [], heap_end = 0, blocks = (\<lambda>_. block_zero)\<rparr>"

lemma sample_heap_fields: "mm (sample_heap n) = sample_free n" "heap_end (sample_heap n) = VA_48_HEAP"
  by (simp_all add: sample_heap_def mm_heap_bootstrap_def)

lemma sample_heap_inv: "n \<le> 2 ^ 32 \<Longrightarrow> heap_inv (sample_heap n) Map.empty 0 (\<lambda>_. []) {} (map sample_frame [0..<n])"
  unfolding sample_heap_def using sample_free_inv by (intro mm_heap_bootstrap_inv) auto

lemma sample_heap_run: "n \<le> 2 ^ 32 \<Longrightarrow> heap_run (sample_heap n) {}"
  unfolding sample_heap_def using sample_free_inv by (intro heap_run.boot) auto

lemma sample_heap_room: "heap_room 1 (sample_heap 200000)"
proof -
  have "free_count (sample_free 200000) = of_nat 200000" using sample_free_inv(1) [of 200000] by (simp add: mm_inv_def)
  then show ?thesis by (simp add: heap_room_def sample_heap_fields mm_frame_free_count_def unat_VA_48_HEAP)
qed

theorem mm_heap_run_safe_witness:
  "\<exists>p l h'. mm_heap_alloc 5000 (sample_heap 200000) = Ret (p, l, h') \<and> heap_run h' {(p, l)} \<and> 5000 \<le> l"
proof -
  have "heap_run (sample_heap 200000) {}" by (rule sample_heap_run) simp
  from mm_heap_run_safe [OF this] sample_heap_room show ?thesis by fastforce
qed

text \<open>
  C7: \<open>mm_heap_alloc\<close> on a well-formed heap: the block is of the smallest class that holds the request
  and its header, it was not in use, and afterwards the blocks in use are the old ones and this one. The
  heap grew by one region at most. When no two free buddies were left before, none are afterwards.
\<close>

theorem mm_heap_alloc_best_fit:
  assumes "heap_inv h tm N L {} xs" "0 < len" "unat len + 24 \<le> 134217728" "N + 2 ^ 15 \<le> PAGES_MAX" "131072 \<le> length xs"
  shows "\<exists>p c h' tm' N' L' ys. mm_heap_alloc len h = Ret (pg p + sizeof_block, 4096 * of_nat (2 ^ c) - sizeof_block, h') \<and>
    heap_inv h' tm' N' L' {} ys \<and> used tm' = insert (p, c) (used tm) \<and> p \<notin> fst ` used tm \<and>
    unat len + 24 \<le> 4096 * 2 ^ c \<and> (c = 0 \<or> 4096 * 2 ^ (c - 1) < unat len + 24) \<and>
    N \<le> N' \<and> N' \<le> N + 2 ^ 15 \<and> length xs \<le> length ys + 131072 \<and> (mergeable tm = {} \<longrightarrow> mergeable tm' = {})"
  using assms by (rule mm_heap_alloc_gives)

theorem mm_heap_alloc_best_fit_witness:
  "\<exists>p c h'. mm_heap_alloc 5000 (sample_heap 200000) = Ret (pg p + sizeof_block, 4096 * of_nat (2 ^ c) - sizeof_block, h') \<and>
    5024 \<le> 4096 * (2::nat) ^ c \<and> (c = 0 \<or> 4096 * 2 ^ (c - 1) < (5024::nat))"
  using mm_heap_alloc_best_fit [OF sample_heap_inv, of 200000 5000] by (simp del: of_nat_power) blast

text \<open>
  C8: \<open>mm_heap_free\<close> of a block in use returns on a well-formed heap, within the fuel given to the
  recursion of \<open>_coalescing_block\<close>; afterwards exactly that block is no longer in use and the heap is
  well formed, so that every page is again in exactly one block and every free block in its list. Free
  buddies are merged: when no two of them were left before, none are afterwards.
\<close>

theorem mm_heap_free_releases:
  assumes "heap_inv h tm N L {} xs" "(p, c) \<in> used tm"
  shows "\<exists>h' tm' L'. mm_heap_free (pg p + sizeof_block) h = Ret h' \<and> heap_inv h' tm' N L' {} xs \<and> used tm' = used tm - {(p, c)} \<and>
    (mergeable tm = {} \<longrightarrow> mergeable tm' = {})"
  using assms by (rule mm_heap_free_takes)

theorem mm_heap_free_releases_witness:
  "\<exists>p l h' h''. mm_heap_alloc 5000 (sample_heap 200000) = Ret (p, l, h') \<and> mm_heap_free p h' = Ret h'' \<and> heap_owns h'' {}"
proof -
  have "heap_inv (sample_heap 200000) Map.empty 0 (\<lambda>_. []) {} (map sample_frame [0..<200000])" by (rule sample_heap_inv) simp
  moreover have "mergeable Map.empty = {}" by (simp add: mergeable_def)
  ultimately obtain p c h' tm' N' L' ys where
    "mm_heap_alloc 5000 (sample_heap 200000) = Ret (pg p + sizeof_block, 4096 * of_nat (2 ^ c) - sizeof_block, h')"
    "heap_inv h' tm' N' L' {} ys" "used tm' = insert (p, c) (used Map.empty)" "mergeable tm' = {}"
    using mm_heap_alloc_gives [of "sample_heap 200000" Map.empty 0 "\<lambda>_. []" "map sample_frame [0..<200000]" 5000] by fastforce
  moreover from this mm_heap_free_releases [of h' tm' N' L' ys p c] obtain h'' tn K where
    "mm_heap_free (pg p + sizeof_block) h' = Ret h''" "heap_inv h'' tn N' K {} ys" "used tn = {}" "mergeable tn = {}" by (auto simp: used_def)
  moreover from this have "heap_owns h'' {}" by (intro heap_ownsI) auto
  ultimately show ?thesis by blast
qed

end
