(* ===== verification/Kernel_Loops.thy ===== *)
theory Kernel_Loops
  imports Mm
begin

text \<open>
  Counting loops, and reading and writing little-endian values in byte-addressed memory. \<open>count_loop i n\<close>
  is \<open>n\<close> rounds of a loop whose counter starts at \<open>i\<close>: \<open>for (k = a; k < b; k++)\<close> is
  \<open>count_loop (unat a) (unat b - unat a)\<close>, since a counter below a bound never wraps.
\<close>

fun count_loop :: "nat \<Rightarrow> nat \<Rightarrow> (nat \<Rightarrow> 's \<Rightarrow> 's res) \<Rightarrow> 's \<Rightarrow> 's res" where
  "count_loop i 0 body s = Ret s"
| "count_loop i (Suc n) body s = rbind (body i s) (count_loop (Suc i) n body)"

lemma count_loop_inv:
  assumes "count_loop i n body s = Ret s'" "P i s"
    and "\<And>k u u'. i \<le> k \<Longrightarrow> k < i + n \<Longrightarrow> P k u \<Longrightarrow> body k u = Ret u' \<Longrightarrow> P (Suc k) u'"
  shows "P (i + n) s'"
  using assms
proof (induction n arbitrary: i s)
  case (Suc n)
  then obtain u where u: "body i s = Ret u" "count_loop (Suc i) n body u = Ret s'" by auto
  have "P (Suc i) u" using Suc.prems(2,3) u(1) by simp
  then show ?case using Suc.IH [OF u(2)] Suc.prems(3) by simp
qed simp

lemma count_loop_total:
  assumes "P i s" and "\<And>k u. i \<le> k \<Longrightarrow> k < i + n \<Longrightarrow> P k u \<Longrightarrow> \<exists>u'. body k u = Ret u' \<and> P (Suc k) u'"
  shows "\<exists>s'. count_loop i n body s = Ret s' \<and> P (i + n) s'"
  using assms
proof (induction n arbitrary: i s)
  case (Suc n)
  then obtain u where u: "body i s = Ret u" "P (Suc i) u" by fastforce
  then show ?case using Suc.IH [of "Suc i" u] Suc.prems(2) by simp
qed simp

text \<open>
  A loop whose rounds append to a list computes a concatenation, as long as there is room for it.
\<close>

lemma count_loop_collect:
  assumes "\<And>k u. i \<le> k \<Longrightarrow> k < i + n \<Longrightarrow> room (f k) u \<Longrightarrow> body k u = Ret (add (f k) u)"
    and "\<And>u. add [] u = u" "\<And>xs ys u. add ys (add xs u) = add (xs @ ys) u"
    and "\<And>xs ys u. room (xs @ ys) u \<Longrightarrow> room xs u \<and> room ys (add xs u)"
    and "room (concat (map f [i..<i + n])) s"
  shows "count_loop i n body s = Ret (add (concat (map f [i..<i + n])) s)"
  using assms(1,5)
proof (induction n arbitrary: i s)
  case 0
  then show ?case by (simp add: assms(2))
next
  case (Suc n)
  have "[i..<i + Suc n] = i # [Suc i..<Suc i + n]" by (simp add: upt_conv_Cons)
  then have l: "concat (map f [i..<i + Suc n]) = f i @ concat (map f [Suc i..<Suc i + n])" by simp
  then have "room (f i @ concat (map f [Suc i..<Suc i + n])) s" using Suc.prems(2) by simp
  note r = conjunct1 [OF assms(4) [OF this]] conjunct2 [OF assms(4) [OF this]]
  have "count_loop (Suc i) n body (add (f i) s) = Ret (add (concat (map f [Suc i..<Suc i + n])) (add (f i) s))"
    by (rule Suc.IH [OF _ r(2)]) (use Suc.prems(1) in simp)
  moreover have "body i s = Ret (add (f i) s)" using Suc.prems(1) r(1) by simp
  ultimately show ?case unfolding l by (simp add: assms(3))
qed

definition mem_u16 :: "memory \<Rightarrow> u64 \<Rightarrow> u16" where
  "mem_u16 m a = ucast (m a) + 256 * ucast (m (a + 1))"

definition mem_le :: "nat \<Rightarrow> memory \<Rightarrow> u64 \<Rightarrow> u64" where
  "mem_le k m a = le_value (map (\<lambda>i. m (a + of_nat i)) [0..<k])"

abbreviation mem_u32 :: "memory \<Rightarrow> u64 \<Rightarrow> u32" where
  "mem_u32 m a \<equiv> ucast (mem_le 4 m a)"

abbreviation mem_u64 :: "memory \<Rightarrow> u64 \<Rightarrow> u64" where
  "mem_u64 \<equiv> mem_le 8"

definition mem_put_u32 :: "u64 \<Rightarrow> u32 \<Rightarrow> memory \<Rightarrow> memory" where
  "mem_put_u32 a v m = m(a := ucast v, a + 1 := ucast (drop_bit 8 v), a + 2 := ucast (drop_bit 16 v), a + 3 := ucast (drop_bit 24 v))"

end
