(* ===== verification/Mm_Heap_Test.thy ===== *)
theory Mm_Heap_Test
  imports Mm_Heap_Contract Kernel_Loops
begin

text \<open>
  The checks that the built-in tests of \<open>src/src/mm/mm_heap.c\<close> make on the heap: \<open>_heap_validate\<close>,
  \<open>_test_helper_verify_all_list_class\<close> and \<open>_test_helper_verify_all_block_coalesced\<close>. In all states that calls
  of the heap lead to, the classes in the lists are right, and once everything has been released all three
  checks pass, since free buddies are always merged.
\<close>

subsection \<open>The checks\<close>

text \<open>
  \<open>blk\<close> points to blocks, so \<open>blk + size\<close> moves it by \<open>size\<close> times the size of a header. \<open>None\<close> is a loop that
  does not end.
\<close>

partial_function (option) heap_validate_loop :: "u64 \<Rightarrow> heap_state \<Rightarrow> unit res option" where
  "heap_validate_loop blk h =
     (if blk < heap_end h then
        case align_assert blk PAGE_SIZE_4K
          (rbind (block_validate blk h) (\<lambda>_.
           rbind (blk_get blk h) (\<lambda>b.
           rbind (size_of_class (ucast (blk_class b))) (\<lambda>sz.
           align_assert (blk - VA_48_HEAP) sz (Ret (blk + sz * sizeof_block)))))) of
          Inl e \<Rightarrow> Some (Inl e)
        | Inr blk \<Rightarrow> heap_validate_loop blk h
      else Some (Ret ()))"

definition heap_validate :: "heap_state \<Rightarrow> unit res" where
  "heap_validate h = (case heap_validate_loop VA_48_HEAP h of None \<Rightarrow> Stop Diverges | Some r \<Rightarrow> r)"

partial_function (option) verify_class_loop :: "u8 \<Rightarrow> u64 \<Rightarrow> heap_state \<Rightarrow> unit res option" where
  "verify_class_loop cls free h =
     (if free \<noteq> 0 then
        case rbind (blk_get free h) (\<lambda>b. kassert (blk_class b = cls) (Ret (next_free b))) of
          Inl e \<Rightarrow> Some (Inl e)
        | Inr free \<Rightarrow> verify_class_loop cls free h
      else Some (Ret ()))"

definition test_helper_verify_all_list_class :: "heap_state \<Rightarrow> unit res" where
  "test_helper_verify_all_list_class h =
     count_loop 0 (unat BLOCK_MAX_CLASS) (\<lambda>cls _.
       rbind (fl_get (of_nat cls) h) (\<lambda>free.
       case verify_class_loop (of_nat cls) free h of None \<Rightarrow> Stop Diverges | Some r \<Rightarrow> r)) ()"

definition test_helper_verify_all_block_coalesced :: "heap_state \<Rightarrow> unit res" where
  "test_helper_verify_all_block_coalesced h =
     rbind (count_loop 0 (unat (BLOCK_MAX_CLASS - 1)) (\<lambda>cls _. rbind (fl_get (of_nat cls) h) (\<lambda>p. kassert (p = 0) (Ret ()))) ()) (\<lambda>_.
     rbind (fl_get (ucast (BLOCK_MAX_CLASS - 1)) h) (\<lambda>p.
     kassert (p \<noteq> 0)
     (rbind (block_validate p h) (\<lambda>_.
      rbind (blk_get p h) (\<lambda>b. kassert (ucast (blk_class b) = BLOCK_MAX_CLASS - 1) (Ret ()))))))"

subsection \<open>The lists\<close>

lemma count_loop_unit: "(\<And>k. i \<le> k \<Longrightarrow> k < i + n \<Longrightarrow> body k () = Ret ()) \<Longrightarrow> count_loop i n body () = Ret ()"
  by (induction n arbitrary: i) simp_all

lemma verify_class_ends:
  assumes inv: "heap_inv h tm N L {} xs" and c: "c < 16" and ch: "blk_chain (blocks h) p ps" "set ps \<subseteq> {q. tm q = Some (c, True)}"
  shows "verify_class_loop (of_nat c) p h = Some (Ret ())"
  using ch
proof (induction ps arbitrary: p)
  case Nil
  then show ?case by (simp add: verify_class_loop.simps)
next
  case (Cons q ps)
  then have q: "tm q = Some (c, True)" by simp
  have "blk_get (pg q) h = Ret (blocks h (pg q))" "blk_class (blocks h (pg q)) = of_nat c" "pg q \<noteq> 0"
    using blk_access(1) [OF inv heap_inv_lt(1) [OF inv q]] heap_invD(8) [OF inv q] pg_neq_0 [OF heap_inv_lt(3) [OF inv q]]
    by (simp_all add: header_ok_def)
  then show ?case using Cons by (subst verify_class_loop.simps) simp
qed

lemma list_class_passes:
  assumes inv: "heap_inv h tm N L {} xs"
  shows "test_helper_verify_all_list_class h = Ret ()"
  unfolding test_helper_verify_all_list_class_def
proof (rule count_loop_unit)
  fix k :: nat
  assume "k < 0 + unat BLOCK_MAX_CLASS"
  then have k: "k < 16" by (simp add: BLOCK_MAX_CLASS_def)
  have "verify_class_loop (of_nat k) (free_list h ! k) h = Some (Ret ())"
    using heap_invD(10,12) [OF inv k] by (intro verify_class_ends [OF inv k, of _ "L k"]) auto
  then show "rbind (fl_get (of_nat k) h) (\<lambda>free. case verify_class_loop (of_nat k) free h of None \<Rightarrow> Stop Diverges | Some r \<Rightarrow> r) = Ret ()"
    using fl_access(1) [OF heap_invD(6) [OF inv] k] by simp
qed

subsection \<open>A heap in which everything is released\<close>

lemma coalesced_passes:
  assumes inv: "heap_inv h tm N L {} xs" and big: "\<And>p c f. tm p = Some (c, f) \<Longrightarrow> c = 15 \<and> f" and N: "0 < N"
  shows "test_helper_verify_all_block_coalesced h = Ret ()"
proof -
  have low: "count_loop 0 (unat (BLOCK_MAX_CLASS - 1)) (\<lambda>cls _. rbind (fl_get (of_nat cls) h) (\<lambda>p. kassert (p = 0) (Ret ()))) () = Ret ()"
  proof (rule count_loop_unit)
    fix k :: nat
    assume "k < 0 + unat (BLOCK_MAX_CLASS - 1)"
    then have k: "k < 15" by (simp add: BLOCK_MAX_CLASS_def)
    then have "set (L k) = {}" using heap_invD(12) [OF inv, of k] big by auto
    then have "free_list h ! k = 0" using heap_invD(10) [OF inv, of k] k by simp
    then show "rbind (fl_get (of_nat k) h) (\<lambda>p. kassert (p = 0) (Ret ())) = Ret ()"
      using fl_access(1) [OF heap_invD(6) [OF inv], of k] k by simp
  qed
  obtain q c f where "tm q = Some (c, f)" using tiles_cover [OF heap_invD(2) [OF inv] N] by blast
  then have "q \<in> set (L 15)" using big heap_invD(12) [OF inv, of 15] by force
  then obtain p ps where L: "L 15 = p # ps" by (cases "L 15") auto
  then have p: "tm p = Some (15, True)" "free_list h ! 15 = pg p"
    using heap_in_list(1) [OF inv, of 15 p] heap_invD(10) [OF inv, of 15] by auto
  have hd: "header_ok (blocks h (pg p)) 15 True" using heap_invD(8) [OF inv p(1)] by simp
  have "fl_get (ucast (BLOCK_MAX_CLASS - 1)) h = Ret (pg p)"
    using fl_access(1) [OF heap_invD(6) [OF inv], of 15] p(2) by (simp add: BLOCK_MAX_CLASS_def)
  moreover have "blk_get (pg p) h = Ret (blocks h (pg p))" "block_validate (pg p) h = Ret ()" "pg p \<noteq> 0"
    using blk_access(1) [OF inv heap_inv_lt(1) [OF inv p(1)]] validate_block [OF inv p(1)] hd pg_neq_0 [OF heap_inv_lt(3) [OF inv p(1)]]
    by (simp_all add: header_ok_def)
  ultimately show ?thesis using low hd by (simp add: test_helper_verify_all_block_coalesced_def header_ok_def BLOCK_MAX_CLASS_def)
qed

text \<open>One round of \<open>_heap_validate\<close> at the beginning of a block.\<close>

lemma validate_round:
  assumes inv: "heap_inv h tm N L {} xs" and t: "tm p = Some (c, f)"
  shows "heap_validate_loop (pg p) h = heap_validate_loop (pg (p + 24 * 2 ^ c)) h"
proof -
  have c: "c < 16" "p < N" "p \<le> PAGES_MAX" "2 ^ c dvd p" using heap_inv_lt [OF inv t] by auto
  have hd: "header_ok (blocks h (pg p)) c f" using heap_invD(8) [OF inv t] by simp
  have lt: "pg p < heap_end h" using c(2,3) heap_invD(4,5) [OF inv] by (simp add: pg_less)
  have sz: "size_of_class (ucast (blk_class (blocks h (pg p)))) = Ret (4096 * of_nat (2 ^ c))"
    using hd size_of_class_Ret [OF c(1)] cls_word(1) [OF c(1)] by (simp add: header_ok_def)
  have "unat (pg p - VA_48_HEAP) = 4096 * p" using unat_pg [OF c(3)] by (subst unat_u64_sub) (auto simp: unat_VA_48_HEAP)
  then have "unat (4096 * of_nat (2 ^ c) :: u64) dvd unat (pg p - VA_48_HEAP)"
    unfolding unat_class_size [OF c(1)] using c(4) by (metis mult_dvd_mono dvd_refl)
  then have al: "align_assert (pg p - VA_48_HEAP) (4096 * of_nat (2 ^ c)) k = k" for k :: "u64 res"
    using unat_class_size [OF c(1)] by (auto simp: align_assert_def mm_align_check_def u64_dvd_iff)
  have nxt: "pg p + 4096 * of_nat (2 ^ c) * sizeof_block = pg (p + 24 * 2 ^ c)"
    by (simp add: pg_add sizeof_block_def algebra_simps)
  have val: "block_validate (pg p) h = Ret ()" using validate_block [OF inv t] hd by (simp add: header_ok_def)
  show ?thesis
    by (subst heap_validate_loop.simps)
      (simp only: lt if_True align_pg [OF c(3)] val blk_access(1) [OF inv c(2)] rbind_Inr sz al nxt sum.case)
qed

lemma validate_end:
  assumes "heap_inv h tm N L held xs" "N \<le> p" "p \<le> PAGES_MAX + 24 * 2 ^ 15"
  shows "heap_validate_loop (pg p) h = Some (Ret ())"
proof -
  have "unat (pg p) = HEAP_BASE + 4096 * p"
  proof -
    have "unat (4096 * of_nat p :: u64) = 4096 * p" using assms(3) by (subst unat_u64_mult) (auto simp: unat_of_nat)
    then show ?thesis unfolding pg_def using assms(3) by (subst unat_u64_add) (auto simp: unat_VA_48_HEAP)
  qed
  then have "\<not> pg p < heap_end h" using heap_invD(4,5) [OF assms(1)] assms(2) by (simp add: word_less_nat_alt unat_pg)
  then show ?thesis by (simp add: heap_validate_loop.simps)
qed

lemma validate_passes:
  assumes inv: "heap_inv h tm N L {} xs" and big: "\<And>p c f. tm p = Some (c, f) \<Longrightarrow> c = 15 \<and> f"
    and p: "2 ^ 15 dvd p" "p \<le> PAGES_MAX + 24 * 2 ^ 15"
  shows "heap_validate_loop (pg p) h = Some (Ret ())"
  using p
proof (induction "N - p" arbitrary: p rule: less_induct)
  case less
  show ?case
  proof (cases "p < N")
    case False
    then show ?thesis using validate_end [OF inv, of p] less.prems by simp
  next
    case True
    then obtain q c f where q: "tm q = Some (c, f)" "q \<le> p" "p < q + 2 ^ c" by (rule tiles_cover [OF heap_invD(2) [OF inv]])
    then have c: "c = 15" using big by blast
    then have "2 ^ 15 dvd q" using heap_inv_lt(4) [OF inv q(1)] by simp
    then have "q = p" using dvd_interval(1) [of "2 ^ 15" p "2 ^ 15" q p q] less.prems(1) q(2,3) c by simp
    then have "heap_validate_loop (pg p) h = heap_validate_loop (pg (p + 24 * 2 ^ 15)) h" using validate_round [OF inv q(1)] c by simp
    moreover have "2 ^ 15 dvd p + 24 * 2 ^ 15" using less.prems(1) by (simp add: dvd_add)
    ultimately show ?thesis using less.hyps [of "p + 24 * 2 ^ 15"] True heap_invD(4) [OF inv] by simp
  qed
qed

text \<open>
  On a heap that is in use \<open>_heap_validate\<close> is not a check of the blocks: its step of \<open>size\<close> headers leads it
  past blocks and into them. With a block of one page at the beginning it reads page 24 next, and fails if no
  header is there, however sound the heap is.
\<close>

lemma heap_validate_misses:
  assumes inv: "heap_inv h tm N L {} xs" and t: "tm 0 = Some (0, f)" and N: "24 < N" "magic (blocks h (pg 24)) \<noteq> BLOCK_MAGIC"
  shows "heap_validate h = Stop AssertFail"
proof -
  have "pg 24 < heap_end h" using N heap_invD(4,5) [OF inv] by (simp add: pg_less)
  moreover have "block_validate (pg 24) h = Stop AssertFail"
    using blk_access(1) [OF inv N(1)] N(2) by (simp add: block_validate_def align_pg)
  ultimately have "heap_validate_loop (pg 24) h = Some (Stop AssertFail)"
    by (subst heap_validate_loop.simps) (simp add: align_pg)
  moreover have "heap_validate_loop (pg 0) h = heap_validate_loop (pg 24) h" using validate_round [OF inv t] by simp
  ultimately show ?thesis by (simp add: heap_validate_def pg_def)
qed

text \<open>
  C9: the checks of the built-in tests. In every state that allocations and releases lead to, the blocks in
  each free list are of the class of the list. When all areas are released, all of the heap is merged into
  blocks of the largest class: \<open>_heap_validate\<close> passes, and so does the check that everything is coalesced,
  unless nothing was ever allocated.
\<close>

theorem mm_heap_checks_pass:
  assumes "heap_run h A"
  shows "test_helper_verify_all_list_class h = Ret () \<and>
    (A = {} \<longrightarrow> heap_validate h = Ret () \<and> (heap_end h \<noteq> VA_48_HEAP \<longrightarrow> test_helper_verify_all_block_coalesced h = Ret ()))"
proof -
  obtain tm N L xs where inv: "heap_inv h tm N L {} xs" and m: "mergeable tm = {}" and A: "A = user_area ` used tm"
    using heap_run_owns [OF assms] by (auto simp: heap_owns_def)
  have "heap_validate h = Ret () \<and> (heap_end h \<noteq> VA_48_HEAP \<longrightarrow> test_helper_verify_all_block_coalesced h = Ret ())" if "A = {}"
  proof -
    have none: "tm p \<noteq> Some (c, False)" for p c using that A by (auto simp: used_def)
    have big: "c = 15 \<and> f" if "tm p = Some (c, f)" for p c f
      using all_largest [OF heap_invD(2,3) [OF inv] none m that] none [of p c] that by (cases f) auto
    have "heap_validate_loop (pg 0) h = Some (Ret ())" using big by (intro validate_passes [OF inv]) auto
    then have "heap_validate h = Ret ()" by (simp add: heap_validate_def pg_def)
    moreover have "0 < N" if "heap_end h \<noteq> VA_48_HEAP" using that heap_invD(5) [OF inv] by (cases N) (auto simp: pg_def)
    moreover have "test_helper_verify_all_block_coalesced h = Ret ()" if "0 < N"
      using big that by (intro coalesced_passes [OF inv]) blast+
    ultimately show ?thesis by blast
  qed
  then show ?thesis using list_class_passes [OF inv] by blast
qed

theorem mm_heap_checks_pass_witness:
  "\<exists>p l h' h''. mm_heap_alloc 5000 (sample_heap 200000) = Ret (p, l, h') \<and> test_helper_verify_all_list_class h' = Ret () \<and>
     mm_heap_free p h' = Ret h'' \<and> heap_validate h'' = Ret ()"
proof -
  have run: "heap_run (sample_heap 200000) {}" by (rule sample_heap_run) simp
  obtain p l h' where a: "mm_heap_alloc 5000 (sample_heap 200000) = Ret (p, l, h')" "heap_owns h' (insert (p, l) {})"
    using heap.alloc_area [OF heap_run_owns [OF run] sample_heap_room [unfolded One_nat_def], of 5000] by auto
  have run': "heap_run h' (insert (p, l) {})" by (rule heap_run.alloc [OF run sample_heap_room _ _ a(1)]) simp_all
  obtain h'' where f: "mm_heap_free p h' = Ret h''" using heap.free_area [OF a(2), of p l] by auto
  have "heap_run h'' {}" using heap_run.free [OF run' _ f, of l] by simp
  then show ?thesis using a(1) f mm_heap_checks_pass [OF run'] mm_heap_checks_pass [of h'' "{}"] by blast
qed

end
