(* ===== verification/Mm_Allocator.thy ===== *)
theory Mm_Allocator
  imports Mm_Heap_Contract
begin

text \<open>
  \<open>src/src/mm/mm_allocator.c\<close>: region allocators. An allocator owns a list of areas, each a block of
  the heap that begins with an \<open>area_t\<close> and ends with a guard word that points back to the allocator;
  \<open>mm_allocate\<close> cuts aligned pieces off the newest area and \<open>mm_allocator_free\<close> gives all areas back.
  Allocator structures are themselves cut out of heap blocks and recycled through \<open>_free_alls\<close>.

  As in the heap, the structures are typed views by address: \<open>areas\<close>, \<open>alls\<close> and \<open>guards\<close>. The memory
  handed out is not represented.
\<close>

record area =
  area_block :: u64
  block_len :: u64
  use_len :: u64
  prev_area :: u64

record mm_allocator =
  all_list :: u64
  all_next_free :: u64

record all_state =
  heap :: heap_state
  areas :: "u64 \<Rightarrow> area"
  alls :: "u64 \<Rightarrow> mm_allocator"
  guards :: "u64 \<Rightarrow> u64"
  free_alls :: u64

definition sizeof_area :: u64 where "sizeof_area = 32"
definition sizeof_allocator :: u64 where "sizeof_allocator = 16"
definition sizeof_ptr :: u64 where "sizeof_ptr = 8"

definition mm_allocator_bootstrap :: "all_state \<Rightarrow> all_state" where
  "mm_allocator_bootstrap st = st\<lparr>free_alls := 0\<rparr>"

definition area_free_len :: "area \<Rightarrow> u64" where
  "area_free_len a = block_len a - use_len a"

definition area_free_start :: "area \<Rightarrow> u64 res" where
  "area_free_start a = kassert (area_free_len a > 0) (Ret (area_block a + use_len a))"

definition area_block_end :: "area \<Rightarrow> u64" where
  "area_block_end a = area_block a + block_len a"

definition allocator_init :: "u64 \<Rightarrow> all_state \<Rightarrow> all_state" where
  "allocator_init all st = st\<lparr>alls := (alls st)(all := (alls st all)\<lparr>all_list := 0\<rparr>)\<rparr>"

text \<open>
  The loop of \<open>mm_allocator_new\<close>. \<open>all += sizeof(mm_allocator_t)\<close> is arithmetic on a pointer to
  \<open>mm_allocator_t\<close> and moves by the square of that size. The loop leaves when the next structure
  would pass the end of the block, computed on wrapping words; \<open>None\<close> is \<open>does not return\<close>.
\<close>

partial_function (option) new_loop :: "u64 \<Rightarrow> u64 \<Rightarrow> u64 \<Rightarrow> all_state \<Rightarrow> all_state res option" where
  "new_loop blk blk_len all st =
     (if (all + sizeof_allocator) - blk \<le> blk_len then
        let st = st\<lparr>alls := (alls st)(all := (alls st all)\<lparr>all_next_free := free_alls st\<rparr>), free_alls := all\<rparr>;
            all = all + sizeof_allocator * sizeof_allocator in
        case mm_align_up all sizeof_ptr of
          Inl e \<Rightarrow> Some (Inl e)
        | Inr all \<Rightarrow> new_loop blk blk_len all st
      else Some (Ret st))"

definition mm_allocator_new :: "all_state \<Rightarrow> (u64 \<times> all_state) res" where
  "mm_allocator_new st =
     (let all = free_alls st in
      rbind (if all = 0 then
               rbind (mm_heap_alloc_minimum (heap st)) (\<lambda>(blk, blk_len, h).
               let st = st\<lparr>heap := h\<rparr> in
               rbind (mm_align_up blk sizeof_ptr) (\<lambda>all.
               kassert ((all + sizeof_allocator) - blk \<le> blk_len)
                 (case new_loop blk blk_len all st of
                    None \<Rightarrow> Stop Diverges
                  | Some r \<Rightarrow> rbind r (\<lambda>st. Ret (free_alls st, st)))))
             else Ret (all, st)) (\<lambda>(all, st).
      kassert (all \<noteq> 0)
        (let st = st\<lparr>free_alls := all_next_free (alls st all),
                    alls := (alls st)(all := (alls st all)\<lparr>all_next_free := 0\<rparr>)\<rparr> in
         Ret (all, allocator_init all st))))"

definition allocator_new_area :: "u64 \<Rightarrow> u64 \<Rightarrow> all_state \<Rightarrow> (u64 \<times> all_state) res" where
  "allocator_new_area all block_min st =
     (let need_size = block_min + sizeof_area + sizeof_ptr in
      rbind (mm_heap_alloc need_size (heap st)) (\<lambda>(area, block_size, h).
      let block = area + sizeof_area;
          guard = area + block_size - sizeof_ptr in
      align_assert guard sizeof_ptr
        (let len = guard - block in
         kassert (len \<ge> block_min)
           (let st = st\<lparr>heap := h, guards := (guards st)(guard := all),
                  areas := (areas st)(area := \<lparr>area_block = block, block_len = len, use_len = 0,
                                               prev_area = all_list (alls st all)\<rparr>),
                  alls := (alls st)(all := (alls st all)\<lparr>all_list := area\<rparr>)\<rparr> in
            Ret (area, st)))))"

text \<open>The remainder by \<open>align\<close> is a division fault for 0.\<close>

definition slop_of :: "u64 \<Rightarrow> u64 \<Rightarrow> u64 res" where
  "slop_of ret align =
     (if align = 0 then Stop DivByZero
      else let slop = ret mod align in Ret (if slop > 0 then align - slop else slop))"

definition mm_allocate :: "u64 \<Rightarrow> u64 \<Rightarrow> u64 \<Rightarrow> all_state \<Rightarrow> (u64 \<times> all_state) res" where
  "mm_allocate all sz align st =
     (let area = all_list (alls st all) in
      rbind (if area = 0 then
               rbind (allocator_new_area all (sz + align) st) (\<lambda>(area, st).
               kassert (all_list (alls st all) = area) (Ret (area, st)))
             else Ret (area, st)) (\<lambda>(area, st).
      rbind (area_free_start (areas st area)) (\<lambda>ret.
      rbind (slop_of ret align) (\<lambda>slop.
      rbind (if area_free_len (areas st area) < sz + slop then
               rbind (allocator_new_area all (sz + align) st) (\<lambda>(area, st).
               kassert (all_list (alls st all) = area)
                 (kassert (area_free_len (areas st area) \<ge> sz + align) (Ret (area, st))))
             else Ret (area, st)) (\<lambda>(area, st).
      rbind (area_free_start (areas st area)) (\<lambda>ret.
      rbind (slop_of ret align) (\<lambda>slop.
      let need = sz + slop in
      kassert (area_free_len (areas st area) \<ge> need)
        (let ret = ret + slop;
             a = (areas st area)\<lparr>use_len := use_len (areas st area) + need\<rparr>;
             st = st\<lparr>areas := (areas st)(area := a)\<rparr> in
         kassert (use_len a < block_len a)
           (align_assert ret align (Ret (ret, st)))))))))))"

partial_function (option) free_loop :: "u64 \<Rightarrow> u64 \<Rightarrow> all_state \<Rightarrow> all_state res option" where
  "free_loop all a st =
     (if a \<noteq> 0 then
        let guard = area_block_end (areas st a) in
        case align_assert guard sizeof_ptr (kassert (guards st guard = all) (mm_heap_free a (heap st))) of
          Inl e \<Rightarrow> Some (Inl e)
        | Inr h \<Rightarrow> free_loop all (prev_area (areas st a)) (st\<lparr>heap := h\<rparr>)
      else Some (Ret st))"

definition mm_allocator_free :: "u64 \<Rightarrow> all_state \<Rightarrow> all_state res" where
  "mm_allocator_free all st =
     (case free_loop all (all_list (alls st all)) st of
        None \<Rightarrow> Stop Diverges
      | Some r \<Rightarrow> rbind r (\<lambda>st.
          Ret (st\<lparr>alls := (alls st)(all := \<lparr>all_list = 0, all_next_free = free_alls st\<rparr>), free_alls := all\<rparr>)))"

declare new_loop.simps [code, simp del] free_loop.simps [code, simp del]

subsection \<open>The invariant of the allocators\<close>

text \<open>
  Lists of areas and of free allocator structures, as in the heap. An area is given as the address and
  length of its heap block.
\<close>

fun area_chain :: "(u64 \<Rightarrow> area) \<Rightarrow> u64 \<Rightarrow> (u64 \<times> u64) list \<Rightarrow> bool" where
  "area_chain ar p [] \<longleftrightarrow> p = 0"
| "area_chain ar p ((a, l) # as) \<longleftrightarrow> p = a \<and> area_chain ar (prev_area (ar a)) as"

fun all_chain :: "(u64 \<Rightarrow> mm_allocator) \<Rightarrow> u64 \<Rightarrow> u64 list \<Rightarrow> bool" where
  "all_chain al p [] \<longleftrightarrow> p = 0"
| "all_chain al p (x # xs) \<longleftrightarrow> p = x \<and> all_chain al (all_next_free (al x)) xs"

definition area_ok :: "all_state \<Rightarrow> u64 \<Rightarrow> u64 \<times> u64 \<Rightarrow> bool" where
  "area_ok st all = (\<lambda>(a, l).
     area_block (areas st a) = a + 32 \<and> unat (block_len (areas st a)) + 40 = unat l \<and>
     use_len (areas st a) < block_len (areas st a) \<and> guards st (a + l - 8) = all)"

text \<open>A piece handed out lies in the used part of one of the areas; two pieces share no byte.\<close>

definition in_area :: "area \<Rightarrow> u64 \<times> u64 \<Rightarrow> bool" where
  "in_area a = (\<lambda>(p, n). unat (area_block a) \<le> unat p \<and> unat p + unat n \<le> unat (area_block a) + unat (use_len a))"

definition disjoint_pieces :: "u64 \<times> u64 \<Rightarrow> u64 \<times> u64 \<Rightarrow> bool" where
  "disjoint_pieces = (\<lambda>(p, n) (q, m). unat p + unat n \<le> unat q \<or> unat q + unat m \<le> unat p)"

definition owner_ok :: "all_state \<Rightarrow> u64 \<Rightarrow> (u64 \<times> u64) list \<Rightarrow> (u64 \<times> u64) list \<Rightarrow> bool" where
  "owner_ok st all as ps \<longleftrightarrow>
     area_chain (areas st) (all_list (alls st all)) as \<and> distinct as \<and> (\<forall>b \<in> set as. area_ok st all b) \<and>
     (\<forall>p \<in> set ps. \<exists>b \<in> set as. in_area (areas st (fst b)) p) \<and> sorted_wrt disjoint_pieces ps"

definition in_slab :: "u64 \<Rightarrow> u64 \<times> u64 \<Rightarrow> bool" where
  "in_slab x = (\<lambda>(q, m). unat q \<le> unat x \<and> unat x + 16 \<le> unat q + unat m)"

text \<open>
  \<open>A\<close> are the areas the heap has handed out, \<open>U\<close> the allocators in use with their areas and pieces, \<open>F\<close>
  the free allocator structures and \<open>S\<close> the heap blocks the structures lie in.
\<close>

definition all_inv ::
  "all_state \<Rightarrow> (u64 \<times> u64) set \<Rightarrow> (u64 \<rightharpoonup> (u64 \<times> u64) list \<times> (u64 \<times> u64) list) \<Rightarrow> u64 list \<Rightarrow> (u64 \<times> u64) set \<Rightarrow> bool" where
  "all_inv st A U F S \<longleftrightarrow>
     heap_owns (heap st) A \<and> S \<subseteq> A \<and>
     (\<forall>all as ps. U all = Some (as, ps) \<longrightarrow> owner_ok st all as ps \<and> set as \<subseteq> A - S) \<and>
     (\<forall>all all' as as' ps ps'. U all = Some (as, ps) \<longrightarrow> U all' = Some (as', ps') \<longrightarrow> all \<noteq> all' \<longrightarrow> set as \<inter> set as' = {}) \<and>
     all_chain (alls st) (free_alls st) F \<and> distinct F \<and> set F \<inter> dom U = {} \<and>
     (\<forall>x \<in> set F \<union> dom U. x \<noteq> 0 \<and> (\<exists>b \<in> S. in_slab x b)) \<and>
     (\<forall>x \<in> set F \<union> dom U. \<forall>y \<in> set F \<union> dom U. x \<noteq> y \<longrightarrow> disjoint_pieces (x, 16) (y, 16))"

lemma all_invD:
  assumes "all_inv st A U F S"
  shows "heap_owns (heap st) A" "S \<subseteq> A" "\<And>all as ps. U all = Some (as, ps) \<Longrightarrow> owner_ok st all as ps"
    "\<And>all as ps. U all = Some (as, ps) \<Longrightarrow> set as \<subseteq> A - S"
    "\<And>all all' as as' ps ps'. U all = Some (as, ps) \<Longrightarrow> U all' = Some (as', ps') \<Longrightarrow> all \<noteq> all' \<Longrightarrow> set as \<inter> set as' = {}"
    "all_chain (alls st) (free_alls st) F" "distinct F" "set F \<inter> dom U = {}"
    "\<And>x. x \<in> set F \<union> dom U \<Longrightarrow> x \<noteq> 0 \<and> (\<exists>b \<in> S. in_slab x b)"
    "\<And>x y. x \<in> set F \<union> dom U \<Longrightarrow> y \<in> set F \<union> dom U \<Longrightarrow> x \<noteq> y \<Longrightarrow> disjoint_pieces (x, 16) (y, 16)"
proof -
  note * = assms [unfolded all_inv_def]
  show "heap_owns (heap st) A" "S \<subseteq> A" "all_chain (alls st) (free_alls st) F" "distinct F" "set F \<inter> dom U = {}"
    using * by simp_all
  show "U all = Some (as, ps) \<Longrightarrow> owner_ok st all as ps" "U all = Some (as, ps) \<Longrightarrow> set as \<subseteq> A - S" for all as ps
    using * by simp_all
  show "U all = Some (as, ps) \<Longrightarrow> U all' = Some (as', ps') \<Longrightarrow> all \<noteq> all' \<Longrightarrow> set as \<inter> set as' = {}" for all all' as as' ps ps'
    using * [THEN conjunct2, THEN conjunct2, THEN conjunct2, THEN conjunct1] by metis
  show "x \<in> set F \<union> dom U \<Longrightarrow> x \<noteq> 0 \<and> (\<exists>b \<in> S. in_slab x b)" for x
    using * by (elim conjE) (rule bspec)
  show "x \<in> set F \<union> dom U \<Longrightarrow> y \<in> set F \<union> dom U \<Longrightarrow> x \<noteq> y \<Longrightarrow> disjoint_pieces (x, 16) (y, 16)" for x y
    using * by (elim conjE) (drule (1) bspec, simp)
qed

lemma area_chain_cong: "(\<And>b. b \<in> set as \<Longrightarrow> prev_area (ar' (fst b)) = prev_area (ar (fst b))) \<Longrightarrow> area_chain ar' p as = area_chain ar p as"
proof (induction as arbitrary: p)
  case (Cons b as)
  then show ?case by (cases b) fastforce
qed simp

lemma all_chain_cong: "(\<And>x. x \<in> set xs \<Longrightarrow> all_next_free (al' x) = all_next_free (al x)) \<Longrightarrow> all_chain al' p xs = all_chain al p xs"
  by (induction xs arbitrary: p) auto

lemma area_ok_cong:
  "areas st' (fst b) = areas st (fst b) \<Longrightarrow> guards st' (fst b + snd b - 8) = guards st (fst b + snd b - 8) \<Longrightarrow>
   area_ok st' all b = area_ok st all b"
  by (cases b) (simp add: area_ok_def)

lemma owner_ok_cong:
  assumes "\<And>b. b \<in> set as \<Longrightarrow> areas st' (fst b) = areas st (fst b)" "\<And>a l. (a, l) \<in> set as \<Longrightarrow> guards st' (a + l - 8) = guards st (a + l - 8)"
    and "all_list (alls st' all) = all_list (alls st all)"
  shows "owner_ok st' all as ps = owner_ok st all as ps"
proof -
  have "area_chain (areas st') p as = area_chain (areas st) p as" for p using assms(1) by (intro area_chain_cong) simp
  moreover have "area_ok st' all b = area_ok st all b" if "b \<in> set as" for b
    using assms(1,2) that by (intro area_ok_cong) auto
  ultimately show ?thesis using assms(1,3) unfolding owner_ok_def by (metis (no_types, lifting))
qed

text \<open>The addresses of the structures of an area are where the arithmetic of the code puts them.\<close>

lemma area_arith:
  assumes own: "heap_owns h A" "(a, l) \<in> A" and l: "40 \<le> unat l"
  shows "unat (a + 32) = unat a + 32" "unat (a + l - 8) = unat a + unat l - 8" "a \<noteq> 0"
    "a + l - 8 - (a + 32) = l - 40" "unat (l - 40) = unat l - 40" "(a + l - 8) mod 8 = 0"
proof -
  note b = heap.owned_bounds [OF own]
  show "a \<noteq> 0" "unat (a + 32) = unat a + 32" using b l by (auto simp: unat_u64_add)
  have al: "unat (a + l) = unat a + unat l" using b by (subst unat_u64_add) auto
  then show g: "unat (a + l - 8) = unat a + unat l - 8" using l by (subst unat_u64_sub) auto
  show "a + l - 8 - (a + 32) = l - 40" by simp
  show "unat (l - 40) = unat l - 40" using l by (subst unat_u64_sub) auto
  have "8 dvd unat a" "8 dvd unat l" using b by (auto simp: u64_eq_iff_unat unat_mod)
  then have "8 dvd unat (a + l - 8)" unfolding g by (intro dvd_diff_nat dvd_add) auto
  then show "(a + l - 8) mod 8 = 0" by (auto simp: u64_eq_iff_unat unat_mod)
qed

lemma guard_neq:
  assumes "heap_owns h A" "(a, l) \<in> A" "(b, m) \<in> A" "(a, l) \<noteq> (b, m)" "40 \<le> unat l" "40 \<le> unat m"
  shows "a + l - 8 \<noteq> b + m - 8" "a \<noteq> b"
proof -
  have "apart (a, l) (b, m)" using heap.owned_apart assms by blast
  then show "a + l - 8 \<noteq> b + m - 8" "a \<noteq> b"
    using area_arith(2) [OF assms(1,2,5)] area_arith(2) [OF assms(1,3,6)] assms(5,6) by (auto simp: apart_def u64_eq_iff_unat)
qed

subsection \<open>A new area\<close>

lemma unat_lt_of: "unat len \<le> 134217664 \<Longrightarrow> unat (len + sizeof_area + sizeof_ptr) = unat len + 40"
  by (simp add: sizeof_area_def sizeof_ptr_def) (subst unat_u64_add, auto)

lemma new_area_runs:
  assumes own: "heap_owns (heap st) A" "heap_room (Suc n) (heap st)" and len: "unat bm \<le> 134217664" "0 < bm"
  shows "\<exists>a l h. heap_owns h (insert (a, l) A) \<and> (a, l) \<notin> A \<and> unat bm + 40 \<le> unat l \<and> heap_room n h \<and>
    allocator_new_area all bm st = Ret (a, st\<lparr>heap := h, guards := (guards st)(a + l - 8 := all),
      areas := (areas st)(a := \<lparr>area_block = a + 32, block_len = l - 40, use_len = 0, prev_area = all_list (alls st all)\<rparr>),
      alls := (alls st)(all := (alls st all)\<lparr>all_list := a\<rparr>)\<rparr>)"
proof -
  have nb: "unat (bm + sizeof_area + sizeof_ptr) = unat bm + 40" using unat_lt_of [OF len(1)] .
  then have "0 < bm + sizeof_area + sizeof_ptr" "unat (bm + sizeof_area + sizeof_ptr) \<le> 134217704"
    using len by (auto simp: word_less_nat_alt)
  from heap.alloc_area [OF own this] obtain a l h where
    r: "mm_heap_alloc (bm + sizeof_area + sizeof_ptr) (heap st) = Ret (a, l, h)" "heap_owns h (insert (a, l) A)" "(a, l) \<notin> A"
      "bm + sizeof_area + sizeof_ptr \<le> l" "heap_room n h" by blast
  then have l: "unat bm + 40 \<le> unat l" using nb by (simp add: word_le_nat_alt)
  then have l40: "40 \<le> unat l" by simp
  have in': "(a, l) \<in> insert (a, l) A" by simp
  note ar = area_arith [OF r(2) in' l40]
  have ok: "bm \<le> l - 40" using l ar(5) by (simp add: word_le_nat_alt)
  have al: "align_assert (a + l - 8) 8 k = k" for k :: "'z res" using ar(6) by (simp add: align_assert_def mm_align_check_def)
  have "allocator_new_area all bm st = Ret (a, st\<lparr>heap := h, guards := (guards st)(a + l - 8 := all),
      areas := (areas st)(a := \<lparr>area_block = a + 32, block_len = l - 40, use_len = 0, prev_area = all_list (alls st all)\<rparr>),
      alls := (alls st)(all := (alls st all)\<lparr>all_list := a\<rparr>)\<rparr>)"
    unfolding allocator_new_area_def Let_def r(1) rbind_Inr split unfolding sizeof_area_def sizeof_ptr_def al ar(4)
    using ok by simp
  with r(2,3,5) l show ?thesis by blast
qed

lemma new_area_keeps:
  assumes inv: "all_inv st A U F S" and U: "U all = Some (as, ps)" and own: "heap_owns h (insert (a, l) A)" "(a, l) \<notin> A"
    and l: "40 < unat l"
  defines "st' \<equiv> st\<lparr>heap := h, guards := (guards st)(a + l - 8 := all),
      areas := (areas st)(a := \<lparr>area_block = a + 32, block_len = l - 40, use_len = 0, prev_area = all_list (alls st all)\<rparr>),
      alls := (alls st)(all := (alls st all)\<lparr>all_list := a\<rparr>)\<rparr>"
  shows "all_inv st' (insert (a, l) A) (U(all \<mapsto> ((a, l) # as, ps))) F S"
proof -
  have l40: "40 \<le> unat l" using l by simp
  have in': "(a, l) \<in> insert (a, l) A" by simp
  note ar = area_arith [OF own(1) in' l40]
  have old40: "40 \<le> unat m" if "U x = Some (bs, qs)" "(b, m) \<in> set bs" for x bs qs b m
    using all_invD(3) [OF inv that(1)] that(2) by (auto simp: owner_ok_def area_ok_def)
  have miss: "b \<noteq> a" "b + m - 8 \<noteq> a + l - 8" if "U x = Some (bs, qs)" "(b, m) \<in> set bs" for x bs qs b m
  proof -
    have bA: "(b, m) \<in> A" using all_invD(4) [OF inv that(1)] that(2) by auto
    then have "(b, m) \<in> insert (a, l) A" "(b, m) \<noteq> (a, l)" using own(2) by auto
    from guard_neq [OF own(1) this(1) in' this(2) old40 [OF that] l40] show "b \<noteq> a" "b + m - 8 \<noteq> a + l - 8" by auto
  qed
  have same_area: "areas st' (fst b) = areas st (fst b)" if "U x = Some (bs, qs)" "b \<in> set bs" for x bs qs b
    using miss(1) [OF that(1), of "fst b" "snd b"] that(2) by (simp add: st'_def)
  have other: "owner_ok st' x bs qs" if "U x = Some (bs, qs)" "x \<noteq> all" for x bs qs
    using same_area [OF that(1)] miss(2) [OF that(1)] all_invD(3) [OF inv that(1)] that(2)
    by (subst owner_ok_cong [where st = st]) (simp_all add: st'_def)
  have o: "area_chain (areas st) (all_list (alls st all)) as" "distinct as" "\<forall>b \<in> set as. area_ok st all b"
    "\<forall>p \<in> set ps. \<exists>b \<in> set as. in_area (areas st (fst b)) p" "sorted_wrt disjoint_pieces ps"
    using all_invD(3) [OF inv U] by (auto simp: owner_ok_def)
  note same = same_area [OF U]
  have "area_chain (areas st') (all_list (alls st all)) as"
    using o(1) area_chain_cong [of as "areas st'" "areas st"] same by simp
  moreover have "area_ok st' all b" if "b \<in> set as" for b
    using o(3) miss(2) [OF U, of "fst b" "snd b"] that by (subst area_ok_cong [OF same]) (auto simp: st'_def)
  moreover have "area_ok st' all (a, l)" using ar(5) l by (simp add: area_ok_def st'_def word_less_nat_alt)
  moreover have "(a, l) \<notin> set as" using all_invD(4) [OF inv U] own(2) by auto
  moreover have "\<forall>p \<in> set ps. \<exists>b \<in> set as. in_area (areas st' (fst b)) p" using o(4) same by auto
  ultimately have new: "owner_ok st' all ((a, l) # as) ps" using o(2,5) by (auto simp: owner_ok_def st'_def)
  have chain: "all_chain (alls st') (free_alls st') F"
    using all_invD(6) [OF inv] by (subst all_chain_cong [of F _ "alls st"]) (auto simp: st'_def)
  have dom: "dom (U(all \<mapsto> ((a, l) # as, ps))) = dom U" using U by auto
  have aS: "(a, l) \<notin> S" using all_invD(2) [OF inv] own(2) by auto
  show ?thesis
    unfolding all_inv_def dom
  proof (intro conjI allI impI, goal_cases)
    case (3 x bs qs)
    then show ?case using new other by (cases "x = all") auto
  next
    case (4 x bs qs)
    then show ?case using all_invD(4) [OF inv, of x bs qs] all_invD(4) [OF inv U] aS by (cases "x = all") auto
  next
    case (5 x y bs cs qs rs)
    have "(a, l) \<notin> set bs" if "U x = Some (bs, qs)" for x bs qs using all_invD(4) [OF inv that] own(2) by auto
    then show ?case using 5 all_invD(5) [OF inv] U by (auto split: if_splits) (metis IntI empty_iff)+
  qed (use own(1) all_invD(2,7-10) [OF inv] chain in \<open>auto simp: st'_def\<close>)
qed

subsection \<open>Cutting a piece off\<close>

lemma slop_aligned:
  assumes "0 < align" "unat ret + unat align < 18446744073709551616"
  shows "\<exists>slop. slop_of ret align = Ret slop \<and> unat slop < unat align \<and> (ret + slop) mod align = 0"
proof -
  have al: "align \<noteq> 0" "0 < unat align" using assms(1) by (auto simp: word_less_nat_alt)
  let ?r = "ret mod align"
  have r: "unat ?r = unat ret mod unat align" by (simp add: unat_mod)
  have lt: "unat ?r < unat align" using r al by simp
  show ?thesis
  proof (cases "?r = 0")
    case True
    then show ?thesis using al by (simp add: slop_of_def)
  next
    case False
    then have pos: "0 < unat ?r" by (simp add: u64_eq_iff_unat)
    have sl: "unat (align - ?r) = unat align - unat ?r" using lt by (intro unat_u64_sub) simp
    have "unat (ret + (align - ?r)) = unat ret + (unat align - unat ?r)" using assms(2) sl by (subst unat_u64_add) auto
    also have "\<dots> = unat ret - unat ret mod unat align + unat align" using r lt by simp
    finally have "unat align dvd unat (ret + (align - ?r))" by (simp add: minus_mod_eq_mult_div)
    then have "(ret + (align - ?r)) mod align = 0" by (simp add: u64_eq_iff_unat unat_mod)
    moreover have "0 < ?r" using pos by (simp add: word_less_nat_alt)
    ultimately show ?thesis using al sl pos lt by (simp add: slop_of_def Let_def)
  qed
qed

lemma cut_keeps:
  assumes inv: "all_inv st A U F S" and U: "U all = Some ((a, l) # as, ps)"
    and need: "unat (use_len (areas st a)) + unat slop + unat sz < unat (block_len (areas st a))"
  defines "r \<equiv> areas st a"
  defines "ret \<equiv> area_block r + use_len r + slop"
  defines "st' \<equiv> st\<lparr>areas := (areas st)(a := r\<lparr>use_len := use_len r + (sz + slop)\<rparr>)\<rparr>"
  shows "all_inv st' A (U(all \<mapsto> ((a, l) # as, (ret, sz) # ps))) F S"
proof -
  have own: "owner_ok st all ((a, l) # as) ps" using all_invD(3) [OF inv U] .
  then have ok: "area_block r = a + 32" "unat (block_len r) + 40 = unat l" "guards st (a + l - 8) = all"
    by (auto simp: owner_ok_def area_ok_def r_def)
  have aA: "(a, l) \<in> A" using all_invD(4) [OF inv U] by auto
  have b: "unat a + unat l < 2 ^ 64" using heap.owned_bounds [OF all_invD(1) [OF inv] aA] by simp
  have blk: "unat (area_block r) = unat a + 32" using ok b by (auto simp: unat_u64_add)
  have len: "unat (use_len r) + unat slop + unat sz < unat (block_len r)" using need by (simp add: r_def)
  have "unat (block_len r) < 2 ^ 64" using unat_u64_bound [of "block_len r"] by simp
  then have ul: "unat (use_len r + (sz + slop)) = unat (use_len r) + unat slop + unat sz"
    using len by (subst unat_u64_add; subst unat_u64_add) auto
  have ret: "unat ret = unat (area_block r) + unat (use_len r) + unat slop"
    unfolding ret_def using blk len ok(2) b by (subst unat_u64_add; subst unat_u64_add) auto
  have uniq: "fst c \<noteq> a" if "U x = Some (bs, qs)" "c \<in> set bs" "c \<noteq> (a, l)" for x bs qs c
  proof -
    have "40 \<le> unat (snd c)" using all_invD(3) [OF inv that(1)] that(2) by (auto simp: owner_ok_def area_ok_def)
    moreover have "(fst c, snd c) \<in> A" using all_invD(4) [OF inv that(1)] that(2) by auto
    ultimately show ?thesis using guard_neq(2) [OF all_invD(1) [OF inv] _ aA, of "fst c" "snd c"] that(3) ok(2) by auto
  qed
  have other: "owner_ok st' x bs qs" if "U x = Some (bs, qs)" "x \<noteq> all" for x bs qs
  proof -
    have "(a, l) \<notin> set bs" using all_invD(5) [OF inv that(1) U that(2)] by auto
    then have "areas st' (fst c) = areas st (fst c)" if "c \<in> set bs" for c
      using uniq [OF \<open>U x = Some (bs, qs)\<close> that] that by (cases "c = (a, l)") (simp_all add: st'_def)
    then show ?thesis using all_invD(3) [OF inv that(1)] by (subst owner_ok_cong [where st = st]) (auto simp: st'_def)
  qed
  have same: "areas st' (fst c) = (if c = (a, l) then r\<lparr>use_len := use_len r + (sz + slop)\<rparr> else areas st (fst c))" if "c \<in> set ((a, l) # as)" for c
    using uniq [OF U that] by (auto simp: st'_def)
  have o: "area_chain (areas st) (all_list (alls st all)) ((a, l) # as)" "distinct ((a, l) # as)" "\<forall>c \<in> set ((a, l) # as). area_ok st all c"
    "\<forall>p \<in> set ps. \<exists>c \<in> set ((a, l) # as). in_area (areas st (fst c)) p" "sorted_wrt disjoint_pieces ps"
    using own unfolding owner_ok_def by blast+
  have "area_chain (areas st') (all_list (alls st all)) ((a, l) # as)"
    using o(1) same by (subst area_chain_cong [of _ _ "areas st"]) (auto simp: r_def)
  moreover have "area_ok st' all c" if "c \<in> set ((a, l) # as)" for c
  proof (cases "c = (a, l)")
    case True
    then show ?thesis using ok ul len by (simp add: area_ok_def st'_def word_less_nat_alt)
  next
    case False
    then have "area_ok st' all c = area_ok st all c" using same [OF that] by (intro area_ok_cong) (simp_all add: st'_def)
    then show ?thesis using o(3) that by blast
  qed
  moreover have "\<exists>c \<in> set ((a, l) # as). in_area (areas st' (fst c)) p" if p: "p \<in> set ((ret, sz) # ps)" for p
  proof -
    have grow: "in_area (areas st' (fst c)) p" if "c \<in> set ((a, l) # as)" "in_area (areas st (fst c)) p" for c
      using same [OF that(1)] that(2) ul by (auto simp: in_area_def r_def)
    have "in_area (areas st' a) (ret, sz)" using same [of "(a, l)"] ret ul by (simp add: in_area_def)
    then show ?thesis using p o(4) grow by (cases "p = (ret, sz)") (simp, metis set_ConsD)
  qed
  moreover have "disjoint_pieces (ret, sz) p" if p: "p \<in> set ps" for p
  proof -
    obtain c where c: "c \<in> set ((a, l) # as)" "in_area (areas st (fst c)) p" using o(4) p by blast
    show ?thesis
    proof (cases "c = (a, l)")
      case True
      then show ?thesis using c(2) ret by (auto simp: in_area_def disjoint_pieces_def r_def split: prod.splits)
    next
      case False
      have cA: "c \<in> A" using all_invD(4) [OF inv U] c(1) by auto
      have ap: "apart (a, l) c" using heap.owned_apart [OF all_invD(1) [OF inv] aA cA] False by auto
      have ok': "area_ok st all c" using o(3) c(1) by blast
      then have "40 \<le> unat (snd c)" by (auto simp: area_ok_def)
      then have "unat (area_block (areas st (fst c))) = unat (fst c) + 32"
        using ok' area_arith(1) [OF all_invD(1) [OF inv], of "fst c" "snd c"] cA by (auto simp: area_ok_def)
      then have "unat (fst c) + 32 \<le> unat (fst p)" "unat (fst p) + unat (snd p) + 8 \<le> unat (fst c) + unat (snd c)"
        using c(2) ok' by (auto simp: in_area_def area_ok_def word_less_nat_alt)
      then show ?thesis using ap ret blk len ok(2) by (auto simp: disjoint_pieces_def apart_def split: prod.splits)
    qed
  qed
  ultimately have new: "owner_ok st' all ((a, l) # as) ((ret, sz) # ps)"
    using o(2,5) unfolding owner_ok_def by (auto simp: st'_def)
  have dom: "dom (U(all \<mapsto> ((a, l) # as, (ret, sz) # ps))) = dom U" using U by auto
  show ?thesis
    unfolding all_inv_def dom
  proof (intro conjI allI impI, goal_cases)
    case (3 x bs qs)
    then show ?case using new other by (cases "x = all") auto
  next
    case (4 x bs qs)
    then show ?case using all_invD(4) [OF inv] U by (cases "x = all") auto
  next
    case (5 x y bs cs qs rs)
    have "\<exists>qs. U x = Some (bs, qs)" "\<exists>rs. U y = Some (cs, rs)" using 5(1,2) U by (auto split: if_splits)
    then show ?case using all_invD(5) [OF inv] 5(3) by blast
  qed (use all_invD(1,2,6-10) [OF inv] in \<open>auto simp: st'_def\<close>)
qed

subsection \<open>Allocating a piece\<close>

text \<open>The request fills the newest area to the last byte.\<close>

definition exact_fit :: "u64 \<Rightarrow> u64 \<Rightarrow> u64 \<Rightarrow> all_state \<Rightarrow> bool" where
  "exact_fit all sz align st \<longleftrightarrow>
     (let a = all_list (alls st all); r = areas st a in
      a \<noteq> 0 \<and> (\<exists>slop. slop_of (area_block r + use_len r) align = Ret slop \<and> sz + slop = area_free_len r))"

lemma area_free:
  assumes inv: "all_inv st A U F S" and U: "U all = Some ((a, l) # as, ps)"
  defines "r \<equiv> areas st a"
  shows "area_free_start r = Ret (area_block r + use_len r)" "unat (area_free_len r) = unat (block_len r) - unat (use_len r)"
    "unat (area_block r + use_len r) = unat a + 32 + unat (use_len r)" "unat (block_len r) + 40 = unat l" "use_len r < block_len r"
    "unat a + unat l + 134217704 < 18446744073709551616"
    "all_list (alls st all) = a" "a \<noteq> 0"
proof -
  have own: "owner_ok st all ((a, l) # as) ps" using all_invD(3) [OF inv U] .
  then show ok: "all_list (alls st all) = a" "unat (block_len r) + 40 = unat l" "use_len r < block_len r"
    by (auto simp: owner_ok_def area_ok_def r_def)
  have blk: "area_block r = a + 32" using own by (auto simp: owner_ok_def area_ok_def r_def)
  have "(a, l) \<in> A" using all_invD(4) [OF inv U] by auto
  then show b: "unat a + unat l + 134217704 < 18446744073709551616" "a \<noteq> 0"
    using heap.owned_bounds [OF all_invD(1) [OF inv]] by fastforce+
  have lt: "unat (use_len r) < unat (block_len r)" using ok(3) by (simp add: word_less_nat_alt)
  then show len: "unat (area_free_len r) = unat (block_len r) - unat (use_len r)" unfolding area_free_len_def by (intro unat_u64_sub) simp
  then show "area_free_start r = Ret (area_block r + use_len r)" using lt by (simp add: area_free_start_def word_less_nat_alt)
  show "unat (area_block r + use_len r) = unat a + 32 + unat (use_len r)"
    unfolding blk using b(1) lt ok(2) by (subst unat_u64_add; subst unat_u64_add) auto
qed

text \<open>What \<open>mm_allocate\<close> does once the area is chosen.\<close>

definition cut_piece :: "u64 \<Rightarrow> u64 \<Rightarrow> u64 \<Rightarrow> all_state \<Rightarrow> (u64 \<times> all_state) res" where
  "cut_piece area sz align st =
     rbind (area_free_start (areas st area)) (\<lambda>ret.
     rbind (slop_of ret align) (\<lambda>slop.
     let need = sz + slop in
     kassert (area_free_len (areas st area) \<ge> need)
       (let ret = ret + slop;
            a = (areas st area)\<lparr>use_len := use_len (areas st area) + need\<rparr>;
            st = st\<lparr>areas := (areas st)(area := a)\<rparr> in
        kassert (use_len a < block_len a)
          (align_assert ret align (Ret (ret, st))))))"

lemma cut_piece_fits:
  assumes inv: "all_inv st A U F S" and U: "U all = Some ((a, l) # as, ps)"
    and req: "0 < align" "unat sz + unat align \<le> 134217664"
    and slop: "slop_of (area_block (areas st a) + use_len (areas st a)) align = Ret slop"
    and fit: "unat sz + unat slop < unat (area_free_len (areas st a))"
  shows "\<exists>ret st'. cut_piece a sz align st = Ret (ret, st') \<and> all_inv st' A (U(all \<mapsto> ((a, l) # as, (ret, sz) # ps))) F S \<and>
    ret mod align = 0 \<and> heap st' = heap st"
proof -
  let ?r = "areas st a"
  note af = area_free [OF inv U]
  have "unat (use_len ?r) < unat (block_len ?r)" using af(5) by (simp add: word_less_nat_alt)
  then have "unat (area_block ?r + use_len ?r) + unat align < 18446744073709551616" using af(3,4,6) req(2) by linarith
  from slop_aligned [OF req(1) this] slop have sl: "unat slop < unat align" "(area_block ?r + use_len ?r + slop) mod align = 0"
    by auto
  have need: "unat (sz + slop) = unat sz + unat slop" using sl(1) req(2) by (intro unat_u64_add) simp
  have lt: "unat (use_len ?r) + unat slop + unat sz < unat (block_len ?r)" using fit af(2) by simp
  have ul: "unat (use_len ?r + (sz + slop)) = unat (use_len ?r) + unat slop + unat sz"
    using lt need unat_u64_bound [of "block_len ?r"] by (subst unat_u64_add) auto
  have "align \<noteq> 0" using req(1) by auto
  then have "cut_piece a sz align st = Ret (area_block ?r + use_len ?r + slop, st\<lparr>areas := (areas st)(a := ?r\<lparr>use_len := use_len ?r + (sz + slop)\<rparr>)\<rparr>)"
    using af(1) slop sl(2) ul lt need fit
    by (simp add: cut_piece_def Let_def word_le_nat_alt word_less_nat_alt align_assert_def mm_align_check_def)
  moreover have "heap (st\<lparr>areas := (areas st)(a := ?r\<lparr>use_len := use_len ?r + (sz + slop)\<rparr>)\<rparr>) = heap st" by simp
  ultimately show ?thesis using cut_keeps [OF inv U lt] sl(2) by metis
qed

lemma mm_allocate_cut:
  "mm_allocate all sz align st =
     (let area = all_list (alls st all) in
      rbind (if area = 0 then
               rbind (allocator_new_area all (sz + align) st) (\<lambda>(area, st).
               kassert (all_list (alls st all) = area) (Ret (area, st)))
             else Ret (area, st)) (\<lambda>(area, st).
      rbind (area_free_start (areas st area)) (\<lambda>ret.
      rbind (slop_of ret align) (\<lambda>slop.
      rbind (if area_free_len (areas st area) < sz + slop then
               rbind (allocator_new_area all (sz + align) st) (\<lambda>(area, st).
               kassert (all_list (alls st all) = area)
                 (kassert (area_free_len (areas st area) \<ge> sz + align) (Ret (area, st))))
             else Ret (area, st)) (\<lambda>(area, st). cut_piece area sz align st)))))"
  unfolding mm_allocate_def cut_piece_def by (rule refl)

text \<open>A new area has room for the piece at any alignment.\<close>

lemma new_area_cut:
  assumes inv: "all_inv st A U F S" and U: "U all = Some (as, ps)" and room: "heap_room (Suc n) (heap st)"
    and req: "0 < align" "unat sz + unat align \<le> 134217664"
  shows "\<exists>a l st1 slop ret st2. allocator_new_area all (sz + align) st = Ret (a, st1) \<and> all_list (alls st1 all) = a \<and>
    sz + align \<le> area_free_len (areas st1 a) \<and> area_free_start (areas st1 a) = Ret (area_block (areas st1 a) + use_len (areas st1 a)) \<and>
    slop_of (area_block (areas st1 a) + use_len (areas st1 a)) align = Ret slop \<and> sz + slop \<le> area_free_len (areas st1 a) \<and>
    cut_piece a sz align st1 = Ret (ret, st2) \<and>
    all_inv st2 (insert (a, l) A) (U(all \<mapsto> ((a, l) # as, (ret, sz) # ps))) F S \<and> ret mod align = 0 \<and>
    heap_room n (heap st2)"
proof -
  have na: "unat (sz + align) = unat sz + unat align" using req(2) by (intro unat_u64_add) simp
  then have "unat (sz + align) \<le> 134217664" "0 < sz + align" using req by (auto simp: word_less_nat_alt)
  from new_area_runs [OF all_invD(1) [OF inv] room this, of all] obtain a l h where
    r: "heap_owns h (insert (a, l) A)" "(a, l) \<notin> A" "unat (sz + align) + 40 \<le> unat l" "heap_room n h"
      "allocator_new_area all (sz + align) st = Ret (a, st\<lparr>heap := h, guards := (guards st)(a + l - 8 := all),
      areas := (areas st)(a := \<lparr>area_block = a + 32, block_len = l - 40, use_len = 0, prev_area = all_list (alls st all)\<rparr>),
      alls := (alls st)(all := (alls st all)\<lparr>all_list := a\<rparr>)\<rparr>)" (is "_ = Ret (a, ?st1)") by blast
  have "40 < unat l" using r(3) na req(1) by (simp add: word_less_nat_alt)
  from new_area_keeps [OF inv U r(1,2) this] have inv1: "all_inv ?st1 (insert (a, l) A) (U(all \<mapsto> ((a, l) # as, ps))) F S" .
  have U1: "(U(all \<mapsto> ((a, l) # as, ps))) all = Some ((a, l) # as, ps)" by simp
  note af = area_free [OF inv1 U1]
  have fl: "unat sz + unat align \<le> unat (area_free_len (areas ?st1 a))" using af(2,4) r(3) na by simp
  have "unat (area_block (areas ?st1 a) + use_len (areas ?st1 a)) + unat align < 18446744073709551616"
    using af(3,4,6) req(2) by simp
  from slop_aligned [OF req(1) this] obtain slop where
    sl: "slop_of (area_block (areas ?st1 a) + use_len (areas ?st1 a)) align = Ret slop" "unat slop < unat align" by blast
  have ns: "unat (sz + slop) = unat sz + unat slop" using sl(2) req(2) by (intro unat_u64_add) simp
  have fit: "unat sz + unat slop < unat (area_free_len (areas ?st1 a))" using fl sl(2) by simp
  from cut_piece_fits [OF inv1 U1 req sl(1) this] obtain ret st2 where
    c: "cut_piece a sz align ?st1 = Ret (ret, st2)" "all_inv st2 (insert (a, l) A) (U(all \<mapsto> ((a, l) # as, (ret, sz) # ps))) F S" "ret mod align = 0"
      "heap st2 = heap ?st1"
    by (metis fun_upd_upd)
  have rm: "heap_room n (heap st2)" using r(4) c(4) by simp
  have le: "sz + align \<le> area_free_len (areas ?st1 a)" "sz + slop \<le> area_free_len (areas ?st1 a)"
    using fl fit na ns by (simp_all add: word_le_nat_alt)
  show ?thesis
    by (rule exI [of _ a], rule exI [of _ l], rule exI [of _ ?st1], rule exI [of _ slop], rule exI [of _ ret], rule exI [of _ st2],
        intro conjI r(5) af(7) le af(1) sl(1) c rm)
qed

lemma mm_allocate_serves:
  assumes inv: "all_inv st A U F S" and U: "U all = Some (as, ps)" and room: "heap_room (Suc n) (heap st)"
    and req: "0 < align" "unat sz + unat align \<le> 134217664" and ne: "\<not> exact_fit all sz align st"
  shows "\<exists>ret st' A' as'. mm_allocate all sz align st = Ret (ret, st') \<and> all_inv st' A' (U(all \<mapsto> (as', (ret, sz) # ps))) F S \<and>
    ret mod align = 0 \<and> A \<subseteq> A' \<and> (as' = as \<or> (\<exists>b. as' = b # as)) \<and> heap_room n (heap st')"
proof -
  from new_area_cut [OF inv U room req] obtain a l st1 slop ret st2 where
    new: "allocator_new_area all (sz + align) st = Ret (a, st1)" "all_list (alls st1 all) = a"
      "sz + align \<le> area_free_len (areas st1 a)" "area_free_start (areas st1 a) = Ret (area_block (areas st1 a) + use_len (areas st1 a))"
      "slop_of (area_block (areas st1 a) + use_len (areas st1 a)) align = Ret slop" "sz + slop \<le> area_free_len (areas st1 a)"
      "cut_piece a sz align st1 = Ret (ret, st2)" "all_inv st2 (insert (a, l) A) (U(all \<mapsto> ((a, l) # as, (ret, sz) # ps))) F S" "ret mod align = 0"
      "heap_room n (heap st2)"
    by metis
  have fresh: ?thesis if "mm_allocate all sz align st = Ret (ret, st2)" using that new(8-10) subset_insertI by metis
  show ?thesis
  proof (cases as)
    case Nil
    then have "all_list (alls st all) = 0" using all_invD(3) [OF inv U] by (simp add: owner_ok_def)
    then have "mm_allocate all sz align st = Ret (ret, st2)"
      unfolding mm_allocate_cut using new(1-5,7) leD [OF new(6)] by (simp add: Let_def)
    then show ?thesis by (rule fresh)
  next
    case (Cons b bs)
    obtain c m where b: "b = (c, m)" by (cases b)
    let ?r = "areas st c"
    have U': "U all = Some ((c, m) # bs, ps)" using U Cons b by simp
    note af = area_free [OF inv U']
    have "unat (use_len ?r) < unat (block_len ?r)" using af(5) by (simp add: word_less_nat_alt)
    then have "unat (area_block ?r + use_len ?r) + unat align < 18446744073709551616" using af(3,4,6) req(2) by linarith
    from slop_aligned [OF req(1) this] obtain s where
      sl: "slop_of (area_block ?r + use_len ?r) align = Ret s" "unat s < unat align" by blast
    have ns: "unat (sz + s) = unat sz + unat s" using sl(2) req(2) by (intro unat_u64_add) simp
    show ?thesis
    proof (cases "area_free_len ?r < sz + s")
      case True
      then have "mm_allocate all sz align st = Ret (ret, st2)"
        unfolding mm_allocate_cut using new(1-7) af(1,7,8) sl(1) by (simp add: Let_def)
      then show ?thesis by (rule fresh)
    next
      case False
      then have "area_free_len ?r \<noteq> sz + s" using ne sl(1) af(7,8) by (auto simp: exact_fit_def Let_def)
      with False have "unat sz + unat s < unat (area_free_len ?r)" using ns by (simp add: word_less_nat_alt u64_eq_iff_unat)
      from cut_piece_fits [OF inv U' req sl(1) this] obtain ret' st' where
        c: "cut_piece c sz align st = Ret (ret', st')" "all_inv st' A (U(all \<mapsto> ((c, m) # bs, (ret', sz) # ps))) F S" "ret' mod align = 0"
          "heap st' = heap st" by metis
      then have "mm_allocate all sz align st = Ret (ret', st')"
        unfolding mm_allocate_cut using af(1,7,8) sl(1) False by (simp add: Let_def)
      then show ?thesis using c(2-4) heap.room_less [OF room] unfolding Cons b by (metis order_refl)
    qed
  qed
qed

lemma mm_allocate_full:
  assumes inv: "all_inv st A U F S" and U: "U all = Some (as, ps)" and fit: "exact_fit all sz align st"
  shows "mm_allocate all sz align st = Stop AssertFail"
proof -
  have "all_list (alls st all) \<noteq> 0" using fit by (simp add: exact_fit_def Let_def)
  then obtain c m bs where as: "as = (c, m) # bs"
    using all_invD(3) [OF inv U] by (cases as) (auto simp: owner_ok_def)
  note af = area_free [OF inv U [unfolded as]]
  let ?r = "areas st c"
  from fit obtain s where s: "slop_of (area_block ?r + use_len ?r) align = Ret s" "sz + s = area_free_len ?r"
    using af(7) by (auto simp: exact_fit_def Let_def)
  have "use_len ?r + (sz + s) = block_len ?r" unfolding s(2) area_free_len_def by simp
  then show ?thesis unfolding mm_allocate_cut cut_piece_def using af(1,7,8) s by (simp add: Let_def)
qed

subsection \<open>Giving an allocator back\<close>

lemma free_loop_returns:
  assumes "heap_owns (heap st) A" "area_chain (areas st) p as" "distinct as" "set as \<subseteq> A" "\<forall>b \<in> set as. area_ok st all b"
  shows "\<exists>h. free_loop all p st = Some (Ret (st\<lparr>heap := h\<rparr>)) \<and> heap_owns h (A - set as)"
  using assms
proof (induction as arbitrary: p st A)
  case Nil
  then show ?case by (subst free_loop.simps) (auto intro: exI [of _ "heap st"])
next
  case (Cons b as)
  obtain a l where b: "b = (a, l)" by (cases b)
  have a: "p = a" "area_chain (areas st) (prev_area (areas st a)) as" "(a, l) \<in> A" "area_ok st all (a, l)" using Cons.prems b by auto
  have l: "40 \<le> unat l" "area_block (areas st a) = a + 32" "unat (block_len (areas st a)) + 40 = unat l" "guards st (a + l - 8) = all"
    using a(4) by (auto simp: area_ok_def)
  note ar = area_arith [OF Cons.prems(1) a(3) l(1)]
  have "block_len (areas st a) = l - 40" using ar(5) l(1,3) by (simp add: u64_eq_iff_unat)
  then have e: "area_block_end (areas st a) = a + l - 8" using l(2) by (simp add: area_block_end_def)
  obtain h where h: "mm_heap_free a (heap st) = Ret h" "heap_owns h (A - {(a, l)})"
    using heap.free_area [OF Cons.prems(1) a(3)] by blast
  have "\<forall>c \<in> set as. area_ok (st\<lparr>heap := h\<rparr>) all c" using Cons.prems(5) by (auto simp: area_ok_def)
  moreover have "set as \<subseteq> A - {(a, l)}" using Cons.prems(3,4) b by auto
  ultimately obtain h' where h': "free_loop all (prev_area (areas st a)) (st\<lparr>heap := h\<rparr>) = Some (Ret (st\<lparr>heap := h'\<rparr>))"
    "heap_owns h' (A - {(a, l)} - set as)"
    using Cons.IH [of "st\<lparr>heap := h\<rparr>" "A - {(a, l)}" "prev_area (areas st a)"] h(2) a(2) Cons.prems(3) by auto
  have "align_assert (a + l - 8) sizeof_ptr k = k" for k :: "heap_state res"
    using ar(6) by (simp add: align_assert_def mm_align_check_def sizeof_ptr_def)
  then have "free_loop all p st = Some (Ret (st\<lparr>heap := h'\<rparr>))"
    using a(1) ar(3) e l(4) h(1) h'(1) by (subst free_loop.simps) (simp add: Let_def)
  moreover have "A - {(a, l)} - set as = A - set (b # as)" using b by auto
  ultimately show ?case using h'(2) by auto
qed

lemma mm_allocator_free_takes:
  assumes inv: "all_inv st A U F S" and U: "U all = Some (as, ps)"
  shows "\<exists>st'. mm_allocator_free all st = Ret st' \<and> all_inv st' (A - set as) (U(all := None)) (all # F) S"
proof -
  have o: "area_chain (areas st) (all_list (alls st all)) as" "distinct as" "\<forall>b \<in> set as. area_ok st all b"
    using all_invD(3) [OF inv U] by (auto simp: owner_ok_def)
  have sub: "set as \<subseteq> A" using all_invD(4) [OF inv U] by auto
  from free_loop_returns [OF all_invD(1) [OF inv] o(1,2) sub o(3)] obtain h where
    h: "free_loop all (all_list (alls st all)) st = Some (Ret (st\<lparr>heap := h\<rparr>))" "heap_owns h (A - set as)" by blast
  let ?st = "st\<lparr>heap := h, alls := (alls st)(all := \<lparr>all_list = 0, all_next_free = free_alls st\<rparr>), free_alls := all\<rparr>"
  have run: "mm_allocator_free all st = Ret ?st" using h(1) by (simp add: mm_allocator_free_def)
  have aF: "all \<notin> set F" using all_invD(8) [OF inv] U by auto
  have chain: "all_chain (alls ?st) (free_alls ?st) (all # F)"
    using all_invD(6) [OF inv] aF by (simp, subst all_chain_cong [of F _ "alls st"]) auto
  have dom: "set (all # F) \<union> dom (U(all := None)) = set F \<union> dom U" using U by auto
  have keep: "owner_ok ?st x bs qs" if "U x = Some (bs, qs)" "x \<noteq> all" for x bs qs
    using all_invD(3) [OF inv that(1)] that(2) by (subst owner_ok_cong [where st = st]) auto
  have "all_inv ?st (A - set as) (U(all := None)) (all # F) S"
    unfolding all_inv_def dom
  proof (intro conjI allI impI, goal_cases)
    case 2
    then show ?case using all_invD(2) [OF inv] all_invD(4) [OF inv U] by auto
  next
    case (3 x bs qs)
    then show ?case using keep by (auto split: if_splits)
  next
    case (4 x bs qs)
    then have "U x = Some (bs, qs)" "x \<noteq> all" by (auto split: if_splits)
    then show ?case using all_invD(4) [OF inv] all_invD(5) [OF inv _ U] by blast
  next
    case (5 x y bs cs qs rs)
    then have "U x = Some (bs, qs)" "U y = Some (cs, rs)" by (auto split: if_splits)
    then show ?case using all_invD(5) [OF inv] 5(3) by blast
  qed (use h(2) chain aF all_invD(7,8,9,10) [OF inv] in auto)
  with run show ?thesis by blast
qed

subsection \<open>A new allocator\<close>

lemma mm_align_up_8: "p mod 8 = 0 \<Longrightarrow> mm_align_up p sizeof_ptr = Ret p"
proof -
  assume "p mod 8 = 0"
  then have z: "p AND mask 3 = 0" by (simp add: take_bit_eq_mask [symmetric] take_bit_eq_mod)
  have seven: "(7::u64) = mask 3" by (simp add: mask_eq_exp_minus_1)
  have b: "\<not> bit p n" if "n < 3" for n
    using z that by (metis bit_and_iff bit_mask_iff bit_0_eq bot_apply bot_bool_def nat_less_le bit_imp_le_length possible_bit_word)
  have "p + mask 3 = p OR mask 3" using z by (intro disjunctive_add_eq_or)
  moreover have "(p OR mask 3) AND NOT (mask 3) = p"
    by (rule bit_word_eqI) (use b in \<open>auto simp: bit_simps\<close>)
  moreover have "math_is_pow2 (8::u64)" by (simp add: math_is_pow2_def)
  ultimately show ?thesis by (simp add: mm_align_up_def sizeof_ptr_def seven)
qed

text \<open>The structures that one heap block is divided into.\<close>

definition slot :: "u64 \<Rightarrow> nat \<Rightarrow> u64" where
  "slot p k = p + 256 * of_nat k"

definition slots_of :: "u64 \<Rightarrow> nat" where
  "slots_of l = (unat l - 16) div 256 + 1"

lemma slot_unat:
  assumes "unat p + unat l < 18446744073709551616 - 512" "16 \<le> unat l" "k \<le> slots_of l"
  shows "unat (slot p k) = unat p + 256 * k" "slot p k - p = 256 * of_nat k" "unat (256 * of_nat k :: u64) = 256 * k"
proof -
  have "256 * k \<le> unat l + 256" using assms(2,3) by (simp add: slots_of_def)
  then have lt: "unat p + 256 * k < 18446744073709551616" "256 * k < 18446744073709551616" using assms(1) by linarith+
  then have k: "unat (of_nat k :: u64) = k" by (simp add: unat_of_nat)
  then show m: "unat (256 * of_nat k :: u64) = 256 * k" using lt by (subst unat_u64_mult) auto
  then show "unat (slot p k) = unat p + 256 * k" unfolding slot_def using lt by (subst unat_u64_add) auto
  show "slot p k - p = 256 * of_nat k" by (simp add: slot_def)
qed

lemma new_loop_divides:
  assumes p: "unat p + unat l < 18446744073709551616 - 512" "16 \<le> unat l" "p mod 8 = 0" and i: "i \<le> slots_of l"
    and F: "all_chain (alls st) (free_alls st) F" "\<And>k. i \<le> k \<Longrightarrow> k < slots_of l \<Longrightarrow> slot p k \<notin> set F"
  shows "\<exists>al f. new_loop p l (slot p i) st = Some (Ret (st\<lparr>alls := al, free_alls := f\<rparr>)) \<and>
    all_chain al f (rev (map (slot p) [i..<slots_of l]) @ F) \<and> (\<forall>x. all_list (al x) = all_list (alls st x))"
  using i F
proof (induction "slots_of l - i" arbitrary: i st F)
  case 0
  then have i: "i = slots_of l" by simp
  have "unat (slot p i + 16 - p) = 256 * i + 16"
  proof -
    have "slot p i + 16 - p = 256 * of_nat i + 16" by (simp add: slot_def)
    moreover have "256 * i + 16 < 18446744073709551616" using p(1,2) i by (simp add: slots_of_def)
    moreover have "unat (256 * of_nat i :: u64) = 256 * i" using slot_unat(3) [OF p(1,2), of i] i by simp
    ultimately show ?thesis by (simp only:) (subst unat_u64_add, auto)
  qed
  moreover have "unat l < 256 * i + 16" using i p(2) by (simp add: slots_of_def)
  ultimately have "\<not> slot p i + sizeof_allocator - p \<le> l" by (simp add: word_le_nat_alt sizeof_allocator_def)
  then show ?case using 0 i by (subst new_loop.simps) (auto intro!: exI [of _ "alls st"] exI [of _ "free_alls st"])
next
  case (Suc d)
  then have i: "i < slots_of l" "d = slots_of l - Suc i" by auto
  then have "256 * i + 16 \<le> unat l" using p(2) by (simp add: slots_of_def)
  moreover have "slot p i + sizeof_allocator - p = 256 * of_nat i + 16" by (simp add: slot_def sizeof_allocator_def)
  moreover have "unat (256 * of_nat i + 16 :: u64) = 256 * i + 16"
    using slot_unat(3) [OF p(1,2), of i] i(1) calculation(1) p(1) by (subst unat_u64_add) auto
  ultimately have c: "slot p i + sizeof_allocator - p \<le> l" by (simp add: word_le_nat_alt)
  have nxt: "slot p i + sizeof_allocator * sizeof_allocator = slot p (Suc i)" by (simp add: slot_def sizeof_allocator_def algebra_simps)
  have "unat (slot p (Suc i)) = unat p + 256 * Suc i" using slot_unat(1) [OF p(1,2)] i(1) by simp
  moreover have "8 dvd unat p" using p(3) by (auto simp: u64_eq_iff_unat unat_mod)
  ultimately have "8 dvd unat (slot p (Suc i))" by (simp only:) (intro dvd_add, simp_all)
  then have al: "mm_align_up (slot p (Suc i)) sizeof_ptr = Ret (slot p (Suc i))"
    by (intro mm_align_up_8) (auto simp: u64_eq_iff_unat unat_mod)
  let ?st = "st\<lparr>alls := (alls st)(slot p i := (alls st (slot p i))\<lparr>all_next_free := free_alls st\<rparr>), free_alls := slot p i\<rparr>"
  have inj: "slot p k \<noteq> slot p i" if "i < k" "k < slots_of l" for k
    using slot_unat(1) [OF p(1,2), of k] slot_unat(1) [OF p(1,2), of i] that by auto
  have "slot p i \<notin> set F" using Suc.prems(3) i(1) by simp
  then have "all_chain (alls ?st) (free_alls ?st) (slot p i # F)"
    using Suc.prems(2) by (simp, subst all_chain_cong [of F _ "alls st"]) auto
  moreover have "slot p k \<notin> set (slot p i # F)" if "Suc i \<le> k" "k < slots_of l" for k using Suc.prems(3) inj that by auto
  ultimately obtain al f where r: "new_loop p l (slot p (Suc i)) ?st = Some (Ret (?st\<lparr>alls := al, free_alls := f\<rparr>))"
    "all_chain al f (rev (map (slot p) [Suc i..<slots_of l]) @ slot p i # F)" "\<forall>x. all_list (al x) = all_list (alls ?st x)"
    using Suc.hyps(1) [OF i(2), of ?st "slot p i # F"] i(1) by auto
  have "new_loop p l (slot p i) st = Some (Ret (st\<lparr>alls := al, free_alls := f\<rparr>))"
    using c nxt al r(1) by (subst new_loop.simps) (simp add: Let_def)
  moreover have "[i..<slots_of l] = i # [Suc i..<slots_of l]" using i(1) by (rule upt_conv_Cons)
  ultimately show ?case using r(2,3) by (intro exI [of _ al] exI [of _ f]) auto
qed

text \<open>Taking the first free structure, the end of \<open>mm_allocator_new\<close>.\<close>

definition take_allocator :: "u64 \<Rightarrow> all_state \<Rightarrow> all_state" where
  "take_allocator all st = allocator_init all (st\<lparr>free_alls := all_next_free (alls st all),
     alls := (alls st)(all := (alls st all)\<lparr>all_next_free := 0\<rparr>)\<rparr>)"

lemma take_allocator_heap: "heap (take_allocator x st) = heap st"
  by (simp add: take_allocator_def allocator_init_def)

lemma take_allocator_keeps:
  assumes inv: "all_inv st A U (x # F) S"
  shows "all_inv (take_allocator x st) A (U(x \<mapsto> ([], []))) F S" "free_alls st = x" "x \<noteq> 0" "x \<notin> dom U"
proof -
  let ?st = "take_allocator x st"
  show x: "free_alls st = x" "x \<noteq> 0" "x \<notin> dom U" using all_invD(6) [OF inv] all_invD(9) [OF inv, of x] all_invD(8) [OF inv] by auto
  have alls: "alls ?st y = (if y = x then \<lparr>all_list = 0, all_next_free = 0\<rparr> else alls st y)" for y
    by (simp add: take_allocator_def allocator_init_def)
  have fields: "heap ?st = heap st" "areas ?st = areas st" "guards ?st = guards st" "free_alls ?st = all_next_free (alls st x)"
    by (simp_all add: take_allocator_def allocator_init_def)
  have xF: "x \<notin> set F" using all_invD(7) [OF inv] by simp
  have chain: "all_chain (alls ?st) (free_alls ?st) F"
    using all_invD(6) [OF inv] xF by (subst all_chain_cong [of F _ "alls st"]) (auto simp: alls fields)
  have dom: "set F \<union> dom (U(x \<mapsto> ([], []))) = set (x # F) \<union> dom U" by auto
  have keep: "owner_ok ?st y bs qs" if "U y = Some (bs, qs)" for y bs qs
    using all_invD(3) [OF inv that] x(3) that by (subst owner_ok_cong [where st = st]) (auto simp: alls fields)
  have new: "owner_ok ?st x [] []" by (simp add: owner_ok_def alls)
  show "all_inv ?st A (U(x \<mapsto> ([], []))) F S"
    unfolding all_inv_def dom
  proof (intro conjI allI impI, goal_cases)
    case (3 y bs qs)
    then show ?case using keep new by (auto split: if_splits)
  next
    case (4 y bs qs)
    then show ?case using all_invD(4) [OF inv, of y bs qs] by (auto split: if_splits)
  next
    case (5 y z bs cs qs rs)
    then show ?case using all_invD(5) [OF inv, of y bs qs z cs rs] by (auto split: if_splits)
  next
    case 8
    then show ?case using all_invD(8) [OF inv] xF by auto
  qed (use chain fields all_invD(1,2,7,9,10) [OF inv] in auto)
qed

lemma mm_allocator_new_take:
  "mm_allocator_new st =
     rbind (if free_alls st = 0 then
              rbind (mm_heap_alloc_minimum (heap st)) (\<lambda>(blk, blk_len, h).
              let st = st\<lparr>heap := h\<rparr> in
              rbind (mm_align_up blk sizeof_ptr) (\<lambda>all.
              kassert ((all + sizeof_allocator) - blk \<le> blk_len)
                (case new_loop blk blk_len all st of
                   None \<Rightarrow> Stop Diverges
                 | Some r \<Rightarrow> rbind r (\<lambda>st. Ret (free_alls st, st)))))
            else Ret (free_alls st, st)) (\<lambda>(all, st).
     kassert (all \<noteq> 0) (Ret (all, take_allocator all st)))"
  unfolding mm_allocator_new_def take_allocator_def Let_def by (rule refl)

text \<open>A new block of the heap, divided into structures.\<close>

lemma slab_keeps:
  assumes inv: "all_inv st A U [] S" and own: "heap_owns h (insert (p, l) A)" "(p, l) \<notin> A"
    and al: "all_chain al f (rev (map (slot p) [0..<slots_of l]))" "\<forall>x. all_list (al x) = all_list (alls st x)"
  shows "all_inv (st\<lparr>heap := h, alls := al, free_alls := f\<rparr>) (insert (p, l) A) U (rev (map (slot p) [0..<slots_of l])) (insert (p, l) S)"
proof -
  let ?st = "st\<lparr>heap := h, alls := al, free_alls := f\<rparr>" and ?F = "rev (map (slot p) [0..<slots_of l])"
  have b: "unat p + unat l + 134217704 < 2 ^ 64" "p \<noteq> 0" "4072 \<le> unat l"
    using heap.owned_bounds [OF own(1), of "(p, l)"] by auto
  then have pl: "unat p + unat l < 18446744073709551616 - 512" "16 \<le> unat l" "0 < unat p" by (auto simp: u64_eq_iff_unat)
  have F: "x \<in> set ?F \<longleftrightarrow> (\<exists>k. k < slots_of l \<and> x = slot p k)" for x by auto
  note sl = slot_unat [OF pl(1,2)]
  have top: "256 * k + 16 \<le> unat l" if "k < slots_of l" for k using that pl(2) by (simp add: slots_of_def)
  have new: "x \<noteq> 0" "in_slab x (p, l)" if "x \<in> set ?F" for x
    using that F sl(1) top pl(3) by (fastforce simp: in_slab_def u64_eq_iff_unat)+
  have old: "\<exists>q m. (q, m) \<in> A \<and> in_slab x (q, m)" if "x \<in> dom U" for x
    using all_invD(9) [OF inv, of x] all_invD(2) [OF inv] that by fastforce
  have apart: "disjoint_pieces (x, 16) (y, 16)" if x: "x \<in> set ?F" and y: "y \<in> dom U" for x y
  proof -
    obtain q m where q: "(q, m) \<in> A" "in_slab y (q, m)" using old [OF y] by blast
    then have "apart (p, l) (q, m)" using heap.owned_apart [OF own(1), of "(p, l)" "(q, m)"] own(2) by auto
    then show ?thesis using new(2) [OF x] q(2) by (auto simp: in_slab_def disjoint_pieces_def apart_def)
  qed
  have apart': "disjoint_pieces (x, 16) (y, 16)" if xy: "x \<in> set ?F" "y \<in> set ?F" "x \<noteq> y" for x y
  proof -
    obtain i j where "i < slots_of l" "j < slots_of l" "x = slot p i" "y = slot p j" "i \<noteq> j" using xy F by blast
    then show ?thesis using sl(1) [of i] sl(1) [of j] by (auto simp: disjoint_pieces_def)
  qed
  have "inj_on (slot p) {0..<slots_of l}"
  proof (rule inj_onI)
    fix i j
    assume ij: "i \<in> {0..<slots_of l}" "j \<in> {0..<slots_of l}" and eq: "slot p i = slot p j"
    then have "i \<le> slots_of l" "j \<le> slots_of l" by auto
    from sl(1) [OF this(1)] sl(1) [OF this(2)] have "unat p + 256 * i = unat p + 256 * j" unfolding eq by linarith
    then show "i = j" by linarith
  qed
  then have dist: "distinct ?F" by (simp only: distinct_rev distinct_map distinct_upt set_upt simp_thms)
  have "\<not> disjoint_pieces (x, 16) (x, 16)" for x by (simp add: disjoint_pieces_def)
  then have disj: "set ?F \<inter> dom U = {}" using apart by (meson disjoint_iff)
  have sym: "disjoint_pieces u v \<Longrightarrow> disjoint_pieces v u" for u v by (auto simp: disjoint_pieces_def)
  have keep: "owner_ok ?st y bs qs" if "U y = Some (bs, qs)" for y bs qs
    using all_invD(3) [OF inv that] al(2) by (subst owner_ok_cong [where st = st]) auto
  show ?thesis
    unfolding all_inv_def
  proof (intro conjI allI impI ballI, goal_cases)
    case (4 y bs qs)
    then show ?case using all_invD(4) [OF inv, of y bs qs] own(2) by auto
  next
    case (5 y z bs cs qs rs)
    then show ?case using all_invD(5) [OF inv] by blast
  next
    case (9 x)
    then show ?case using new(1) all_invD(9) [OF inv, of x] by auto
  next
    case (10 x)
    then show ?case using new(2) all_invD(9) [OF inv, of x] by auto
  next
    case (11 x y)
    then show ?case using apart apart' sym [OF apart, of y x] all_invD(10) [OF inv, of x y] by blast
  qed (use own all_invD(2) [OF inv] keep al(1) dist disj in auto)
qed

lemma mm_allocator_new_gives:
  assumes inv: "all_inv st A U F S" and room: "heap_room (Suc n) (heap st)"
  shows "\<exists>x st' A' F' S'. mm_allocator_new st = Ret (x, st') \<and> x \<notin> dom U \<and> x \<noteq> 0 \<and> all_inv st' A' (U(x \<mapsto> ([], []))) F' S' \<and> A \<subseteq> A' \<and>
    heap_room n (heap st')"
proof (cases F)
  case (Cons x F')
  note t = take_allocator_keeps [OF inv [unfolded Cons]]
  then have "mm_allocator_new st = Ret (x, take_allocator x st)" by (simp add: mm_allocator_new_take)
  then show ?thesis using t heap.room_less [OF room] take_allocator_heap [of x st] by auto
next
  case Nil
  have f0: "free_alls st = 0" using all_invD(6) [OF inv] Nil by simp
  from heap.alloc_area [OF all_invD(1) [OF inv] room, of 1] obtain p l h where
    r: "mm_heap_alloc 1 (heap st) = Ret (p, l, h)" "heap_owns h (insert (p, l) A)" "(p, l) \<notin> A" "heap_room n h" by auto
  have b: "unat p + unat l + 134217704 < 2 ^ 64" "p mod 8 = 0" "4072 \<le> unat l"
    using heap.owned_bounds [OF r(2), of "(p, l)"] by auto
  then have pl: "unat p + unat l < 18446744073709551616 - 512" "16 \<le> unat l" "0 < slots_of l" by (auto simp: slots_of_def)
  from new_loop_divides [OF pl(1,2) b(2), of 0 "st\<lparr>heap := h\<rparr>" "[]"] f0 obtain al f where
    lp: "new_loop p l p (st\<lparr>heap := h\<rparr>) = Some (Ret (st\<lparr>heap := h, alls := al, free_alls := f\<rparr>))"
      "all_chain al f (rev (map (slot p) [0..<slots_of l]))" "\<forall>x. all_list (al x) = all_list (alls st x)" by (auto simp: slot_def)
  let ?st = "st\<lparr>heap := h, alls := al, free_alls := f\<rparr>"
  obtain x F' where F': "rev (map (slot p) [0..<slots_of l]) = x # F'" using pl(3) by (cases "rev (map (slot p) [0..<slots_of l])") auto
  have "all_inv ?st (insert (p, l) A) U (x # F') (insert (p, l) S)"
    using slab_keeps [OF inv [unfolded Nil] r(2,3) lp(2,3)] F' by simp
  note t = take_allocator_keeps [OF this]
  have "p + sizeof_allocator - p \<le> l" using pl(2) by (simp add: word_le_nat_alt sizeof_allocator_def)
  then have "mm_allocator_new st = Ret (x, take_allocator x ?st)"
    using f0 r(1) lp(1) mm_align_up_8 [OF b(2)] t(2,3) by (simp add: mm_allocator_new_take mm_heap_alloc_minimum_def)
  moreover have "heap_room n (heap (take_allocator x ?st))" using r(4) by (simp add: take_allocator_heap)
  ultimately show ?thesis using t(1,3,4) by (metis subset_insertI)
qed

subsection \<open>Properties\<close>

lemma all_bootstrap_inv: "heap_owns (heap st) A \<Longrightarrow> all_inv (mm_allocator_bootstrap st) A Map.empty [] {}"
  by (simp add: all_inv_def mm_allocator_bootstrap_def)

definition sample_all :: all_state where
  "sample_all = mm_allocator_bootstrap
     \<lparr>heap = sample_heap 500000, areas = (\<lambda>_. \<lparr>area_block = 0, block_len = 0, use_len = 0, prev_area = 0\<rparr>),
      alls = (\<lambda>_. \<lparr>all_list = 0, all_next_free = 0\<rparr>), guards = (\<lambda>_. 0), free_alls = 7\<rparr>"

lemma sample_all_inv: "all_inv sample_all {} Map.empty [] {}"
proof -
  have "heap_owns (sample_heap 500000) {}" using sample_heap_run [of 500000] by (intro heap_run_owns) simp
  then show ?thesis unfolding sample_all_def by (intro all_bootstrap_inv) simp
qed

text \<open>
  C17: while the heap can grow, \<open>mm_allocator_new\<close> returns a structure that is not the structure of any
  allocator in use and overlaps none (whether it is recycled or the first of a freshly divided heap
  block), and the new allocator owns nothing.
\<close>

theorem mm_allocator_new_fresh:
  assumes "all_inv st A U F S" "heap_room (Suc n) (heap st)"
  shows "\<exists>x st' A' F' S'. mm_allocator_new st = Ret (x, st') \<and> x \<notin> dom U \<and> x \<noteq> 0 \<and>
    all_inv st' A' (U(x \<mapsto> ([], []))) F' S' \<and> A \<subseteq> A' \<and> heap_room n (heap st')"
  using assms by (rule mm_allocator_new_gives)

lemma sample_all_room: "heap_room (Suc (Suc 0)) (heap sample_all)"
proof -
  have "free_count (sample_free 500000) = of_nat 500000" using sample_free_inv(1) [of 500000] by (simp add: mm_inv_def)
  then show ?thesis
    by (simp add: heap_room_def sample_all_def mm_allocator_bootstrap_def sample_heap_fields mm_frame_free_count_def unat_VA_48_HEAP)
qed

theorem mm_allocator_new_fresh_witness: "\<exists>x st'. mm_allocator_new sample_all = Ret (x, st') \<and> x \<noteq> 0"
  using mm_allocator_new_fresh [OF sample_all_inv sample_all_room] by blast

text \<open>
  C10: \<open>mm_allocate\<close> on an allocator in use returns, unless the request fills the newest area to its last
  byte, a piece at a multiple of \<open>align\<close>. The piece lies inside an area of this allocator and shares no
  byte with any piece handed out before (which is what \<open>all_inv\<close> requires of the list of pieces); at
  most one area is added, and the areas and pieces of all other allocators stay as they are.
\<close>

theorem mm_allocate_disjoint:
  assumes "all_inv st A U F S" "U all = Some (as, ps)" "heap_room (Suc n) (heap st)"
    and "0 < align" "unat sz + unat align \<le> 134217664" "\<not> exact_fit all sz align st"
  shows "\<exists>ret st' A' as'. mm_allocate all sz align st = Ret (ret, st') \<and> all_inv st' A' (U(all \<mapsto> (as', (ret, sz) # ps))) F S \<and>
    ret mod align = 0 \<and> A \<subseteq> A' \<and> (as' = as \<or> (\<exists>b. as' = b # as)) \<and> heap_room n (heap st')"
  using assms by (rule mm_allocate_serves)

lemma sample_new:
  obtains x st A F S where "mm_allocator_new sample_all = Ret (x, st)" "all_inv st A [x \<mapsto> ([], [])] F S" "heap_room (Suc 0) (heap st)"
  using mm_allocator_new_gives [OF sample_all_inv sample_all_room] by blast

lemma map_upd_Some: "(m(x \<mapsto> y)) x = Some y"
  by simp

lemma new_not_full: "all_inv st A [x \<mapsto> ([], [])] F S \<Longrightarrow> \<not> exact_fit x sz align st"
  using all_invD(3) [of st A "[x \<mapsto> ([], [])]" F S x "[]" "[]"] by (simp add: exact_fit_def owner_ok_def)

theorem mm_allocate_disjoint_witness:
  "\<exists>x st ret st'. mm_allocator_new sample_all = Ret (x, st) \<and> mm_allocate x 100 16 st = Ret (ret, st') \<and> ret mod 16 = 0"
proof -
  obtain x st A F S where r: "mm_allocator_new sample_all = Ret (x, st)" "all_inv st A [x \<mapsto> ([], [])] F S" "heap_room (Suc 0) (heap st)"
    by (rule sample_new)
  have "\<exists>ret st'. mm_allocate x 100 16 st = Ret (ret, st') \<and> ret mod 16 = 0"
    using mm_allocate_disjoint [OF r(2) map_upd_Some r(3) _ _ new_not_full [OF r(2)], of 16 100] by (simp del: fun_upd_apply) metis
  with r(1) show ?thesis by metis
qed

text \<open>
  C40: a request that fills the newest area to its last byte is not served: the assertion
  \<open>use_len < block_len\<close> of \<open>mm_allocate\<close> fails although the piece would fit.
\<close>

theorem mm_allocate_exact_fit:
  assumes "all_inv st A U F S" "U all = Some (as, ps)" "exact_fit all sz align st"
  shows "mm_allocate all sz align st = Stop AssertFail"
  using assms by (rule mm_allocate_full)

theorem mm_allocate_exact_fit_witness:
  "\<exists>x st ret st' sz. mm_allocator_new sample_all = Ret (x, st) \<and> mm_allocate x 100 16 st = Ret (ret, st') \<and>
     0 < sz \<and> mm_allocate x sz 1 st' = Stop AssertFail"
proof -
  obtain x st A F S where r: "mm_allocator_new sample_all = Ret (x, st)" "all_inv st A [x \<mapsto> ([], [])] F S" "heap_room (Suc 0) (heap st)"
    by (rule sample_new)
  obtain ret st' B as' where a: "mm_allocate x 100 16 st = Ret (ret, st')" "all_inv st' B ([x \<mapsto> ([], [])](x \<mapsto> (as', [(ret, 100)]))) F S"
    using mm_allocate_serves [OF r(2) map_upd_Some r(3) _ _ new_not_full [OF r(2)], of 16 100] by (simp del: fun_upd_apply) blast
  let ?U = "[x \<mapsto> ([], [])](x \<mapsto> (as', [(ret, 100)]))"
  have U: "?U x = Some (as', [(ret, 100)])" by simp
  have "as' \<noteq> []" using all_invD(3) [OF a(2) U] by (auto simp: owner_ok_def)
  then obtain c m bs where "as' = (c, m) # bs" by (metis list.exhaust surj_pair)
  with U have U': "?U x = Some ((c, m) # bs, [(ret, 100)])" by simp
  note af = area_free [OF a(2) U']
  let ?sz = "area_free_len (areas st' c)"
  have "exact_fit x ?sz 1 st'" using af(7,8) by (simp add: exact_fit_def Let_def slop_of_def)
  then have "mm_allocate x ?sz 1 st' = Stop AssertFail" by (rule mm_allocate_exact_fit [OF a(2) U])
  moreover have "0 < ?sz" using af(2,5) by (simp add: word_less_nat_alt)
  ultimately show ?thesis using r(1) a(1) by blast
qed

text \<open>
  C18: \<open>mm_allocator_free\<close> returns for every allocator in use (its loop over the areas ends and finds every
  guard intact); exactly the areas of that allocator go back to the heap, and its structure is the next
  one to be recycled.
\<close>

theorem mm_allocator_free_returns:
  assumes "all_inv st A U F S" "U all = Some (as, ps)"
  shows "\<exists>st'. mm_allocator_free all st = Ret st' \<and> all_inv st' (A - set as) (U(all := None)) (all # F) S"
  using assms by (rule mm_allocator_free_takes)

theorem mm_allocator_free_returns_witness:
  "\<exists>x st st'. mm_allocator_new sample_all = Ret (x, st) \<and> mm_allocator_free x st = Ret st'"
proof -
  obtain x st A F S where "mm_allocator_new sample_all = Ret (x, st)" "all_inv st A [x \<mapsto> ([], [])] F S"
    by (rule sample_new)
  then show ?thesis using mm_allocator_free_returns [of st A "[x \<mapsto> ([], [])]" F S x] by auto
qed

end
