(* ===== verification/Drivers_Pcie.thy ===== *)
theory Drivers_Pcie
  imports Kernel_Loops Containers_String
begin

text \<open>
  \<open>src/src/drivers/drivers_pcie.c\<close>: the groups of PCIe buses that the ACPI table MCFG announces, the
  configuration space of a function, and the scan for functions at boot.

  \<open>mem\<close> is the memory the driver reads, by byte address; the configuration space is part of it. The
  arrays \<open>_groups\<close> and \<open>_functions\<close> are the lists of their used elements, a pointer into \<open>_groups\<close>
  is an index. The lines sent to the log are definitions of the theory \<open>Kernel_Lines\<close>.
\<close>

definition GROUP_CAP :: u64 where "GROUP_CAP = 8"
definition FUNCTIONS_CAP :: nat where "FUNCTIONS_CAP = 128"
definition BUS_MAX :: u64 where "BUS_MAX = 256"
definition DEVICE_MAX :: u64 where "DEVICE_MAX = 32"
definition FUNCTION_MAX :: u64 where "FUNCTION_MAX = 8"
definition CONFIG_SPACE_SIZE :: u64 where "CONFIG_SPACE_SIZE = 4096"
definition CONFIG_SPACE_ALIGN :: u64 where "CONFIG_SPACE_ALIGN = 256 * 32 * 8 * 4 * 1024"

record d_pcie_group =
  cfg_space_base_pa :: u64
  group_no :: u16
  bus_start :: u8
  bus_end :: u8
  reserved :: u32

record d_pcie_func =
  fn_group :: nat
  fn_bus :: u64
  fn_dev :: u64
  fn_fun :: u64
  vendor_id :: u16
  device_id :: u16
  header_type :: u8
  base_class :: u8
  sub_class :: u8
  fn_pi :: u8

record pcie_state =
  groups :: "d_pcie_group list"
  group_cnt :: u64
  funcs :: "d_pcie_func list"

subsection \<open>The configuration space\<close>

definition cfg_space_pa :: "d_pcie_group \<Rightarrow> u64 \<Rightarrow> u64 \<Rightarrow> u64 \<Rightarrow> u64 \<Rightarrow> u64 res" where
  "cfg_space_pa grp bus dev fn off =
     rbind (mm_align_check (cfg_space_base_pa grp) CONFIG_SPACE_ALIGN) (\<lambda>ok.
     kassert ok
     (kassert (bus < BUS_MAX)
     (kassert (dev < DEVICE_MAX)
     (kassert (fn < FUNCTION_MAX)
     (kassert (off < 4096)
       (let pa = ((cfg_space_base_pa grp OR push_bit 20 bus) OR push_bit 15 dev) OR push_bit 12 fn in
        Ret (pa OR off)))))))"

definition cfg_space_read_byte :: "memory \<Rightarrow> d_pcie_group \<Rightarrow> u64 \<Rightarrow> u64 \<Rightarrow> u64 \<Rightarrow> u64 \<Rightarrow> u8 res" where
  "cfg_space_read_byte mem grp bus dev fn off =
     kassert (off < CONFIG_SPACE_SIZE) (rbind (cfg_space_pa grp bus dev fn off) (\<lambda>padd. Ret (mem padd)))"

definition cfg_space_read_word :: "memory \<Rightarrow> d_pcie_group \<Rightarrow> u64 \<Rightarrow> u64 \<Rightarrow> u64 \<Rightarrow> u64 \<Rightarrow> u16 res" where
  "cfg_space_read_word mem grp bus dev fn off =
     kassert (off mod 2 = 0)
     (kassert (off \<le> CONFIG_SPACE_SIZE - 2)
     (rbind (cfg_space_pa grp bus dev fn off) (\<lambda>padd. Ret (mem_u16 mem padd))))"

definition cfg_space_read_dword :: "memory \<Rightarrow> d_pcie_group \<Rightarrow> u64 \<Rightarrow> u64 \<Rightarrow> u64 \<Rightarrow> u64 \<Rightarrow> u32 res" where
  "cfg_space_read_dword mem grp bus dev fn off =
     kassert (off mod 4 = 0)
     (kassert (off \<le> CONFIG_SPACE_SIZE - 4)
     (rbind (cfg_space_pa grp bus dev fn off) (\<lambda>padd. Ret (mem_u32 mem padd))))"

definition cfg_space_write_dword :: "d_pcie_group \<Rightarrow> u64 \<Rightarrow> u64 \<Rightarrow> u64 \<Rightarrow> u64 \<Rightarrow> u32 \<Rightarrow> memory \<Rightarrow> memory res" where
  "cfg_space_write_dword grp bus dev fn off val mem =
     kassert (off mod 4 = 0)
     (kassert (off \<le> 4096 - 4)
     (rbind (cfg_space_pa grp bus dev fn off) (\<lambda>padd. Ret (mem_put_u32 padd val mem))))"

text \<open>The accessors of a function that was found; its group is looked up in \<open>_groups\<close>.\<close>

definition func_group :: "d_pcie_func \<Rightarrow> pcie_state \<Rightarrow> d_pcie_group res" where
  "func_group f st = inbounds (fn_group f < length (groups st)) (Ret (groups st ! fn_group f))"

definition d_pcie_cfg_space_read_byte :: "memory \<Rightarrow> pcie_state \<Rightarrow> d_pcie_func \<Rightarrow> u64 \<Rightarrow> u8 res" where
  "d_pcie_cfg_space_read_byte mem st f off =
     rbind (func_group f st) (\<lambda>g. cfg_space_read_byte mem g (fn_bus f) (fn_dev f) (fn_fun f) off)"

definition d_pcie_cfg_space_read_word :: "memory \<Rightarrow> pcie_state \<Rightarrow> d_pcie_func \<Rightarrow> u64 \<Rightarrow> u16 res" where
  "d_pcie_cfg_space_read_word mem st f off =
     rbind (func_group f st) (\<lambda>g. cfg_space_read_word mem g (fn_bus f) (fn_dev f) (fn_fun f) off)"

definition d_pcie_cfg_space_read_dword :: "memory \<Rightarrow> pcie_state \<Rightarrow> d_pcie_func \<Rightarrow> u64 \<Rightarrow> u32 res" where
  "d_pcie_cfg_space_read_dword mem st f off =
     rbind (func_group f st) (\<lambda>g. cfg_space_read_dword mem g (fn_bus f) (fn_dev f) (fn_fun f) off)"

definition d_pcie_cfg_space_write_dword :: "pcie_state \<Rightarrow> d_pcie_func \<Rightarrow> u64 \<Rightarrow> u32 \<Rightarrow> memory \<Rightarrow> memory res" where
  "d_pcie_cfg_space_write_dword st f off val mem =
     rbind (func_group f st) (\<lambda>g. cfg_space_write_dword g (fn_bus f) (fn_dev f) (fn_fun f) off val mem)"

subsection \<open>Names\<close>

definition device_name_8086 :: "u16 \<Rightarrow> u16 \<Rightarrow> string res" where
  "device_name_8086 vendor device =
     kassert (vendor = 0x8086) (Ret (
      if device = 0x1911 then ''Xeon Core Processor Gaussian Mixture Model''
      else       if device = 0x2918 then ''82801IB (ICH9) LPC Interface Controller''
      else       if device = 0x2922 then ''82801IR/IO/IH (ICH9R/DO/DH) 6 port SATA Controller [AHCI mode]''
      else       if device = 0x2930 then ''82801I (ICH9 Family) SMBus Controller''
      else       if device = 0x29c0 then ''82G33/G31/P35/P31 Express DRAM Controller''
      else       if device = 0x3ea5 then ''CoffeeLake-U GT3e [Iris Plus Graphics 655]''
      else       if device = 0x3ed0 then ''8th Gen Core Processor Host Bridge/DRAM Registers''
      else       if device = 0x10d3 then ''82574L Gigabit Network Connection''
      else       if device = 0x5845 then ''QEMU NVM Express Controller''
      else       if device = 0x9de0 then ''Cannon Point-LP MEI Controller #1''
      else       if device = 0x9ded then ''Cannon Point-LP USB 3.1 xHCI Controller''
      else       if device = 0x9def then ''Cannon Point-LP Shared SRAM''
      else       if device = 0x9df0 then ''Cannon Point-LP CNVi [Wireless-AC]''
      else       if device = 0x9df9 then ''Cannon Point-LP Thermal Controller''
      else ''Unknown''))"

definition device_name_1234 :: "u16 \<Rightarrow> u16 \<Rightarrow> string res" where
  "device_name_1234 vendor device =
     kassert (vendor = 0x1234) (Ret (
      if device = 0x1111 then ''QEMU Virtual Video Controller''
      else ''Unknown''))"

text \<open>The two out parameters are a pair; \<open>None\<close> is the null pointer.\<close>

definition iden_lookup :: "u16 \<Rightarrow> u16 \<Rightarrow> (string option \<times> string option) res" where
  "iden_lookup vendor device =
     (if vendor = 0x10EC then Ret (Some ''Realtek Semiconductor Co., Ltd.'', None)
      else if vendor = 0x1234 then
        rbind (device_name_1234 vendor device) (\<lambda>d. Ret (Some ''Technical Corp'', Some d))
      else if vendor = 0x15b7 then
        Ret (Some ''Sandisk Corp'', if device = 0x5009 then Some ''WD Blue SN550 NVMe SSD'' else None)
      else if vendor = 0x8086 then
        rbind (device_name_8086 vendor device) (\<lambda>d. Ret (Some ''Intel'', Some d))
      else Ret (None, None))"

definition iden_name :: "u16 \<Rightarrow> u16 \<Rightarrow> (string \<times> string) res" where
  "iden_name vendor device =
     rbind (iden_lookup vendor device) (\<lambda>(vname, dname).
     Ret (case vname of None \<Rightarrow> ''Unknown vendor'' | Some v \<Rightarrow> v,
          case dname of None \<Rightarrow> ''Unknown device'' | Some d \<Rightarrow> d))"

text \<open>The dash in three of the names is the UTF-8 sequence of U+2013.\<close>

definition EN_DASH :: string where
  "EN_DASH = [CHR 0xE2, CHR 0x80, CHR 0x93]"

definition class_lookup :: "u8 \<Rightarrow> u8 \<Rightarrow> u8 \<Rightarrow> string option res" where
  "class_lookup base sub pi =
       (if base = 0x00 then (if sub = 0x00 then Ret (Some (''Old device''))
          else Stop (KernelPanic ''TODO''))
        else if base = 0x01 then (if sub = 0x08 then (if pi = 0x02 then Ret (Some (''NVM Express (NVMe) I/O controller''))
            else Ret None)
          else if sub = 0x06 then (if pi = 0x01 then Ret (Some (''Serial ATA controller - AHCI interface''))
            else Ret None)
          else Ret None)
        else if base = 0x02 then (if sub = 0x00 then (if pi = 0x00 then Ret (Some (''Ethernet controller''))
            else Ret None)
          else if sub = 0x80 then (if pi = 0x00 then Ret (Some (''Other network controller''))
            else Ret None)
          else Ret None)
        else if base = 0x03 then (if sub = 0x00 then (if pi = 0x00 then Ret (Some (''VGA-compatible controller''))
            else Ret None)
          else Ret None)
        else if base = 0x04 then (if sub = 0x00 then (if pi = 0x00 then Ret (Some (''Video device '' @ EN_DASH @ '' vendor specific interface''))
            else Ret None)
          else if sub = 0x01 then (if pi = 0x00 then Ret (Some (''Audio device '' @ EN_DASH @ '' vendor specific interface''))
            else Ret None)
          else if sub = 0x02 then (if pi = 0x00 then Ret (Some (''Computer telephony device '' @ EN_DASH @ '' vendor specific interface''))
            else Ret None)
          else if sub = 0x03 then (if pi = 0x00 then Ret (Some (''High Definition Audio 1.0 compatible''))
            else if pi = 0x80 then Ret (Some (''High Definition Audio 1.0 compatible with vendor extensions''))
            else Ret None)
          else if sub = 0x80 then (if pi = 0x00 then Ret (Some (''Other multimedia device '' @ EN_DASH @ '' vendor specific interface''))
            else Ret None)
          else Ret None)
        else if base = 0x05 then (if sub = 0x00 then (if pi = 0x00 then Ret (Some (''RAM''))
            else Ret None)
          else Ret None)
        else if base = 0x06 then (if sub = 0x00 then (if pi = 0x00 then Ret (Some (''Host bridge''))
            else Ret None)
          else if sub = 0x01 then (if pi = 0x00 then Ret (Some (''ISA bridge''))
            else Ret None)
          else if sub = 0x02 then Ret None
          else if sub = 0x03 then Ret None
          else if sub = 0x04 then (if pi = 0x00 then Ret (Some (''PCI-to-PCI bridge''))
            else if pi = 0x01 then Ret (Some (''Subtractive Decode PCI-to-PCI bridge''))
            else Ret None)
          else if sub = 0x05 then Ret None
          else if sub = 0x06 then Ret None
          else if sub = 0x07 then Ret None
          else if sub = 0x08 then Ret None
          else if sub = 0x09 then Ret None
          else if sub = 0x0A then Ret None
          else if sub = 0x0B then Ret None
          else if sub = 0x80 then Ret None
          else Ret None)
        else if base = 0x07 then (if sub = 0x00 then (if pi = 0x00 then Ret (Some (''Generic XT-compatible serial controller''))
            else if pi = 0x01 then Ret (Some (''16450-compatible serial controller''))
            else if pi = 0x02 then Ret (Some (''16550-compatible serial controller''))
            else if pi = 0x03 then Ret (Some (''16650-compatible serial controller''))
            else if pi = 0x04 then Ret (Some (''16750-compatible serial controller''))
            else if pi = 0x05 then Ret (Some (''16850-compatible serial controller''))
            else if pi = 0x06 then Ret (Some (''16950-compatible serial controller''))
            else Ret None)
          else if sub = 0x01 then Ret None
          else if sub = 0x02 then Ret None
          else if sub = 0x03 then Ret None
          else if sub = 0x04 then Ret None
          else if sub = 0x05 then Ret None
          else if sub = 0x80 then (if pi = 0x00 then Ret (Some (''Other communications device''))
            else Ret None)
          else Ret None)
        else if base = 0x08 then (if sub = 0x80 then (if pi = 0x00 then Ret (Some (''Other system peripheral''))
            else Ret None)
          else Ret None)
        else if base = 0x0C then (if sub = 0x00 then Ret None
          else if sub = 0x01 then Ret None
          else if sub = 0x02 then Ret None
          else if sub = 0x03 then (if pi = 0x30 then Ret (Some (''USB Controller following Intel xHCI specification''))
            else Ret None)
          else if sub = 0x04 then Ret None
          else if sub = 0x05 then (if pi = 0x00 then Ret (Some (''System Management Bus''))
            else Ret None)
          else if sub = 0x06 then Ret None
          else if sub = 0x07 then Ret None
          else if sub = 0x08 then Ret None
          else if sub = 0x09 then Ret None
          else if sub = 0x0A then Ret None
          else if sub = 0x80 then (if pi = 0x00 then Ret (Some (''Other Serial Bus Controllers''))
            else Ret None)
          else Ret None)
        else if base = 0x11 then (if sub = 0x80 then (if pi = 0x00 then Ret (Some (''Other data acquisition/signal processing controllers''))
            else Ret None)
          else Ret None)
        else if base = 0xff then Ret (Some (''Device does not fit in any defined classes''))
        else Ret None)"

definition class_name :: "u8 \<Rightarrow> u8 \<Rightarrow> u8 \<Rightarrow> string res" where
  "class_name base sub pi =
     rbind (class_lookup base sub pi) (\<lambda>name. Ret (case name of None \<Rightarrow> ''Unknown class'' | Some n \<Rightarrow> n))"

subsection \<open>Accessors\<close>

definition d_pcie_get_func_cnt :: "pcie_state \<Rightarrow> nat res" where
  "d_pcie_get_func_cnt st = kassert (length (funcs st) < FUNCTIONS_CAP) (Ret (length (funcs st)))"

definition d_pcie_get_func :: "pcie_state \<Rightarrow> nat \<Rightarrow> d_pcie_func res" where
  "d_pcie_get_func st idx = inbounds (idx < length (funcs st)) (Ret (funcs st ! idx))"

definition d_pcie_func_get_base_class :: "d_pcie_func \<Rightarrow> u8" where
  "d_pcie_func_get_base_class f = base_class f"

definition d_pcie_func_get_sub_class :: "d_pcie_func \<Rightarrow> u8" where
  "d_pcie_func_get_sub_class f = sub_class f"

definition d_pcie_func_get_vendor_name :: "d_pcie_func \<Rightarrow> string res" where
  "d_pcie_func_get_vendor_name f = rbind (iden_name (vendor_id f) (device_id f)) (\<lambda>(vname, dname). Ret vname)"

definition d_pcie_func_get_device_name :: "d_pcie_func \<Rightarrow> string res" where
  "d_pcie_func_get_device_name f = rbind (iden_name (vendor_id f) (device_id f)) (\<lambda>(vname, dname). Ret dname)"

definition d_pcie_group_get_cnt :: "pcie_state \<Rightarrow> u64" where
  "d_pcie_group_get_cnt st = group_cnt st"

definition d_pcie_group_get_cfg_pa :: "pcie_state \<Rightarrow> u64 \<Rightarrow> u64 res" where
  "d_pcie_group_get_cfg_pa st idx =
     kassert (idx < group_cnt st)
       (inbounds (unat idx < length (groups st)) (Ret (cfg_space_base_pa (groups st ! unat idx))))"

definition d_pcie_group_get_cfg_len :: u64 where
  "d_pcie_group_get_cfg_len = CONFIG_SPACE_ALIGN"

subsection \<open>The scan\<close>

definition bootstrap_fun :: "memory \<Rightarrow> nat \<Rightarrow> d_pcie_group \<Rightarrow> u64 \<Rightarrow> u64 \<Rightarrow> u64 \<Rightarrow> pcie_state \<Rightarrow> pcie_state res" where
  "bootstrap_fun mem gi grp bus dev fn st =
     rbind (cfg_space_read_word mem grp bus dev fn 0) (\<lambda>vendor.
     if vendor \<noteq> 0xFFFF then
       inbounds (length (funcs st) < FUNCTIONS_CAP)
       (rbind (cfg_space_read_word mem grp bus dev fn 2) (\<lambda>device.
        rbind (cfg_space_read_byte mem grp bus dev fn 0x0E) (\<lambda>htype.
        rbind (cfg_space_read_byte mem grp bus dev fn 11) (\<lambda>base.
        rbind (cfg_space_read_byte mem grp bus dev fn 10) (\<lambda>sub.
        rbind (cfg_space_read_byte mem grp bus dev fn 9) (\<lambda>pi.
        rbind (iden_name vendor device) (\<lambda>_.
        rbind (class_name base sub pi) (\<lambda>_.
        Ret (st\<lparr>funcs := funcs st @
          [\<lparr>fn_group = gi, fn_bus = bus, fn_dev = dev, fn_fun = fn, vendor_id = vendor, device_id = device,
            header_type = htype, base_class = base, sub_class = sub, fn_pi = pi\<rparr>]\<rparr>)))))))))
     else Ret st)"

definition bootstrap_dev :: "memory \<Rightarrow> nat \<Rightarrow> d_pcie_group \<Rightarrow> u64 \<Rightarrow> u64 \<Rightarrow> pcie_state \<Rightarrow> pcie_state res" where
  "bootstrap_dev mem gi grp bus dev st =
     rbind (cfg_space_read_word mem grp bus dev 0 0) (\<lambda>vendor.
     if vendor \<noteq> 0xFFFF then
       rbind (cfg_space_read_byte mem grp bus dev 0 0x0E) (\<lambda>htype.
       rbind (byte_bit_get htype 7) (\<lambda>multi.
       let fun_cnt = (if multi then 8 else 1) in
       count_loop 0 fun_cnt (\<lambda>fn. bootstrap_fun mem gi grp bus dev (of_nat fn)) st))
     else Ret st)"

definition read_group :: "memory \<Rightarrow> u64 \<Rightarrow> d_pcie_group" where
  "read_group mem a =
     \<lparr>cfg_space_base_pa = mem_u64 mem a, group_no = mem_u16 mem (a + 8), bus_start = mem (a + 10), bus_end = mem (a + 11),
      reserved = mem_u32 mem (a + 12)\<rparr>"

definition bootstrap_group :: "memory \<Rightarrow> u64 \<Rightarrow> nat \<Rightarrow> pcie_state \<Rightarrow> pcie_state res" where
  "bootstrap_group mem mcfg i st =
     (let g = read_group mem (mcfg + of_nat i * 16);
          st = st\<lparr>groups := groups st @ [g]\<rparr> in
      rbind (mm_align_check (cfg_space_base_pa g) CONFIG_SPACE_ALIGN) (\<lambda>ok.
      kassert ok
      (count_loop (unat (bus_start g)) (unat (bus_end g) - unat (bus_start g))
        (\<lambda>bus. count_loop 0 32 (\<lambda>dev. bootstrap_dev mem i g (of_nat bus) (of_nat dev))) st)))"

definition d_pcie_bootstrap :: "memory \<Rightarrow> u64 \<Rightarrow> u64 \<Rightarrow> pcie_state \<Rightarrow> pcie_state res" where
  "d_pcie_bootstrap mem mcfg len st =
     kassert (len \<ge> 16)
     (kassert (len mod 16 = 0)
     (kassert (mcfg \<noteq> 0)
     (let cnt = len div 16 in
      kassert (cnt \<le> GROUP_CAP)
      (count_loop 0 (unat cnt) (bootstrap_group mem mcfg)
         (st\<lparr>groups := [], group_cnt := cnt, funcs := []\<rparr>)))))"

subsection \<open>The layout of the configuration space\<close>

lemma u64_bit_less: "unat (w::u64) < 2 ^ k \<Longrightarrow> bit w n \<Longrightarrow> n < k"
proof (rule ccontr)
  assume w: "unat w < 2 ^ k" "bit w n" "\<not> n < k"
  have "(2::nat) ^ k \<le> 2 ^ n" using w(3) by (intro power_increasing) auto
  then have "unat w < 2 ^ n" using w(1) by linarith
  then have "unat w div 2 ^ n = 0" by (rule div_less)
  moreover have "bit (unat w) n" using w(2) by (simp add: bit_unsigned_iff)
  ultimately show False by (simp add: bit_iff_odd)
qed

lemma u64_bit_aligned: "2 ^ k dvd unat (w::u64) \<Longrightarrow> bit w n \<Longrightarrow> k \<le> n"
proof (rule ccontr)
  assume w: "2 ^ k dvd unat w" "bit w n" "\<not> k \<le> n"
  then obtain q where q: "unat w = 2 ^ k * q" by blast
  have "(2::nat) ^ k = 2 ^ n * 2 ^ (k - n)" using w(3) by (simp flip: power_add)
  then have "unat w div 2 ^ n = 2 ^ (k - n) * q" using q by simp
  moreover have "even ((2::nat) ^ (k - n))" using w(3) by simp
  moreover have "bit (unat w) n" using w(2) by (simp add: bit_unsigned_iff)
  ultimately show False by (simp add: bit_iff_odd)
qed

text \<open>Joining by \<open>OR\<close> a multiple of \<open>2^k\<close> and a value below \<open>2^k\<close> is addition.\<close>

lemma u64_or_add:
  assumes "2 ^ k dvd unat (a::u64)" "unat (b::u64) < 2 ^ k" "unat a + unat b < 18446744073709551616"
  shows "unat (a OR b) = unat a + unat b"
proof -
  have "a AND b = 0" 
    by (rule bit_word_eqI) (use u64_bit_aligned [OF assms(1)] u64_bit_less [OF assms(2)] in \<open>fastforce simp: bit_and_iff\<close>)
  then have "a OR b = a + b" by (rule disjunctive_add_eq_or [symmetric])
  then show ?thesis using assms(3) by (simp add: unat_u64_add)
qed

lemma unat_push_bit: "unat (w::u64) * 2 ^ n < 18446744073709551616 \<Longrightarrow> n < 64 \<Longrightarrow> unat (push_bit n w) = unat w * 2 ^ n"
  by (simp add: push_bit_eq_mult unat_u64_mult unat_u64_2p)

lemma cfg_space_pa_unat:
  assumes base: "2 ^ 28 dvd unat (cfg_space_base_pa g)" and b: "unat bus < 256" "unat dev < 32" "unat fn < 8" "unat off < 4096"
  shows "\<exists>pa. cfg_space_pa g bus dev fn off = Ret pa \<and>
    unat pa = unat (cfg_space_base_pa g) + (unat bus * 2 ^ 20 + unat dev * 2 ^ 15 + unat fn * 2 ^ 12 + unat off)"
proof -
  let ?b = "cfg_space_base_pa g"
  obtain q where q: "unat ?b = 2 ^ 28 * q" using base by blast
  have top: "unat ?b + 2 ^ 28 \<le> 18446744073709551616" using unat_u64_bound [of ?b] q by simp
  have p: "unat (push_bit 20 bus) = unat bus * 2 ^ 20" "unat (push_bit 15 dev) = unat dev * 2 ^ 15" "unat (push_bit 12 fn) = unat fn * 2 ^ 12"
    by (rule unat_push_bit; use b in simp)+
  have 1: "unat (?b OR push_bit 20 bus) = unat ?b + unat bus * 2 ^ 20"
    using base b(1) p(1) top by (subst u64_or_add [of 28]) auto
  have "2 ^ 20 dvd unat ?b" using q by (intro dvdI [of _ _ "2 ^ 8 * q"]) simp
  then have d20: "2 ^ 20 dvd unat ?b + unat bus * 2 ^ 20" by simp
  have 2: "unat ((?b OR push_bit 20 bus) OR push_bit 15 dev) = unat ?b + unat bus * 2 ^ 20 + unat dev * 2 ^ 15"
    using d20 b p(2) top 1 by (subst u64_or_add [of 20]) auto
  have "2 ^ 15 dvd unat ?b + unat bus * 2 ^ 20" using d20 by (rule dvd_trans [rotated]) (rule le_imp_power_dvd, simp)
  then have d15: "2 ^ 15 dvd unat ?b + unat bus * 2 ^ 20 + unat dev * 2 ^ 15" by simp
  have 3: "unat (((?b OR push_bit 20 bus) OR push_bit 15 dev) OR push_bit 12 fn) = unat ?b + unat bus * 2 ^ 20 + unat dev * 2 ^ 15 + unat fn * 2 ^ 12"
    using d15 b p(3) top 2 by (subst u64_or_add [of 15]) auto
  have "2 ^ 12 dvd unat ?b + unat bus * 2 ^ 20 + unat dev * 2 ^ 15" using d15 by (rule dvd_trans [rotated]) (rule le_imp_power_dvd, simp)
  then have d12: "2 ^ 12 dvd unat ?b + unat bus * 2 ^ 20 + unat dev * 2 ^ 15 + unat fn * 2 ^ 12" by simp
  have 4: "unat ((((?b OR push_bit 20 bus) OR push_bit 15 dev) OR push_bit 12 fn) OR off) =
      unat ?b + unat bus * 2 ^ 20 + unat dev * 2 ^ 15 + unat fn * 2 ^ 12 + unat off"
    using d12 b top 3 by (subst u64_or_add [of 12]) auto
  have "?b mod CONFIG_SPACE_ALIGN = 0" using base by (auto simp: u64_eq_iff_unat unat_mod CONFIG_SPACE_ALIGN_def)
  then have "mm_align_check ?b CONFIG_SPACE_ALIGN = Ret True" by (simp add: mm_align_check_def CONFIG_SPACE_ALIGN_def)
  then show ?thesis using b 4
    by (simp add: cfg_space_pa_def BUS_MAX_def DEVICE_MAX_def FUNCTION_MAX_def word_less_nat_alt Let_def)
qed

text \<open>Bus, device, function and offset are the digits of the address.\<close>

lemma mixed_radix_unique:
  fixes x y x' y' :: nat
  assumes "y < m" "y' < m" "x * m + y = x' * m + y'"
  shows "x = x'" "y = y'"
proof -
  have "(x * m + y) div m = x" "(x' * m + y') div m = x'" using assms(1,2) by auto
  then show "x = x'" using assms(3) by simp
  then show "y = y'" using assms(3) by simp
qed

lemma bdf_unique:
  fixes b d f r b' d' f' r' :: nat
  assumes "d < 32" "f < 8" "r < 4096" "d' < 32" "f' < 8" "r' < 4096"
    and "b * 2 ^ 20 + d * 2 ^ 15 + f * 2 ^ 12 + r = b' * 2 ^ 20 + d' * 2 ^ 15 + f' * 2 ^ 12 + r'"
  shows "b = b' \<and> d = d' \<and> f = f' \<and> r = r'"
proof -
  have "((b * 32 + d) * 8 + f) * 4096 + r = ((b' * 32 + d') * 8 + f') * 4096 + r'" using assms(7) by simp
  from mixed_radix_unique [OF assms(3,6) this] have 1: "(b * 32 + d) * 8 + f = (b' * 32 + d') * 8 + f'" "r = r'" .
  from mixed_radix_unique [OF assms(2,5) 1(1)] have 2: "b * 32 + d = b' * 32 + d'" "f = f'" .
  from mixed_radix_unique [OF assms(1,4) 2(1)] 1 2 show ?thesis by simp
qed

text \<open>
  The address of a register in the configuration space lies in the 256 MB of its group, and two
  registers of a group have the same address only if bus, device, function and offset are the same.
\<close>

theorem cfg_space_pa_layout:
  assumes "2 ^ 28 dvd unat (cfg_space_base_pa g)" "unat bus < 256" "unat dev < 32" "unat fn < 8" "unat off < 4096"
    and "unat bus' < 256" "unat dev' < 32" "unat fn' < 8" "unat off' < 4096"
  shows "\<exists>pa pa'. cfg_space_pa g bus dev fn off = Ret pa \<and> cfg_space_pa g bus' dev' fn' off' = Ret pa' \<and>
    unat (cfg_space_base_pa g) \<le> unat pa \<and> unat pa < unat (cfg_space_base_pa g) + unat d_pcie_group_get_cfg_len \<and>
    (pa = pa' \<longleftrightarrow> bus = bus' \<and> dev = dev' \<and> fn = fn' \<and> off = off')"
proof -
  obtain pa where pa: "cfg_space_pa g bus dev fn off = Ret pa"
    "unat pa = unat (cfg_space_base_pa g) + (unat bus * 2 ^ 20 + unat dev * 2 ^ 15 + unat fn * 2 ^ 12 + unat off)"
    using cfg_space_pa_unat [OF assms(1-5)] by blast
  obtain pa' where pa': "cfg_space_pa g bus' dev' fn' off' = Ret pa'"
    "unat pa' = unat (cfg_space_base_pa g) + (unat bus' * 2 ^ 20 + unat dev' * 2 ^ 15 + unat fn' * 2 ^ 12 + unat off')"
    using cfg_space_pa_unat [OF assms(1,6-9)] by blast
  have "pa = pa' \<longleftrightarrow> bus = bus' \<and> dev = dev' \<and> fn = fn' \<and> off = off'"
  proof
    assume "pa = pa'"
    then have "unat bus * 2 ^ 20 + unat dev * 2 ^ 15 + unat fn * 2 ^ 12 + unat off =
        unat bus' * 2 ^ 20 + unat dev' * 2 ^ 15 + unat fn' * 2 ^ 12 + unat off'" using pa(2) pa'(2) by simp
    from bdf_unique [OF assms(3-5,7-9) this] show "bus = bus' \<and> dev = dev' \<and> fn = fn' \<and> off = off'"
      by (simp only: u64_eq_iff_unat)
  qed (use pa(1) pa'(1) in simp)
  moreover have "unat pa < unat (cfg_space_base_pa g) + 2 ^ 28" unfolding pa(2) using assms(2-5) by simp
  ultimately show ?thesis using pa pa'(1) by (auto simp: d_pcie_group_get_cfg_len_def CONFIG_SPACE_ALIGN_def)
qed

theorem cfg_space_pa_layout_witness:
  "\<exists>pa pa'. cfg_space_pa \<lparr>cfg_space_base_pa = 0xB0000000, group_no = 0, bus_start = 0, bus_end = 255, reserved = 0\<rparr> 1 2 3 4 = Ret pa \<and>
     cfg_space_pa \<lparr>cfg_space_base_pa = 0xB0000000, group_no = 0, bus_start = 0, bus_end = 255, reserved = 0\<rparr> 1 2 4 4 = Ret pa' \<and> pa \<noteq> pa'"
proof -
  have "2 ^ 28 dvd unat (0xB0000000 :: u64)" by (simp add: dvd_def)
  then show ?thesis
    using cfg_space_pa_layout [of "\<lparr>cfg_space_base_pa = 0xB0000000, group_no = 0, bus_start = 0, bus_end = 255, reserved = 0\<rparr>" 1 2 3 4 1 2 4 4]
    by auto
qed

subsection \<open>What the scan finds\<close>

text \<open>
  The reference: a device is present if the vendor of its function 0 is not \<open>0xFFFF\<close>; it has eight
  functions if bit 7 of its header type is set and one otherwise; and those of them are recorded whose
  vendor is not \<open>0xFFFF\<close>, in the order of groups, buses, devices and functions.
\<close>

definition cfg_addr :: "d_pcie_group \<Rightarrow> nat \<Rightarrow> nat \<Rightarrow> nat \<Rightarrow> u64 \<Rightarrow> u64" where
  "cfg_addr g b d f off = cfg_space_base_pa g + (of_nat (b * 2 ^ 20 + d * 2 ^ 15 + f * 2 ^ 12) + off)"

definition func_at :: "memory \<Rightarrow> nat \<Rightarrow> d_pcie_group \<Rightarrow> nat \<Rightarrow> nat \<Rightarrow> nat \<Rightarrow> d_pcie_func" where
  "func_at mem gi g b d f =
     \<lparr>fn_group = gi, fn_bus = of_nat b, fn_dev = of_nat d, fn_fun = of_nat f,
      vendor_id = mem_u16 mem (cfg_addr g b d f 0), device_id = mem_u16 mem (cfg_addr g b d f 2),
      header_type = mem (cfg_addr g b d f 0x0E), base_class = mem (cfg_addr g b d f 11),
      sub_class = mem (cfg_addr g b d f 10), fn_pi = mem (cfg_addr g b d f 9)\<rparr>"

definition present :: "memory \<Rightarrow> d_pcie_group \<Rightarrow> nat \<Rightarrow> nat \<Rightarrow> nat \<Rightarrow> bool" where
  "present mem g b d f \<longleftrightarrow> mem_u16 mem (cfg_addr g b d f 0) \<noteq> 0xFFFF"

definition fun_cnt :: "memory \<Rightarrow> d_pcie_group \<Rightarrow> nat \<Rightarrow> nat \<Rightarrow> nat" where
  "fun_cnt mem g b d = (if \<not> present mem g b d 0 then 0 else if bit (mem (cfg_addr g b d 0 0x0E)) 7 then 8 else 1)"

definition scan_fun :: "memory \<Rightarrow> nat \<Rightarrow> d_pcie_group \<Rightarrow> nat \<Rightarrow> nat \<Rightarrow> nat \<Rightarrow> d_pcie_func list" where
  "scan_fun mem gi g b d f = (if present mem g b d f then [func_at mem gi g b d f] else [])"

definition scan_dev :: "memory \<Rightarrow> nat \<Rightarrow> d_pcie_group \<Rightarrow> nat \<Rightarrow> nat \<Rightarrow> d_pcie_func list" where
  "scan_dev mem gi g b d = concat (map (scan_fun mem gi g b d) [0..<fun_cnt mem g b d])"

definition scan_group :: "memory \<Rightarrow> nat \<Rightarrow> d_pcie_group \<Rightarrow> d_pcie_func list" where
  "scan_group mem gi g =
     concat (map (\<lambda>b. concat (map (scan_dev mem gi g b) [0..<32])) [unat (bus_start g)..<unat (bus_start g) + (unat (bus_end g) - unat (bus_start g))])"

definition group_at :: "memory \<Rightarrow> u64 \<Rightarrow> nat \<Rightarrow> d_pcie_group" where
  "group_at mem mcfg i = read_group mem (mcfg + of_nat i * 16)"

definition scan :: "memory \<Rightarrow> u64 \<Rightarrow> nat \<Rightarrow> d_pcie_func list" where
  "scan mem mcfg n = concat (map (\<lambda>i. scan_group mem i (group_at mem mcfg i)) [0..<n])"

text \<open>The combination of base class 0 with a subclass makes \<open>class_name\<close> panic.\<close>

definition named :: "d_pcie_func \<Rightarrow> bool" where
  "named f \<longleftrightarrow> (base_class f = 0 \<longrightarrow> sub_class f = 0)"

definition room_for :: "d_pcie_func list \<Rightarrow> pcie_state \<Rightarrow> bool" where
  "room_for fs st \<longleftrightarrow> length (funcs st) + length fs \<le> FUNCTIONS_CAP \<and> (\<forall>f \<in> set fs. named f)"

definition add_funcs :: "d_pcie_func list \<Rightarrow> pcie_state \<Rightarrow> pcie_state" where
  "add_funcs fs st = st\<lparr>funcs := funcs st @ fs\<rparr>"

lemma add_funcs_laws:
  "add_funcs [] st = st" "add_funcs ys (add_funcs xs st) = add_funcs (xs @ ys) st"
  "room_for (xs @ ys) st \<Longrightarrow> room_for xs st \<and> room_for ys (add_funcs xs st)"
  by (auto simp: add_funcs_def room_for_def)

lemmas funcs_loop = count_loop_collect [where room = room_for and add = add_funcs, OF _ add_funcs_laws]

lemma cfg_space_pa_addr:
  assumes "2 ^ 28 dvd unat (cfg_space_base_pa g)" "b < 256" "d < 32" "f < 8" "unat off < 4096"
  shows "cfg_space_pa g (of_nat b) (of_nat d) (of_nat f) off = Ret (cfg_addr g b d f off)"
proof -
  have u: "unat (of_nat b :: u64) = b" "unat (of_nat d :: u64) = d" "unat (of_nat f :: u64) = f" using assms(2-4) by (simp_all add: unat_of_nat)
  obtain pa where pa: "cfg_space_pa g (of_nat b) (of_nat d) (of_nat f) off = Ret pa"
    "unat pa = unat (cfg_space_base_pa g) + (b * 2 ^ 20 + d * 2 ^ 15 + f * 2 ^ 12 + unat off)"
    using cfg_space_pa_unat [OF assms(1), of "of_nat b" "of_nat d" "of_nat f" off] assms(2-5) u by auto
  have "pa = of_nat (unat pa)" by simp
  also have "\<dots> = cfg_addr g b d f off" unfolding pa(2) cfg_addr_def by simp
  finally show ?thesis using pa(1) by simp
qed

lemma class_name_named: "named f \<Longrightarrow> \<exists>n. class_name (base_class f) (sub_class f) p = Ret n"
proof -
  assume n: "named f"
  have "\<exists>x. class_lookup (base_class f) (sub_class f) p = Ret x"
  proof (cases "base_class f = 0")
    case True
    then show ?thesis using n by (simp add: class_lookup_def named_def)
  next
    case False
    then show ?thesis unfolding class_lookup_def by (simp only: if_False) (simp split: if_splits del: split_paired_Ex)
  qed
  then show ?thesis by (auto simp: class_name_def)
qed

lemma iden_name_total: "\<exists>v. iden_name vendor device = Ret v"
  by (simp add: iden_name_def iden_lookup_def device_name_1234_def device_name_8086_def)

lemma bootstrap_fun_scans:
  assumes g: "2 ^ 28 dvd unat (cfg_space_base_pa g)" and b: "b < 256" "d < 32" "f < 8" and room: "room_for (scan_fun mem gi g b d f) st"
  shows "bootstrap_fun mem gi g (of_nat b) (of_nat d) (of_nat f) st = Ret (add_funcs (scan_fun mem gi g b d f) st)"
proof -
  note pa = cfg_space_pa_addr [OF g b]
  have rw: "cfg_space_read_word mem g (of_nat b) (of_nat d) (of_nat f) off = Ret (mem_u16 mem (cfg_addr g b d f off))"
    if "off = 0 \<or> off = 2" for off
    using that by (auto simp: cfg_space_read_word_def pa CONFIG_SPACE_SIZE_def)
  have rb: "cfg_space_read_byte mem g (of_nat b) (of_nat d) (of_nat f) off = Ret (mem (cfg_addr g b d f off))" if "unat off < 4096" for off
    using that by (simp add: cfg_space_read_byte_def pa CONFIG_SPACE_SIZE_def word_less_nat_alt)
  show ?thesis
  proof (cases "present mem g b d f")
    case False
    then show ?thesis by (simp add: bootstrap_fun_def rw present_def scan_fun_def add_funcs_laws(1))
  next
    case True
    then have r: "length (funcs st) < FUNCTIONS_CAP" "named (func_at mem gi g b d f)"
      using room by (auto simp: room_for_def scan_fun_def)
    obtain n where n: "class_name (mem (cfg_addr g b d f 11)) (mem (cfg_addr g b d f 10)) (mem (cfg_addr g b d f 9)) = Ret n"
      using class_name_named [OF r(2)] by (auto simp: func_at_def)
    obtain v where "iden_name (mem_u16 mem (cfg_addr g b d f 0)) (mem_u16 mem (cfg_addr g b d f 2)) = Ret v"
      using iden_name_total by blast
    then show ?thesis using True r(1) n
      by (simp add: bootstrap_fun_def rw rb present_def scan_fun_def add_funcs_def func_at_def)
  qed
qed

lemma byte_bit_7: "byte_bit_get w 7 = Ret (bit w 7)"
proof -
  have "w AND push_bit 7 1 \<noteq> 0 \<longleftrightarrow> bit w 7"
    by (metis and_exp_eq_0_iff_not_bit push_bit_of_1)
  then show ?thesis by (simp add: byte_bit_get_def)
qed

lemma bootstrap_dev_scans:
  assumes g: "2 ^ 28 dvd unat (cfg_space_base_pa g)" and b: "b < 256" "d < 32" and room: "room_for (scan_dev mem gi g b d) st"
  shows "bootstrap_dev mem gi g (of_nat b) (of_nat d) st = Ret (add_funcs (scan_dev mem gi g b d) st)"
proof -
  note pa = cfg_space_pa_addr [OF g b, of 0, simplified]
  have rw: "cfg_space_read_word mem g (of_nat b) (of_nat d) 0 0 = Ret (mem_u16 mem (cfg_addr g b d 0 0))"
    by (simp add: cfg_space_read_word_def pa CONFIG_SPACE_SIZE_def)
  have rb: "cfg_space_read_byte mem g (of_nat b) (of_nat d) 0 0x0E = Ret (mem (cfg_addr g b d 0 0x0E))"
    by (simp add: cfg_space_read_byte_def pa CONFIG_SPACE_SIZE_def)
  have le: "fun_cnt mem g b d \<le> 8" by (simp add: fun_cnt_def)
  have loop: "count_loop 0 (fun_cnt mem g b d) (\<lambda>fn. bootstrap_fun mem gi g (of_nat b) (of_nat d) (of_nat fn)) st =
      Ret (add_funcs (scan_dev mem gi g b d) st)"
  proof -
    have "count_loop 0 (fun_cnt mem g b d) (\<lambda>fn. bootstrap_fun mem gi g (of_nat b) (of_nat d) (of_nat fn)) st =
        Ret (add_funcs (concat (map (scan_fun mem gi g b d) [0..<0 + fun_cnt mem g b d])) st)"
    proof (rule funcs_loop)
      fix k u
      assume "k < 0 + fun_cnt mem g b d" "room_for (scan_fun mem gi g b d k) u"
      then show "bootstrap_fun mem gi g (of_nat b) (of_nat d) (of_nat k) u = Ret (add_funcs (scan_fun mem gi g b d k) u)"
        using le by (intro bootstrap_fun_scans [OF g b]) auto
    next
      show "room_for (concat (map (scan_fun mem gi g b d) [0..<0 + fun_cnt mem g b d])) st"
        using room unfolding scan_dev_def by simp
    qed
    then show ?thesis by (simp only: add_0 scan_dev_def)
  qed
  show ?thesis
  proof (cases "present mem g b d 0")
    case False
    then show ?thesis by (simp add: bootstrap_dev_def rw present_def scan_dev_def fun_cnt_def add_funcs_laws(1))
  next
    case True
    then have "fun_cnt mem g b d = (if bit (mem (cfg_addr g b d 0 0x0E)) 7 then 8 else 1)" by (simp add: fun_cnt_def)
    then show ?thesis using True loop by (simp add: bootstrap_dev_def rw rb present_def byte_bit_7 Let_def)
  qed
qed

lemma bootstrap_group_scans:
  assumes g: "2 ^ 28 dvd unat (cfg_space_base_pa (group_at mem mcfg i))" and room: "room_for (scan_group mem i (group_at mem mcfg i)) st"
  shows "bootstrap_group mem mcfg i st =
    Ret (add_funcs (scan_group mem i (group_at mem mcfg i)) (st\<lparr>groups := groups st @ [group_at mem mcfg i]\<rparr>))"
proof -
  let ?g = "group_at mem mcfg i" and ?st = "st\<lparr>groups := groups st @ [group_at mem mcfg i]\<rparr>"
  have room': "room_for (scan_group mem i ?g) ?st" using room by (simp add: room_for_def)
  have lt: "unat (bus_end ?g) < 256" using unsigned_less [of "bus_end ?g", where 'a = nat] by simp
  let ?body = "\<lambda>bus. count_loop 0 32 (\<lambda>dev. bootstrap_dev mem i ?g (of_nat bus) (of_nat dev))"
  let ?f = "\<lambda>b. concat (map (scan_dev mem i ?g b) [0..<32])"
  have bus: "?body b u = Ret (add_funcs (?f b) u)" if "b < 256" "room_for (?f b) u" for b u
  proof -
    have "?body b u = Ret (add_funcs (concat (map (scan_dev mem i ?g b) [0..<0 + 32])) u)"
    proof (rule funcs_loop)
      fix k v
      assume "k < 0 + 32" "room_for (scan_dev mem i ?g b k) v"
      then show "bootstrap_dev mem i ?g (of_nat b) (of_nat k) v = Ret (add_funcs (scan_dev mem i ?g b k) v)"
        by (intro bootstrap_dev_scans [OF g that(1)]) auto
    next
      show "room_for (concat (map (scan_dev mem i ?g b) [0..<0 + 32])) u" using that(2) by (simp only: add_0)
    qed
    then show ?thesis by (simp only: add_0)
  qed
  have "count_loop (unat (bus_start ?g)) (unat (bus_end ?g) - unat (bus_start ?g)) ?body ?st = Ret (add_funcs (scan_group mem i ?g) ?st)"
    unfolding scan_group_def
  proof (rule funcs_loop)
    fix k u
    assume k: "unat (bus_start ?g) \<le> k" "k < unat (bus_start ?g) + (unat (bus_end ?g) - unat (bus_start ?g))" and r: "room_for (?f k) u"
    then have "k < 256" using lt by linarith
    then show "?body k u = Ret (add_funcs (?f k) u)" using r by (rule bus)
  qed (assumption, rule room' [unfolded scan_group_def])
  moreover have "mm_align_check (cfg_space_base_pa ?g) CONFIG_SPACE_ALIGN = Ret True"
    using g by (auto simp: mm_align_check_def CONFIG_SPACE_ALIGN_def u64_eq_iff_unat unat_mod)
  ultimately show ?thesis by (simp add: bootstrap_group_def group_at_def Let_def)
qed

text \<open>The same for groups: a round appends a group and its functions.\<close>

definition add_groups :: "(d_pcie_group \<times> d_pcie_func list) list \<Rightarrow> pcie_state \<Rightarrow> pcie_state" where
  "add_groups gs st = add_funcs (concat (map snd gs)) (st\<lparr>groups := groups st @ map fst gs\<rparr>)"

lemma add_groups_laws:
  "add_groups [] st = st" "add_groups ys (add_groups xs st) = add_groups (xs @ ys) st"
  "room_for (concat (map snd (xs @ ys))) st \<Longrightarrow> room_for (concat (map snd xs)) st \<and> room_for (concat (map snd ys)) (add_groups xs st)"
  by (auto simp: add_groups_def add_funcs_def room_for_def)

lemma groups_scan:
  assumes g: "\<And>i. i < n \<Longrightarrow> 2 ^ 28 dvd unat (cfg_space_base_pa (group_at mem mcfg i))" and room: "room_for (scan mem mcfg n) st"
  shows "count_loop 0 n (bootstrap_group mem mcfg) st =
    Ret (add_funcs (scan mem mcfg n) (st\<lparr>groups := groups st @ map (group_at mem mcfg) [0..<n]\<rparr>))"
proof -
  let ?f = "\<lambda>i. [(group_at mem mcfg i, scan_group mem i (group_at mem mcfg i))]"
  have snd: "concat (map snd (concat (map ?f js))) = concat (map (\<lambda>i. scan_group mem i (group_at mem mcfg i)) js)"
    "map fst (concat (map ?f js)) = map (group_at mem mcfg) js" for js
    by (induction js) auto
  have "count_loop 0 n (bootstrap_group mem mcfg) st = Ret (add_groups (concat (map ?f [0..<0 + n])) st)"
  proof (rule count_loop_collect [where room = "\<lambda>xs. room_for (concat (map snd xs))", OF _ add_groups_laws])
    fix k u
    assume "k < 0 + n" "room_for (concat (map snd (?f k))) u"
    then show "bootstrap_group mem mcfg k u = Ret (add_groups (?f k) u)"
      using bootstrap_group_scans [OF g] by (simp add: add_groups_def)
  next
    show "room_for (concat (map snd (concat (map ?f [0..<0 + n])))) st" using room unfolding scan_def by (simp only: snd add_0)
  qed
  then show ?thesis by (simp only: add_0 add_groups_def snd scan_def)
qed

subsection \<open>Properties of the scan\<close>

definition mcfg_ok :: "memory \<Rightarrow> u64 \<Rightarrow> u64 \<Rightarrow> bool" where
  "mcfg_ok mem mcfg len \<longleftrightarrow> 16 \<le> len \<and> len mod 16 = 0 \<and> mcfg \<noteq> 0 \<and> len div 16 \<le> 8 \<and>
     (\<forall>i < unat (len div 16). 2 ^ 28 dvd unat (cfg_space_base_pa (group_at mem mcfg i)))"

lemma scan_recorded:
  assumes "mcfg_ok mem mcfg len" "length (scan mem mcfg (unat (len div 16))) \<le> 128" "\<forall>f \<in> set (scan mem mcfg (unat (len div 16))). named f"
  shows "d_pcie_bootstrap mem mcfg len st =
    Ret (st\<lparr>groups := map (group_at mem mcfg) [0..<unat (len div 16)], group_cnt := len div 16, funcs := scan mem mcfg (unat (len div 16))\<rparr>)"
proof -
  let ?st = "st\<lparr>groups := [], group_cnt := len div 16, funcs := []\<rparr>"
  have "room_for (scan mem mcfg (unat (len div 16))) ?st" using assms(2,3) by (simp add: room_for_def FUNCTIONS_CAP_def)
  then have "count_loop 0 (unat (len div 16)) (bootstrap_group mem mcfg) ?st =
      Ret (add_funcs (scan mem mcfg (unat (len div 16))) (?st\<lparr>groups := groups ?st @ map (group_at mem mcfg) [0..<unat (len div 16)]\<rparr>))"
    using assms(1) by (intro groups_scan) (auto simp: mcfg_ok_def)
  then show ?thesis using assms(1) by (simp add: d_pcie_bootstrap_def mcfg_ok_def GROUP_CAP_def Let_def add_funcs_def)
qed

text \<open>
  C19: for a well-formed MCFG table, if the functions present are at most 128 and none has base class 0
  with a subclass, \<open>d_pcie_bootstrap\<close> returns, and it has recorded exactly the groups of the table and the
  functions the reference scan finds, in its order.
\<close>

theorem d_pcie_bootstrap_scans:
  assumes "mcfg_ok mem mcfg len" "length (scan mem mcfg (unat (len div 16))) \<le> 128" "\<forall>f \<in> set (scan mem mcfg (unat (len div 16))). named f"
  shows "d_pcie_bootstrap mem mcfg len st =
    Ret (st\<lparr>groups := map (group_at mem mcfg) [0..<unat (len div 16)], group_cnt := len div 16, funcs := scan mem mcfg (unat (len div 16))\<rparr>)"
  by (rule scan_recorded [OF assms])

text \<open>
  A table at \<open>0x100\<close> with one group, of bus 0, at \<open>0xB0000000\<close>. On this bus device 3 has the functions 0 and 2, both
  of them NVMe controllers; everything else reads as ones.
\<close>

definition sample_cfg :: "u64 \<Rightarrow> u8" where
  "sample_cfg off =
     (if off = 0 then 0x86 else if off = 1 then 0x80 else if off = 2 then 0x45 else if off = 3 then 0x58
      else if off = 9 then 2 else if off = 10 then 8 else if off = 11 then 1 else if off = 14 then 0x80 else 0)"

definition sample_mcfg :: memory where
  "sample_mcfg a =
     (if drop_bit 12 a = 0 then if a = 0x103 then 0xB0 else if a = 0x10B then 1 else 0
      else if drop_bit 12 a = 0xB0018 \<or> drop_bit 12 a = 0xB001A then sample_cfg (a AND 0xfff)
      else 0xFF)"

abbreviation sample_group :: d_pcie_group where
  "sample_group \<equiv> \<lparr>cfg_space_base_pa = 0xB0000000, group_no = 0, bus_start = 0, bus_end = 1, reserved = 0\<rparr>"

abbreviation sample_nvme :: "u64 \<Rightarrow> d_pcie_func" where
  "sample_nvme f \<equiv> \<lparr>fn_group = 0, fn_bus = 0, fn_dev = 3, fn_fun = f, vendor_id = 0x8086, device_id = 0x5845, header_type = 0x80,
     base_class = 1, sub_class = 8, fn_pi = 2\<rparr>"

text \<open>The configuration space of this bus in any memory that holds it.\<close>

definition sample_bus :: "memory \<Rightarrow> bool" where
  "sample_bus m \<longleftrightarrow> (\<forall>p. drop_bit 20 p = 0xB00 \<longrightarrow> m p = sample_mcfg p)"

lemma sample_reads:
  assumes "sample_bus m" "d < 32" "f < 8" "unat off < 4096"
  shows "m (cfg_addr sample_group 0 d f off) = (if d = 3 \<and> (f = 0 \<or> f = 2) then sample_cfg off else 0xFF)"
proof -
  let ?a = "cfg_addr sample_group 0 d f off" and ?n = "0xB0000 + 8 * d + f"
  have "unat (of_nat (d * 32768 + f * 4096) :: u64) = d * 32768 + f * 4096" using assms by (subst unat_of_nat) simp
  then have "unat (of_nat (d * 32768 + f * 4096) + off) = d * 32768 + f * 4096 + unat off" using assms by (subst unat_u64_add) auto
  then have a: "unat ?a = 4096 * ?n + unat off" using assms by (simp add: cfg_addr_def unat_u64_add)
  have n: "unat (drop_bit 12 ?a) = ?n" using assms(4) by (simp add: drop_bit_eq_div unat_div a)
  have "unat (drop_bit 20 ?a) = unat ?a div 1048576" by (simp add: drop_bit_eq_div unat_div)
  also have "\<dots> = 0xB00" unfolding a using assms(2-4) by (intro div_nat_eqI) auto
  finally have "m ?a = sample_mcfg ?a" using assms(1) by (simp add: sample_bus_def u64_eq_iff_unat)
  have m: "(0xfff :: u64) = mask 12" by (simp add: mask_eq_exp_minus_1)
  have "unat ?a mod 4096 = unat off" using assms(4) by (simp only: a mod_mult_self4 mod_less)
  then have "?a AND 0xfff = off" unfolding m by (simp add: u64_eq_iff_unat take_bit_eq_mod unat_mod flip: take_bit_eq_mask)
  moreover have "?n = 0xB0018 \<or> ?n = 0xB001A \<longleftrightarrow> d = 3 \<and> (f = 0 \<or> f = 2)" using assms(2,3) by presburger
  ultimately have "drop_bit 12 ?a = 0xB0018 \<or> drop_bit 12 ?a = 0xB001A \<longleftrightarrow> d = 3 \<and> (f = 0 \<or> f = 2)" "drop_bit 12 ?a \<noteq> 0" "?a AND 0xfff = off"
    using n by (auto simp: u64_eq_iff_unat)
  then show ?thesis unfolding \<open>m ?a = sample_mcfg ?a\<close> by (simp only: sample_mcfg_def if_False)
qed

lemma sample_scan_group:
  assumes m: "sample_bus m"
  shows "scan_group m 0 sample_group = [sample_nvme 0, sample_nvme 2]"
proof -
  note reads = sample_reads [OF m]
  have off: "cfg_addr g b d f off + 1 = cfg_addr g b d f (off + 1)" for g b d f off by (simp add: cfg_addr_def add.assoc)
  have u16: "mem_u16 m (cfg_addr sample_group 0 d f off) =
      (if d = 3 \<and> (f = 0 \<or> f = 2) then ucast (sample_cfg off) + 256 * ucast (sample_cfg (off + 1)) else 0xFFFF)"
    if "d < 32" "f < 8" "unat off < 4000" for d f off
    using that reads [of d f off] reads [of d f "off + 1"] by (cases "d = 3 \<and> (f = 0 \<or> f = 2)") (auto simp: mem_u16_def off unat_u64_add)
  have present: "present m sample_group 0 d f \<longleftrightarrow> d = 3 \<and> (f = 0 \<or> f = 2)" if "d < 32" "f < 8" for d f
    using u16 [OF that, of 0] by (auto simp: present_def sample_cfg_def)
  have none: "scan_dev m 0 sample_group 0 d = []" if "d < 32" "d \<noteq> 3" for d
    using present [of d 0] that by (simp add: scan_dev_def fun_cnt_def)
  have cnt: "fun_cnt m sample_group 0 3 = 8"
    using present [of 3 0] reads [of 3 0 14] by (simp add: fun_cnt_def sample_cfg_def)
  have at: "func_at m 0 sample_group 0 3 f = sample_nvme (of_nat f)" if "f = 0 \<or> f = 2" for f
    using that u16 [of 3 f 0] u16 [of 3 f 2] reads [of 3 f 14] reads [of 3 f 11] reads [of 3 f 10] reads [of 3 f 9]
    by (auto simp: func_at_def sample_cfg_def)
  have eight: "[0..<8] = [0, 1, 2, 3, 4, 5, 6, 7 :: nat]" by (simp add: upt_rec)
  have three: "scan_dev m 0 sample_group 0 3 = [sample_nvme 0, sample_nvme 2]"
    using at [of 0] at [of 2] present [of 3] by (simp add: scan_dev_def cnt eight scan_fun_def)
  have rest: "concat (map (scan_dev m 0 sample_group 0) ds) = []" if "\<forall>d \<in> set ds. d < 32 \<and> d \<noteq> 3" for ds
    using that none by auto
  have "[0..<32] = [0..<3] @ 3 # [4..<32 :: nat]" using upt_add_eq_append [of 0 3 29] by (simp add: upt_conv_Cons)
  then have "concat (map (scan_dev m 0 sample_group 0) [0..<32]) = [sample_nvme 0, sample_nvme 2]"
    using rest [of "[0..<3]"] rest [of "[4..<32]"] three by auto
  then show ?thesis by (simp add: scan_group_def)
qed

lemma sample_scan: "group_at sample_mcfg 0x100 0 = sample_group" "scan sample_mcfg 0x100 1 = [sample_nvme 0, sample_nvme 2]"
proof -
  show g: "group_at sample_mcfg 0x100 0 = sample_group"
    by (simp add: group_at_def read_group_def mem_le_def mem_u16_def le_value_def sample_mcfg_def upt_rec)
  show "scan sample_mcfg 0x100 1 = [sample_nvme 0, sample_nvme 2]"
    using g sample_scan_group [of sample_mcfg] by (simp add: scan_def sample_bus_def)
qed

theorem d_pcie_bootstrap_scans_witness:
  "d_pcie_bootstrap sample_mcfg 0x100 16 \<lparr>groups = [], group_cnt = 0, funcs = []\<rparr> =
     Ret \<lparr>groups = [sample_group], group_cnt = 1, funcs = [sample_nvme 0, sample_nvme 2]\<rparr>"
proof -
  have "2 ^ 28 dvd unat (0xB0000000 :: u64)" by (simp add: dvd_def)
  then have "mcfg_ok sample_mcfg 0x100 16" using sample_scan(1) by (simp add: mcfg_ok_def)
  from d_pcie_bootstrap_scans [OF this] sample_scan show ?thesis by (simp add: named_def)
qed

text \<open>
  The array of functions has no bound check: if a device with more functions than places left is
  found, \<open>bootstrap_fun\<close> writes behind its end.
\<close>

theorem bootstrap_fun_overruns:
  assumes "2 ^ 28 dvd unat (cfg_space_base_pa g)" "b < 256" "d < 32" "f < 8" "present mem g b d f" "128 \<le> length (funcs st)"
  shows "bootstrap_fun mem gi g (of_nat b) (of_nat d) (of_nat f) st = Stop OutOfBounds"
proof -
  have "cfg_space_read_word mem g (of_nat b) (of_nat d) (of_nat f) 0 = Ret (mem_u16 mem (cfg_addr g b d f 0))"
    using assms(1-4) by (simp add: cfg_space_read_word_def cfg_space_pa_addr CONFIG_SPACE_SIZE_def)
  then show ?thesis using assms(5,6) by (simp add: bootstrap_fun_def present_def FUNCTIONS_CAP_def)
qed

theorem bootstrap_fun_overruns_witness:
  "bootstrap_fun (\<lambda>_. 0) 0 \<lparr>cfg_space_base_pa = 0, group_no = 0, bus_start = 0, bus_end = 1, reserved = 0\<rparr> (of_nat 0) (of_nat 3) (of_nat 0)
     \<lparr>groups = [], group_cnt = 0, funcs = replicate 128 (func_at (\<lambda>_. 0) 0 \<lparr>cfg_space_base_pa = 0, group_no = 0, bus_start = 0, bus_end = 1, reserved = 0\<rparr> 0 0 0)\<rparr> =
   Stop OutOfBounds"
  by (rule bootstrap_fun_overruns) (simp_all add: present_def mem_u16_def)

end
