(* ===== verification/Drivers_Vesa.thy ===== *)
theory Drivers_Vesa
  imports Kernel_Loops
begin

text \<open>
  \<open>src/src/drivers/drivers_vesa.c\<close>: the linear frame buffer. The state are the four static variables; the
  frame buffer itself is memory, \<open>_depth\<close> bytes per pixel in rows of \<open>_width\<close> pixels.
\<close>

record vesa_state =
  vesa_buf :: u64
  vesa_width :: u64
  vesa_height :: u64
  vesa_depth :: u64

definition d_vesa_draw_pixel :: "vesa_state \<Rightarrow> u64 \<Rightarrow> u64 \<Rightarrow> u8 \<Rightarrow> u8 \<Rightarrow> u8 \<Rightarrow> memory \<Rightarrow> memory res" where
  "d_vesa_draw_pixel v x y red green blue mem =
     kassert (x < vesa_width v)
     (kassert (y < vesa_height v)
       (let idx = (y * vesa_width v + x) * vesa_depth v; b = vesa_buf v in
        Ret (mem(b + idx := blue, b + (idx + 1) := green, b + (idx + 2) := red))))"

definition d_vesa_get_frame_buffer :: "vesa_state \<Rightarrow> u64" where
  "d_vesa_get_frame_buffer v = vesa_buf v"

definition d_vesa_set_frame_buffer :: "u64 \<Rightarrow> vesa_state \<Rightarrow> vesa_state" where
  "d_vesa_set_frame_buffer fb v = v\<lparr>vesa_buf := fb\<rparr>"

definition d_vesa_get_frame_buffer_len :: "vesa_state \<Rightarrow> u64" where
  "d_vesa_get_frame_buffer_len v = vesa_width v * vesa_height v * vesa_depth v"

definition d_vesa_get_width :: "vesa_state \<Rightarrow> u64" where
  "d_vesa_get_width v = vesa_width v"

definition d_vesa_get_height :: "vesa_state \<Rightarrow> u64" where
  "d_vesa_get_height v = vesa_height v"

text \<open>The boot loader's description: \<open>paddr\<close> at 0, \<open>width\<close> at 12, \<open>height\<close> at 16, \<open>depth\<close> at 20,
  \<open>colour_type\<close> at 21 and \<open>reserved\<close> at 22.\<close>

definition d_vesa_bootstrap :: "memory \<Rightarrow> u64 \<Rightarrow> u64 \<Rightarrow> vesa_state \<Rightarrow> vesa_state res" where
  "d_vesa_bootstrap mem fb fb_len v =
     kassert (mem (fb + 21) = 1)
     (kassert (mem (fb + 20) = 32)
     (kassert (mem (fb + 22) = 0)
     (kassert (fb_len = 30)
       (let depth = ucast (mem (fb + 20)) :: u64 in
        kassert (depth mod 8 = 0)
          (Ret (v\<lparr>vesa_buf := mem_u64 mem fb, vesa_width := mem_le 4 mem (fb + 12), vesa_height := mem_le 4 mem (fb + 16),
                 vesa_depth := depth div 8\<rparr>))))))"

subsection \<open>Pixels\<close>

text \<open>The driver is set up: four bytes per pixel, and the frame buffer does not wrap around.\<close>

definition vesa_ok :: "vesa_state \<Rightarrow> bool" where
  "vesa_ok v \<longleftrightarrow> vesa_depth v = 4 \<and>
     unat (vesa_buf v) + unat (vesa_width v) * unat (vesa_height v) * 4 \<le> 18446744073709551616 \<and>
     unat (vesa_width v) * unat (vesa_height v) * 4 < 18446744073709551616"

definition pixel_addr :: "vesa_state \<Rightarrow> u64 \<Rightarrow> u64 \<Rightarrow> u64" where
  "pixel_addr v x y = vesa_buf v + (y * vesa_width v + x) * 4"

lemma pixel_bound:
  fixes x y w h :: nat
  assumes "x < w" "y < h"
  shows "y * w + x < w * h"
proof -
  have "Suc y * w \<le> h * w" using assms(2) by (intro mult_le_mono1) simp
  then show ?thesis using assms(1) by (simp add: mult.commute)
qed

lemma pixel_unat:
  assumes ok: "vesa_ok v" and xy: "x < vesa_width v" "y < vesa_height v"
  shows "unat (pixel_addr v x y) = unat (vesa_buf v) + (unat y * unat (vesa_width v) + unat x) * 4"
    "(unat y * unat (vesa_width v) + unat x) * 4 + 4 \<le> unat (d_vesa_get_frame_buffer_len v)"
proof -
  let ?w = "unat (vesa_width v)" and ?h = "unat (vesa_height v)"
  have lt: "unat y * ?w + unat x < ?w * ?h" using xy by (intro pixel_bound) (auto simp: word_less_nat_alt)
  have b: "?w * ?h * 4 < 18446744073709551616" "unat (vesa_buf v) + ?w * ?h * 4 \<le> 18446744073709551616" "vesa_depth v = 4"
    using ok by (auto simp: vesa_ok_def)
  have 1: "unat (y * vesa_width v) = unat y * ?w" using lt b by (intro unat_u64_mult) linarith
  then have 2: "unat (y * vesa_width v + x) = unat y * ?w + unat x" using lt b by (subst unat_u64_add) linarith+
  then have 3: "unat ((y * vesa_width v + x) * 4) = (unat y * ?w + unat x) * 4" using lt b by (subst unat_u64_mult) auto
  show "unat (pixel_addr v x y) = unat (vesa_buf v) + (unat y * ?w + unat x) * 4"
    unfolding pixel_addr_def 3 [symmetric]
  proof (rule unat_u64_add)
    have "(unat y * ?w + unat x) * 4 < ?w * ?h * 4" using lt by simp
    then show "unat (vesa_buf v) + unat ((y * vesa_width v + x) * 4) < 18446744073709551616" unfolding 3 using b(2) by linarith
  qed
  have "unat (vesa_width v * vesa_height v) = ?w * ?h" using b by (intro unat_u64_mult) linarith
  then have "unat (d_vesa_get_frame_buffer_len v) = ?w * ?h * 4"
    unfolding d_vesa_get_frame_buffer_len_def b(3) using b by (subst unat_u64_mult) auto
  moreover have "Suc (unat y * ?w + unat x) * 4 \<le> ?w * ?h * 4" using lt by (intro mult_le_mono1) simp
  ultimately show "(unat y * ?w + unat x) * 4 + 4 \<le> unat (d_vesa_get_frame_buffer_len v)" by simp
qed

lemma pixel_offset:
  assumes "vesa_ok v" "x < vesa_width v" "y < vesa_height v" "unat k < 4"
  shows "unat (pixel_addr v x y + k) = unat (pixel_addr v x y) + unat k"
proof -
  have "unat (pixel_addr v x y) + 4 \<le> 18446744073709551616"
    using pixel_unat [OF assms(1-3)] assms(1) unat_u64_bound [of "d_vesa_get_frame_buffer_len v"]
    by (auto simp: vesa_ok_def d_vesa_get_frame_buffer_len_def unat_u64_mult)
  then show ?thesis using assms(4) by (intro unat_u64_add) simp
qed

text \<open>
  A pixel inside the screen is drawn into four bytes of the frame buffer, and only three of them are
  written: blue, green and red in this order. The bytes of every other pixel keep their values, so
  what was drawn can be read back, and memory outside the frame buffer is not touched.
\<close>

theorem d_vesa_draw_pixel_writes:
  assumes ok: "vesa_ok v" and xy: "x < vesa_width v" "y < vesa_height v" and xy': "x' < vesa_width v" "y' < vesa_height v" and k: "unat k < 4"
  shows "\<exists>mem'. d_vesa_draw_pixel v x y red green blue mem = Ret mem' \<and>
    mem' (pixel_addr v x y) = blue \<and> mem' (pixel_addr v x y + 1) = green \<and> mem' (pixel_addr v x y + 2) = red \<and>
    (\<forall>a. unat a < unat (d_vesa_get_frame_buffer v) \<or> unat (d_vesa_get_frame_buffer v) + unat (d_vesa_get_frame_buffer_len v) \<le> unat a \<longrightarrow> mem' a = mem a) \<and>
    ((x, y) \<noteq> (x', y') \<longrightarrow> mem' (pixel_addr v x' y' + k) = mem (pixel_addr v x' y' + k))"
proof -
  let ?p = "pixel_addr v x y" and ?q = "pixel_addr v x' y'" and ?w = "unat (vesa_width v)"
  let ?mem = "mem(?p := blue, ?p + 1 := green, ?p + 2 := red)"
  have d: "vesa_depth v = 4" using ok by (simp add: vesa_ok_def)
  have run: "d_vesa_draw_pixel v x y red green blue mem = Ret ?mem"
    using xy d by (simp add: d_vesa_draw_pixel_def pixel_addr_def Let_def add.assoc)
  note off = pixel_offset [OF ok xy] pixel_offset [OF ok xy']
  have p: "unat (?p + 1) = unat ?p + 1" "unat (?p + 2) = unat ?p + 2" using off(1) [of 1] off(1) [of 2] by auto
  have "?p \<noteq> ?p + 1" "?p \<noteq> ?p + 2" "?p + 1 \<noteq> ?p + 2" by auto
  moreover have "?mem a = mem a" if "unat a < unat (vesa_buf v) \<or> unat (vesa_buf v) + unat (d_vesa_get_frame_buffer_len v) \<le> unat a" for a
    using that pixel_unat [OF ok xy] p by (auto simp: u64_eq_iff_unat)
  moreover have "?mem (?q + k) = mem (?q + k)" if ne: "(x, y) \<noteq> (x', y')"
  proof -
    have w: "unat x < ?w" "unat x' < ?w" using xy xy' by (auto simp: word_less_nat_alt)
    have "unat y * ?w + unat x \<noteq> unat y' * ?w + unat x'"
    proof
      assume eq: "unat y * ?w + unat x = unat y' * ?w + unat x'"
      have "(unat y * ?w + unat x) div ?w = unat y" "(unat y' * ?w + unat x') div ?w = unat y'" using w by auto
      then have "unat y = unat y'" using eq by simp
      then show False using eq ne by (auto simp: u64_eq_iff_unat)
    qed
    then have "unat ?q + unat k \<noteq> unat ?p" "unat ?q + unat k \<noteq> unat ?p + 1" "unat ?q + unat k \<noteq> unat ?p + 2"
      using pixel_unat(1) [OF ok xy] pixel_unat(1) [OF ok xy'] k by presburger+
    then show ?thesis using off(2) [OF k] p by (auto simp: u64_eq_iff_unat)
  qed
  ultimately show ?thesis using run by (auto simp: d_vesa_get_frame_buffer_def)
qed

definition sample_vesa :: vesa_state where
  "sample_vesa = \<lparr>vesa_buf = 0xFD000000, vesa_width = 1024, vesa_height = 768, vesa_depth = 4\<rparr>"

theorem d_vesa_draw_pixel_writes_witness:
  "\<exists>mem'. d_vesa_draw_pixel sample_vesa 10 20 1 2 3 (\<lambda>_. 0) = Ret mem' \<and> mem' (pixel_addr sample_vesa 10 20 + 1) = 2"
proof -
  have "vesa_ok sample_vesa" by (simp add: vesa_ok_def sample_vesa_def)
  from d_vesa_draw_pixel_writes [OF this, of 10 20 0 0 0 1 2 3 "\<lambda>_. 0"] show ?thesis by (auto simp: sample_vesa_def)
qed

end
