(* ===== verification/Mm_Boot.thy ===== *)
theory Mm_Boot
  imports Mm_Allocator Drivers_Pcie Drivers_Vesa
begin

text \<open>
  The rest of \<open>src/src/mm/mm_page.c\<close> and of \<open>src/src/mm/mm.c\<close>: the early identity map, unmapping, the
  setup of the direct access window, the higher-half mappings, and the two bootstrap entry points.

  In the early stage virtual and physical addresses are the same, so tables are read and written
  directly in physical memory. The static tables of the kernel image (\<open>_tab_4\<close>, \<open>_direct_tab_space\<close>)
  stay identity mapped afterwards and are accessed in the same way.
\<close>

subsection \<open>The early map\<close>

text \<open>\<open>_tab_zero\<close> of a table in the early stage.\<close>

definition tab_zero_early :: "u64 \<Rightarrow> 'a mm_state_scheme \<Rightarrow> 'a mm_state_scheme" where
  "tab_zero_early tab s = s\<lparr>pmem := (\<lambda>a. if a - tab < 4096 then 0 else pmem s a)\<rparr>"

definition tab_root_load :: "u64 \<Rightarrow> 'a mm_state_scheme \<Rightarrow> 'a mm_state_scheme res" where
  "tab_root_load p4 s = align_assert p4 PAGE_SIZE_4K (Ret (s\<lparr>cr3 := p4 AND 0x000ffffffffff000\<rparr>))"

text \<open>
  The descent of \<open>_map_early\<close>. The variable \<open>ok\<close> is declared without a value and only set when a table
  is allocated. \<open>uninit\<close> is what a read of it yields before it is set: \<open>None\<close> is the C standard, where the
  read is undefined, and \<open>Some b\<close> a build in which its storage happens to hold \<open>b\<close>.
\<close>

fun map_early_loop ::
  "nat \<Rightarrow> u64 \<Rightarrow> bool option \<Rightarrow> u64 \<Rightarrow> 'a mm_state_scheme \<Rightarrow> (bool option \<times> u64 \<times> 'a mm_state_scheme) res" where
  "map_early_loop lv va ok tab s =
     (if lv > 2 then
        rbind (vadd_tab_index va lv) (\<lambda>entry_idx.
        let entry = tab + 8 * entry_idx in
        if \<not> tab_entry_is_present (pmem s entry) then
          kassert (tab_entry_is_zero (pmem s entry))
          (rbind (mm_frame_alloc_early s) (\<lambda>(frame, s).
           case frame of
             None \<Rightarrow> Ret (Some False, tab, s)
           | Some frame \<Rightarrow>
               kassert (frame \<noteq> 0)
               (rbind (tab_entry_init lv True True frame PAGE_SIZE_4K) (\<lambda>e.
                let s = tab_zero_early frame (pmem_store entry e s) in
                map_early_loop (lv - 1) va (Some True) (tab_entry_get_padd (pmem s entry)) s))))
        else map_early_loop (lv - 1) va ok (tab_entry_get_padd (pmem s entry)) s)
      else Ret (ok, tab, s))"

declare map_early_loop.simps [simp del]

definition map_early :: "bool option \<Rightarrow> u64 \<Rightarrow> u64 \<Rightarrow> 'a mm_state_scheme \<Rightarrow> (bool \<times> 'a mm_state_scheme) res" where
  "map_early uninit va pa s =
     align_assert va PAGE_SIZE_2M
     (align_assert pa PAGE_SIZE_2M
     (rbind (map_early_loop 4 va uninit (tab_4 s) s) (\<lambda>(ok, tab, s).
      case ok of
        None \<Rightarrow> Stop Undefined
      | Some False \<Rightarrow> Ret (False, s)
      | Some True \<Rightarrow>
          rbind (vadd_tab_index va 2) (\<lambda>entry_idx.
          let entry = tab + 8 * entry_idx in
          kassert (tab_entry_is_zero (pmem s entry))
          (rbind (tab_entry_init 2 True True pa PAGE_SIZE_2M) (\<lambda>e. Ret (True, pmem_store entry e s)))))))"

partial_function (option) early_map_loop :: "bool option \<Rightarrow> u64 \<Rightarrow> u64 \<Rightarrow> mm_state \<Rightarrow> (u64 \<times> mm_state) res option" where
  "early_map_loop uninit phy_end va s =
     (if va + PAGE_SIZE_2M < phy_end then
        (case map_early uninit va va s of
           Inl e \<Rightarrow> Some (Inl e)
         | Inr (ok, s) \<Rightarrow> if \<not> ok then Some (Ret (va, s)) else early_map_loop uninit phy_end (va + PAGE_SIZE_2M) s)
      else Some (Ret (va, s)))"

definition mm_page_early_bootstrap :: "bool option \<Rightarrow> u64 \<Rightarrow> u64 \<Rightarrow> mm_state \<Rightarrow> mm_state res" where
  "mm_page_early_bootstrap uninit kernel_start kernel_end s =
     rbind (mm_pa_start s) (\<lambda>phy_start.
     rbind (mm_pa_end s) (\<lambda>phy_end.
     kassert (phy_start < kernel_start)
     (kassert (phy_end > kernel_end)
     (kassert (kernel_start < kernel_end)
       (case early_map_loop uninit phy_end 0 (tab_zero_early (tab_4 s) s) of
          None \<Rightarrow> Stop Diverges
        | Some r \<Rightarrow> rbind r (\<lambda>(va, s). tab_root_load (tab_4 s) (s\<lparr>early_map_end := va\<rparr>)))))))"

subsection \<open>Unmapping\<close>

text \<open>\<open>tab_pa[5]\<close> is a function of the level.\<close>

fun unmap_down :: "nat \<Rightarrow> u64 \<Rightarrow> (nat \<Rightarrow> u64) \<Rightarrow> bool \<Rightarrow> 'a mm_state_scheme \<Rightarrow> (nat \<times> (nat \<Rightarrow> u64) \<times> bool \<times> 'a mm_state_scheme) res" where
  "unmap_down lv va tab_pa huge s =
     (if lv \<ge> 1 then
        rbind (vadd_tab_index va lv) (\<lambda>entry_idx.
        rbind (mm_page_direct_access_setup (tab_pa lv) s) (\<lambda>(tab_va, s).
        let entry = tab_va + 8 * entry_idx in
        rbind (vload entry s) (\<lambda>e.
        kassert (tab_entry_is_present e)
          (let huge = tab_entry_is_huge e in
           kassert (huge \<longrightarrow> lv = 2)
             (let lv = lv - 1; tab_pa = tab_pa(lv := tab_entry_get_padd e) in
              rbind (mm_page_direct_access_reset s) (\<lambda>s.
              if huge then Ret (lv, tab_pa, huge, s) else unmap_down lv va tab_pa huge s))))))
      else Ret (lv, tab_pa, huge, s))"

declare unmap_down.simps [simp del]

text \<open>The 512 frames of a 2 MB page go to the free list one by one.\<close>

partial_function (option) free_2m_loop :: "u64 \<Rightarrow> u64 \<Rightarrow> u64 \<Rightarrow> mm_state \<Rightarrow> mm_state res option" where
  "free_2m_loop pa_end va_freed pa_freed s =
     (if pa_freed < pa_end then
        (case mm_frame_free va_freed pa_freed s of
           Inl e \<Rightarrow> Some (Inl e)
         | Inr s \<Rightarrow> free_2m_loop pa_end (va_freed + PAGE_SIZE_4K) (pa_freed + PAGE_SIZE_4K) s)
      else Some (Ret s))"

text \<open>The way back up, at most four levels; a table that became empty is freed through the window.\<close>

fun unmap_up :: "nat \<Rightarrow> nat \<Rightarrow> u64 \<Rightarrow> (nat \<Rightarrow> u64) \<Rightarrow> mm_state \<Rightarrow> mm_state res" where
  "unmap_up 0 lv va tab_pa s = Ret s"
| "unmap_up (Suc n) lv va tab_pa s =
     rbind (vadd_tab_index va lv) (\<lambda>entry_idx.
     rbind (mm_page_direct_access_setup (tab_pa lv) s) (\<lambda>(tab_va, s).
     let entry = tab_va + 8 * entry_idx in
     rbind (vstore entry 0 s) (\<lambda>s.
     rbind (tab_is_zero tab_va s) (\<lambda>tab_empty.
     rbind (if tab_empty then mm_frame_free tab_va (tab_pa lv) s else Ret s) (\<lambda>s.
     rbind (mm_page_direct_access_reset s) (\<lambda>s.
     if tab_empty then unmap_up n (lv + 1) va tab_pa s else Ret s))))))"

definition unmap :: "u64 \<Rightarrow> u64 \<Rightarrow> bool \<Rightarrow> mm_state \<Rightarrow> (u64 \<times> mm_state) res" where
  "unmap va psize free_frame s =
     align_assert va psize
     (rbind (unmap_down 4 va ((\<lambda>_. 0)(4 := tab_4 s)) False s) (\<lambda>(lv, tab_pa, huge, s).
      let lv = lv + 1 in
      kassert (lv = 1 \<or> lv = 2)
      (rbind (vadd_page_offset va lv) (\<lambda>off.
       let pa = tab_pa (lv - 1) + off in
       rbind (if lv = 1 then
                kassert (psize = PAGE_SIZE_4K)
                (kassert (huge = False)
                (align_assert pa PAGE_SIZE_4K (if free_frame then mm_frame_free va pa s else Ret s)))
              else
                kassert (psize = PAGE_SIZE_2M)
                (kassert (huge = True)
                (align_assert pa PAGE_SIZE_2M
                  (if free_frame then
                     (case free_2m_loop (pa + PAGE_SIZE_2M) va pa s of None \<Rightarrow> Stop Diverges | Some r \<Rightarrow> r)
                   else Ret s)))) (\<lambda>s.
       rbind (unmap_up (5 - lv) lv va tab_pa s) (\<lambda>s. Ret (pa, s)))))))"

subsection \<open>Looking an address up\<close>

text \<open>
  \<open>vadd_get_padd\<close> closes the window before it reads the entry through it. The level after a complete
  descent is 0, which \<open>_vadd_page_offset\<close> does not accept.
\<close>

fun get_padd_loop :: "nat \<Rightarrow> u64 \<Rightarrow> u64 \<Rightarrow> 'a mm_state_scheme \<Rightarrow> (bool \<times> nat \<times> u64 \<times> 'a mm_state_scheme) res" where
  "get_padd_loop lv va tab_pa s =
     (if lv \<ge> 1 then
        rbind (mm_page_direct_access_setup tab_pa s) (\<lambda>(tab_va, s).
        rbind (vadd_tab_index va lv) (\<lambda>enidx.
        let en = tab_va + 8 * enidx in
        rbind (mm_page_direct_access_reset s) (\<lambda>s.
        rbind (vload en s) (\<lambda>e.
        if \<not> tab_entry_is_present e then
          kassert (tab_entry_is_zero e) (Ret (False, lv, tab_pa, s))
        else
          kassert (\<not> tab_entry_is_huge e) (get_padd_loop (lv - 1) va (tab_entry_get_padd e) s)))))
      else Ret (True, lv, tab_pa, s))"

declare get_padd_loop.simps [simp del]

definition vadd_get_padd :: "u64 \<Rightarrow> 'a mm_state_scheme \<Rightarrow> (u64 option \<times> 'a mm_state_scheme) res" where
  "vadd_get_padd va s =
     rbind (get_padd_loop 4 va (tab_4 s) s) (\<lambda>(present, lv, tab_pa, s).
     if present then rbind (vadd_page_offset va lv) (\<lambda>off. Ret (Some (tab_pa + off), s)) else Ret (None, s))"

subsection \<open>The window\<close>

text \<open>
  \<open>(tab_entry_t* )_direct_tab_space + i * PAGE_SIZE_4K\<close> is arithmetic on a pointer to 8-byte entries.
\<close>

definition direct_tab_addr :: "u64 \<Rightarrow> nat \<Rightarrow> u64" where
  "direct_tab_addr space i = space + 8 * (of_nat i * PAGE_SIZE_4K)"

text \<open>
  \<open>_direct_tab_space\<close> has 12288 bytes. Zeroing a table that does not lie in it would write over whatever the
  linker placed there, so the model stops before the first such write.
\<close>

definition direct_tab_inside :: "u64 \<Rightarrow> u64 \<Rightarrow> bool" where
  "direct_tab_inside space tab \<longleftrightarrow> unat (tab - space) + 4096 \<le> 8 * 512 * 3"

definition init_direct_level :: "nat \<Rightarrow> u64 \<Rightarrow> 'a mm_state_scheme \<Rightarrow> (u64 \<times> 'a mm_state_scheme) res" where
  "init_direct_level lv tab s =
     rbind (vadd_tab_index (direct_vadd s) lv) (\<lambda>en_idx.
     let en = tab + 8 * en_idx in
     kassert (\<not> tab_entry_is_present (pmem s en))
     (kassert (tab_entry_is_zero (pmem s en))
       (let tab = direct_tab s ! (lv - 1 - 1) in
        rbind (tab_entry_init lv True True tab PAGE_SIZE_4K) (\<lambda>e.
        inbounds (direct_tab_inside (direct_tab_space s) tab)
          (Ret (tab, tab_zero_early tab (pmem_store en e s)))))))"

text \<open>The levels 4 to 2, over the addresses \<open>_direct_tab\<close> holds.\<close>

definition init_direct_levels :: "'a mm_state_scheme \<Rightarrow> 'a mm_state_scheme res" where
  "init_direct_levels s =
     rbind (init_direct_level 4 (tab_4 s) s) (\<lambda>(tab, s).
     rbind (init_direct_level 3 tab s) (\<lambda>(tab, s).
     rbind (init_direct_level 2 tab s) (\<lambda>(tab, s).
     rbind (vadd_tab_index (direct_vadd s) 1) (\<lambda>en_idx.
     let entry = direct_tab s ! 0 + 8 * en_idx in
     Ret (pmem_store entry 0 (s\<lparr>direct_tab_entry := entry\<rparr>))))))"

definition init_direct_access :: "'a mm_state_scheme \<Rightarrow> 'a mm_state_scheme res" where
  "init_direct_access s =
     (let s = s\<lparr>direct_vadd := VA_48_DIRECT_ACCESS_PAGE\<rparr> in
      align_assert (direct_tab_arr s) PAGE_SIZE_4K
      (let tabs = map (direct_tab_addr (direct_tab_space s)) [0..<3] in
       align_assert (tabs ! 0) PAGE_SIZE_4K
       (align_assert (tabs ! 1) PAGE_SIZE_4K
       (align_assert (tabs ! 2) PAGE_SIZE_4K (init_direct_levels (s\<lparr>direct_tab := tabs\<rparr>))))))"

subsection \<open>The higher-half mappings\<close>

text \<open>
  The stack: 254 pages, each with a fresh frame; the result of \<open>mm_page_map\<close> is not looked at. \<open>sp\<close> is the
  address of the local variable \<open>stack_position\<close>. The copy of the boot stack into the new one is not
  represented, the bytes of the stack are not part of the state.
\<close>

fun stack_loop :: "nat \<Rightarrow> u64 \<Rightarrow> 'a mm_state_scheme \<Rightarrow> 'a mm_state_scheme res" where
  "stack_loop 0 page s = Ret s"
| "stack_loop (Suc n) page s =
     rbind (mm_frame_alloc s) (\<lambda>(r, s).
     case r of
       None \<Rightarrow> Stop AssertFail
     | Some frame_pa \<Rightarrow> rbind (mm_page_map page frame_pa s) (\<lambda>(_, s). stack_loop n (page + PAGE_SIZE_4K) s))"

definition bootstrap_stack_memory :: "u64 \<Rightarrow> u64 \<Rightarrow> u64 \<Rightarrow> 'a mm_state_scheme \<Rightarrow> 'a mm_state_scheme res" where
  "bootstrap_stack_memory sp boot_stack_top boot_stack_bottom s =
     rbind (stack_loop (unat ((VA_48_STACK_BOTTOM - VA_48_STACK_TOP) div PAGE_SIZE_4K) + 1) VA_48_STACK_TOP s) (\<lambda>s.
     align_assert boot_stack_bottom PAGE_SIZE_4K
     (align_assert boot_stack_top PAGE_SIZE_4K
     (kassert (sp > boot_stack_top)
     (kassert (sp < boot_stack_bottom)
       (let stack_len = boot_stack_bottom - sp in
        kassert (stack_len < PAGE_SIZE_4K) (Ret s))))))"

text \<open>A loop that maps consecutive pages and asserts success, as in the two functions that follow.\<close>

partial_function (option) fb_loop :: "u64 \<Rightarrow> u64 \<Rightarrow> u64 \<Rightarrow> mm_state \<Rightarrow> mm_state res option" where
  "fb_loop pa fb_len map_size s =
     (if map_size < fb_len then
        (case mm_page_map (VA_48_FRAME_BUFFER + map_size) (pa + map_size) s of
           Inl e \<Rightarrow> Some (Inl e)
         | Inr (ok, s) \<Rightarrow> if ok = True then fb_loop pa fb_len (map_size + PAGE_SIZE_4K) s else Some (Stop AssertFail))
      else Some (Ret s))"

definition bootstrap_vesa_frame_buffer :: "u64 \<Rightarrow> u64 \<Rightarrow> mm_state \<Rightarrow> vesa_state \<Rightarrow> (mm_state \<times> vesa_state) res" where
  "bootstrap_vesa_frame_buffer fb fb_len s v =
     kassert (fb mod PAGE_SIZE_4K = 0)
       (case fb_loop fb fb_len 0 s of
          None \<Rightarrow> Stop Diverges
        | Some r \<Rightarrow> rbind r (\<lambda>s. Ret (s, d_vesa_set_frame_buffer VA_48_FRAME_BUFFER v)))"

partial_function (option) cfg_loop :: "u64 \<Rightarrow> u64 \<Rightarrow> u64 \<Rightarrow> mm_state \<Rightarrow> (u64 \<times> mm_state) res option" where
  "cfg_loop cfg_end pa va s =
     (if pa < cfg_end then
        if va < VA_48_PCIE_CFG_END then
          (case mm_page_map va pa s of
             Inl e \<Rightarrow> Some (Inl e)
           | Inr (ok, s) \<Rightarrow> if ok = True then cfg_loop cfg_end (pa + PAGE_SIZE_4K) (va + PAGE_SIZE_4K) s else Some (Stop AssertFail))
        else Some (Stop AssertFail)
      else Some (Ret (va, s)))"

definition bootstrap_pcie_cfg_space :: "pcie_state \<Rightarrow> mm_state \<Rightarrow> mm_state res" where
  "bootstrap_pcie_cfg_space pst s =
     rbind (count_loop 0 (unat (d_pcie_group_get_cnt pst)) (\<lambda>i (va, s).
       rbind (d_pcie_group_get_cfg_pa pst (of_nat i)) (\<lambda>cfg_start.
       let cfg_end = cfg_start + d_pcie_group_get_cfg_len in
       case cfg_loop cfg_end cfg_start va s of None \<Rightarrow> Stop Diverges | Some r \<Rightarrow> r)) (VA_48_PCIE_CFG_START, s)) (\<lambda>(va, s). Ret s)"

fun inside_loop :: "nat \<Rightarrow> nat \<Rightarrow> u64 \<Rightarrow> pcie_state \<Rightarrow> bool res" where
  "inside_loop i 0 page pst = Ret False"
| "inside_loop i (Suc n) page pst =
     rbind (d_pcie_group_get_cfg_pa pst (of_nat i)) (\<lambda>cfg_start.
     if page \<ge> cfg_start \<and> page < cfg_start + d_pcie_group_get_cfg_len then Ret True
     else inside_loop (Suc i) n page pst)"

definition bootstrap_pa_inside_pcie_cfg_space :: "u64 \<Rightarrow> pcie_state \<Rightarrow> bool res" where
  "bootstrap_pa_inside_pcie_cfg_space page pst = inside_loop 0 (unat (d_pcie_group_get_cnt pst)) page pst"

text \<open>The loop of \<open>mm_page_bootstrap\<close> that gives up the early map above the kernel.\<close>

partial_function (option) unmap_loop :: "pcie_state \<Rightarrow> u64 \<Rightarrow> u64 \<Rightarrow> u64 \<Rightarrow> u64 \<Rightarrow> mm_state \<Rightarrow> (u64 \<times> mm_state) res option" where
  "unmap_loop pst fb fb_len phy_end at s =
     (if at + PAGE_SIZE_2M < phy_end then
        (case bootstrap_pa_inside_pcie_cfg_space at pst of
           Inl e \<Rightarrow> Some (Inl e)
         | Inr inside \<Rightarrow>
             if \<not> inside then
               let free_frame = (mm_pa_range_valid at (at + PAGE_SIZE_2M) s \<and> (at > fb + fb_len \<or> fb + PAGE_SIZE_2M < fb)) in
               case unmap at PAGE_SIZE_2M free_frame s of
                 Inl e \<Rightarrow> Some (Inl e)
               | Inr (_, s) \<Rightarrow> unmap_loop pst fb fb_len phy_end (at + PAGE_SIZE_2M) s
             else unmap_loop pst fb fb_len phy_end (at + PAGE_SIZE_2M) s)
      else Some (Ret (at, s)))"

definition mm_page_bootstrap ::
  "u64 \<Rightarrow> u64 \<Rightarrow> u64 \<Rightarrow> u64 \<Rightarrow> u64 \<Rightarrow> pcie_state \<Rightarrow> vesa_state \<Rightarrow> mm_state \<Rightarrow> (mm_state \<times> vesa_state) res" where
  "mm_page_bootstrap sp kernel_start kernel_end boot_stack_bottom boot_stack_top pst v s =
     rbind (mm_pa_end s) (\<lambda>phy_end.
     kassert (kernel_start < kernel_end)
     (rbind (init_direct_access s) (\<lambda>s.
      let fb = d_vesa_get_frame_buffer v; fb_len = d_vesa_get_frame_buffer_len v in
      kassert (fb mod PAGE_SIZE_2M = 0)
      (rbind (mm_align_up (kernel_end + 1) PAGE_SIZE_2M) (\<lambda>at.
       case unmap_loop pst fb fb_len phy_end at s of
         None \<Rightarrow> Stop Diverges
       | Some r \<Rightarrow> rbind r (\<lambda>(at, s).
           kassert (at = early_map_end s)
           (rbind (bootstrap_vesa_frame_buffer fb fb_len s v) (\<lambda>(s, v).
            rbind (bootstrap_pcie_cfg_space pst s) (\<lambda>s.
            rbind (bootstrap_stack_memory sp boot_stack_top boot_stack_bottom s) (\<lambda>s. Ret (s, v)))))))))))"

subsection \<open>The entry points\<close>

text \<open>
  The sections of the kernel's ELF image: \<open>num\<close> at 0, \<open>section_size\<close> at 4, the sections from 12 on; of a
  section \<open>type\<close> is at 4, \<open>addr\<close> at 16 and \<open>size\<close> at 32. \<open>fn\<close> is the address of \<open>mm_early_bootstrap\<close>.
\<close>

definition elf_entry :: "u8 list \<Rightarrow> u64 \<Rightarrow> nat \<Rightarrow> u64 \<times> u64 \<Rightarrow> (u64 \<times> u64) res" where
  "elf_entry info sec_size i = (\<lambda>(start, fin).
     let off = 12 + of_nat i * sec_size in
     rbind (ld_u32 info (off + 4)) (\<lambda>type.
     if type \<noteq> 0 then
       rbind (ld_u64 info (off + 16)) (\<lambda>addr.
       rbind (ld_u64 info (off + 32)) (\<lambda>sz.
         Ret (if addr < start then addr else start, if sz + addr > fin then sz + addr else fin)))
     else Ret (start, fin)))"

definition bootstrap_kernel_elf_symbols :: "u64 \<Rightarrow> u8 list \<Rightarrow> 'a mm_state_scheme \<Rightarrow> (u64 \<times> u64) res" where
  "bootstrap_kernel_elf_symbols fn info s =
     rbind (ld_u32 info 0) (\<lambda>sec_cnt.
     rbind (ld_u32 info 4) (\<lambda>sec_size.
     rbind (count_loop 0 (unat sec_cnt) (elf_entry info sec_size) (0xFFFFFFFFFFFFFFFF, 0)) (\<lambda>(start, fin).
     kassert (fin - start < 1024 * 1024 * 1024)
     (kassert (fn < fin)
     (kassert (fn > start)
     (kassert (mm_pa_range_valid start fin s) (Ret (start, fin))))))))"

definition mm_early_bootstrap :: "bool option \<Rightarrow> u64 \<Rightarrow> u8 list \<Rightarrow> u8 list \<Rightarrow> u64 \<Rightarrow> mm_state \<Rightarrow> (u64 \<times> u64 \<times> mm_state) res" where
  "mm_early_bootstrap uninit fn kernel_elf_info mmap_info mmap_info_len s =
     rbind (mm_frame_early_bootstrap mmap_info mmap_info_len s) (\<lambda>s.
     rbind (bootstrap_kernel_elf_symbols fn kernel_elf_info s) (\<lambda>(kernel_start, kernel_end).
     rbind (mm_page_early_bootstrap uninit kernel_start kernel_end s) (\<lambda>s. Ret (kernel_start, kernel_end, s))))"

definition mm_bootstrap ::
  "u64 \<Rightarrow> u64 \<Rightarrow> u64 \<Rightarrow> u64 \<Rightarrow> u64 \<Rightarrow> pcie_state \<Rightarrow> vesa_state \<Rightarrow> all_state \<Rightarrow> (all_state \<times> vesa_state) res" where
  "mm_bootstrap sp kernel_start kernel_end boot_stack_bottom boot_stack_top pst v st =
     rbind (mm_frame_bootstrap (mm (heap st))) (\<lambda>m.
     rbind (mm_page_bootstrap sp kernel_start kernel_end boot_stack_bottom boot_stack_top pst v m) (\<lambda>(m, v).
     let h = mm_heap_bootstrap ((heap st)\<lparr>mm := m\<rparr>) in
     Ret (mm_allocator_bootstrap (st\<lparr>heap := h\<rparr>), v)))"

declare early_map_loop.simps [code] free_2m_loop.simps [code] fb_loop.simps [code] cfg_loop.simps [code] unmap_loop.simps [code]

end
