(* ===== verification/Mm_Boot_Map.thy ===== *)
theory Mm_Boot_Map
  imports Mm_Boot Mm_Sample
begin

text \<open>
  The higher-half mappings that \<open>mm_page_bootstrap\<close> makes: the frame buffer, the configuration space of
  the PCI Express groups, and the kernel stack. Each is a run of consecutive pages.
\<close>

subsection \<open>Runs of pages\<close>

text \<open>
  \<open>pages_mapped old new vp pp n\<close>: of two translations, \<open>new\<close> takes the page \<open>vp j\<close> to the frame \<open>pp j\<close> for
  every \<open>j\<close> below \<open>n\<close>, and every other address to where \<open>old\<close> takes it.
\<close>

definition pages_mapped ::
  "(u64 \<Rightarrow> u64 option) \<Rightarrow> (u64 \<Rightarrow> u64 option) \<Rightarrow> (nat \<Rightarrow> u64) \<Rightarrow> (nat \<Rightarrow> u64) \<Rightarrow> nat \<Rightarrow> bool" where
  "pages_mapped old new vp pp n \<longleftrightarrow>
     (\<forall>j<n. \<forall>v. canonical v \<longrightarrow> same_page v (vp j) \<longrightarrow> new v = Some (pp j + (v AND 0xfff))) \<and>
     (\<forall>v. (\<forall>j<n. \<not> same_page v (vp j)) \<longrightarrow> new v = old v)"

lemma pages_mapped_0 [simp]: "pages_mapped old new vp pp 0 \<longleftrightarrow> new = old"
  by (auto simp: pages_mapped_def)

lemma pages_mapped_cong:
  "(\<And>j. j < n \<Longrightarrow> pp j = pp' j) \<Longrightarrow> pages_mapped old new vp pp n = pages_mapped old new vp pp' n"
  by (auto simp: pages_mapped_def)

lemma pages_mapped_Suc:
  assumes "pages_mapped old new vp pp n" "\<And>j. j < n \<Longrightarrow> \<not> same_page (vp n) (vp j)"
    and new': "\<And>v. new' v = (if canonical v \<and> same_page v (vp n) then Some (pp n + (v AND 0xfff)) else new v)"
    and canon: "\<And>v. \<not> canonical v \<Longrightarrow> new v = old v"
  shows "pages_mapped old new' vp pp (Suc n)"
proof -
  have sym: "same_page v (vp j) \<Longrightarrow> j < n \<Longrightarrow> \<not> same_page v (vp n)" for v j
    using assms(2) [of j] by (auto simp: same_page_def)
  show ?thesis using assms(1) sym canon unfolding pages_mapped_def new' by (auto simp: less_Suc_eq)
qed

context pager
begin

text \<open>Mapping one page more, after \<open>n\<close> pages of a run were mapped.\<close>

lemma map_next:
  assumes "frames u ys" "3 \<le> length ys" "pages_mapped (trans s) (trans u) vp pp n"
    and "mappable (vp n)" "trans s (vp n) = None" "frame_ok (pp n)" "\<And>j. j < n \<Longrightarrow> \<not> same_page (vp n) (vp j)"
    and "\<And>v. \<not> canonical v \<Longrightarrow> trans u v = trans s v"
  shows "\<exists>u' k. pmap (vp n) (pp n) u = Ret (True, u') \<and> k \<le> 3 \<and> frames u' (drop k ys) \<and>
    pages_mapped (trans s) (trans u') vp pp (Suc n) \<and> (\<forall>v. \<not> canonical v \<longrightarrow> trans u' v = trans s v)"
proof -
  have "trans u (vp n) = None" using assms(3,5,7) by (auto simp: pages_mapped_def)
  from map_page [OF assms(1,2,4) this assms(6)] obtain u' k where
    u': "pmap (vp n) (pp n) u = Ret (True, u')" "k \<le> 3" "frames u' (drop k ys)"
      "\<And>v. trans u' v = (if canonical v \<and> same_page v (vp n) then Some (pp n + (v AND 0xfff)) else trans u v)"
    by auto
  have "pages_mapped (trans s) (trans u') vp pp (Suc n)" by (rule pages_mapped_Suc [OF assms(3,7) u'(4) assms(8)])
  moreover have "\<forall>v. \<not> canonical v \<longrightarrow> trans u' v = trans s v" using u'(4) assms(8) by simp
  ultimately show ?thesis using u'(1-3) by blast
qed

text \<open>
  A loop \<open>L\<close> that continues with \<open>L (i + 1)\<close> once page \<open>i\<close> is mapped arrives at \<open>L n\<close> with all pages mapped,
  if three frames per page are free.
\<close>

lemma map_run:
  assumes step: "\<And>i u u'. m \<le> i \<Longrightarrow> i < n \<Longrightarrow> pmap (vp i) (pp i) u = Ret (True, u') \<Longrightarrow> L i u = L (Suc i) u'"
    and pages: "\<And>i. i < n \<Longrightarrow> mappable (vp i) \<and> trans s (vp i) = None \<and> frame_ok (pp i)"
    and inj: "\<And>i j. i < n \<Longrightarrow> j < i \<Longrightarrow> \<not> same_page (vp i) (vp j)"
    and start: "frames u ys" "3 * (n - m) \<le> length ys" "m \<le> n" "pages_mapped (trans s) (trans u) vp pp m"
      "\<And>v. \<not> canonical v \<Longrightarrow> trans u v = trans s v"
  shows "\<exists>u' k. L m u = L n u' \<and> k \<le> 3 * (n - m) \<and> frames u' (drop k ys) \<and>
    pages_mapped (trans s) (trans u') vp pp n \<and> (\<forall>v. \<not> canonical v \<longrightarrow> trans u' v = trans s v)"
  using step start
proof (induction "n - m" arbitrary: m u ys)
  case 0
  then have [simp]: "m = n" by simp
  show ?case using 0 by (intro exI [of _ u] exI [of _ 0]) simp
next
  case (Suc d)
  then have m: "m < n" "n - Suc m = d" by auto
  obtain u' k where u': "pmap (vp m) (pp m) u = Ret (True, u')" "k \<le> 3" "frames u' (drop k ys)"
    "pages_mapped (trans s) (trans u') vp pp (Suc m)" "\<forall>v. \<not> canonical v \<longrightarrow> trans u' v = trans s v"
    using map_next [of u ys s vp pp m] Suc.prems(2,3,5,6) pages [OF m(1)] inj [OF m(1)] Suc.hyps(2) by auto
  have "\<exists>u'' l. L (Suc m) u' = L n u'' \<and> l \<le> 3 * (n - Suc m) \<and> frames u'' (drop l (drop k ys)) \<and>
    pages_mapped (trans s) (trans u'') vp pp n \<and> (\<forall>v. \<not> canonical v \<longrightarrow> trans u'' v = trans s v)"
  proof (rule Suc.hyps(1) [OF m(2) [symmetric]])
    show "3 * (n - Suc m) \<le> length (drop k ys)" using Suc.prems(3) u'(2) Suc.hyps(2) m(2) by simp
  qed (use Suc.prems(1) u' m in auto)
  then obtain u'' l where "L (Suc m) u' = L n u''" "l \<le> 3 * (n - Suc m)" "frames u'' (drop l (drop k ys))"
    "pages_mapped (trans s) (trans u'') vp pp n" "\<forall>v. \<not> canonical v \<longrightarrow> trans u'' v = trans s v" by blast
  moreover have "L m u = L (Suc m) u'" using Suc.prems(1) [OF _ m(1) u'(1)] by simp
  ultimately show ?case using u'(2) m by (intro exI [of _ u''] exI [of _ "l + k"]) auto
qed

end

text \<open>The pages of a region of the high half that ends before the direct access page.\<close>

lemma region_page:
  assumes "base mod 4096 = 0" "VA_48_HIGH_START \<le> base" "unat base + 4096 * n \<le> unat VA_48_DIRECT_ACCESS_PAGE" "j < n"
  shows "unat (base + 4096 * of_nat j) = unat base + 4096 * j" "(base + 4096 * of_nat j) mod 4096 = 0"
    "canonical (base + 4096 * of_nat j)" "\<not> same_page (base + 4096 * of_nat j) VA_48_DIRECT_ACCESS_PAGE"
    "k < n \<Longrightarrow> same_page (base + 4096 * of_nat j) (base + 4096 * of_nat k) \<longleftrightarrow> j = k"
proof -
  have d: "unat VA_48_DIRECT_ACCESS_PAGE = 18446603340532940800" by (simp add: va_layout_defs)
  then have n: "n < 2 ^ 52" "unat VA_48_DIRECT_ACCESS_PAGE < 2 ^ 64" using assms(3) by simp_all
  have u: "unat (base + 4096 * of_nat j) = unat base + 4096 * j" if "j < n" for j
  proof -
    have "unat (4096 * of_nat j :: u64) = 4096 * j" using that n by (simp add: unat_u64_mult unat_of_nat)
    then show ?thesis using that assms(3) n(2) by (subst unat_u64_add) auto
  qed
  have al: "(base + 4096 * of_nat j) mod 4096 = 0" if "j < n" for j
  proof -
    have "unat base mod 4096 = 0" using assms(1) by (simp add: u64_eq_iff_unat unat_mod)
    then have "unat (base + 4096 * of_nat j) mod 4096 = 0" using u [OF that] by (simp add: mod_add_eq [symmetric, of "unat base"])
    then show ?thesis by (simp add: u64_eq_iff_unat unat_mod)
  qed
  show "unat (base + 4096 * of_nat j) = unat base + 4096 * j" "(base + 4096 * of_nat j) mod 4096 = 0" using u al assms(4) by auto
  show "canonical (base + 4096 * of_nat j)" using u [OF assms(4)] assms(2) by (simp add: canonical_def word_le_nat_alt)
  have "base + 4096 * of_nat j \<noteq> VA_48_DIRECT_ACCESS_PAGE" using u [OF assms(4)] assms(3,4) by (auto simp: u64_eq_iff_unat)
  then show "\<not> same_page (base + 4096 * of_nat j) VA_48_DIRECT_ACCESS_PAGE"
    using same_page_aligned [OF al [OF assms(4)] direct_page_facts(1)] by simp
  show "same_page (base + 4096 * of_nat j) (base + 4096 * of_nat k) \<longleftrightarrow> j = k" if "k < n"
    using same_page_aligned [OF al [OF assms(4)] al [OF that]] u [OF assms(4)] u [OF that] by (auto simp: u64_eq_iff_unat)
qed

subsection \<open>The frame buffer\<close>

definition pages_of :: "u64 \<Rightarrow> nat" where
  "pages_of len = (unat len + 4095) div 4096"

lemma pages_of_less: "4096 * i < 2 ^ 64 \<Longrightarrow> i < pages_of len \<longleftrightarrow> 4096 * of_nat i < len"
proof -
  assume "4096 * i < 2 ^ 64"
  then have "unat (4096 * of_nat i :: u64) = 4096 * i" by (simp add: unat_u64_mult unat_of_nat)
  then show ?thesis by (auto simp: word_less_nat_alt pages_of_def)
qed

lemma low_pages:
  assumes "pa mod 4096 = 0" "pa \<noteq> 0" "unat pa + 4096 * n \<le> unat VA_48_LOW_END + 1" "j < n"
  shows "frame_ok (pa + 4096 * of_nat j)"
proof -
  have b: "unat VA_48_LOW_END + 1 = 140737488355328" by (simp add: va_layout_defs)
  have "unat (4096 * of_nat j :: u64) = 4096 * j" using assms(3,4) b by (simp add: unat_u64_mult unat_of_nat)
  then have "unat (pa + 4096 * of_nat j) = unat pa + 4096 * j" using assms(3,4) b by (subst unat_u64_add) auto
  moreover have "4096 dvd unat pa" "0 < unat pa" using assms(1,2) by (auto simp: u64_eq_iff_unat unat_mod)
  ultimately show ?thesis using assms(3,4) b by (auto simp: frame_ok_unat)
qed

text \<open>
  \<open>_bootstrap_vesa_frame_buffer\<close> maps the whole frame buffer at its place in the high half: with three
  free frames per page, a page-aligned buffer below the end of physical addresses and a region of the
  address space that is still unmapped and ends before the configuration space, it returns; every byte of
  the buffer is then translated from \<open>VA_48_FRAME_BUFFER\<close> plus its offset, no other translation changes, and
  the driver draws through the new address.
\<close>

theorem bootstrap_vesa_frame_buffer_maps:
  assumes "mm_inv s xs" "3 * pages_of fb_len \<le> length xs"
    and "fb mod 4096 = 0" "fb \<noteq> 0" "unat fb + 4096 * pages_of fb_len \<le> unat VA_48_LOW_END + 1"
    and "unat VA_48_FRAME_BUFFER + 4096 * pages_of fb_len \<le> unat VA_48_PCIE_CFG_START"
    and "\<And>j. j < pages_of fb_len \<Longrightarrow> walk s (VA_48_FRAME_BUFFER + 4096 * of_nat j) = None"
  shows "\<exists>s' k. bootstrap_vesa_frame_buffer fb fb_len s v = Ret (s', v\<lparr>vesa_buf := VA_48_FRAME_BUFFER\<rparr>) \<and>
    k \<le> 3 * pages_of fb_len \<and> mm_inv s' (drop k xs) \<and>
    pages_mapped (walk s) (walk s') (\<lambda>j. VA_48_FRAME_BUFFER + 4096 * of_nat j) (\<lambda>j. fb + 4096 * of_nat j) (pages_of fb_len)"
proof -
  let ?n = "pages_of fb_len" and ?vp = "\<lambda>j. VA_48_FRAME_BUFFER + 4096 * of_nat j" and ?pp = "\<lambda>j. fb + 4096 * of_nat j"
  have lim: "unat VA_48_FRAME_BUFFER + 4096 * ?n \<le> unat VA_48_DIRECT_ACCESS_PAGE"
    using assms(6) by (auto simp: va_layout_defs)
  have hi: "VA_48_FRAME_BUFFER mod 4096 = 0" "VA_48_HIGH_START \<le> VA_48_FRAME_BUFFER" by (simp_all add: va_layout_defs)
  note reg = region_page [OF hi lim]
  have small: "4096 * i < 2 ^ 64" if "i \<le> ?n" for i using that assms(6) by (auto simp: va_layout_defs)
  let ?L = "\<lambda>i u. fb_loop fb fb_len (4096 * of_nat i) u"
  have "\<exists>u k. ?L 0 s = ?L ?n u \<and> k \<le> 3 * (?n - 0) \<and> mm_inv u (drop k xs) \<and> pages_mapped (walk s) (walk u) ?vp ?pp ?n \<and>
    (\<forall>v. \<not> canonical v \<longrightarrow> walk u v = walk s v)"
  proof (rule pages.map_run)
    show "?L i u = ?L (Suc i) u'" if "i < ?n" "mm_page_map (?vp i) (?pp i) u = Ret (True, u')" for i u u'
      using that pages_of_less [OF small, of i] by (subst fb_loop.simps) (simp add: PAGE_SIZE_4K_def algebra_simps)
  qed (use assms reg low_pages [OF assms(3,4,5)] in auto)
  then obtain u k where u: "?L 0 s = ?L ?n u" "k \<le> 3 * ?n" "mm_inv u (drop k xs)" "pages_mapped (walk s) (walk u) ?vp ?pp ?n" by auto
  have "?L ?n u = Some (Ret u)" using pages_of_less [OF small [OF order_refl], of fb_len] by (subst fb_loop.simps) simp
  then show ?thesis using u assms(3)
    by (intro exI [of _ u] exI [of _ k]) (simp add: bootstrap_vesa_frame_buffer_def PAGE_SIZE_4K_def d_vesa_set_frame_buffer_def)
qed

theorem bootstrap_vesa_frame_buffer_maps_witness:
  "\<exists>s' k. bootstrap_vesa_frame_buffer 0xE0000000 8192 (sample_free 6) \<lparr>vesa_buf = 0xE0000000, vesa_width = 64, vesa_height = 32, vesa_depth = 4\<rparr> =
    Ret (s', \<lparr>vesa_buf = VA_48_FRAME_BUFFER, vesa_width = 64, vesa_height = 32, vesa_depth = 4\<rparr>) \<and> mm_inv s' k"
proof -
  have n: "pages_of 8192 = 2" by (simp add: pages_of_def)
  have c: "unat VA_48_FRAME_BUFFER + 4096 * 2 \<le> unat VA_48_PCIE_CFG_START" "unat (0xE0000000::u64) + 4096 * 2 \<le> unat VA_48_LOW_END + 1"
    by (simp_all add: va_layout_defs)
  show ?thesis
    using bootstrap_vesa_frame_buffer_maps [OF sample_free_inv(1), of 6 8192 "0xE0000000"
        "\<lparr>vesa_buf = 0xE0000000, vesa_width = 64, vesa_height = 32, vesa_depth = 4\<rparr>"] sample_free_inv(2) [of 6] n c by auto
qed

subsection \<open>The PCI Express configuration space\<close>

text \<open>The frame that page \<open>k\<close> of the region shows: group after group, 65536 pages each.\<close>

definition cfg_page :: "pcie_state \<Rightarrow> nat \<Rightarrow> u64" where
  "cfg_page pst k = cfg_space_base_pa (groups pst ! (k div 65536)) + 4096 * of_nat (k mod 65536)"

abbreviation cfg_va :: "nat \<Rightarrow> u64" where
  "cfg_va j \<equiv> VA_48_PCIE_CFG_START + 4096 * of_nat j"

lemma cfg_va_region:
  assumes "g \<le> 16" "j < 65536 * g"
  shows "unat (cfg_va j) = unat VA_48_PCIE_CFG_START + 4096 * j" "cfg_va j mod 4096 = 0" "canonical (cfg_va j)"
    "\<not> same_page (cfg_va j) VA_48_DIRECT_ACCESS_PAGE" "k < 65536 * g \<Longrightarrow> same_page (cfg_va j) (cfg_va k) \<longleftrightarrow> j = k" "cfg_va j < VA_48_PCIE_CFG_END"
proof -
  have "unat VA_48_PCIE_CFG_START + 4096 * (65536 * g) \<le> unat VA_48_DIRECT_ACCESS_PAGE" using assms(1) by (simp add: va_layout_defs)
  note r = region_page [OF _ _ this assms(2)]
  show u: "unat (cfg_va j) = unat VA_48_PCIE_CFG_START + 4096 * j" and "cfg_va j mod 4096 = 0" "canonical (cfg_va j)"
    "\<not> same_page (cfg_va j) VA_48_DIRECT_ACCESS_PAGE" "k < 65536 * g \<Longrightarrow> same_page (cfg_va j) (cfg_va k) \<longleftrightarrow> j = k"
    using r by (simp_all add: va_layout_defs)
  show "cfg_va j < VA_48_PCIE_CFG_END" using u assms by (simp add: word_less_nat_alt) (simp add: va_layout_defs)
qed

definition groups_ok :: "pcie_state \<Rightarrow> bool" where
  "groups_ok pst \<longleftrightarrow> unat (group_cnt pst) \<le> 16 \<and> unat (group_cnt pst) \<le> length (groups pst) \<and>
     (\<forall>g < unat (group_cnt pst). let pa = cfg_space_base_pa (groups pst ! g) in
        pa mod 4096 = 0 \<and> pa \<noteq> 0 \<and> unat pa + 268435456 \<le> unat VA_48_LOW_END + 1)"

lemma cfg_page_ok: "groups_ok pst \<Longrightarrow> k < 65536 * unat (group_cnt pst) \<Longrightarrow> frame_ok (cfg_page pst k)"
proof -
  assume ok: "groups_ok pst" and k: "k < 65536 * unat (group_cnt pst)"
  have g: "k div 65536 < unat (group_cnt pst)" using k by (simp add: less_mult_imp_div_less mult.commute)
  show ?thesis unfolding cfg_page_def
    by (rule low_pages [where n = 65536]) (use ok g in \<open>auto simp: groups_ok_def Let_def\<close>)
qed

text \<open>One group: the inner loop maps its 65536 pages and moves on by as much.\<close>

lemma cfg_loop_maps:
  fixes s :: mm_state
  assumes ok: "groups_ok pst" and g: "g < unat (group_cnt pst)"
    and unmapped: "\<And>j. j < 65536 * unat (group_cnt pst) \<Longrightarrow> walk s (cfg_va j) = None"
    and start: "mm_inv u ys" "196608 \<le> length ys" "pages_mapped (walk s) (walk u) cfg_va (cfg_page pst) (65536 * g)"
      "\<And>v. \<not> canonical v \<Longrightarrow> walk u v = walk s v"
  shows "\<exists>u' k. cfg_loop (cfg_space_base_pa (groups pst ! g) + d_pcie_group_get_cfg_len) (cfg_space_base_pa (groups pst ! g)) (cfg_va (65536 * g)) u =
      Some (Ret (cfg_va (65536 * Suc g), u')) \<and> k \<le> 196608 \<and> mm_inv u' (drop k ys) \<and>
    pages_mapped (walk s) (walk u') cfg_va (cfg_page pst) (65536 * Suc g) \<and> (\<forall>v. \<not> canonical v \<longrightarrow> walk u' v = walk s v)"
proof -
  define pa where "pa = cfg_space_base_pa (groups pst ! g)"
  have pa: "unat pa + 268435456 \<le> unat VA_48_LOW_END + 1" using ok g by (auto simp: groups_ok_def pa_def Let_def)
  have low: "unat VA_48_LOW_END + 1 = 140737488355328" by (simp add: va_layout_defs)
  have upa: "unat (pa + 4096 * of_nat j) = unat pa + 4096 * j" if "j \<le> 65536" for j
  proof -
    have "unat (4096 * of_nat j :: u64) = 4096 * j" using that by (simp add: unat_u64_mult unat_of_nat)
    then show ?thesis using that pa low by (subst unat_u64_add) auto
  qed
  have len: "d_pcie_group_get_cfg_len = 4096 * of_nat 65536" by (simp add: d_pcie_group_get_cfg_len_def CONFIG_SPACE_ALIGN_def)
  have less: "pa + 4096 * of_nat j < pa + d_pcie_group_get_cfg_len \<longleftrightarrow> j < 65536" if "j \<le> 65536" for j
    using upa [OF that] upa [of 65536] len by (simp add: word_less_nat_alt)
  let ?n = "65536 * g + 65536"
  let ?L = "\<lambda>i u. cfg_loop (pa + d_pcie_group_get_cfg_len) (pa + 4096 * of_nat (i - 65536 * g)) (cfg_va i) u"
  have cnt: "unat (group_cnt pst) \<le> 16" "?n \<le> 65536 * unat (group_cnt pst)" using ok g by (auto simp: groups_ok_def)
  note reg = cfg_va_region [OF cnt(1)]
  have "\<exists>u' k. ?L (65536 * g) u = ?L ?n u' \<and> k \<le> 3 * (?n - 65536 * g) \<and> mm_inv u' (drop k ys) \<and>
    pages_mapped (walk s) (walk u') cfg_va (cfg_page pst) ?n \<and> (\<forall>v. \<not> canonical v \<longrightarrow> walk u' v = walk s v)"
  proof (rule pages.map_run [where L = ?L])
    show "?L i u = ?L (Suc i) u'" if i: "65536 * g \<le> i" "i < ?n" and "mm_page_map (cfg_va i) (cfg_page pst i) u = Ret (True, u')" for i u u'
    proof -
      obtain j where j: "i = 65536 * g + j" "j < 65536" using i by (metis add_less_cancel_left le_Suc_ex)
      then have pg: "cfg_page pst i = pa + 4096 * of_nat j" by (simp add: cfg_page_def pa_def)
      have va: "cfg_va i < VA_48_PCIE_CFG_END" using reg(6) that(2) cnt(2) by simp
      show ?thesis using j less [of j] that(3) pg va
        by (subst cfg_loop.simps) (simp add: PAGE_SIZE_4K_def algebra_simps)
    qed
  qed (use cnt(2) reg unmapped cfg_page_ok [OF ok] start in auto)
  then obtain u' k where u': "?L (65536 * g) u = ?L ?n u'" "k \<le> 196608" "mm_inv u' (drop k ys)"
    "pages_mapped (walk s) (walk u') cfg_va (cfg_page pst) ?n" "\<forall>v. \<not> canonical v \<longrightarrow> walk u' v = walk s v" by auto
  have "?L ?n u' = Some (Ret (cfg_va ?n, u'))" using less [of 65536] by (subst cfg_loop.simps) simp
  then show ?thesis using u' by (intro exI [of _ u'] exI [of _ k]) (simp add: pa_def [symmetric] algebra_simps)
qed

text \<open>
  \<open>_bootstrap_pcie_cfg_space\<close> maps the configuration space of all groups one behind the other: with at
  most 16 groups, three free frames per page and the region unmapped, it returns; byte \<open>b\<close> of the space of
  group \<open>g\<close> is then translated from \<open>VA_48_PCIE_CFG_START\<close> plus \<open>g\<close> times 256 MB plus \<open>b\<close>, and no other
  translation changes.
\<close>

theorem bootstrap_pcie_cfg_space_maps:
  assumes "groups_ok pst" "mm_inv s xs" "196608 * unat (group_cnt pst) \<le> length xs"
    and "\<And>j. j < 65536 * unat (group_cnt pst) \<Longrightarrow> walk s (VA_48_PCIE_CFG_START + 4096 * of_nat j) = None"
  shows "\<exists>s' k. bootstrap_pcie_cfg_space pst s = Ret s' \<and> k \<le> 196608 * unat (group_cnt pst) \<and> mm_inv s' (drop k xs) \<and>
    pages_mapped (walk s) (walk s') (\<lambda>j. VA_48_PCIE_CFG_START + 4096 * of_nat j) (cfg_page pst) (65536 * unat (group_cnt pst))"
proof -
  let ?cnt = "unat (group_cnt pst)"
  let ?body = "\<lambda>i (va, s). rbind (d_pcie_group_get_cfg_pa pst (of_nat i)) (\<lambda>cfg_start.
       let cfg_end = cfg_start + d_pcie_group_get_cfg_len in
       case cfg_loop cfg_end cfg_start va s of None \<Rightarrow> Stop Diverges | Some r \<Rightarrow> r)"
  define P where "P g p \<longleftrightarrow> fst p = cfg_va (65536 * g) \<and> (\<exists>k. k \<le> 196608 * g \<and> mm_inv (snd p) (drop k xs)) \<and>
    pages_mapped (walk s) (walk (snd p)) cfg_va (cfg_page pst) (65536 * g) \<and> (\<forall>v. \<not> canonical v \<longrightarrow> walk (snd p) v = walk s v)"
    for g and p :: "u64 \<times> mm_state"
  have "\<exists>p. count_loop 0 ?cnt ?body (VA_48_PCIE_CFG_START, s) = Ret p \<and> P (0 + ?cnt) p"
  proof (rule count_loop_total)
    show "P 0 (VA_48_PCIE_CFG_START, s)" using assms(2) by (auto simp: P_def intro: exI [of _ 0])
    show "\<exists>p'. ?body g p = Ret p' \<and> P (Suc g) p'" if gp: "g < 0 + ?cnt" "P g p" for g p
    proof -
      obtain va u where p: "p = (va, u)" by fastforce
      obtain k where k: "k \<le> 196608 * g" "mm_inv u (drop k xs)" using gp(2) by (auto simp: P_def p)
      have "196608 * Suc g \<le> 196608 * ?cnt" using gp(1) by simp
      then have len: "196608 \<le> length (drop k xs)" using k(1) assms(3) by simp
      have gc: "unat (of_nat g :: u64) = g" using gp(1) assms(1) by (simp add: groups_ok_def unat_of_nat)
      have "d_pcie_group_get_cfg_pa pst (of_nat g) = Ret (cfg_space_base_pa (groups pst ! g))"
        using gp(1) gc assms(1) by (simp add: d_pcie_group_get_cfg_pa_def word_less_nat_alt groups_ok_def)
      moreover obtain u' l where "cfg_loop (cfg_space_base_pa (groups pst ! g) + d_pcie_group_get_cfg_len) (cfg_space_base_pa (groups pst ! g)) va u =
        Some (Ret (cfg_va (65536 * Suc g), u'))" "l \<le> 196608" "mm_inv u' (drop l (drop k xs))"
        "pages_mapped (walk s) (walk u') cfg_va (cfg_page pst) (65536 * Suc g)" "\<forall>v. \<not> canonical v \<longrightarrow> walk u' v = walk s v"
        using cfg_loop_maps [OF assms(1) _ assms(4) k(2) len, of g] gp by (auto simp: P_def p)
      ultimately show ?thesis using k(1)
        by (intro exI [of _ "(cfg_va (65536 * Suc g), u')"]) (auto simp: P_def p intro!: exI [of _ "l + k"])
    qed
  qed
  then obtain p where p: "count_loop 0 ?cnt ?body (VA_48_PCIE_CFG_START, s) = Ret p" "P ?cnt p" by auto
  have "bootstrap_pcie_cfg_space pst s = Ret (snd p)"
    using p(1) by (cases p) (simp add: bootstrap_pcie_cfg_space_def d_pcie_group_get_cnt_def)
  then show ?thesis using p(2) by (auto simp: P_def)
qed

definition sample_groups :: pcie_state where
  "sample_groups = \<lparr>groups = [\<lparr>cfg_space_base_pa = 0xB0000000, group_no = 0, bus_start = 0, bus_end = 255, reserved = 0\<rparr>],
     group_cnt = 1, funcs = []\<rparr>"

theorem bootstrap_pcie_cfg_space_maps_witness:
  "\<exists>s' xs. bootstrap_pcie_cfg_space sample_groups (sample_free 196608) = Ret s' \<and> mm_inv s' xs"
proof -
  have "groups_ok sample_groups" by (simp add: groups_ok_def sample_groups_def va_layout_defs)
  moreover have "unat (group_cnt sample_groups) = 1" by (simp add: sample_groups_def)
  ultimately show ?thesis
    using bootstrap_pcie_cfg_space_maps [OF _ sample_free_inv(1), of sample_groups 196608] sample_free_inv(2) [of 196608] by auto
qed

subsection \<open>The kernel stack\<close>

abbreviation stack_va :: "nat \<Rightarrow> u64" where
  "stack_va j \<equiv> VA_48_STACK_TOP + 4096 * of_nat j"

lemma stack_va_region:
  assumes "j < 254"
  shows "stack_va j mod 4096 = 0" "canonical (stack_va j)" "\<not> same_page (stack_va j) VA_48_DIRECT_ACCESS_PAGE"
    "k < 254 \<Longrightarrow> same_page (stack_va j) (stack_va k) \<longleftrightarrow> j = k"
proof -
  have "unat VA_48_STACK_TOP + 4096 * 254 \<le> unat VA_48_DIRECT_ACCESS_PAGE" by (simp add: va_layout_defs)
  note r = region_page [OF _ _ this assms]
  show "stack_va j mod 4096 = 0" "canonical (stack_va j)" "\<not> same_page (stack_va j) VA_48_DIRECT_ACCESS_PAGE"
    "k < 254 \<Longrightarrow> same_page (stack_va j) (stack_va k) \<longleftrightarrow> j = k"
    using r by (simp_all add: va_layout_defs)
qed

text \<open>The state after \<open>i\<close> stack pages, with the frames \<open>fs\<close> behind them.\<close>

definition stacked :: "mm_state \<Rightarrow> u64 list \<Rightarrow> nat \<Rightarrow> u64 list \<Rightarrow> mm_state \<Rightarrow> bool" where
  "stacked s xs i fs u \<longleftrightarrow> length fs = i \<and> (\<exists>k. k \<le> 4 * i \<and> mm_inv u (drop k xs) \<and> set fs \<subseteq> set (take k xs)) \<and> distinct fs \<and>
     pages_mapped (walk s) (walk u) stack_va ((!) fs) i \<and> (\<forall>v. \<not> canonical v \<longrightarrow> walk u v = walk s v)"

lemma stacked_step:
  assumes st: "stacked s xs i fs u" and i: "i < 254" "4 * 254 \<le> length xs" "distinct xs" and free: "walk s (stack_va i) = None"
  shows "\<exists>x u1 u2. mm_frame_alloc u = Ret (Some x, u1) \<and> mm_page_map (stack_va i) x u1 = Ret (True, u2) \<and> stacked s xs (Suc i) (fs @ [x]) u2"
proof -
  obtain k where k: "k \<le> 4 * i" "mm_inv u (drop k xs)" "set fs \<subseteq> set (take k xs)" and fs: "length fs = i" "distinct fs"
    and pm: "pages_mapped (walk s) (walk u) stack_va ((!) fs) i" "\<forall>v. \<not> canonical v \<longrightarrow> walk u v = walk s v"
    using st unfolding stacked_def by blast
  have kl: "k < length xs" "3 \<le> length (drop (Suc k) xs)" using k(1) i by auto
  define x where "x = xs ! k"
  have d: "drop k xs = x # drop (Suc k) xs" using kl(1) by (simp add: x_def Cons_nth_drop_Suc)
  obtain u1 where u1: "mm_frame_alloc u = Ret (Some x, u1)" "mm_inv u1 (drop (Suc k) xs)" "frame_ok x" "\<And>v. walk u1 v = walk u v"
    using pages.alloc_frame [OF k(2) [unfolded d]] by blast
  have "pages_mapped (walk s) (walk u1) stack_va ((!) (fs @ [x])) i"
    using pm(1) fs(1) u1(4) pages_mapped_cong [of i "(!) fs" "(!) (fs @ [x])"] by (simp add: nth_append pages_mapped_def)
  moreover have "(fs @ [x]) ! i = x" using fs(1) by (simp add: nth_append)
  ultimately obtain u2 l where u2: "mm_page_map (stack_va i) x u1 = Ret (True, u2)" "l \<le> 3" "mm_inv u2 (drop l (drop (Suc k) xs))"
    "pages_mapped (walk s) (walk u2) stack_va ((!) (fs @ [x])) (Suc i)" "\<forall>v. \<not> canonical v \<longrightarrow> walk u2 v = walk s v"
    using pages.map_next [OF u1(2) kl(2), of s stack_va "(!) (fs @ [x])" i] stack_va_region [OF i(1)] free u1(3,4) pm(2) i(1) by auto
  have "x \<notin> set (take k xs)" using i(3) kl(1) unfolding x_def by (metis disjoint_iff distinct_append id_take_nth_drop list.set_intros(1))
  moreover have "set (take k xs) \<union> {x} \<subseteq> set (take (l + Suc k) xs)"
  proof -
    have "take (Suc k) xs = take k xs @ [x]" using kl(1) by (simp add: x_def take_Suc_conv_app_nth)
    then show ?thesis using set_take_subset_set_take [of "Suc k" "l + Suc k" xs] by auto
  qed
  ultimately have "stacked s xs (Suc i) (fs @ [x]) u2" unfolding stacked_def
    using k u2(2-5) fs by (auto intro!: exI [of _ "l + Suc k"])
  then show ?thesis using u1(1) u2(1) by blast
qed

lemma stack_loop_maps:
  assumes "stacked s xs i fs u" "i + n = 254" "4 * 254 \<le> length xs" "distinct xs" "\<And>j. j < 254 \<Longrightarrow> walk s (stack_va j) = None"
  shows "\<exists>u' fs'. stack_loop n (stack_va i) u = Ret u' \<and> stacked s xs 254 fs' u'"
  using assms(1,2)
proof (induction n arbitrary: i fs u)
  case (Suc n)
  then have i: "i < 254" "Suc i + n = 254" by auto
  obtain x u1 u2 where "mm_frame_alloc u = Ret (Some x, u1)" "mm_page_map (stack_va i) x u1 = Ret (True, u2)"
    "stacked s xs (Suc i) (fs @ [x]) u2"
    using stacked_step [OF Suc.prems(1) i(1) assms(3,4) assms(5) [OF i(1)]] by blast
  then show ?case using Suc.IH [OF _ i(2)] by (simp add: PAGE_SIZE_4K_def algebra_simps)
qed auto

text \<open>
  C20: \<open>_bootstrap_stack_memory\<close> gives the kernel a stack of 254 pages in the high half: with 1016 free
  frames, the region unmapped and the boot stack in order, it returns, the pages are backed by distinct
  frames taken from the free list, the guard pages on either side and all other addresses are translated as
  before.
\<close>

theorem bootstrap_stack_memory_maps:
  fixes s :: mm_state
  assumes "mm_inv s xs" "1016 \<le> length xs" "\<And>j. j < 254 \<Longrightarrow> walk s (VA_48_STACK_TOP + 4096 * of_nat j) = None"
    and "boot_stack_bottom mod 4096 = 0" "boot_stack_top mod 4096 = 0" "boot_stack_top < sp" "sp < boot_stack_bottom"
      "boot_stack_bottom - sp < 4096"
  shows "\<exists>s' fs. bootstrap_stack_memory sp boot_stack_top boot_stack_bottom s = Ret s' \<and>
    length fs = 254 \<and> distinct fs \<and> set fs \<subseteq> set xs \<and> (\<exists>k \<le> 1016. mm_inv s' (drop k xs) \<and> set fs \<inter> set (drop k xs) = {}) \<and>
    pages_mapped (walk s) (walk s') (\<lambda>j. VA_48_STACK_TOP + 4096 * of_nat j) ((!) fs) 254 \<and>
    walk s' VA_48_STACK_TOP_GUARD = walk s VA_48_STACK_TOP_GUARD \<and> walk s' VA_48_STACK_BOTTOM_GUARD = walk s VA_48_STACK_BOTTOM_GUARD"
proof -
  have dist: "distinct xs" using assms(1) by (simp add: mm_inv_def)
  have "stacked s xs 0 [] s" using assms(1) by (auto simp: stacked_def intro: exI [of _ 0])
  then obtain u fs where u: "stack_loop 254 VA_48_STACK_TOP s = Ret u" "stacked s xs 254 fs u"
    using stack_loop_maps [of s xs 0 "[]" s 254] assms(2,3) dist by auto
  obtain k where k: "k \<le> 1016" "mm_inv u (drop k xs)" "set fs \<subseteq> set (take k xs)" and fs: "length fs = 254" "distinct fs"
    and pm: "pages_mapped (walk s) (walk u) stack_va ((!) fs) 254" using u(2) unfolding stacked_def by auto
  have "unat ((VA_48_STACK_BOTTOM - VA_48_STACK_TOP) div PAGE_SIZE_4K) + 1 = 254" by (simp add: va_layout_defs)
  then have run: "bootstrap_stack_memory sp boot_stack_top boot_stack_bottom s = Ret u"
    using u(1) assms(4-8) unfolding bootstrap_stack_memory_def by (simp add: align_assert_def mm_align_check_def PAGE_SIZE_4K_def Let_def)
  have "set (take k xs) \<inter> set (drop k xs) = {}" using dist by (metis append_take_drop_id distinct_append)
  moreover have "set fs \<subseteq> set xs" using k(3) set_take_subset [of k xs] by blast
  moreover have "walk u g = walk s g" if "g \<in> {VA_48_STACK_TOP_GUARD, VA_48_STACK_BOTTOM_GUARD}" for g
  proof -
    have "unat (stack_va j) = unat VA_48_STACK_TOP + 4096 * j" if "j < 254" for j
      by (rule region_page(1) [where n = 254]) (use that in \<open>simp_all add: va_layout_defs\<close>)
    then have "g \<noteq> stack_va j" if "j < 254" for j using that \<open>g \<in> _\<close> by (auto simp: u64_eq_iff_unat) (auto simp: va_layout_defs)
    moreover have "g mod 4096 = 0" using that by (auto simp: va_layout_defs)
    ultimately have "\<not> same_page g (stack_va j)" if "j < 254" for j using same_page_aligned [of g] stack_va_region(1) [OF that] that by auto
    then show ?thesis using pm by (auto simp: pages_mapped_def)
  qed
  ultimately show ?thesis using run k fs pm by (intro exI [of _ u] exI [of _ fs]) blast
qed

theorem bootstrap_stack_memory_maps_witness:
  "\<exists>s' fs. bootstrap_stack_memory 0x8F00 0x8000 0x9000 (sample_free 1016) = Ret s' \<and> length fs = 254 \<and>
    (\<forall>j<254. \<forall>v. canonical v \<longrightarrow> same_page v (VA_48_STACK_TOP + 4096 * of_nat j) \<longrightarrow> walk s' v = Some (fs ! j + (v AND 0xfff)))"
proof -
  obtain s' fs where "bootstrap_stack_memory 0x8F00 0x8000 0x9000 (sample_free 1016) = Ret s'" "length fs = 254"
    "pages_mapped (walk (sample_free 1016)) (walk s') (\<lambda>j. VA_48_STACK_TOP + 4096 * of_nat j) ((!) fs) 254"
    using bootstrap_stack_memory_maps [OF sample_free_inv(1), of 1016 "0x9000" "0x8000" "0x8F00"] sample_free_inv(2) [of 1016] by auto
  then show ?thesis unfolding pages_mapped_def by blast
qed

end
