(* ===== verification/Mm_Boot_Window.thy ===== *)
theory Mm_Boot_Window
  imports Mm_Boot Mm_Sample
begin

text \<open>
  The direct access window: \<open>_init_direct_access\<close> establishes the well-formedness that the mapper relies
  on, and \<open>vadd_get_padd\<close> reads through the window after closing it.
\<close>

subsection \<open>Reading through a closed window\<close>

lemma window_same_path: "unat i < 512 \<Longrightarrow> same_path 4 (VA_48_DIRECT_ACCESS_PAGE + 8 * i) VA_48_DIRECT_ACCESS_PAGE"
proof -
  assume i: "unat i < 512"
  have "same_page (VA_48_DIRECT_ACCESS_PAGE + 8 * i) VA_48_DIRECT_ACCESS_PAGE"
    using page_offset [OF direct_page_facts(1) unat_8_mult [OF i]] page_offset(2) [OF direct_page_facts(1), of 0]
    by (simp add: same_page_def)
  then show ?thesis by (simp add: same_path_page canonical_direct [OF i] direct_page_facts)
qed

lemma closed_window_unmapped: "page_ok s \<Longrightarrow> unat i < 512 \<Longrightarrow> walk s (VA_48_DIRECT_ACCESS_PAGE + 8 * i) = None"
proof -
  assume ok: "page_ok s" and i: "unat i < 512"
  note cell = page_ok_cell [OF ok]
  have "pmem s (entry_at (direct_tab_entry s) VA_48_DIRECT_ACCESS_PAGE 3) = 0" using ok cell(2) by (simp add: page_ok_def)
  then have "walk_from (pmem s) 4 (tab_4 s) (VA_48_DIRECT_ACCESS_PAGE + 8 * i) = None"
    using walk_hit [OF cell(1), of "VA_48_DIRECT_ACCESS_PAGE + 8 * i"] window_same_path [OF i] by simp
  then show ?thesis using ok by (simp add: walk_def page_ok_def)
qed

text \<open>
  On well-formed tables \<open>vadd_get_padd\<close> never returns, for any address: it closes the direct access
  window and then reads the entry through it, which is a page fault.
\<close>

theorem vadd_get_padd_faults:
  assumes "page_ok s"
  shows "vadd_get_padd va s = Stop PageFault"
proof -
  have t: "frame_ok (tab_4 s)" using tree_okD(1) [of "pmem s" "tab_4 s" va 0 "tab_4 s"] assms by (simp add: page_ok_def)
  have "vload (VA_48_DIRECT_ACCESS_PAGE + 8 * tab_index va 4) s = Stop PageFault"
    using closed_window_unmapped [OF assms tab_index_less(2)] by (simp add: vload_def)
  then have "get_padd_loop 4 va (tab_4 s) s = Stop PageFault"
    using window_setup [OF assms frame_okD(1) [OF t] frame_okD(2) [OF t]] window_reset [OF assms, of "tab_4 s"]
    by (subst get_padd_loop.simps) (simp add: Let_def)
  then show ?thesis by (simp add: vadd_get_padd_def)
qed

theorem vadd_get_padd_faults_witness:
  "page_ok sample_empty \<and> vadd_get_padd VA_48_HEAP sample_empty = Stop PageFault"
  using vadd_get_padd_faults [of sample_empty VA_48_HEAP] sample_empty_inv(1) by (simp add: mm_inv_def)

subsection \<open>Setting the window up\<close>

lemma page_words: "frame_ok f \<Longrightarrow> unat i < 512 \<Longrightarrow> (f + 8 * i) - f < 4096"
  using unat_8_mult [of i] by (simp add: word_less_nat_alt)

lemma table_outside_page:
  assumes "frame_ok t" "frame_ok f" "t \<noteq> f" "unat i < 512"
  shows "\<not> (t + 8 * i) - f < 4096"
proof
  assume less: "(t + 8 * i) - f < 4096"
  then have "unat ((t + 8 * i) - f) < 4096" by (simp add: word_less_nat_alt)
  obtain a b where ab: "unat t = 4096 * a" "unat f = 4096 * b" using assms by (auto simp: frame_ok_unat elim!: dvdE)
  have e: "unat (t + 8 * i) = 4096 * a + 8 * unat i" using unat_entry [OF assms(1,4)] ab by simp
  have bnd: "unat t < 2 ^ 47" "unat f < 2 ^ 47" using assms by (auto simp: frame_ok_unat)
  have "4096 * b \<le> 4096 * a + 8 * unat i"
  proof (rule ccontr)
    assume "\<not> ?thesis"
    then have "unat ((t + 8 * i) - f) = 2 ^ 64 - (4096 * b - (4096 * a + 8 * unat i))"
      using e ab bnd by (subst unat_sub_if') auto
    then show False using \<open>unat ((t + 8 * i) - f) < 4096\<close> bnd ab by simp
  qed
  then have "unat ((t + 8 * i) - f) = 4096 * a + 8 * unat i - 4096 * b" using e ab by (subst unat_sub_if') auto
  then have "a = b" using \<open>unat ((t + 8 * i) - f) < 4096\<close> \<open>4096 * b \<le> _\<close> assms(4) by simp
  then show False using ab assms(3) by (simp add: word_unat_eq_iff)
qed

definition linked :: "u64 \<Rightarrow> u64 \<Rightarrow> (u64 \<Rightarrow> u64) \<Rightarrow> u64 \<Rightarrow> u64" where
  "linked en f m = (\<lambda>a. if a - f < 4096 then 0 else m a)(en := mk_entry f)"

lemma tree_link_zeroed:
  assumes ok: "tree_ok m r" and t0: "tab_at m r va0 d0 = Some t0" "d0 < 3" and e0: "m (entry_at t0 va0 d0) = 0"
    and f: "frame_ok f" "\<not> is_table m r f"
  shows "tree_ok (linked (entry_at t0 va0 d0) f m) r"
    "is_table (linked (entry_at t0 va0 d0) f m) r t \<longleftrightarrow> t = f \<or> is_table m r t"
    "walk_from (linked (entry_at t0 va0 d0) f m) 4 r va = walk_from m 4 r va"
    "tab_at (linked (entry_at t0 va0 d0) f m) r va0 (Suc d0) = Some f"
    "unat i < 512 \<Longrightarrow> linked (entry_at t0 va0 d0) f m (f + 8 * i) = 0"
    "linked (entry_at t0 va0 d0) f m = (\<lambda>a. if a - f < 4096 then 0 else (m(entry_at t0 va0 d0 := mk_entry f)) a)"
proof -
  define z where "z = (\<lambda>a. if a - f < 4096 then 0 else m a)"
  have l: "linked (entry_at t0 va0 d0) f m = z(entry_at t0 va0 d0 := mk_entry f)" by (simp add: linked_def z_def)
  have out: "z (t + 8 * i) = m (t + 8 * i)" if "is_table m r t" "unat i < 512" for t i
  proof -
    have "frame_ok t" using that(1) tree_okD(1) [OF ok] unfolding is_table_def by blast
    then show ?thesis using table_outside_page [of t f i] that f by (auto simp: z_def)
  qed
  note o = tree_outside [of m r z, OF ok out]
  have t0': "tab_at z r va0 d0 = Some t0" using o(1) [of d0 va0] t0 by simp
  have tt: "is_table m r t0" "frame_ok t0" using tree_okD [OF ok t0(1)] t0(2) by auto
  have z0: "z (entry_at t0 va0 d0) = 0" using out [OF tt(1) tab_index_less(2)] e0 by simp
  have zf: "z (f + 8 * i) = 0" if "unat i < 512" for i using page_words [OF f(1) that] by (simp add: z_def)
  have nf: "\<not> is_table z r f" using f(2) o(3) by simp
  note k = tree_link [OF o(2) t0' t0(2) z0 f(1) nf zf]
  show "tree_ok (linked (entry_at t0 va0 d0) f m) r"
    "is_table (linked (entry_at t0 va0 d0) f m) r t \<longleftrightarrow> t = f \<or> is_table m r t"
    "walk_from (linked (entry_at t0 va0 d0) f m) 4 r va = walk_from m 4 r va"
    "tab_at (linked (entry_at t0 va0 d0) f m) r va0 (Suc d0) = Some f"
    using k o(3,4) by (simp_all add: l)
  have ne: "t0 \<noteq> f" using tt f(2) by auto
  show "linked (entry_at t0 va0 d0) f m (f + 8 * i) = 0" if "unat i < 512"
    using zf [OF that] entry_inj [OF f(1) tt(2) that tab_index_less(2)] ne by (auto simp: l)
  have "\<not> entry_at t0 va0 d0 - f < 4096" using table_outside_page [OF tt(2) f(1) ne tab_index_less(2)] .
  then show "linked (entry_at t0 va0 d0) f m = (\<lambda>a. if a - f < 4096 then 0 else (m(entry_at t0 va0 d0 := mk_entry f)) a)"
    by (auto simp: linked_def)
qed

lemma linked_tab_at:
  assumes ok: "tree_ok m r" and t0: "tab_at m r va0 d0 = Some t0" "d0 < 3"
    and f: "frame_ok f" "\<not> is_table m r f" and d: "d \<le> 4"
  shows "tab_at (linked (entry_at t0 va0 d0) f m) r va d =
    (if same_path (Suc d0) va va0 \<and> d0 < d then if d = Suc d0 then Some f else None
     else tab_at (\<lambda>a. if a - f < 4096 then 0 else m a) r va d)"
    "d \<le> 3 \<Longrightarrow> tab_at (\<lambda>a. if a - f < 4096 then 0 else m a) r va d = tab_at m r va d"
proof -
  define z where "z = (\<lambda>a. if a - f < 4096 then 0 else m a)"
  have out: "z (t + 8 * i) = m (t + 8 * i)" if "is_table m r t" "unat i < 512" for t i
  proof -
    have "frame_ok t" using that(1) tree_okD(1) [OF ok] unfolding is_table_def by blast
    then show ?thesis using table_outside_page [of t f i] that f by (auto simp: z_def)
  qed
  note o = tree_outside [of m r z, OF ok out]
  have zf: "z (f + 8 * i) = 0" if "unat i < 512" for i using page_words [OF f(1) that] by (simp add: z_def)
  have t': "tab_at z r va0 d0 = Some t0" using o(1) [of d0 va0] t0 by simp
  have nf: "\<not> is_table z r f" using o(3) f(2) by simp
  show "tab_at (linked (entry_at t0 va0 d0) f m) r va d =
    (if same_path (Suc d0) va va0 \<and> d0 < d then if d = Suc d0 then Some f else None
     else tab_at (\<lambda>a. if a - f < 4096 then 0 else m a) r va d)"
    using tab_at_link [OF o(2) t' t0(2) f(1) nf zf d, of va] by (simp add: linked_def z_def del: tab_at.simps)
  show "d \<le> 3 \<Longrightarrow> tab_at (\<lambda>a. if a - f < 4096 then 0 else m a) r va d = tab_at m r va d"
    using o(1) [of d va] by (simp add: z_def)
qed

lemma align_assert_4K: "p mod 4096 = 0 \<Longrightarrow> align_assert p 4096 k = k"
  by (simp add: align_assert_def mm_align_check_def)

text \<open>One level of \<open>_init_direct_access\<close> hangs one zeroed table below an empty entry.\<close>

lemma init_direct_level_links:
  assumes m: "pmem s = m" and ok: "tree_ok m r"
    and t0: "tab_at m r VA_48_DIRECT_ACCESS_PAGE d = Some tab" "d < 3" and e0: "m (entry_at tab VA_48_DIRECT_ACCESS_PAGE d) = 0"
    and f: "frame_ok f" "\<not> is_table m r f" and va: "direct_vadd s = VA_48_DIRECT_ACCESS_PAGE" "direct_tab s ! (2 - d) = f"
    and inside: "direct_tab_inside (direct_tab_space s) f"
  shows "init_direct_level (4 - d) tab s = Ret (f, s\<lparr>pmem := linked (entry_at tab VA_48_DIRECT_ACCESS_PAGE d) f m\<rparr>)"
proof -
  have lv: "1 \<le> 4 - d" "4 - d \<le> 4" "4 - d \<noteq> 1" and idx: "4 - d - 1 - 1 = 2 - d" using t0 by auto
  have "tab_entry_init (4 - d) True True f PAGE_SIZE_4K = Ret (mk_entry f)"
    using tab_entry_init_4K [of "4 - d" f] frame_okD [OF f(1)] lv by (simp add: PAGE_SIZE_4K_def)
  moreover have "tab_zero_early f (pmem_store (entry_at tab VA_48_DIRECT_ACCESS_PAGE d) (mk_entry f) s) =
      s\<lparr>pmem := linked (entry_at tab VA_48_DIRECT_ACCESS_PAGE d) f m\<rparr>"
    using tree_link_zeroed(6) [OF ok t0 e0 f] by (simp add: tab_zero_early_def pmem_store_def m cong: if_cong)
  ultimately show ?thesis
    using e0 va lv inside unfolding init_direct_level_def idx
    by (simp add: tab_entry_is_present_def tab_entry_is_zero_def Let_def m)
qed

text \<open>The function never returns, since the first table it zeroes lies outside \<open>_direct_tab_space\<close>.\<close>

lemma direct_tab_outside: "\<not> direct_tab_inside space (direct_tab_addr space 2)"
  by (simp add: direct_tab_inside_def direct_tab_addr_def PAGE_SIZE_4K_def)

lemma init_direct_access_stops: "init_direct_access s = Stop AssertFail \<or> init_direct_access s = Stop OutOfBounds"
proof -
  have "[0..<3] = [0, 1, 2 :: nat]" by (simp add: upt_rec numeral_2_eq_2)
  then show ?thesis
    by (simp add: init_direct_access_def init_direct_levels_def init_direct_level_def Let_def align_assert_def mm_align_check_def
        PAGE_SIZE_4K_def kassert_def inbounds_def tab_entry_init_def direct_tab_outside)
qed

lemma init_direct_access_runs_out:
  assumes "direct_tab_arr s mod 4096 = 0" "direct_tab_space s mod 4096 = 0" "direct_tab_addr (direct_tab_space s) 2 \<le> VA_48_LOW_END"
    and "pmem s (tab_4 s + 8 * tab_index VA_48_DIRECT_ACCESS_PAGE 4) = 0"
  shows "init_direct_access s = Stop OutOfBounds"
proof -
  have "[0..<3] = [0, 1, 2 :: nat]" by (simp add: upt_rec numeral_2_eq_2)
  moreover have "direct_tab_addr (direct_tab_space s) i mod 4096 = 0" for i
    using page_multiple [OF assms(2), of "8 * of_nat i"] by (simp add: direct_tab_addr_def PAGE_SIZE_4K_def mult.commute)
  ultimately show ?thesis using assms
    by (simp add: init_direct_access_def init_direct_levels_def init_direct_level_def Let_def align_assert_def mm_align_check_def
        PAGE_SIZE_4K_def inbounds_def tab_entry_init_4K [unfolded PAGE_SIZE_4K_def] direct_tab_outside tab_entry_is_present_def tab_entry_is_zero_def)
qed

text \<open>The three tables in \<open>_direct_tab_space\<close>, one page each.\<close>

definition direct_tab_pages :: "'a mm_state_scheme \<Rightarrow> u64 list" where
  "direct_tab_pages s = map (\<lambda>i. direct_tab_space s + of_nat i * PAGE_SIZE_4K) [0..<3]"

text \<open>
  C16: \<open>_init_direct_access\<close> never returns: it places its tables 8 pages apart, so the table it hangs below the
  root first, and zeroes, lies 65536 bytes into an array of 12288; on an aligned image whose root entry is
  empty this is the access that stops it. The rest of the function is right: with \<open>_direct_tab\<close> holding the
  three pages of the array, none of them in the tree, the loop over the levels returns, the tables are well
  formed with the window the whole mapper works through in place and closed, and the processor translates
  every address as before.
\<close>

theorem init_direct_access_overruns:
  assumes tree: "tree_ok (pmem s) (tab_4 s)" "cr3 s = tab_4 s"
    and free: "pmem s (tab_4 s + 8 * tab_index VA_48_DIRECT_ACCESS_PAGE 4) = 0"
    and arr: "direct_tab_arr s mod 4096 = 0" "direct_tab_addr (direct_tab_space s) 2 \<le> VA_48_LOW_END"
    and tabs: "\<forall>t \<in> set (direct_tab_pages s). frame_ok t \<and> \<not> is_table (pmem s) (tab_4 s) t"
  shows "(\<forall>s0 :: mm_state. init_direct_access s0 = Stop AssertFail \<or> init_direct_access s0 = Stop OutOfBounds) \<and>
    init_direct_access s = Stop OutOfBounds \<and>
    (\<exists>s'. init_direct_levels (s\<lparr>direct_vadd := VA_48_DIRECT_ACCESS_PAGE, direct_tab := direct_tab_pages s\<rparr>) = Ret s' \<and>
      page_ok s' \<and> (\<forall>va. walk s' va = walk s va) \<and>
      (\<forall>t. is_table (pmem s') (tab_4 s') t \<longleftrightarrow> is_table (pmem s) (tab_4 s) t \<or> t \<in> set (direct_tab_pages s)))"
proof -
  let ?va = VA_48_DIRECT_ACCESS_PAGE
  define f where "f i = direct_tab_space s + of_nat i * PAGE_SIZE_4K" for i :: nat
  have upt: "direct_tab_pages s = [f 0, f 1, f 2]" by (simp add: direct_tab_pages_def f_def upt_rec numeral_2_eq_2)
  have ff: "frame_ok (f 0)" "frame_ok (f 1)" "frame_ok (f 2)"
    and nt: "\<not> is_table (pmem s) (tab_4 s) (f 0)" "\<not> is_table (pmem s) (tab_4 s) (f 1)" "\<not> is_table (pmem s) (tab_4 s) (f 2)"
    using tabs by (auto simp: upt)
  have ne: "f 0 \<noteq> f 1" "f 0 \<noteq> f 2" "f 1 \<noteq> f 2" by (auto simp: f_def PAGE_SIZE_4K_def)
  have ins: "direct_tab_inside (direct_tab_space s) (f 0)" "direct_tab_inside (direct_tab_space s) (f 1)"
    "direct_tab_inside (direct_tab_space s) (f 2)" by (simp_all add: direct_tab_inside_def f_def PAGE_SIZE_4K_def)
  define m1 where "m1 = linked (entry_at (tab_4 s) ?va 0) (f 2) (pmem s)"
  define m2 where "m2 = linked (entry_at (f 2) ?va 1) (f 1) m1"
  define m3 where "m3 = linked (entry_at (f 1) ?va 2) (f 0) m2"
  have e0: "pmem s (entry_at (tab_4 s) ?va 0) = 0" using free by simp
  have less: "0 < (3::nat)" "1 < (3::nat)" "2 < (3::nat)" and suc: "Suc 0 = 1" "Suc 1 = 2" "Suc 2 = 3" by simp_all
  note l1 = tree_link_zeroed [OF tree(1) tab_at.simps(1) less(1) e0 ff(3) nt(3), folded m1_def, unfolded suc]
  have n1: "\<not> is_table m1 (tab_4 s) (f 1)" using l1(2) ne nt(2) by auto
  note l2 = tree_link_zeroed [OF l1(1,4) less(2) l1(5) [OF tab_index_less(2)] ff(2) n1, folded m2_def, unfolded suc]
  have n2: "\<not> is_table m2 (tab_4 s) (f 0)" using l1(2) l2(2) ne nt(1) by auto
  note l3 = tree_link_zeroed [OF l2(1,4) less(3) l2(5) [OF tab_index_less(2)] ff(1) n2, folded m3_def, unfolded suc]
  let ?s = "s\<lparr>direct_vadd := ?va, direct_tab := [f 0, f 1, f 2]\<rparr>"
  note lv1 = init_direct_level_links [where s = ?s, OF _ tree(1) tab_at.simps(1) less(1) e0 ff(3) nt(3), folded m1_def]
    and lv2 = init_direct_level_links [where s = "?s\<lparr>pmem := m1\<rparr>",
      OF _ l1(1,4) less(2) l1(5) [OF tab_index_less(2)] ff(2) n1, folded m2_def]
    and lv3 = init_direct_level_links [where s = "?s\<lparr>pmem := m2\<rparr>",
      OF _ l2(1,4) less(3) l2(5) [OF tab_index_less(2)] ff(1) n2, folded m3_def]
  have "init_direct_level 4 (tab_4 s) ?s = Ret (f 2, ?s\<lparr>pmem := m1\<rparr>)" using lv1 ins(3) by simp
  moreover have "init_direct_level 3 (f 2) (?s\<lparr>pmem := m1\<rparr>) = Ret (f 1, ?s\<lparr>pmem := m2\<rparr>)" using lv2 ins(2) by simp
  moreover have "init_direct_level 2 (f 1) (?s\<lparr>pmem := m2\<rparr>) = Ret (f 0, ?s\<lparr>pmem := m3\<rparr>)" using lv3 ins(1) by simp
  moreover have "m3(f 0 := 0) = m3" using l3(5) [of 0] by (simp add: fun_upd_idem)
  ultimately have "init_direct_levels ?s = Ret (?s\<lparr>direct_tab_entry := f 0, pmem := m3\<rparr>)"
    by (simp add: init_direct_levels_def Let_def pmem_store_def direct_page_facts flip: numeral_2_eq_2)
  moreover have "page_ok (?s\<lparr>direct_tab_entry := f 0, pmem := m3\<rparr>)"
    using l3(1,4) l3(5) [of 0] tree(2) by (simp add: page_ok_def del: tab_at.simps)
  moreover have "walk (?s\<lparr>direct_tab_entry := f 0, pmem := m3\<rparr>) va = walk s va" for va
    using l1(3) l2(3) l3(3) tree(2) by (simp add: walk_def)
  moreover have "direct_tab_space s mod 4096 = 0" using frame_okD(1) [OF ff(1)] by (simp add: f_def)
  then have "init_direct_access s = Stop OutOfBounds" using init_direct_access_runs_out [OF arr(1) _ arr(2) free] by simp
  moreover have "\<forall>s0 :: mm_state. init_direct_access s0 = Stop AssertFail \<or> init_direct_access s0 = Stop OutOfBounds"
    using init_direct_access_stops by blast
  ultimately show ?thesis unfolding upt using l1(2) l2(2) l3(2)
    by (intro conjI exI [of _ "?s\<lparr>direct_tab_entry := f 0, pmem := m3\<rparr>"]) auto
qed

text \<open>A machine before \<open>_init_direct_access\<close>: an empty root table, the static tables behind it.\<close>

definition sample_boot :: mm_state where
  "sample_boot = sample_empty\<lparr>pmem := (\<lambda>_. 0), direct_tab_space := 0x10000, direct_tab_arr := 0x5000\<rparr>"

theorem init_direct_access_overruns_witness:
  "init_direct_access sample_boot = Stop OutOfBounds \<and>
   (\<exists>s'. init_direct_levels (sample_boot\<lparr>direct_vadd := VA_48_DIRECT_ACCESS_PAGE, direct_tab := [0x10000, 0x11000, 0x12000]\<rparr>) = Ret s' \<and> page_ok s')"
proof -
  have p: "direct_tab_pages sample_boot = [0x10000, 0x11000, 0x12000]"
    by (simp add: direct_tab_pages_def sample_boot_def sample_empty_def PAGE_SIZE_4K_def upt_rec)
  have "\<forall>t \<in> set [0x10000, 0x11000, 0x12000]. frame_ok t \<and> \<not> is_table (\<lambda>_. 0) 0x1000 t"
    by (auto simp: zero_tree(3) frame_ok_def VA_48_LOW_END_def)
  then show ?thesis
    using init_direct_access_overruns [of sample_boot, unfolded p] zero_tree(1) [OF sample_frames_ok(1)]
    by (auto simp: sample_boot_def sample_empty_def direct_tab_addr_def PAGE_SIZE_4K_def VA_48_LOW_END_def)
qed

end
