(* ===== verification/Mm_Boot_Early.thy ===== *)
theory Mm_Boot_Early
  imports Mm_Boot_Window
begin

text \<open>
  The early identity map: \<open>mm_page_early_bootstrap\<close> builds page tables with 2 MB pages out of the static
  frame pool.
\<close>

subsection \<open>Pages of 2 MB\<close>

abbreviation huge_entry :: "u64 \<Rightarrow> u64" where
  "huge_entry pa \<equiv> pa OR 0x83"

lemma aligned_2M_bits: "pa mod PAGE_SIZE_2M = 0 \<Longrightarrow> bit pa n \<Longrightarrow> 21 \<le> n"
proof -
  assume "pa mod PAGE_SIZE_2M = 0" and b: "bit pa n"
  then have "take_bit 21 pa = 0" by (simp add: take_bit_eq_mod PAGE_SIZE_2M_def)
  then show ?thesis using b by (metis bit_take_bit_iff bit_0_eq bot_apply bot_bool_def not_le)
qed

lemma huge_entry_bit: "bit (huge_entry pa) n \<longleftrightarrow> bit pa n \<or> n = 0 \<or> n = 1 \<or> n = 7"
proof -
  have c: "(0x83 :: u64) = 2 ^ 0 OR 2 ^ 1 OR 2 ^ 7" by simp
  show ?thesis unfolding c bit_or_iff by (simp only: bit_exp_iff possible_bit_word) auto
qed

lemma huge_entry_fields:
  assumes "pa mod PAGE_SIZE_2M = 0" "pa \<le> VA_48_LOW_END"
  shows "hw_padd (huge_entry pa) AND NOT (mask 21) = pa" "tab_entry_init 2 True True pa PAGE_SIZE_2M = Ret (huge_entry pa)"
    "next_tab 2 (huge_entry pa) = None" "entry_ok 2 (huge_entry pa)"
proof -
  have m: "(0x000ffffffffff000 :: u64) = mask 52 AND NOT (mask 12)" by (simp add: mask_eq_exp_minus_1)
  show "hw_padd (huge_entry pa) AND NOT (mask 21) = pa"
  proof (rule bit_word_eqI)
    fix n
    assume "n < LENGTH(64)"
    then show "bit (hw_padd (huge_entry pa) AND NOT (mask 21)) n = bit pa n"
      using aligned_2M_bits [OF assms(1), of n] low_half_bits [OF assms(2), of n]
      unfolding hw_padd_def m by (cases "n < 47") (auto simp: bit_and_iff bit_not_iff bit_mask_iff huge_entry_bit)
  qed
  show "tab_entry_init 2 True True pa PAGE_SIZE_2M = Ret (huge_entry pa)"
    using assms by (simp add: tab_entry_init_def mm_align_check_def Let_def or.assoc page_size_defs)
  show no: "next_tab 2 (huge_entry pa) = None" by (simp add: next_tab_def huge_entry_bit)
  show "entry_ok 2 (huge_entry pa)" using no by (simp add: entry_ok_def huge_entry_bit)
qed

text \<open>Writing a 2 MB entry of level 2 changes the translation of that page and no table.\<close>

lemma tree_huge:
  assumes ok: "tree_ok m r" and t0: "tab_at m r va0 2 = Some t0" and e0: "m (entry_at t0 va0 2) = 0"
    and pa: "pa mod PAGE_SIZE_2M = 0" "pa \<le> VA_48_LOW_END"
  defines "m' \<equiv> m(entry_at t0 va0 2 := huge_entry pa)"
  shows "d \<le> 3 \<Longrightarrow> tab_at m' r va d = tab_at m r va d" "tree_ok m' r" "is_table m' r = is_table m r"
    "walk_from m' 4 r va = (if same_path 3 va va0 then Some (pa + (va AND mask 21)) else walk_from m 4 r va)"
    "d \<le> 3 \<Longrightarrow> tab_at m r va d = Some t \<Longrightarrow> m' (entry_at t va d) = (if d = 2 \<and> same_path 3 va va0 then huge_entry pa else m (entry_at t va d))"
proof -
  have two: "(2::nat) \<le> 3" by simp
  have entry: "m' (entry_at t va d) = (if d = 2 \<and> same_path 3 va va0 then huge_entry pa else m (entry_at t va d))"
    if "tab_at m r va d = Some t" "d \<le> 3" for va d t
  proof (cases "d = 2 \<and> same_path 3 va va0")
    case True
    then have "same_path 2 va va0" using same_path_mono [of 3 va va0 2] by simp
    with True that t0 have "t = t0" by (simp add: tab_at_same_path del: tab_at.simps)
    then show ?thesis using True same_path_Suc [of 2 va va0] by (simp add: m'_def)
  next
    case False
    then show ?thesis using entry_unique [OF ok that t0 two] by (auto simp: m'_def)
  qed
  then show "d \<le> 3 \<Longrightarrow> tab_at m r va d = Some t \<Longrightarrow> m' (entry_at t va d) = (if d = 2 \<and> same_path 3 va va0 then huge_entry pa else m (entry_at t va d))"
    by blast
  have low: "tab_at m' r va d = tab_at m r va d" if "d \<le> 2" for va d
    unfolding m'_def using that upd_miss [OF ok t0 two] by simp
  have at: "tab_at m' r va d = tab_at m r va d" if "d \<le> 3" for va d
  proof (cases "d = 3 \<and> same_path 3 va va0")
    case False
    then show ?thesis unfolding m'_def using that upd_miss [OF ok t0 two, of d va] by (auto simp del: tab_at.simps)
  next
    case True
    then have t: "tab_at m r va 2 = Some t0" "entry_at t0 va 2 = entry_at t0 va0 2"
      using t0 same_path_mono [of 3 va va0 2] tab_at_same_path [of 2 va va0] same_path_Suc [of 2 va va0] by auto
    have "tab_at m r va (Suc 2) = None" unfolding tab_at.simps t(1) option.case t(2) e0 by (simp add: next_tab_def)
    moreover have "tab_at m' r va (Suc 2) = None"
      unfolding tab_at.simps low [OF order_refl] t(1) option.case t(2) using huge_entry_fields(3) [OF pa] by (simp add: m'_def)
    ultimately show ?thesis using True by (simp add: numeral_3_eq_3 numeral_2_eq_2)
  qed
  then show "d \<le> 3 \<Longrightarrow> tab_at m' r va d = tab_at m r va d" .
  show "tree_ok m' r"
    unfolding tree_ok_def
  proof (intro conjI allI impI)
    fix va d t
    assume a: "d \<le> 3" "tab_at m' r va d = Some t"
    then have b: "tab_at m r va d = Some t" using at by simp
    show "frame_ok t" using tree_okD(1) [OF ok b a(1)] .
    show "entry_ok d (m' (entry_at t va d))"
      using entry [OF b a(1)] tree_okD(2) [OF ok b a(1)] huge_entry_fields(4) [OF pa] by auto
  next
    fix va va' d d' t
    assume a: "d \<le> 3" "d' \<le> 3" "tab_at m' r va d = Some t" "tab_at m' r va' d' = Some t"
    then show "d = d'" "same_path d va va'" using tree_ok_unique [OF ok _ _ a(1,2)] at by auto
  qed
  have "d \<le> 3 \<and> tab_at m' r va d = Some t \<longleftrightarrow> d \<le> 3 \<and> tab_at m r va d = Some t" for va d t
    using at [of d va] by auto
  then show "is_table m' r = is_table m r" by (simp add: is_table_def fun_eq_iff)
  show "walk_from m' 4 r va = (if same_path 3 va va0 then Some (pa + (va AND mask 21)) else walk_from m 4 r va)"
  proof (cases "same_path 3 va va0")
    case False
    then show ?thesis using upd_walk_miss [OF ok t0 two, of va] by (simp add: m'_def)
  next
    case True
    then have t: "tab_at m' r va 2 = Some t0" using low [of 2 va] t0 same_path_mono [of 3 va va0 2] tab_at_same_path [of 2 va va0] by simp
    have e: "m' (t0 + 8 * tab_index va (Suc (Suc 0))) = huge_entry pa"
      using True same_path_Suc [of 2 va va0] by (simp add: m'_def numeral_2_eq_2 numeral_3_eq_3)
    have "walk_from m' 4 r va = walk_from m' (Suc (Suc 0)) t0 va" using walk_tab_at [OF _ t] by (simp add: numeral_2_eq_2 del: walk_from.simps)
    also have "\<dots> = Some (pa + (va AND mask 21))"
      using huge_entry_fields(1) [OF pa] unfolding walk_from.simps(2) e by (simp add: Let_def huge_entry_bit)
    finally show ?thesis using True by simp
  qed
qed

lemma same_path_3_bits: "same_path 3 va va' \<longleftrightarrow> (\<forall>n. 21 \<le> n \<longrightarrow> n < 48 \<longrightarrow> bit va n = bit va' n)"
proof
  assume p: "same_path 3 va va'"
  show "\<forall>n. 21 \<le> n \<longrightarrow> n < 48 \<longrightarrow> bit va n = bit va' n"
  proof (intro allI impI)
    fix n :: nat
    assume n: "21 \<le> n" "n < 48"
    let ?l = "Suc ((n - 12) div 9)"
    have l: "2 \<le> ?l" "?l \<le> 4" using n by auto
    then have "4 - ?l < 3" "4 - (4 - ?l) = ?l" by auto
    then have "tab_index va ?l = tab_index va' ?l" using p unfolding same_path_def by metis
    moreover have "(?l - 1) * 9 + 12 \<le> n" "n < (?l - 1) * 9 + 21" using n by auto
    ultimately show "bit va n = bit va' n" by (rule tab_index_bits)
  qed
next
  assume p: "\<forall>n. 21 \<le> n \<longrightarrow> n < 48 \<longrightarrow> bit va n = bit va' n"
  have "tab_index va (4 - k) = tab_index va' (4 - k)" if "k < 3" for k
  proof (rule bit_word_eqI)
    fix n
    have "n < 9 \<Longrightarrow> bit va ((4 - k - 1) * 9 + 12 + n) = bit va' ((4 - k - 1) * 9 + 12 + n)"
      using p that by (intro p [rule_format]) auto
    then show "bit (tab_index va (4 - k)) n = bit (tab_index va' (4 - k)) n" by (auto simp: bit_tab_index)
  qed
  then show "same_path 3 va va'" by (simp add: same_path_def)
qed

lemma same_path_3:
  assumes "canonical v" "va mod PAGE_SIZE_2M = 0" "va \<le> VA_48_LOW_END"
  shows "same_path 3 v va \<longleftrightarrow> unat va \<le> unat v \<and> unat v < unat va + 2097152"
    "same_path 3 v va \<Longrightarrow> va + (v AND mask 21) = v"
proof -
  have "same_path 3 v va \<longleftrightarrow> (\<forall>n. 21 \<le> n \<longrightarrow> n < 64 \<longrightarrow> bit v n = bit va n)"
  proof -
    have "bit v n = bit va n" if "same_path 3 v va" "21 \<le> n" "n < 64" for n
    proof (cases "n < 48")
      case False
      then have "bit v n = bit v 47" "\<not> bit va n" "\<not> bit va 47"
        using canonical_bits [OF assms(1), of n] low_half_bits [OF assms(3)] that by auto
      moreover have "bit v 47 = bit va 47" using that(1) by (simp add: same_path_3_bits)
      ultimately show ?thesis by simp
    qed (use that in \<open>simp add: same_path_3_bits\<close>)
    then show ?thesis by (auto simp: same_path_3_bits)
  qed
  also have "\<dots> \<longleftrightarrow> drop_bit 21 v = drop_bit 21 va"
  proof
    assume b: "\<forall>n. 21 \<le> n \<longrightarrow> n < 64 \<longrightarrow> bit v n = bit va n"
    show "drop_bit 21 v = drop_bit 21 va"
    proof (rule bit_word_eqI)
      fix n
      show "bit (drop_bit 21 v) n = bit (drop_bit 21 va) n"
        using b [rule_format, of "21 + n"] bit_imp_le_length [of v "21 + n"] bit_imp_le_length [of va "21 + n"]
        by (auto simp: bit_drop_bit_eq)
    qed
  next
    assume d: "drop_bit 21 v = drop_bit 21 va"
    show "\<forall>n. 21 \<le> n \<longrightarrow> n < 64 \<longrightarrow> bit v n = bit va n"
    proof (intro allI impI)
      fix n :: nat
      assume "21 \<le> n"
      then show "bit v n = bit va n"
        using bit_drop_bit_eq [of 21 v] bit_drop_bit_eq [of 21 va] d by (metis comp_apply le_add_diff_inverse)
    qed
  qed
  finally have *: "same_path 3 v va \<longleftrightarrow> drop_bit 21 v = drop_bit 21 va" .
  have dvd: "2097152 dvd unat va" using assms(2) by (simp add: PAGE_SIZE_2M_def u64_eq_iff_unat unat_mod mod_eq_0_iff_dvd)
  have "drop_bit 21 v = drop_bit 21 va \<longleftrightarrow> unat v div 2097152 = unat va div 2097152"
    by (simp add: u64_eq_iff_unat drop_bit_eq_div unat_div)
  then show r: "same_path 3 v va \<longleftrightarrow> unat va \<le> unat v \<and> unat v < unat va + 2097152" using * dvd by (auto elim!: dvdE)
  show "va + (v AND mask 21) = v" if "same_path 3 v va"
  proof -
    have "unat (v AND mask 21) = unat v mod 2097152"
      by (simp add: take_bit_eq_mod unat_mod flip: take_bit_eq_mask)
    moreover have "unat v = unat va + unat v mod 2097152"
    proof -
      obtain k where k: "unat va = 2097152 * k" using dvd by (auto elim: dvdE)
      then have "unat v div 2097152 = k" using r that by auto
      then show ?thesis using k mult_div_mod_eq [of 2097152 "unat v"] by simp
    qed
    ultimately show ?thesis by (subst u64_eq_iff_unat, subst unat_u64_add) (use unat_u64_bound [of v] in auto)
  qed
qed

subsection \<open>Tables from the pool\<close>

abbreviation pool_frame :: "mm_state \<Rightarrow> nat \<Rightarrow> u64" where
  "pool_frame s i \<equiv> early_frame_pool s + of_nat i * FRAME_SIZE_4K"

text \<open>
  The early stage: the pool consists of usable frames, those not yet handed out are no tables, and there
  are no tables of level 1.
\<close>

definition early_ok :: "mm_state \<Rightarrow> bool" where
  "early_ok s \<longleftrightarrow> is_early_stage s \<and> early_frame_count s \<le> EARLY_FRAME_CAP \<and> tree_ok (pmem s) (tab_4 s) \<and>
     (\<forall>i<16384. frame_ok (pool_frame s i)) \<and>
     (\<forall>i<16384. unat (early_frame_count s) \<le> i \<longrightarrow> \<not> is_table (pmem s) (tab_4 s) (pool_frame s i)) \<and>
     (\<forall>va. tab_at (pmem s) (tab_4 s) va 3 = None)"

lemma pool_frame_inj: "i < 16384 \<Longrightarrow> j < 16384 \<Longrightarrow> pool_frame s i = pool_frame s j \<longleftrightarrow> i = j"
proof -
  assume "i < 16384" "j < 16384"
  then have "unat (of_nat i * 4096 :: u64) = i * 4096" "unat (of_nat j * 4096 :: u64) = j * 4096" by (simp_all add: unat_u64_mult unat_of_nat)
  then have "of_nat i * 4096 = (of_nat j * 4096 :: u64) \<longleftrightarrow> i = j" by (simp add: u64_eq_iff_unat)
  then show ?thesis by (simp add: FRAME_SIZE_4K_def)
qed

text \<open>The next frame of the pool, linked below an empty entry.\<close>

definition link_early :: "u64 \<Rightarrow> mm_state \<Rightarrow> mm_state" where
  "link_early en s = s\<lparr>early_frame_count := early_frame_count s + 1,
     pmem := linked en (pool_frame s (unat (early_frame_count s))) (pmem s)\<rparr>"

lemma link_early_ok:
  assumes ok: "early_ok s" and room: "early_frame_count s < EARLY_FRAME_CAP"
    and t: "tab_at (pmem s) (tab_4 s) va d = Some tab" "d < 2" and e0: "pmem s (entry_at tab va d) = 0"
  defines "s' \<equiv> link_early (entry_at tab va d) s" and "f \<equiv> pool_frame s (unat (early_frame_count s))"
  shows "early_ok s'" "tab_at (pmem s') (tab_4 s') va (Suc d) = Some f" "walk_from (pmem s') 4 (tab_4 s') v = walk_from (pmem s) 4 (tab_4 s) v"
    "pmem s' (entry_at tab va d) = mk_entry f" "frame_ok f"
    "mm_frame_alloc_early s = Ret (Some f, s\<lparr>early_frame_count := early_frame_count s + 1\<rparr>)"
    "tab_zero_early f (pmem_store (entry_at tab va d) (mk_entry f) (s\<lparr>early_frame_count := early_frame_count s + 1\<rparr>)) = s'"
proof -
  let ?c = "unat (early_frame_count s)"
  have c: "?c < 16384" using room by (simp add: word_less_nat_alt EARLY_FRAME_CAP_def)
  have d3: "d < 3" using t(2) by simp
  have tree: "tree_ok (pmem s) (tab_4 s)" and nf: "\<not> is_table (pmem s) (tab_4 s) f" and leaf: "\<And>va. tab_at (pmem s) (tab_4 s) va 3 = None"
    using ok c unfolding early_ok_def f_def by blast+
  show f: "frame_ok f" using ok c unfolding early_ok_def f_def by blast
  note l = tree_link_zeroed [OF tree t(1) d3 e0 f nf]
  have s': "pmem s' = linked (entry_at tab va d) f (pmem s)" "tab_4 s' = tab_4 s" "early_frame_pool s' = early_frame_pool s"
    "is_early_stage s' = is_early_stage s" "early_frame_count s' = early_frame_count s + 1"
    by (simp_all add: s'_def link_early_def f_def)
  have c': "unat (early_frame_count s') = ?c + 1" using c unfolding s' by (subst unat_u64_add) auto
  have no: "tab_at (pmem s') (tab_4 s') w 3 = None" for w
    using linked_tab_at [OF tree t(1) d3 f nf, of 3 w] leaf [of w] t(2) by (simp add: s' del: tab_at.simps)
  have "\<not> is_table (pmem s') (tab_4 s') (pool_frame s' i)" if i: "i < 16384" "unat (early_frame_count s') \<le> i" for i
  proof -
    have "pool_frame s i \<noteq> f" using pool_frame_inj [OF i(1) c] i(2) c' by (simp add: f_def)
    moreover have "\<not> is_table (pmem s) (tab_4 s) (pool_frame s i)" using ok i c' unfolding early_ok_def by simp
    ultimately show ?thesis using l(2) by (simp add: s')
  qed
  moreover have "early_frame_count s' \<le> EARLY_FRAME_CAP" using c c' by (simp add: word_le_nat_alt EARLY_FRAME_CAP_def)
  ultimately show "early_ok s'" using ok no l(1) unfolding early_ok_def by (simp add: s')
  show "tab_at (pmem s') (tab_4 s') va (Suc d) = Some f" "walk_from (pmem s') 4 (tab_4 s') v = walk_from (pmem s) 4 (tab_4 s) v"
    using l(3,4) by (simp_all add: s' del: tab_at.simps)
  show "pmem s' (entry_at tab va d) = mk_entry f" by (simp add: s' linked_def)
  show "mm_frame_alloc_early s = Ret (Some f, s\<lparr>early_frame_count := early_frame_count s + 1\<rparr>)"
    using ok room by (simp add: mm_frame_alloc_early_def early_ok_def f_def)
  show "tab_zero_early f (pmem_store (entry_at tab va d) (mk_entry f) (s\<lparr>early_frame_count := early_frame_count s + 1\<rparr>)) = s'"
    using l(6) by (simp add: tab_zero_early_def pmem_store_def s'_def link_early_def f_def cong: if_cong)
qed

lemma map_early_loop_descends:
  assumes "early_ok s" "tab_at (pmem s) (tab_4 s) va d = Some tab" "d \<le> 2" "walk_from (pmem s) 4 (tab_4 s) va = None" "ok \<noteq> Some False"
  shows "\<exists>ok' tab' s'. map_early_loop (4 - d) va ok tab s = Ret (ok', tab', s') \<and> early_ok s' \<and> tab_4 s' = tab_4 s \<and>
    (\<forall>v. walk_from (pmem s') 4 (tab_4 s) v = walk_from (pmem s) 4 (tab_4 s) v) \<and>
    unat (early_frame_count s') \<le> unat (early_frame_count s) + (2 - d) \<and>
    (ok' = Some False \<and> early_frame_count s' = EARLY_FRAME_CAP \<or> (ok' = ok \<or> ok' = Some True) \<and> tab_at (pmem s') (tab_4 s) va 2 = Some tab')"
  using assms
proof (induction "2 - d" arbitrary: d tab s ok)
  case 0
  then have [simp]: "d = 2" by simp
  show ?case using 0(2-) by (subst map_early_loop.simps) (simp del: tab_at.simps)
next
  case (Suc n)
  then have d: "d < 2" "4 - d > 2" "4 - Suc d = 4 - d - 1" by auto
  have n: "n = 2 - Suc d" "Suc d \<le> 2" using Suc.hyps(2) by auto
  have tree: "tree_ok (pmem s) (tab_4 s)" using Suc.prems(1) by (simp add: early_ok_def)
  let ?e = "pmem s (entry_at tab va d)"
  have en: "entry_ok d ?e" using tree_okD(2) [OF tree Suc.prems(2)] d(1) by simp
  have lv: "1 \<le> 4 - d" "4 - d \<le> 4" using d(1) by auto
  show ?case
  proof (cases "bit ?e 0")
    case True
    have "\<not> (bit ?e 7 \<and> (4 - d = 2 \<or> 4 - d = 3))"
    proof
      assume h: "bit ?e 7 \<and> (4 - d = 2 \<or> 4 - d = 3)"
      obtain l where l: "4 - d = Suc l" using lv by (cases "4 - d") auto
      then have "walk_from (pmem s) (4 - d) tab va \<noteq> None" using h True l by auto
      then show False using walk_tab_at [OF _ Suc.prems(2)] Suc.prems(4) d(1) by simp
    qed
    then have nx: "next_tab (4 - d) ?e = Some (hw_padd ?e)" using True by (simp add: next_tab_def)
    then have "tab_entry_get_padd ?e = hw_padd ?e" using en d(1) by (simp add: entry_ok_def)
    then have "map_early_loop (4 - d) va ok tab s = map_early_loop (4 - Suc d) va ok (hw_padd ?e) s"
      using True d lv by (subst map_early_loop.simps) (simp add: Let_def tab_entry_is_present_def)
    moreover have "tab_at (pmem s) (tab_4 s) va (Suc d) = Some (hw_padd ?e)" using nx Suc.prems(2) by simp
    ultimately show ?thesis using Suc.hyps(1) [OF n(1) Suc.prems(1) _ n(2) Suc.prems(4,5), of "hw_padd ?e"] by fastforce
  next
    case False
    then have e0: "?e = 0" using en by (simp add: entry_ok_def)
    show ?thesis
    proof (cases "early_frame_count s < EARLY_FRAME_CAP")
      case False
      then have "mm_frame_alloc_early s = Ret (None, s)" using Suc.prems(1) by (simp add: mm_frame_alloc_early_def early_ok_def)
      then have "map_early_loop (4 - d) va ok tab s = Ret (Some False, tab, s)"
        using e0 d lv by (subst map_early_loop.simps) (simp add: Let_def tab_entry_is_present_def tab_entry_is_zero_def)
      moreover have "early_frame_count s = EARLY_FRAME_CAP" using False Suc.prems(1) by (simp add: early_ok_def)
      ultimately show ?thesis using Suc.prems(1) d(1) by auto
    next
      case True
      note l = link_early_ok [OF Suc.prems(1) True Suc.prems(2) d(1) e0]
      let ?s' = "link_early (entry_at tab va d) s" and ?f = "pool_frame s (unat (early_frame_count s))"
      note ff = frame_okD [OF l(5)]
      have "map_early_loop (4 - d) va ok tab s = map_early_loop (4 - Suc d) va (Some True) ?f ?s'"
        using e0 d lv l(4,6,7) ff tab_entry_init_4K [OF lv ff(1,2)] mk_entry_fields(4) [OF ff(1,2)]
        by (subst map_early_loop.simps) (simp add: Let_def tab_entry_is_present_def tab_entry_is_zero_def)
      moreover have "tab_4 ?s' = tab_4 s" by (simp add: link_early_def)
      moreover have cnt: "unat (early_frame_count ?s') = unat (early_frame_count s) + 1"
        using True by (simp add: link_early_def word_less_nat_alt EARLY_FRAME_CAP_def unat_u64_add)
      ultimately show ?thesis
        using Suc.hyps(1) [OF n(1) l(1,2) n(2), of "Some True"] l(3) Suc.prems(4) cnt d(1) by fastforce
    qed
  qed
qed

text \<open>One page of the early map.\<close>

lemma map_early_maps:
  assumes ok: "early_ok s" and va: "va mod PAGE_SIZE_2M = 0" "va \<le> VA_48_LOW_END" and none: "walk_from (pmem s) 4 (tab_4 s) va = None"
  shows "\<exists>b s'. map_early (Some True) va va s = Ret (b, s') \<and> early_ok s' \<and> tab_4 s' = tab_4 s \<and>
    unat (early_frame_count s') \<le> unat (early_frame_count s) + 2 \<and>
    (\<not> b \<longrightarrow> early_frame_count s' = EARLY_FRAME_CAP) \<and> (b \<longrightarrow> tab_at (pmem s') (tab_4 s) va 2 \<noteq> None) \<and>
    (\<forall>v. walk_from (pmem s') 4 (tab_4 s) v = (if b \<and> same_path 3 v va then Some (va + (v AND mask 21)) else walk_from (pmem s) 4 (tab_4 s) v))"
proof -
  obtain ok' tab s1 where s1: "map_early_loop 4 va (Some True) (tab_4 s) s = Ret (ok', tab, s1)" "early_ok s1" "tab_4 s1 = tab_4 s"
    "\<And>v. walk_from (pmem s1) 4 (tab_4 s) v = walk_from (pmem s) 4 (tab_4 s) v"
    "unat (early_frame_count s1) \<le> unat (early_frame_count s) + 2"
    and fin: "ok' = Some False \<and> early_frame_count s1 = EARLY_FRAME_CAP \<or> ok' = Some True \<and> tab_at (pmem s1) (tab_4 s) va 2 = Some tab"
    using map_early_loop_descends [OF ok, of va 0 "tab_4 s" "Some True"] none by auto
  have al: "align_assert va PAGE_SIZE_2M k = k" for k :: "(bool \<times> mm_state) res"
    using va(1) by (simp add: align_assert_def mm_align_check_def PAGE_SIZE_2M_def)
  show ?thesis
  proof (cases "ok' = Some False")
    case True
    then have "map_early (Some True) va va s = Ret (False, s1)" using s1(1) by (simp add: map_early_def al)
    then show ?thesis using s1 fin True by auto
  next
    case False
    then have t: "tab_at (pmem s1) (tab_4 s) va 2 = Some tab" "ok' = Some True" using fin by auto
    have tree: "tree_ok (pmem s1) (tab_4 s)" "\<And>w. tab_at (pmem s1) (tab_4 s) w 3 = None" using s1(2,3) unfolding early_ok_def by simp_all
    let ?e = "pmem s1 (entry_at tab va 2)"
    have e0: "?e = 0"
    proof (rule ccontr)
      assume nz: "?e \<noteq> 0"
      have b: "bit ?e 0" using tree_okD(2) [OF tree(1) t(1)] nz by (simp add: entry_ok_def)
      have "next_tab (4 - 2) ?e = None" using tree(2) [of va] t(1) by (simp add: numeral_3_eq_3 numeral_2_eq_2 split: option.splits)
      then have "bit ?e 7" using b by (auto simp: next_tab_def split: if_splits)
      then have "walk_from (pmem s1) (Suc (Suc 0)) tab va \<noteq> None" using b by (simp add: numeral_2_eq_2 Let_def)
      then show False using walk_tab_at [OF _ t(1)] s1(4) [of va] none by (simp add: numeral_2_eq_2 del: walk_from.simps)
    qed
    let ?s' = "pmem_store (entry_at tab va 2) (huge_entry va) s1"
    note h = tree_huge [OF tree(1) t(1) e0 va]
    have "map_early (Some True) va va s = Ret (True, ?s')"
      using s1(1) t(2) e0 huge_entry_fields(2) [OF va] by (simp add: map_early_def al tab_entry_is_zero_def Let_def)
    moreover have "early_ok ?s'"
      using s1(2,3) h(1) [of 3] h(2,3) tree(2) unfolding early_ok_def by (simp add: pmem_store_def del: tab_at.simps)
    moreover have "early_frame_count ?s' = early_frame_count s1" by (simp add: pmem_store_def)
    moreover have "tab_at (pmem ?s') (tab_4 s) va 2 = Some tab" using h(1) [of 2 va] t(1) by (simp del: tab_at.simps)
    ultimately show ?thesis using s1(3-5) h(4) by (intro exI [of _ True] exI [of _ ?s']) (simp del: tab_at.simps)
  qed
qed

subsection \<open>The whole early map\<close>

abbreviation identity_below :: "mm_state \<Rightarrow> nat \<Rightarrow> bool" where
  "identity_below s n \<equiv> (\<forall>v. canonical v \<longrightarrow> walk_from (pmem s) 4 (tab_4 s) v = (if unat v < n then Some v else None))"

lemma early_map_loop_maps:
  assumes "early_ok s" "va mod PAGE_SIZE_2M = 0" "phy_end \<le> VA_48_LOW_END" "va \<le> phy_end" "identity_below s (unat va)"
  shows "\<exists>fin s'. early_map_loop (Some True) phy_end va s = Some (Ret (fin, s')) \<and> early_ok s' \<and> tab_4 s' = tab_4 s \<and>
    fin \<le> phy_end \<and> fin mod PAGE_SIZE_2M = 0 \<and> identity_below s' (unat fin) \<and>
    (phy_end \<le> fin + PAGE_SIZE_2M \<or> early_frame_count s' = EARLY_FRAME_CAP)"
  using assms
proof (induction "unat phy_end - unat va" arbitrary: va s rule: less_induct)
  case less
  have bnd: "unat phy_end < 140737488355328" using less.prems(3) by (auto simp: VA_48_LOW_END_def word_le_nat_alt)
  have le: "unat va \<le> unat phy_end" using less.prems(4) by (simp add: word_le_nat_alt)
  have nx: "unat (va + PAGE_SIZE_2M) = unat va + 2097152" using le bnd by (subst unat_u64_add) (auto simp: PAGE_SIZE_2M_def)
  show ?case
  proof (cases "va + PAGE_SIZE_2M < phy_end")
    case False
    then show ?thesis using less.prems by (subst early_map_loop.simps) auto
  next
    case True
    have low: "va \<le> VA_48_LOW_END" using less.prems(3,4) by simp
    then have can: "canonical va" by (simp add: canonical_def)
    have none: "walk_from (pmem s) 4 (tab_4 s) va = None" using less.prems(5) can by simp
    obtain b s1 where s1: "map_early (Some True) va va s = Ret (b, s1)" "early_ok s1" "tab_4 s1 = tab_4 s"
      "\<not> b \<longrightarrow> early_frame_count s1 = EARLY_FRAME_CAP"
      "\<And>v. walk_from (pmem s1) 4 (tab_4 s) v = (if b \<and> same_path 3 v va then Some (va + (v AND mask 21)) else walk_from (pmem s) 4 (tab_4 s) v)"
      using map_early_maps [OF less.prems(1,2) low none] by blast
    show ?thesis
    proof (cases b)
      case False
      then show ?thesis using s1 True less.prems by (subst early_map_loop.simps) auto
    next
      case b: True
      have ext: "identity_below s1 (unat (va + PAGE_SIZE_2M))"
      proof (intro allI impI)
        fix v
        assume v: "canonical v"
        note p = same_path_3 [OF v less.prems(2) low]
        show "walk_from (pmem s1) 4 (tab_4 s1) v = (if unat v < unat (va + PAGE_SIZE_2M) then Some v else None)"
          using p s1(3,5) b less.prems(5) v nx by (cases "same_path 3 v va") auto
      qed
      have "(va + PAGE_SIZE_2M) mod PAGE_SIZE_2M = 0"
      proof -
        have "unat va mod 2097152 = 0" using less.prems(2) by (simp add: PAGE_SIZE_2M_def u64_eq_iff_unat unat_mod)
        then have "unat (va + PAGE_SIZE_2M) mod 2097152 = 0" unfolding nx by simp
        then show ?thesis by (simp add: PAGE_SIZE_2M_def u64_eq_iff_unat unat_mod)
      qed
      moreover have "unat phy_end - unat (va + PAGE_SIZE_2M) < unat phy_end - unat va"
        using True nx by (auto simp: word_less_nat_alt)
      ultimately have "\<exists>fin s'. early_map_loop (Some True) phy_end (va + PAGE_SIZE_2M) s1 = Some (Ret (fin, s')) \<and> early_ok s' \<and> tab_4 s' = tab_4 s1 \<and>
        fin \<le> phy_end \<and> fin mod PAGE_SIZE_2M = 0 \<and> identity_below s' (unat fin) \<and>
        (phy_end \<le> fin + PAGE_SIZE_2M \<or> early_frame_count s' = EARLY_FRAME_CAP)"
        using less.hyps [of "va + PAGE_SIZE_2M" s1] s1(2) ext less.prems(3) True by auto
      then show ?thesis using s1(1,3) b True by (subst early_map_loop.simps) auto
    qed
  qed
qed

text \<open>The image and its initial state: an aligned root table and a pool of aligned frames, none of them used.\<close>

definition boot_image_ok :: "mm_state \<Rightarrow> bool" where
  "boot_image_ok s \<longleftrightarrow> is_early_stage s \<and> early_frame_count s = 0 \<and> frame_ok (tab_4 s) \<and>
     (\<forall>i<16384. frame_ok (pool_frame s i) \<and> pool_frame s i \<noteq> tab_4 s)"

lemma empty_root:
  assumes "frame_ok r" "\<And>i. unat i < 512 \<Longrightarrow> m (r + 8 * i) = 0"
  shows "tab_at m r va d = Some t \<longleftrightarrow> d = 0 \<and> t = r" "tree_ok m r" "is_table m r t \<longleftrightarrow> t = r" "walk_from m 4 r va = None"
proof -
  have one: "tab_at m r va (Suc 0) = None" for va using assms(2) [OF tab_index_less(2)] by (simp add: next_tab_def)
  show at: "tab_at m r va d = Some t \<longleftrightarrow> d = 0 \<and> t = r" for va d t
  proof (cases d)
    case (Suc k)
    have "tab_at m r va d = None"
    proof (rule ccontr)
      assume "tab_at m r va d \<noteq> None"
      then obtain u where "tab_at m r va d = Some u" by auto
      then show False using tab_at_below [of m r va d u "Suc 0"] one Suc by simp
    qed
    then show ?thesis using Suc by simp
  qed auto
  show "tree_ok m r" unfolding tree_ok_def using assms(1) assms(2) [OF tab_index_less(2)] by (simp add: at same_path_def)
  show "is_table m r t \<longleftrightarrow> t = r" by (auto simp: is_table_def at)
  show "walk_from m 4 r va = None" using assms(2) [OF tab_index_less(2)] by (simp add: numeral_eq_Suc Let_def)
qed

lemma tab_zero_early_start:
  assumes "boot_image_ok s"
  shows "early_ok (tab_zero_early (tab_4 s) s)" "identity_below (tab_zero_early (tab_4 s) s) 0"
    "tab_4 (tab_zero_early (tab_4 s) s) = tab_4 s" "i < 512 \<Longrightarrow> pmem (tab_zero_early (tab_4 s) s) (tab_4 s + 8 * i) = 0"
    "early_frame_count (tab_zero_early (tab_4 s) s) = 0"
proof -
  let ?s = "tab_zero_early (tab_4 s) s"
  have f: "frame_ok (tab_4 s)" using assms by (simp add: boot_image_ok_def)
  have z: "pmem ?s (tab_4 s + 8 * i) = 0" if "unat i < 512" for i
    using page_words [OF f that] by (simp add: tab_zero_early_def)
  note r = empty_root [where m = "pmem ?s", OF f z]
  have "tab_at (pmem ?s) (tab_4 s) va 3 = None" for va using r(1) [of va 3] by (cases "tab_at (pmem ?s) (tab_4 s) va 3") (auto simp del: tab_at.simps)
  then show "early_ok ?s" using assms r(2,3) unfolding early_ok_def boot_image_ok_def
    by (simp add: tab_zero_early_def EARLY_FRAME_CAP_def del: tab_at.simps)
  show "identity_below ?s 0" "tab_4 ?s = tab_4 s" "early_frame_count ?s = 0" using r(4) assms by (simp_all add: tab_zero_early_def boot_image_ok_def)
  show "i < 512 \<Longrightarrow> pmem ?s (tab_4 s + 8 * i) = 0" using z by (simp add: word_less_nat_alt)
qed

lemma tab_root_load_frame: "frame_ok f \<Longrightarrow> tab_root_load f s = Ret (s\<lparr>cr3 := f\<rparr>)"
proof -
  assume f: "frame_ok f"
  have m: "(0x000ffffffffff000 :: u64) = mask 52 AND NOT (mask 12)" by (simp add: mask_eq_exp_minus_1)
  have "f AND 0x000ffffffffff000 = f"
  proof (rule bit_word_eqI)
    fix n
    show "bit (f AND 0x000ffffffffff000) n = bit f n" unfolding m
      using frame_ok_bits [OF frame_okD(1) [OF f] frame_okD(2) [OF f], of n]
      by (auto simp: bit_and_iff bit_not_iff bit_mask_iff)
  qed
  then show ?thesis using frame_okD(1) [OF f] by (simp add: tab_root_load_def align_assert_4K PAGE_SIZE_4K_def)
qed

text \<open>The early map, when the storage of the variable \<open>ok\<close> of \<open>_map_early\<close> holds true.\<close>

lemma early_bootstrap_true:
  assumes "boot_image_ok s" "mm_pa_start s = Ret phy_start" "mm_pa_end s = Ret phy_end"
    and "phy_start < kernel_start" "kernel_start < kernel_end" "kernel_end < phy_end" "phy_end \<le> VA_48_LOW_END"
  shows "\<exists>s'. mm_page_early_bootstrap (Some True) kernel_start kernel_end s = Ret s' \<and>
    cr3 s' = tab_4 s' \<and> tree_ok (pmem s') (tab_4 s') \<and> early_map_end s' \<le> phy_end \<and> early_map_end s' mod PAGE_SIZE_2M = 0 \<and>
    (\<forall>v. walk s' v = (if v < early_map_end s' then Some v else None)) \<and>
    (phy_end \<le> early_map_end s' + PAGE_SIZE_2M \<or> early_frame_count s' = EARLY_FRAME_CAP)"
proof -
  note z = tab_zero_early_start [OF assms(1)]
  let ?s = "tab_zero_early (tab_4 s) s"
  obtain fin s1 where s1: "early_map_loop (Some True) phy_end 0 ?s = Some (Ret (fin, s1))" "early_ok s1" "tab_4 s1 = tab_4 s"
    "fin \<le> phy_end" "fin mod PAGE_SIZE_2M = 0" "identity_below s1 (unat fin)"
    "phy_end \<le> fin + PAGE_SIZE_2M \<or> early_frame_count s1 = EARLY_FRAME_CAP"
    using early_map_loop_maps [OF z(1) _ assms(7), of 0] z(2,3) unfolding z(3) by (metis mod_0 unsigned_0 word_zero_le)
  have f: "frame_ok (tab_4 s)" using assms(1) by (simp add: boot_image_ok_def)
  have "fin \<le> VA_48_LOW_END" using s1(4) assms(7) by simp
  then have can: "canonical v" if "v < fin" for v using that by (auto simp: canonical_def)
  let ?s' = "s1\<lparr>early_map_end := fin, cr3 := tab_4 s\<rparr>"
  have "mm_page_early_bootstrap (Some True) kernel_start kernel_end s = Ret ?s'"
    using assms(2-6) s1(1,3) tab_root_load_frame [OF f] by (simp add: mm_page_early_bootstrap_def)
  moreover have "walk ?s' v = (if v < fin then Some v else None)" for v
    using s1(3,6) can [of v] by (auto simp: walk_def word_less_nat_alt)
  moreover have "tree_ok (pmem s1) (tab_4 s)" using s1(2,3) by (simp add: early_ok_def)
  ultimately show ?thesis using s1 by (intro exI [of _ ?s']) simp
qed

text \<open>Where both upper tables exist, the descent sets nothing.\<close>

lemma map_early_loop_found:
  assumes "tree_ok (pmem s) (tab_4 s)" "tab_at (pmem s) (tab_4 s) va 2 = Some tab"
  shows "map_early_loop 4 va ok (tab_4 s) s = Ret (ok, tab, s)"
proof -
  obtain t1 where t1: "tab_at (pmem s) (tab_4 s) va 1 = Some t1" using tab_at_below [OF assms(2), of 1] by auto
  let ?e0 = "pmem s (entry_at (tab_4 s) va 0)" and ?e1 = "pmem s (entry_at t1 va 1)"
  have "next_tab 4 ?e0 = Some t1" using t1 by simp
  moreover have "next_tab 3 ?e1 = Some tab" using assms(2) t1 by (simp add: numeral_2_eq_2)
  moreover have "entry_ok 0 ?e0" "entry_ok 1 ?e1" using tree_okD(2) [OF assms(1) tab_at.simps(1)] tree_okD(2) [OF assms(1) t1] by simp_all
  ultimately have "bit ?e0 0" "tab_entry_get_padd ?e0 = t1" "bit ?e1 0" "tab_entry_get_padd ?e1 = tab"
    by (auto simp: next_tab_def entry_ok_def split: if_splits)
  then show ?thesis
    by (subst map_early_loop.simps, simp add: Let_def tab_entry_is_present_def)
      (subst map_early_loop.simps, simp add: Let_def tab_entry_is_present_def, subst map_early_loop.simps, simp)
qed

text \<open>
  Whatever the storage of \<open>ok\<close> holds, the first call of \<open>_map_early\<close> sets it, since it makes the first tables;
  the second finds both upper tables present and reads it without having written it.
\<close>

lemma early_first_page:
  assumes image: "boot_image_ok s"
  shows "\<exists>s1 tab. (\<forall>ok. map_early ok 0 0 (tab_zero_early (tab_4 s) s) = Ret (True, s1)) \<and> early_ok s1 \<and> tab_4 s1 = tab_4 s \<and>
    identity_below s1 (unat PAGE_SIZE_2M) \<and> (\<forall>ok. map_early_loop 4 PAGE_SIZE_2M ok (tab_4 s1) s1 = Ret (ok, tab, s1))"
proof -
  note z = tab_zero_early_start [OF image]
  let ?s = "tab_zero_early (tab_4 s) s"
  have "pmem ?s (tab_4 s + 8 * tab_index 0 4) = 0" using z(4) [OF tab_index_less(1)] .
  then have loop: "map_early_loop 4 0 ok (tab_4 ?s) ?s = map_early_loop 4 0 (Some True) (tab_4 ?s) ?s" for ok
    unfolding z(3) by (subst (1 2) map_early_loop.simps) (simp add: Let_def tab_entry_is_present_def)
  have first: "map_early ok 0 0 ?s = map_early (Some True) 0 0 ?s" for ok unfolding map_early_def loop [of ok] ..
  have none0: "(0 :: u64) mod PAGE_SIZE_2M = 0" "(0 :: u64) \<le> VA_48_LOW_END" "walk_from (pmem ?s) 4 (tab_4 ?s) 0 = None"
    using z(2) by (simp_all add: canonical_def)
  obtain b s1 where s1: "map_early (Some True) 0 0 ?s = Ret (b, s1)" "early_ok s1" "tab_4 s1 = tab_4 s"
    "unat (early_frame_count s1) \<le> 2" "\<not> b \<longrightarrow> early_frame_count s1 = EARLY_FRAME_CAP" "b \<longrightarrow> tab_at (pmem s1) (tab_4 s) 0 2 \<noteq> None"
    "\<forall>v. walk_from (pmem s1) 4 (tab_4 s) v = (if b \<and> same_path 3 v 0 then Some (0 + (v AND mask 21)) else walk_from (pmem ?s) 4 (tab_4 s) v)"
    using map_early_maps [OF z(1) none0(1,2) none0(3)] unfolding z(3,5) by auto
  have b: b using s1(4,5) by (auto simp: EARLY_FRAME_CAP_def)
  have "identity_below s1 (unat PAGE_SIZE_2M)"
  proof (intro allI impI)
    fix v assume v: "canonical v"
    have "walk_from (pmem ?s) 4 (tab_4 s) v = None" using z(2,3) v by simp
    then show "walk_from (pmem s1) 4 (tab_4 s1) v = (if unat v < unat PAGE_SIZE_2M then Some v else None)"
      using same_path_3 [OF v, of 0] s1(3,7) b by (cases "same_path 3 v 0") (auto simp: PAGE_SIZE_2M_def)
  qed
  moreover have "tab_index PAGE_SIZE_2M 4 = tab_index 0 4" "tab_index PAGE_SIZE_2M 3 = tab_index 0 3" by (simp_all add: tab_index_def PAGE_SIZE_2M_def)
  then have "same_path 2 PAGE_SIZE_2M 0" by (auto simp: same_path_def less_2_cases_iff)
  then obtain tab where t: "tab_at (pmem s1) (tab_4 s1) PAGE_SIZE_2M 2 = Some tab" using s1(3,6) b tab_at_same_path by fastforce
  have "map_early_loop 4 PAGE_SIZE_2M ok (tab_4 s1) s1 = Ret (ok, tab, s1)" for ok
    using map_early_loop_found [OF _ t] s1(2) by (simp add: early_ok_def)
  ultimately show ?thesis using first s1(1,2,3) b by auto
qed

text \<open>
  C15: the early map depends on a variable that is not set. \<open>_map_early\<close> declares \<open>ok\<close> without a value, and from
  the second 2 MB page on it reads it without having written it. By the C standard this is undefined, which is
  the outcome for storage without a value, on every machine whose memory ends above 4 MB. If the storage
  holds false, the map ends after the first 2 MB: the tables are loaded and well formed, and the processor
  translates the addresses below 2 MB to themselves and no other. If it holds true, the map is the identity
  below \<open>_early_map_end\<close> and nothing else, and stops short of the last 2 MB below the end of physical memory
  only when the pool of frames is used up.
\<close>

theorem mm_page_early_bootstrap_outcomes:
  assumes image: "boot_image_ok s" and phy: "mm_pa_start s = Ret phy_start" "mm_pa_end s = Ret phy_end"
    and kern: "phy_start < kernel_start" "kernel_start < kernel_end" "kernel_end < phy_end" and low: "phy_end \<le> VA_48_LOW_END"
  shows "case ok of
      None \<Rightarrow> 0x400000 < phy_end \<longrightarrow> mm_page_early_bootstrap ok kernel_start kernel_end s = Stop Undefined
    | Some b \<Rightarrow> (b \<or> 0x400000 < phy_end) \<longrightarrow> (\<exists>s'. mm_page_early_bootstrap ok kernel_start kernel_end s = Ret s' \<and>
        cr3 s' = tab_4 s' \<and> tree_ok (pmem s') (tab_4 s') \<and> early_map_end s' \<le> phy_end \<and> early_map_end s' mod PAGE_SIZE_2M = 0 \<and>
        (\<forall>v. walk s' v = (if v < early_map_end s' then Some v else None)) \<and>
        (if b then phy_end \<le> early_map_end s' + PAGE_SIZE_2M \<or> early_frame_count s' = EARLY_FRAME_CAP
         else early_map_end s' = PAGE_SIZE_2M))"
proof -
  let ?s = "tab_zero_early (tab_4 s) s"
  obtain s1 tab where s1: "\<And>ok. map_early ok 0 0 ?s = Ret (True, s1)" "early_ok s1" "tab_4 s1 = tab_4 s"
    "identity_below s1 (unat PAGE_SIZE_2M)" "\<And>ok. map_early_loop 4 PAGE_SIZE_2M ok (tab_4 s1) s1 = Ret (ok, tab, s1)"
    using early_first_page [OF image] by blast
  have al: "align_assert PAGE_SIZE_2M PAGE_SIZE_2M k = k" for k :: "(bool \<times> mm_state) res"
    by (simp add: align_assert_def mm_align_check_def PAGE_SIZE_2M_def)
  have second: "map_early None PAGE_SIZE_2M PAGE_SIZE_2M s1 = Stop Undefined"
    "map_early (Some False) PAGE_SIZE_2M PAGE_SIZE_2M s1 = Ret (False, s1)" by (simp_all add: map_early_def al s1(5))
  have ends: "early_map_loop None phy_end 0 ?s = Some (Stop Undefined)" "early_map_loop (Some False) phy_end 0 ?s = Some (Ret (PAGE_SIZE_2M, s1))"
    if "0x400000 < phy_end"
  proof -
    have "PAGE_SIZE_2M < phy_end" "PAGE_SIZE_2M + PAGE_SIZE_2M < phy_end" using that by (auto simp: PAGE_SIZE_2M_def word_less_nat_alt)
    then show "early_map_loop None phy_end 0 ?s = Some (Stop Undefined)" "early_map_loop (Some False) phy_end 0 ?s = Some (Ret (PAGE_SIZE_2M, s1))"
      using s1(1) second by (subst early_map_loop.simps, simp, subst early_map_loop.simps, simp)+
  qed
  show ?thesis
  proof (cases ok)
    case None
    then show ?thesis using ends phy kern by (simp add: mm_page_early_bootstrap_def)
  next
    case (Some b)
    show ?thesis
    proof (cases b)
      case True
      then show ?thesis using early_bootstrap_true [OF assms] Some by simp
    next
      case False
      let ?s' = "s1\<lparr>early_map_end := PAGE_SIZE_2M, cr3 := tab_4 s\<rparr>"
      have f: "frame_ok (tab_4 s)" using image by (simp add: boot_image_ok_def)
      have "mm_page_early_bootstrap ok kernel_start kernel_end s = Ret ?s'" if "0x400000 < phy_end"
        using ends(2) [OF that] phy kern s1(3) tab_root_load_frame [OF f] Some False by (simp add: mm_page_early_bootstrap_def)
      moreover have "walk ?s' v = (if v < PAGE_SIZE_2M then Some v else None)" for v
        using s1(3,4) by (auto simp: walk_def word_less_nat_alt canonical_def PAGE_SIZE_2M_def VA_48_LOW_END_def word_le_nat_alt)
      moreover have "tree_ok (pmem s1) (tab_4 s)" using s1(2,3) by (simp add: early_ok_def)
      moreover have "PAGE_SIZE_2M \<le> phy_end" if "0x400000 < phy_end"
        using that by (auto simp: PAGE_SIZE_2M_def word_less_nat_alt word_le_nat_alt)
      moreover have "PAGE_SIZE_2M mod PAGE_SIZE_2M = 0" by simp
      ultimately show ?thesis unfolding Some using Some False s1(3) by (simp del: mod_self)
    qed
  qed
qed

text \<open>A machine with 16 MB of memory that starts at 1 MB.\<close>

definition sample_image :: mm_state where
  "sample_image = sample_empty\<lparr>is_early_stage := True, early_frame_count := 0, early_frame_pool := 0x100000,
     phy_mem_secs := [\<lparr>sec_base = 0x100000, sec_len = 0xF00000\<rparr>]\<rparr>"

lemma sample_image_ok: "boot_image_ok sample_image"
proof -
  have "frame_ok (0x100000 + of_nat i * 4096) \<and> (0x100000 :: u64) + of_nat i * 4096 \<noteq> 0x1000" if "i < 16384" for i
  proof -
    have "unat ((0x100000 :: u64) + of_nat i * 4096) = 1048576 + i * 4096"
      using that by (subst unat_u64_add) (auto simp: unat_u64_mult unat_of_nat)
    then show ?thesis using that by (auto simp: frame_ok_unat u64_eq_iff_unat intro!: dvd_add)
  qed
  then show ?thesis by (simp add: boot_image_ok_def sample_image_def sample_empty_def FRAME_SIZE_4K_def sample_frames_ok)
qed

theorem mm_page_early_bootstrap_outcomes_witness:
  "mm_page_early_bootstrap None 0x200000 0x300000 sample_image = Stop Undefined \<and>
   (\<exists>s'. mm_page_early_bootstrap (Some False) 0x200000 0x300000 sample_image = Ret s' \<and> early_map_end s' = PAGE_SIZE_2M) \<and>
   (\<exists>s'. mm_page_early_bootstrap (Some True) 0x200000 0x300000 sample_image = Ret s' \<and> cr3 s' = tab_4 s')"
proof -
  have a: "mm_pa_start sample_image = Ret 0x100000" "mm_pa_end sample_image = Ret 0x1000000"
    by (simp_all add: sample_image_def mm_pa_start_def mm_pa_end_def)
  note o = mm_page_early_bootstrap_outcomes [OF sample_image_ok a, of "0x200000" "0x300000"]
  show ?thesis using o [of None] o [of "Some False"] o [of "Some True"] by (auto simp: VA_48_LOW_END_def)
qed

end
