(* ===== verification/Drivers_Acpi.thy ===== *)
theory Drivers_Acpi
  imports Drivers_Pcie
begin

text \<open>
  \<open>src/src/drivers/drivers_acpi.c\<close>: the search for the MCFG table through the ACPI root tables, in the
  32-bit form (RSDP and RSDT) and the 64-bit form (XSDT), and the hand-over to the PCIe driver. Tables
  are read from memory; of a header \<open>signature\<close> is at 0 and \<open>len\<close> at 4, and the header is 36 bytes long.
  The comparison of the signature with the literal \<open>MCFG\<close> is the equality of the four bytes.
\<close>

definition sizeof_sdt_header :: u64 where "sizeof_sdt_header = 36"

definition sdt_len :: "memory \<Rightarrow> u64 \<Rightarrow> u32" where
  "sdt_len mem h = mem_u32 mem (h + 4)"

definition sdt_is_mcfg :: "memory \<Rightarrow> u64 \<Rightarrow> bool" where
  "sdt_is_mcfg mem h = (map (\<lambda>i. mem (h + of_nat i)) [0..<4] = [0x4D, 0x43, 0x46, 0x47])"

text \<open>\<open>h->len - 44\<close> is computed on 32 bits.\<close>

definition sdt_visit :: "memory \<Rightarrow> u64 \<Rightarrow> pcie_state \<Rightarrow> pcie_state res" where
  "sdt_visit mem h st =
     (if sdt_is_mcfg mem h then d_pcie_bootstrap mem (h + 44) (ucast (sdt_len mem h - 44)) st else Ret st)"

definition xsdt_entry :: "memory \<Rightarrow> u64 \<Rightarrow> nat \<Rightarrow> u64" where
  "xsdt_entry mem xsdt i = mem_u64 mem (xsdt + sizeof_sdt_header + of_nat i * 8)"

definition init_xsdt :: "memory \<Rightarrow> u64 \<Rightarrow> pcie_state \<Rightarrow> pcie_state res" where
  "init_xsdt mem xsdt st =
     (let entry_cnt = ucast (sdt_len mem xsdt) - sizeof_sdt_header in
      kassert (entry_cnt mod 8 = 0)
        (let entry_cnt = entry_cnt div 8 in
         count_loop 0 (unat entry_cnt) (\<lambda>i. sdt_visit mem (xsdt_entry mem xsdt i)) st))"

definition acpi_bootstrap_64 :: "memory \<Rightarrow> u64 \<Rightarrow> pcie_state \<Rightarrow> pcie_state res" where
  "acpi_bootstrap_64 mem rsdp st = init_xsdt mem (mem_u64 mem (rsdp + 24)) st"

definition rsdt_entry :: "memory \<Rightarrow> u64 \<Rightarrow> nat \<Rightarrow> u64" where
  "rsdt_entry mem rsdt i = mem_le 4 mem (rsdt + sizeof_sdt_header + of_nat i * 4)"

definition init_rsdt :: "memory \<Rightarrow> u64 \<Rightarrow> pcie_state \<Rightarrow> pcie_state res" where
  "init_rsdt mem rsdt st =
     (let entry_cnt = (ucast (sdt_len mem rsdt) - sizeof_sdt_header) div 4 in
      count_loop 0 (unat entry_cnt) (\<lambda>i. sdt_visit mem (rsdt_entry mem rsdt i)) st)"

fun byte_sum_loop :: "nat \<Rightarrow> memory \<Rightarrow> u64 \<Rightarrow> u64 \<Rightarrow> u64" where
  "byte_sum_loop 0 mem p acc = acc"
| "byte_sum_loop (Suc n) mem p acc = byte_sum_loop n mem (p + 1) (acc + ucast (mem p))"

text \<open>The pointer is moved over signature (8), checksum (1), OEM (6), revision (1) and address (4).\<close>

definition acpi_bootstrap_32 :: "memory \<Rightarrow> u64 \<Rightarrow> u64 \<Rightarrow> pcie_state \<Rightarrow> pcie_state res" where
  "acpi_bootstrap_32 mem info len st =
     (let ptr = info + 8 + 1 + 6;
          revision = mem ptr in
      kassert (revision = 0)
        (let ptr = ptr + 1; rsdt_addr = mem_u32 mem ptr; ptr = ptr + 4 in
         kassert (ptr - info = len)
           (let byte_sum = byte_sum_loop (unat (ptr - info)) mem info 0 in
            kassert (byte_sum AND 0xff = 0) (init_rsdt mem (ucast rsdt_addr) st))))"

subsection \<open>Properties\<close>

text \<open>A loop that finds the table once is one call of the PCIe driver.\<close>

lemma visit_none:
  assumes "\<And>i. i0 \<le> i \<Longrightarrow> i < i0 + n \<Longrightarrow> \<not> sdt_is_mcfg mem (entry i)"
  shows "count_loop i0 n (\<lambda>i. sdt_visit mem (entry i)) st = Ret st"
  using assms by (induction n arbitrary: i0) (auto simp: sdt_visit_def)

lemma visit_once:
  assumes "k < n" "sdt_is_mcfg mem (entry (i0 + k))" "\<And>i. i < n \<Longrightarrow> i \<noteq> k \<Longrightarrow> \<not> sdt_is_mcfg mem (entry (i0 + i))"
  shows "count_loop i0 n (\<lambda>i. sdt_visit mem (entry i)) st = sdt_visit mem (entry (i0 + k)) st"
  using assms
proof (induction n arbitrary: i0 k)
  case (Suc n)
  show ?case
  proof (cases k)
    case 0
    have "count_loop (Suc i0) n (\<lambda>i. sdt_visit mem (entry i)) u = Ret u" for u
    proof (rule visit_none)
      fix i
      assume "Suc i0 \<le> i" "i < Suc i0 + n"
      then show "\<not> sdt_is_mcfg mem (entry i)" using Suc.prems(3) [of "i - i0"] 0 by simp
    qed
    then show ?thesis using 0 by (cases "sdt_visit mem (entry i0) st") auto
  next
    case (Suc k')
    then have "sdt_visit mem (entry i0) st = Ret st" using Suc.prems(3) [of 0] by (simp add: sdt_visit_def)
    moreover have "count_loop (Suc i0) n (\<lambda>i. sdt_visit mem (entry i)) st = sdt_visit mem (entry (Suc i0 + k')) st"
    proof (rule Suc.IH)
      show "\<not> sdt_is_mcfg mem (entry (Suc i0 + i))" if "i < n" "i \<noteq> k'" for i
        using Suc.prems(3) [of "Suc i"] that Suc by simp
    qed (use Suc.prems(1,2) Suc in auto)
    ultimately show ?thesis using Suc by simp
  qed
qed simp

lemma byte_sum_eq: "byte_sum_loop n mem p acc = acc + (\<Sum>i<n. ucast (mem (p + of_nat i)))"
  by (induction n arbitrary: p acc) (auto simp: sum.lessThan_Suc_shift add.assoc simp del: sum.lessThan_Suc)

text \<open>
  C37: \<open>acpi_bootstrap_32\<close> goes on only for a description of 20 bytes of revision 0 whose bytes sum to 0
  modulo 256; it then reads every entry of the root table, and if exactly one of them is the MCFG table,
  its effect is that of \<open>d_pcie_bootstrap\<close> on the body of that table.
\<close>

theorem acpi_bootstrap_32_finds:
  assumes "n = unat ((ucast (sdt_len mem rsdt) - sizeof_sdt_header) div 4)" "rsdt = ucast (mem_u32 mem (info + 16))"
    and "k < n" "\<And>i. i < n \<Longrightarrow> sdt_is_mcfg mem (rsdt_entry mem rsdt i) \<longleftrightarrow> i = k"
  shows "acpi_bootstrap_32 mem info len st =
    (if mem (info + 15) = 0 \<and> len = 20 \<and> (\<Sum>i<20. ucast (mem (info + of_nat i))) AND (0xff :: u64) = 0
     then d_pcie_bootstrap mem (rsdt_entry mem rsdt k + 44) (ucast (sdt_len mem (rsdt_entry mem rsdt k) - 44)) st
     else Stop AssertFail)"
proof -
  have loop: "init_rsdt mem rsdt st = sdt_visit mem (rsdt_entry mem rsdt k) st"
    unfolding init_rsdt_def Let_def assms(1) [symmetric]
    using visit_once [of k n mem "rsdt_entry mem rsdt" 0 st] assms(3,4) by simp
  have len: "info + 8 + 1 + 6 + 1 + 4 - info = 20" "info + 8 + 1 + 6 = info + 15" "info + 15 + 1 = info + 16" by simp_all
  have "sdt_is_mcfg mem (rsdt_entry mem rsdt k)" using assms(3,4) by simp
  then show ?thesis
    unfolding acpi_bootstrap_32_def Let_def len assms(2) [symmetric] byte_sum_eq
    using loop by (auto simp: sdt_visit_def kassert_def)
qed

text \<open>A description at \<open>0x1000\<close>, a root table at \<open>0x2000\<close> with one entry, and an MCFG table at \<open>0x3000\<close>.\<close>

definition sample_acpi :: memory where
  "sample_acpi = (\<lambda>_. 0)(0x1008 := 0xE0, 0x1011 := 0x20, 0x2004 := 40, 0x2025 := 0x30,
     0x3000 := 0x4D, 0x3001 := 0x43, 0x3002 := 0x46, 0x3003 := 0x47, 0x3004 := 60, 0x302F := 0xB0)"

theorem acpi_bootstrap_32_finds_witness:
  "acpi_bootstrap_32 sample_acpi 0x1000 20 \<lparr>groups = [], group_cnt = 0, funcs = []\<rparr> =
   d_pcie_bootstrap sample_acpi 0x302C 16 \<lparr>groups = [], group_cnt = 0, funcs = []\<rparr>"
proof -
  have addr: "ucast (mem_u32 sample_acpi (0x1000 + 16)) = (0x2000 :: u64)" "sdt_len sample_acpi 0x2000 = 40"
    "rsdt_entry sample_acpi 0x2000 0 = 0x3000" "sdt_len sample_acpi 0x3000 = 60" "sdt_is_mcfg sample_acpi 0x3000"
    by (simp_all add: mem_le_def le_value_def sample_acpi_def sdt_len_def rsdt_entry_def sizeof_sdt_header_def sdt_is_mcfg_def upt_rec)
  have sum: "(\<Sum>i<20. ucast (sample_acpi (0x1000 + of_nat i))) = (0x100 :: u64)"
    by (simp only: atLeast_upt sum_set_upt_conv_sum_list_nat) (simp add: sample_acpi_def upt_rec)
  have "sdt_is_mcfg sample_acpi (rsdt_entry sample_acpi 0x2000 i) \<longleftrightarrow> i = 0" if "i < 1" for i
    using that addr(3,5) by simp
  moreover have "1 = unat ((ucast (sdt_len sample_acpi 0x2000) - sizeof_sdt_header) div 4)" using addr(2) by (simp add: sizeof_sdt_header_def)
  ultimately have "acpi_bootstrap_32 sample_acpi 0x1000 20 \<lparr>groups = [], group_cnt = 0, funcs = []\<rparr> =
    (if sample_acpi (0x1000 + 15) = 0 \<and> (20::u64) = 20 \<and> (\<Sum>i<20. ucast (sample_acpi (0x1000 + of_nat i))) AND (0xff :: u64) = 0
     then d_pcie_bootstrap sample_acpi (rsdt_entry sample_acpi 0x2000 0 + 44) (ucast (sdt_len sample_acpi (rsdt_entry sample_acpi 0x2000 0) - 44))
       \<lparr>groups = [], group_cnt = 0, funcs = []\<rparr>
     else Stop AssertFail)"
    by (intro acpi_bootstrap_32_finds) (use addr(1) in auto)
  moreover have "sample_acpi (0x1000 + 15) = 0" by (simp add: sample_acpi_def)
  ultimately show ?thesis unfolding addr(3,4) sum by simp
qed

end
