(* ===== verification/Drivers_Port.thy ===== *)
theory Drivers_Port
  imports Kernel_Loops
begin

text \<open>
  \<open>src/src/drivers/drivers_port.c\<close>, \<open>drivers_serial.c\<close>: port input and output, and the serial line.

  The devices behind the ports are outside the program. What they answer is a parameter of the state:
  \<open>answers n\<close> is the byte that the \<open>n\<close>-th port read of the machine yields. What the program does to the ports
  is recorded in order in \<open>events\<close>.
\<close>

subsection \<open>Ports\<close>

datatype io_event = Port_In u16 u8 | Port_Out u16 u8

record io =
  answers :: "nat \<Rightarrow> u8"
  reads :: nat
  events :: "io_event list"

definition port_write_byte :: "u16 \<Rightarrow> u8 \<Rightarrow> 'a io_scheme \<Rightarrow> 'a io_scheme" where
  "port_write_byte port data s = s\<lparr>events := events s @ [Port_Out port data]\<rparr>"

definition port_read_byte :: "u16 \<Rightarrow> 'a io_scheme \<Rightarrow> u8 \<times> 'a io_scheme" where
  "port_read_byte port s =
     (answers s (reads s), s\<lparr>reads := reads s + 1, events := events s @ [Port_In port (answers s (reads s))]\<rparr>)"

definition PORT_NO_PIC_MASTER_CMD :: u16 where "PORT_NO_PIC_MASTER_CMD = 0x20"
definition PORT_NO_PIC_MASTER_DATA :: u16 where "PORT_NO_PIC_MASTER_DATA = 0x21"
definition PORT_NO_PIC_SLAVE_CMD :: u16 where "PORT_NO_PIC_SLAVE_CMD = 0xA0"
definition PORT_NO_PIC_SLAVE_DATA :: u16 where "PORT_NO_PIC_SLAVE_DATA = 0xa1"
definition PORT_NO_KEYBOARD_CMD :: u16 where "PORT_NO_KEYBOARD_CMD = 0x64"
definition PORT_NO_KEYBOARD_DATA :: u16 where "PORT_NO_KEYBOARD_DATA = 0x60"
definition PORT_NO_VGA_CMD :: u16 where "PORT_NO_VGA_CMD = 0x3d4"
definition PORT_NO_VGA_DATA :: u16 where "PORT_NO_VGA_DATA = 0x3d5"
definition PORT_NO_VGA_STATUS_1 :: u16 where "PORT_NO_VGA_STATUS_1 = 0x3da"
definition PORT_NO_VGA_ATTRIBUTE_WRITE :: u16 where "PORT_NO_VGA_ATTRIBUTE_WRITE = 0x3c0"
definition PORT_NO_VGA_ATTRIBUTE_READ :: u16 where "PORT_NO_VGA_ATTRIBUTE_READ = 0x3c1"
definition PORT_NO_SERIAL_COM1 :: u16 where "PORT_NO_SERIAL_COM1 = 0x3f8"
definition PORT_NO_SERIAL_COM1_DATA :: u16 where "PORT_NO_SERIAL_COM1_DATA = 0x3f8 + 1"
definition PORT_NO_SERIAL_COM1_CMD_FIFO :: u16 where "PORT_NO_SERIAL_COM1_CMD_FIFO = 0x3f8 + 2"
definition PORT_NO_SERIAL_COM1_CMD_LINE :: u16 where "PORT_NO_SERIAL_COM1_CMD_LINE = 0x3f8 + 3"
definition PORT_NO_SERIAL_COM1_CMD_MODEM :: u16 where "PORT_NO_SERIAL_COM1_CMD_MODEM = 0x3f8 + 4"
definition PORT_NO_SERIAL_COM1_STATUS_LINE :: u16 where "PORT_NO_SERIAL_COM1_STATUS_LINE = 0x3f8 + 5"

lemma port_simps [simp]:
  "answers (port_write_byte p d s) = answers s" "reads (port_write_byte p d s) = reads s"
  "events (port_write_byte p d s) = events s @ [Port_Out p d]" "fst (port_read_byte p s) = answers s (reads s)"
  "answers (snd (port_read_byte p s)) = answers s" "reads (snd (port_read_byte p s)) = reads s + 1"
  "events (snd (port_read_byte p s)) = events s @ [Port_In p (answers s (reads s))]"
  by (simp_all add: port_write_byte_def port_read_byte_def)

subsection \<open>The serial line\<close>

definition SPEED_115200_BAUDS :: u64 where "SPEED_115200_BAUDS = 1"

definition serial_init :: "'a io_scheme \<Rightarrow> 'a io_scheme res" where
  "serial_init s =
     (let s = port_write_byte PORT_NO_SERIAL_COM1_CMD_LINE 0x80 s in
      rbind (byte_get SPEED_115200_BAUDS 1) (\<lambda>hi.
      let s = port_write_byte PORT_NO_SERIAL_COM1_DATA hi s in
      rbind (byte_get SPEED_115200_BAUDS 0) (\<lambda>lo.
      let s = port_write_byte PORT_NO_SERIAL_COM1_DATA lo s;
          s = port_write_byte PORT_NO_SERIAL_COM1_CMD_LINE 0x03 s;
          s = port_write_byte PORT_NO_SERIAL_COM1_CMD_FIFO 0xc7 s
      in Ret (port_write_byte PORT_NO_SERIAL_COM1_CMD_MODEM 0x0B s))))"

definition fifo_transmit_is_empty :: "'a io_scheme \<Rightarrow> bool \<times> 'a io_scheme" where
  "fifo_transmit_is_empty s =
     (case port_read_byte PORT_NO_SERIAL_COM1_STATUS_LINE s of (data, s) \<Rightarrow> (data AND 0x20 \<noteq> 0, s))"

partial_function (option) write_char_wait :: "'a io_scheme \<Rightarrow> 'a io_scheme option" where
  "write_char_wait s = (case fifo_transmit_is_empty s of (ready, s) \<Rightarrow> if ready = False then write_char_wait s else Some s)"

declare write_char_wait.simps [code]

definition write_char :: "char \<Rightarrow> 'a io_scheme \<Rightarrow> 'a io_scheme res" where
  "write_char c s =
     (case write_char_wait s of
        None \<Rightarrow> Stop Diverges
      | Some s \<Rightarrow> Ret (port_write_byte PORT_NO_SERIAL_COM1 (of_char c) s))"

definition serial_write_str :: "buf \<Rightarrow> u64 \<Rightarrow> 'a io_scheme \<Rightarrow> 'a io_scheme res" where
  "serial_write_str str len s =
     count_loop 0 (unat len) (\<lambda>i s. rbind (buf_get str (of_nat i)) (\<lambda>c. write_char c s)) s"

subsection \<open>Polling\<close>

text \<open>A line that is ready again and again.\<close>

definition line_ready :: "(nat \<Rightarrow> u8) \<Rightarrow> bool" where
  "line_ready dev \<longleftrightarrow> (\<forall>n. \<exists>k\<ge>n. dev k AND 0x20 \<noteq> 0)"

fun outs :: "u16 \<Rightarrow> io_event list \<Rightarrow> u8 list" where
  "outs p [] = []"
| "outs p (Port_Out q d # es) = (if q = p then d # outs p es else outs p es)"
| "outs p (Port_In q d # es) = outs p es"

lemma outs_append [simp]: "outs p (es @ es') = outs p es @ outs p es'"
  by (induction p es rule: outs.induct) auto

text \<open>Only the serial line is touched: status reads and data writes.\<close>

definition serial_event :: "io_event \<Rightarrow> bool" where
  "serial_event e \<longleftrightarrow> (\<exists>d. e = Port_In PORT_NO_SERIAL_COM1_STATUS_LINE d \<or> e = Port_Out PORT_NO_SERIAL_COM1 d)"

lemma write_char_wait_ready:
  assumes "answers s k AND 0x20 \<noteq> 0" "reads s \<le> k"
  shows "\<exists>s' es. write_char_wait s = Some s' \<and> s' = s\<lparr>reads := reads s', events := events s @ es\<rparr> \<and>
    list_all serial_event es \<and> outs PORT_NO_SERIAL_COM1 es = []"
  using assms
proof (induction "k - reads s" arbitrary: s)
  case 0
  then have [simp]: "k = reads s" by simp
  let ?e = "Port_In PORT_NO_SERIAL_COM1_STATUS_LINE (answers s (reads s))"
  have "write_char_wait s = Some (s\<lparr>reads := reads s + 1, events := events s @ [?e]\<rparr>)"
    using 0(2) by (subst write_char_wait.simps) (simp add: fifo_transmit_is_empty_def port_read_byte_def)
  then show ?case
    by (intro exI [of _ "s\<lparr>reads := reads s + 1, events := events s @ [?e]\<rparr>"] exI [of _ "[?e]"]) (auto simp: serial_event_def)
next
  case (Suc d)
  let ?e = "Port_In PORT_NO_SERIAL_COM1_STATUS_LINE (answers s (reads s))"
  let ?s = "s\<lparr>reads := reads s + 1, events := events s @ [?e]\<rparr>"
  show ?case
  proof (cases "answers s (reads s) AND 0x20 = 0")
    case False
    then have "write_char_wait s = Some ?s"
      by (subst write_char_wait.simps) (simp add: fifo_transmit_is_empty_def port_read_byte_def)
    then show ?thesis by (intro exI [of _ ?s] exI [of _ "[?e]"]) (auto simp: serial_event_def)
  next
    case True
    then have "write_char_wait s = write_char_wait ?s"
      by (subst write_char_wait.simps) (simp add: fifo_transmit_is_empty_def port_read_byte_def)
    moreover have d: "d = k - reads ?s" "reads ?s \<le> k" and a: "answers ?s k AND 0x20 \<noteq> 0" using Suc.hyps(2) Suc.prems(1) by simp_all
    moreover obtain s' es where "write_char_wait ?s = Some s'" "s' = ?s\<lparr>reads := reads s', events := events ?s @ es\<rparr>"
      "list_all serial_event es" "outs PORT_NO_SERIAL_COM1 es = []"
      using Suc.hyps(1) [OF d(1) a d(2)] by blast
    ultimately show ?thesis
      by (intro exI [of _ s'] exI [of _ "?e # es"]) (auto simp: serial_event_def)
  qed
qed

lemma write_char_ready:
  assumes "line_ready (answers s)"
  shows "\<exists>s' es. write_char c s = Ret s' \<and> s' = s\<lparr>reads := reads s', events := events s @ es\<rparr> \<and>
    list_all serial_event es \<and> outs PORT_NO_SERIAL_COM1 es = [of_char c]"
proof -
  obtain k where "answers s k AND 0x20 \<noteq> 0" "reads s \<le> k" using assms unfolding line_ready_def by blast
  then obtain s' es where s': "write_char_wait s = Some s'" "s' = s\<lparr>reads := reads s', events := events s @ es\<rparr>"
    "list_all serial_event es" "outs PORT_NO_SERIAL_COM1 es = []" using write_char_wait_ready by blast
  let ?s = "port_write_byte PORT_NO_SERIAL_COM1 (of_char c) s'"
  have "?s = s\<lparr>reads := reads ?s, events := events s @ es @ [Port_Out PORT_NO_SERIAL_COM1 (of_char c)]\<rparr>"
    unfolding port_write_byte_def by (subst s'(2), subst (2) s'(2)) simp
  then show ?thesis using s'
    by (intro exI [of _ ?s] exI [of _ "es @ [Port_Out PORT_NO_SERIAL_COM1 (of_char c)]"]) (auto simp: write_char_def serial_event_def)
qed

lemma serial_write_str_run:
  assumes "line_ready (answers s)" "unat len \<le> length str"
  shows "\<exists>s' es. serial_write_str str len s = Ret s' \<and> s' = s\<lparr>reads := reads s', events := events s @ es\<rparr> \<and>
    list_all serial_event es \<and> outs PORT_NO_SERIAL_COM1 es = map of_char (take (unat len) str)"
proof -
  define P where "P n u \<longleftrightarrow> (\<exists>es. u = s\<lparr>reads := reads u, events := events s @ es\<rparr> \<and>
    list_all serial_event es \<and> outs PORT_NO_SERIAL_COM1 es = map of_char (take n str))" for n and u :: "'a io_scheme"
  have "\<exists>s'. count_loop 0 (unat len) (\<lambda>i s. rbind (buf_get str (of_nat i)) (\<lambda>c. write_char c s)) s = Ret s' \<and> P (0 + unat len) s'"
  proof (rule count_loop_total)
    show "P 0 s" unfolding P_def by (intro exI [of _ "[]"]) simp
    show "\<exists>u'. rbind (buf_get str (of_nat i)) (\<lambda>c. write_char c u) = Ret u' \<and> P (Suc i) u'" if i: "i < 0 + unat len" and u: "P i u" for i u
    proof -
      obtain es where es: "u = s\<lparr>reads := reads u, events := events s @ es\<rparr>" "list_all serial_event es"
        "outs PORT_NO_SERIAL_COM1 es = map of_char (take i str)" using u unfolding P_def by blast
      have a: "answers u = answers s" by (subst es(1)) simp
      have n: "unat (of_nat i :: u64) = i" using i less_trans [OF _ unat_u64_bound [of len], of i] by (simp add: unat_of_nat)
      have il: "i < length str" using i assms(2) by simp
      obtain u' fs where u': "write_char (str ! i) u = Ret u'" "u' = u\<lparr>reads := reads u', events := events u @ fs\<rparr>"
        "list_all serial_event fs" "outs PORT_NO_SERIAL_COM1 fs = [of_char (str ! i)]"
        using write_char_ready [of u "str ! i"] assms(1) a by auto
      have "u' = s\<lparr>reads := reads u', events := events s @ es @ fs\<rparr>"
        by (subst u'(2), subst es(1), subst (2) es(1)) simp
      then have "P (Suc i) u'" unfolding P_def using es u' il
        by (intro exI [of _ "es @ fs"]) (auto simp: take_Suc_conv_app_nth)
      then show ?thesis using u'(1) n il by auto
    qed
  qed
  then obtain s' where s': "serial_write_str str len s = Ret s'" "P (unat len) s'" by (auto simp: serial_write_str_def)
  then obtain es where es: "s' = s\<lparr>reads := reads s', events := events s @ es\<rparr>" "list_all serial_event es"
    "outs PORT_NO_SERIAL_COM1 es = map of_char (take (unat len) str)" unfolding P_def by blast
  then show ?thesis using s'(1) by blast
qed

text \<open>
  C31: \<open>serial_write_str\<close> delivers: on a line that becomes ready again and again, whatever the device answers
  in between, it returns; it has written exactly the first \<open>len\<close> characters of the string to the data port, in
  order, and touched no other port but the status port.
\<close>

theorem serial_write_str_sends:
  assumes "line_ready (answers s)" "unat len \<le> length str"
  shows "\<exists>s' es. serial_write_str str len s = Ret s' \<and> events s' = events s @ es \<and> answers s' = answers s \<and>
    list_all serial_event es \<and> outs PORT_NO_SERIAL_COM1 es = map of_char (take (unat len) str)"
proof -
  obtain s' es where s': "serial_write_str str len s = Ret s'" "s' = s\<lparr>reads := reads s', events := events s @ es\<rparr>"
    "list_all serial_event es" "outs PORT_NO_SERIAL_COM1 es = map of_char (take (unat len) str)"
    using serial_write_str_run [OF assms] by blast
  have "events s' = events s @ es" "answers s' = answers s" by (subst s'(2), simp)+
  then show ?thesis using s' by blast
qed

theorem serial_write_str_sends_witness:
  "\<exists>s'. serial_write_str ''ok'' 2 \<lparr>answers = (\<lambda>n. if even n then 0x60 else 0), reads = 1, events = []\<rparr> = Ret s' \<and>
    outs PORT_NO_SERIAL_COM1 (events s') = [0x6f, 0x6b]"
proof -
  have "line_ready (\<lambda>n. if even n then 0x60 else 0)" unfolding line_ready_def
  proof
    fix n :: nat
    show "\<exists>k\<ge>n. (if even k then 0x60 else 0 :: u8) AND 0x20 \<noteq> 0" by (rule exI [of _ "2 * n"]) simp
  qed
  then obtain s' es where "serial_write_str ''ok'' 2 \<lparr>answers = (\<lambda>n. if even n then 0x60 else 0), reads = 1, events = []\<rparr> = Ret s'"
    "events s' = es" "outs PORT_NO_SERIAL_COM1 es = map of_char ''ok''"
    using serial_write_str_sends [of "\<lparr>answers = (\<lambda>n. if even n then 0x60 else 0), reads = 1, events = []\<rparr>" 2 "''ok''"] by auto
  then show ?thesis by (simp add: of_char_def)
qed

end
