(* ===== verification/Drivers_Screen.thy ===== *)
theory Drivers_Screen
  imports Drivers_Port
begin

text \<open>
  \<open>src/src/drivers/drivers_screen.c\<close>: the text screen of 25 rows and 80 columns. The video memory is a byte
  list; a cell takes two bytes, the character and the attribute (background in the high, foreground in the
  low four bits). The abstract screen is a function from cells to character and attribute.
\<close>

subsection \<open>Cells\<close>

type_synonym vga = "u8 list"

definition SCREEN_WIDTH :: u64 where "SCREEN_WIDTH = 80"
definition SCREEN_HEIGHT :: u64 where "SCREEN_HEIGHT = 25"
definition CHAR_NULL :: u8 where "CHAR_NULL = 0"

datatype screen_color =
    SCREEN_COLOR_BLACK | SCREEN_COLOR_BLUE | SCREEN_COLOR_GREEN | SCREEN_COLOR_CYAN | SCREEN_COLOR_RED | SCREEN_COLOR_MAGENTA
  | SCREEN_COLOR_BROWN | SCREEN_COLOR_LIGHT_GREY | SCREEN_COLOR_DARK_GREY | SCREEN_COLOR_LIGHT_BLUE | SCREEN_COLOR_LIGHT_GREEN
  | SCREEN_COLOR_LIGHT_CYAN | SCREEN_COLOR_LIGHT_RED | SCREEN_COLOR_LIGHT_MAGENTA | SCREEN_COLOR_LIGHT_BROWN | SCREEN_COLOR_WHITE

primrec color_code :: "screen_color \<Rightarrow> u8" where
  "color_code SCREEN_COLOR_BLACK = 0"
| "color_code SCREEN_COLOR_BLUE = 1"
| "color_code SCREEN_COLOR_GREEN = 2"
| "color_code SCREEN_COLOR_CYAN = 3"
| "color_code SCREEN_COLOR_RED = 4"
| "color_code SCREEN_COLOR_MAGENTA = 5"
| "color_code SCREEN_COLOR_BROWN = 6"
| "color_code SCREEN_COLOR_LIGHT_GREY = 7"
| "color_code SCREEN_COLOR_DARK_GREY = 8"
| "color_code SCREEN_COLOR_LIGHT_BLUE = 9"
| "color_code SCREEN_COLOR_LIGHT_GREEN = 10"
| "color_code SCREEN_COLOR_LIGHT_CYAN = 11"
| "color_code SCREEN_COLOR_LIGHT_RED = 12"
| "color_code SCREEN_COLOR_LIGHT_MAGENTA = 13"
| "color_code SCREEN_COLOR_LIGHT_BROWN = 14"
| "color_code SCREEN_COLOR_WHITE = 15"

definition screen_cursor_disable :: "'a io_scheme \<Rightarrow> 'a io_scheme" where
  "screen_cursor_disable s = port_write_byte PORT_NO_VGA_DATA 0x20 (port_write_byte PORT_NO_VGA_CMD 0x0a s)"

definition screen_blink_disable :: "'a io_scheme \<Rightarrow> 'a io_scheme res" where
  "screen_blink_disable s =
     (let s = snd (port_read_byte PORT_NO_VGA_STATUS_1 s);
          s = port_write_byte PORT_NO_VGA_ATTRIBUTE_WRITE 0x30 s;
          (data, s) = port_read_byte PORT_NO_VGA_ATTRIBUTE_READ s
      in rbind (byte_bit_clear data 3) (\<lambda>data. Ret (port_write_byte PORT_NO_VGA_ATTRIBUTE_WRITE data s)))"

definition screen_init :: "'a io_scheme \<Rightarrow> 'a io_scheme res" where
  "screen_init s = screen_blink_disable (screen_cursor_disable s)"

definition offset_max :: u64 where
  "offset_max = 2 * SCREEN_WIDTH * SCREEN_HEIGHT"

definition offset_of_char :: "u64 \<Rightarrow> u64 \<Rightarrow> u64 res" where
  "offset_of_char row col =
     kassert (row < SCREEN_HEIGHT)
     (kassert (col < SCREEN_WIDTH)
       (let offset = 2 * (row * SCREEN_WIDTH + col) in
        kassert (offset + 1 < offset_max) (Ret offset)))"

definition offset_of_attr :: "u64 \<Rightarrow> u64 \<Rightarrow> u64 res" where
  "offset_of_attr row col = rbind (offset_of_char row col) (\<lambda>offset. Ret (offset + 1))"

definition screen_set_attr_at :: "screen_color \<Rightarrow> screen_color \<Rightarrow> u64 \<Rightarrow> u64 \<Rightarrow> vga \<Rightarrow> vga res" where
  "screen_set_attr_at fg bg row col v =
     (let cc = color_code fg OR push_bit 4 (color_code bg) in
      rbind (offset_of_attr row col) (\<lambda>offset. buf_set v offset cc))"

definition screen_set_fg_at :: "screen_color \<Rightarrow> u64 \<Rightarrow> u64 \<Rightarrow> vga \<Rightarrow> vga res" where
  "screen_set_fg_at fg row col v =
     rbind (offset_of_attr row col) (\<lambda>offset.
     rbind (buf_get v offset) (\<lambda>attr. buf_set v offset ((attr AND 0xf0) OR color_code fg)))"

definition screen_set_bg_at :: "screen_color \<Rightarrow> u64 \<Rightarrow> u64 \<Rightarrow> vga \<Rightarrow> vga res" where
  "screen_set_bg_at bg row col v =
     rbind (offset_of_attr row col) (\<lambda>offset.
     rbind (buf_get v offset) (\<lambda>attr. buf_set v offset ((attr AND 0x0f) OR push_bit 4 (color_code bg))))"

definition screen_write_at :: "u8 \<Rightarrow> u64 \<Rightarrow> u64 \<Rightarrow> vga \<Rightarrow> vga res" where
  "screen_write_at c row col v = rbind (offset_of_char row col) (\<lambda>offset. buf_set v offset c)"

definition screen_clean_at :: "screen_color \<Rightarrow> u64 \<Rightarrow> u64 \<Rightarrow> vga \<Rightarrow> vga res" where
  "screen_clean_at bg row col v = rbind (screen_write_at CHAR_NULL row col v) (screen_set_bg_at bg row col)"

definition screen_box_thin_border_v_at :: "u64 \<Rightarrow> u64 \<Rightarrow> vga \<Rightarrow> vga res" where
  "screen_box_thin_border_v_at row col = screen_write_at 179 row col"

definition screen_box_thin_border_h_at :: "u64 \<Rightarrow> u64 \<Rightarrow> vga \<Rightarrow> vga res" where
  "screen_box_thin_border_h_at row col = screen_write_at 196 row col"

definition screen_box_thin_corner_ne_at :: "u64 \<Rightarrow> u64 \<Rightarrow> vga \<Rightarrow> vga res" where
  "screen_box_thin_corner_ne_at row col = screen_write_at 191 row col"

definition screen_box_thin_corner_sw_at :: "u64 \<Rightarrow> u64 \<Rightarrow> vga \<Rightarrow> vga res" where
  "screen_box_thin_corner_sw_at row col = screen_write_at 192 row col"

definition screen_box_thin_corner_se_at :: "u64 \<Rightarrow> u64 \<Rightarrow> vga \<Rightarrow> vga res" where
  "screen_box_thin_corner_se_at row col = screen_write_at 217 row col"

definition screen_box_thin_corner_nw_at :: "u64 \<Rightarrow> u64 \<Rightarrow> vga \<Rightarrow> vga res" where
  "screen_box_thin_corner_nw_at row col = screen_write_at 218 row col"

definition screen_clean :: "screen_color \<Rightarrow> vga \<Rightarrow> vga res" where
  "screen_clean bg v =
     count_loop 0 (unat SCREEN_HEIGHT) (\<lambda>row.
       count_loop 0 (unat SCREEN_WIDTH) (\<lambda>col. screen_clean_at bg (of_nat row) (of_nat col))) v"

text \<open>The loop condition \<open>(i + col) < SCREEN_WIDTH\<close> wraps for a column near the end of the address space.\<close>

partial_function (option) write_str_loop :: "buf \<Rightarrow> u64 \<Rightarrow> u64 \<Rightarrow> u64 \<Rightarrow> vga \<Rightarrow> vga res option" where
  "write_str_loop str row col i v =
     (if i + col < SCREEN_WIDTH then
        (case buf_get str i of
           Inl e \<Rightarrow> Some (Inl e)
         | Inr c \<Rightarrow>
             if c = NUL then Some (Ret v)
             else (case screen_write_at (of_char c) row (i + col) v of
                     Inl e \<Rightarrow> Some (Inl e)
                   | Inr v \<Rightarrow> write_str_loop str row col (i + 1) v))
      else Some (Ret v))"

declare write_str_loop.simps [code]

definition screen_write_str :: "buf \<Rightarrow> screen_color \<Rightarrow> screen_color \<Rightarrow> u64 \<Rightarrow> u64 \<Rightarrow> vga \<Rightarrow> vga res" where
  "screen_write_str str fg bg row col v =
     (case write_str_loop str row col 0 v of None \<Rightarrow> Stop Diverges | Some r \<Rightarrow> r)"

text \<open>The buffers of the two functions below are on the stack; \<open>msg0\<close> is what they hold at the start.\<close>

definition screen_write_uint :: "buf \<Rightarrow> u64 \<Rightarrow> screen_color \<Rightarrow> screen_color \<Rightarrow> u64 \<Rightarrow> u64 \<Rightarrow> vga \<Rightarrow> vga res" where
  "screen_write_uint msg0 val fg bg row col v =
     rbind (str_buf_marshal_uint msg0 0 128 val) (\<lambda>(msg, msg_ptr).
     rbind (buf_set msg msg_ptr NUL) (\<lambda>msg. screen_write_str msg fg bg row col v))"

definition screen_write_byte_hex :: "buf \<Rightarrow> u8 list \<Rightarrow> u64 \<Rightarrow> screen_color \<Rightarrow> screen_color \<Rightarrow> u64 \<Rightarrow> u64 \<Rightarrow> vga \<Rightarrow> vga res" where
  "screen_write_byte_hex msg0 bytes len fg bg row col v =
     rbind (str_buf_marshal_bytes_in_hex msg0 0 SCREEN_WIDTH bytes len) (\<lambda>(msg, msg_len).
     rbind (str_buf_marshal_terminator msg msg_len SCREEN_WIDTH) (\<lambda>(msg, n). screen_write_str msg fg bg row col v))"

subsection \<open>The abstract screen\<close>

text \<open>\<open>cells v\<close> takes a row and a column to the character and the attribute shown there.\<close>

definition cells :: "vga \<Rightarrow> nat \<Rightarrow> nat \<Rightarrow> u8 \<times> u8" where
  "cells v r c = (v ! (160 * r + 2 * c), v ! (160 * r + 2 * c + 1))"

definition put_cell :: "nat \<Rightarrow> nat \<Rightarrow> (u8 \<times> u8 \<Rightarrow> u8 \<times> u8) \<Rightarrow> vga \<Rightarrow> vga" where
  "put_cell r c f v = v[160 * r + 2 * c := fst (f (cells v r c)), 160 * r + 2 * c + 1 := snd (f (cells v r c))]"

lemma length_put_cell [simp]: "length (put_cell r c f v) = length v"
  by (simp add: put_cell_def)

lemma cells_put_cell:
  assumes "length v = 4000" "r < 25" "c < 80" "r' < 25" "c' < 80"
  shows "cells (put_cell r c f v) r' c' = (if r' = r \<and> c' = c then f (cells v r c) else cells v r' c')"
proof -
  have "160 * r + 2 * c + 1 < length v" using assms by simp
  moreover have "160 * r' + 2 * c' = 160 * r + 2 * c \<longleftrightarrow> r' = r \<and> c' = c"
  proof
    assume e: "160 * r' + 2 * c' = 160 * r + 2 * c"
    have "r' = r" using e assms(3,5) by linarith
    then show "r' = r \<and> c' = c" using e by simp
  qed simp
  moreover have "160 * r' + 2 * c' + 1 \<noteq> 160 * r + 2 * c" "160 * r' + 2 * c' \<noteq> 160 * r + 2 * c + 1"
  proof -
    have "even (160 * r + 2 * c)" "even (160 * r' + 2 * c')" "odd (160 * r + 2 * c + 1)" "odd (160 * r' + 2 * c' + 1)" by simp_all
    then show "160 * r' + 2 * c' + 1 \<noteq> 160 * r + 2 * c" "160 * r' + 2 * c' \<noteq> 160 * r + 2 * c + 1" by metis+
  qed
  ultimately show ?thesis by (auto simp: cells_def put_cell_def nth_list_update)
qed

text \<open>A put that leaves one component alone changes one byte.\<close>

lemma put_cell_char: "160 * r + 2 * c + 1 < length v \<Longrightarrow> put_cell r c (\<lambda>(ch, at). (x, at)) v = v[160 * r + 2 * c := x]"
  by (auto simp: put_cell_def cells_def list_eq_iff_nth_eq nth_list_update)

lemma put_cell_attr: "160 * r + 2 * c + 1 < length v \<Longrightarrow> put_cell r c (\<lambda>(ch, at). (ch, f at)) v = v[160 * r + 2 * c + 1 := f (v ! (160 * r + 2 * c + 1))]"
  by (simp add: put_cell_def cells_def)

lemma offset_in:
  assumes "row < 25" "col < 80"
  shows "offset_of_char row col = Ret (2 * (row * 80 + col))" "offset_of_attr row col = Ret (2 * (row * 80 + col) + 1)"
    "unat (2 * (row * 80 + col)) = 160 * unat row + 2 * unat col" "unat (2 * (row * 80 + col) + 1) = 160 * unat row + 2 * unat col + 1"
    "160 * unat row + 2 * unat col + 1 < 4000"
proof -
  have b: "unat row < 25" "unat col < 80" using assms by (simp_all add: word_less_nat_alt)
  have r: "unat (row * 80) = unat row * 80" using b by (simp add: unat_u64_mult)
  have rc: "unat (row * 80 + col) = unat row * 80 + unat col" using b r by (subst unat_u64_add) auto
  show u: "unat (2 * (row * 80 + col)) = 160 * unat row + 2 * unat col" using b rc by (subst unat_u64_mult) auto
  show u1: "unat (2 * (row * 80 + col) + 1) = 160 * unat row + 2 * unat col + 1" using b u by (subst unat_u64_add) auto
  show l: "160 * unat row + 2 * unat col + 1 < 4000" using b by simp
  have "2 * (row * 80 + col) + 1 < 4000" using u1 l by (simp add: word_less_nat_alt)
  then show "offset_of_char row col = Ret (2 * (row * 80 + col))" "offset_of_attr row col = Ret (2 * (row * 80 + col) + 1)"
    using assms by (simp_all add: offset_of_char_def offset_of_attr_def SCREEN_HEIGHT_def SCREEN_WIDTH_def offset_max_def Let_def)
qed

lemma offset_out: "\<not> (row < 25 \<and> col < 80) \<Longrightarrow> offset_of_char row col = Stop AssertFail"
  by (auto simp: offset_of_char_def SCREEN_HEIGHT_def SCREEN_WIDTH_def kassert_def)

lemmas screen_op_defs = screen_write_at_def screen_set_attr_at_def screen_set_fg_at_def screen_set_bg_at_def

lemma screen_ops_put:
  assumes "length v = 4000" "row < 25" "col < 80"
  shows "screen_write_at ch row col v = Ret (put_cell (unat row) (unat col) (\<lambda>(_, at). (ch, at)) v)"
    "screen_set_attr_at fg bg row col v = Ret (put_cell (unat row) (unat col) (\<lambda>(c, _). (c, color_code fg OR push_bit 4 (color_code bg))) v)"
    "screen_set_fg_at fg row col v = Ret (put_cell (unat row) (unat col) (\<lambda>(c, at). (c, (at AND 0xf0) OR color_code fg)) v)"
    "screen_set_bg_at bg row col v = Ret (put_cell (unat row) (unat col) (\<lambda>(c, at). (c, (at AND 0x0f) OR push_bit 4 (color_code bg))) v)"
    "screen_clean_at bg row col v = Ret (put_cell (unat row) (unat col) (\<lambda>(c, at). (0, (at AND 0x0f) OR push_bit 4 (color_code bg))) v)"
proof -
  note o = offset_in [OF assms(2,3)]
  let ?k = "160 * unat row + 2 * unat col"
  have k: "?k + 1 < length v" "?k < length v" using o(5) assms(1) by auto
  show w: "screen_write_at ch row col v = Ret (put_cell (unat row) (unat col) (\<lambda>(_, at). (ch, at)) v)" for ch
    using o k unfolding screen_write_at_def put_cell_char [OF k(1)] by (simp add: buf_set_def inbounds_def)
  show "screen_set_attr_at fg bg row col v = Ret (put_cell (unat row) (unat col) (\<lambda>(c, _). (c, color_code fg OR push_bit 4 (color_code bg))) v)"
    using o k unfolding screen_set_attr_at_def put_cell_attr [OF k(1), where f = "\<lambda>_. color_code fg OR push_bit 4 (color_code bg)"]
    by (simp add: buf_set_def inbounds_def Let_def)
  show "screen_set_fg_at fg row col v = Ret (put_cell (unat row) (unat col) (\<lambda>(c, at). (c, (at AND 0xf0) OR color_code fg)) v)"
    using o k unfolding screen_set_fg_at_def put_cell_attr [OF k(1)] by (simp add: buf_set_def buf_get_def inbounds_def)
  have bg: "screen_set_bg_at bg row col u = Ret (put_cell (unat row) (unat col) (\<lambda>(c, at). (c, (at AND 0x0f) OR push_bit 4 (color_code bg))) u)"
    if "length u = 4000" for u
  proof -
    have "?k + 1 < length u" using o(5) that by simp
    then show ?thesis using o unfolding screen_set_bg_at_def by (simp add: put_cell_attr buf_set_def buf_get_def inbounds_def)
  qed
  show "screen_set_bg_at bg row col v = Ret (put_cell (unat row) (unat col) (\<lambda>(c, at). (c, (at AND 0x0f) OR push_bit 4 (color_code bg))) v)"
    using bg [OF assms(1)] .
  show "screen_clean_at bg row col v = Ret (put_cell (unat row) (unat col) (\<lambda>(c, at). (0, (at AND 0x0f) OR push_bit 4 (color_code bg))) v)"
    using k assms(1) unfolding screen_clean_at_def w by (simp add: bg CHAR_NULL_def put_cell_def cells_def)
      (auto simp: list_eq_iff_nth_eq nth_list_update)
qed

subsection \<open>Drawing through the interface\<close>

text \<open>
  \<open>shows_text old new r c cs\<close>: row \<open>r\<close> shows the text \<open>cs\<close> from column \<open>c\<close> on, with the attributes it had, and
  nothing else changed.
\<close>

definition shows_text :: "(nat \<Rightarrow> nat \<Rightarrow> u8 \<times> u8) \<Rightarrow> (nat \<Rightarrow> nat \<Rightarrow> u8 \<times> u8) \<Rightarrow> nat \<Rightarrow> nat \<Rightarrow> char list \<Rightarrow> bool" where
  "shows_text old new r c cs \<longleftrightarrow> (\<forall>r'<25. \<forall>c'<80. new r' c' =
     (if r' = r \<and> c \<le> c' \<and> c' < c + length cs then (of_char (cs ! (c' - c)), snd (old r' c')) else old r' c'))"

lemma shows_text_Nil [simp]: "shows_text old old r c []"
  by (auto simp: shows_text_def)

text \<open>
  What the panels, the keyboard handler and the string functions need of the screen: a character is put into
  the one cell named, and a cell that does not exist is refused.
\<close>

locale cell_screen =
  fixes putc :: "u8 \<Rightarrow> u64 \<Rightarrow> u64 \<Rightarrow> 's \<Rightarrow> 's res" and cell :: "'s \<Rightarrow> nat \<Rightarrow> nat \<Rightarrow> u8 \<times> u8" and ok :: "'s \<Rightarrow> bool"
  assumes put_in: "ok v \<Longrightarrow> row < 25 \<Longrightarrow> col < 80 \<Longrightarrow> \<exists>v'. putc ch row col v = Ret v' \<and> ok v' \<and>
      (\<forall>r<25. \<forall>c<80. cell v' r c = (if r = unat row \<and> c = unat col then (ch, snd (cell v r c)) else cell v r c))"
    and put_out: "\<not> (row < 25 \<and> col < 80) \<Longrightarrow> putc ch row col v = Stop AssertFail"
begin

lemma put_next:
  assumes "ok v'" "shows_text (cell v) (cell v') (unat row) c cs" "row < 25" "unat col = c + length cs" "c + length cs < 80"
  shows "\<exists>v''. putc (of_char x) row col v' = Ret v'' \<and> ok v'' \<and> shows_text (cell v) (cell v'') (unat row) c (cs @ [x])"
proof -
  have "col < 80" using assms(4,5) by (simp add: word_less_nat_alt)
  from put_in [OF assms(1,3) this, of "of_char x"] obtain v'' where v'': "putc (of_char x) row col v' = Ret v''" "ok v''"
    "\<And>r c. r < 25 \<Longrightarrow> c < 80 \<Longrightarrow> cell v'' r c = (if r = unat row \<and> c = unat col then (of_char x, snd (cell v' r c)) else cell v' r c)"
    by blast
  have "shows_text (cell v) (cell v'') (unat row) c (cs @ [x])"
    unfolding shows_text_def using assms(2,4) by (auto simp: v''(3) shows_text_def nth_append less_Suc_eq)
  then show ?thesis using v''(1,2) by blast
qed

lemma put_run:
  assumes "ok v" "row < 25" "unat col + n \<le> 80" "n \<le> length cs"
    and body: "\<And>i v. i < n \<Longrightarrow> body i v = putc (of_char (cs ! i)) row (col + of_nat i) v"
  shows "\<exists>v'. count_loop 0 n body v = Ret v' \<and> ok v' \<and> shows_text (cell v) (cell v') (unat row) (unat col) (take n cs)"
proof -
  define P where "P i u \<longleftrightarrow> ok u \<and> shows_text (cell v) (cell u) (unat row) (unat col) (take i cs)" for i u
  have "\<exists>v'. count_loop 0 n body v = Ret v' \<and> P (0 + n) v'"
  proof (rule count_loop_total)
    show "P 0 v" using assms(1) by (simp add: P_def)
    show "\<exists>u'. body i u = Ret u' \<and> P (Suc i) u'" if "i < 0 + n" "P i u" for i u
    proof -
      have i: "i < n" "i < length cs" using that(1) assms(4) by auto
      have l: "length (take i cs) = i" using i(2) by simp
      have "unat (of_nat i :: u64) = i" using i assms(3) by (simp add: unat_of_nat)
      then have c: "unat (col + of_nat i) = unat col + length (take i cs)" using i assms(3) l by (subst unat_u64_add) auto
      show ?thesis
        using put_next [of u v row "unat col" "take i cs" "col + of_nat i" "cs ! i"] that(2) assms(2,3) c l i body [OF i(1)]
        by (auto simp: P_def take_Suc_conv_app_nth)
    qed
  qed
  then show ?thesis by (simp add: P_def)
qed

end

interpretation vga: cell_screen screen_write_at cells "\<lambda>v. length v = 4000"
proof (unfold_locales, goal_cases)
  case (1 v row col ch)
  have b: "unat row < 25" "unat col < 80" using 1(2,3) by (simp_all add: word_less_nat_alt)
  show ?case unfolding screen_ops_put(1) [OF 1]
    by (rule exI [of _ "put_cell (unat row) (unat col) (\<lambda>(_, at). (ch, at)) v"]) (use 1(1) b in \<open>simp add: cells_put_cell case_prod_beta\<close>)
next
  case (2 row col ch v)
  then show ?case by (simp add: screen_write_at_def offset_out)
qed

text \<open>A run that applies \<open>f\<close> to the named cell and to no other, and is refused beyond the screen.\<close>

definition acts_on_cell :: "u64 \<Rightarrow> u64 \<Rightarrow> (u8 \<times> u8 \<Rightarrow> u8 \<times> u8) \<Rightarrow> vga \<Rightarrow> vga res \<Rightarrow> bool" where
  "acts_on_cell row col f v run \<longleftrightarrow>
     (if row < 25 \<and> col < 80
      then \<exists>v'. run = Ret v' \<and> length v' = 4000 \<and>
        (\<forall>r<25. \<forall>c<80. cells v' r c = (if r = unat row \<and> c = unat col then f (cells v r c) else cells v r c))
      else run = Stop AssertFail)"

text \<open>
  C29: the operations on one cell act on that cell only: a write replaces its character, the colour
  operations the corresponding half of its attribute, a clean both character and background; all other
  cells keep what they show. A row or column beyond the screen fails an assertion in every one of them.
\<close>

theorem screen_cell_operations:
  assumes "length v = 4000"
  shows "acts_on_cell row col (\<lambda>(_, at). (ch, at)) v (screen_write_at ch row col v) \<and>
    acts_on_cell row col (\<lambda>(c, _). (c, color_code fg OR push_bit 4 (color_code bg))) v (screen_set_attr_at fg bg row col v) \<and>
    acts_on_cell row col (\<lambda>(c, at). (c, (at AND 0xf0) OR color_code fg)) v (screen_set_fg_at fg row col v) \<and>
    acts_on_cell row col (\<lambda>(c, at). (c, (at AND 0x0f) OR push_bit 4 (color_code bg))) v (screen_set_bg_at bg row col v) \<and>
    acts_on_cell row col (\<lambda>(_, at). (0, (at AND 0x0f) OR push_bit 4 (color_code bg))) v (screen_clean_at bg row col v)"
proof (cases "row < 25 \<and> col < 80")
  case True
  then have b: "unat row < 25" "unat col < 80" and rc: "row < 25" "col < 80" by (simp_all add: word_less_nat_alt)
  have "acts_on_cell row col f v (Ret (put_cell (unat row) (unat col) f v))" for f
    using True assms b unfolding acts_on_cell_def
    by (simp only: if_True simp_thms) (rule exI [of _ "put_cell (unat row) (unat col) f v"], simp add: cells_put_cell)
  then show ?thesis unfolding screen_ops_put [OF assms rc] by blast
next
  case False
  then have "offset_of_char row col = Stop AssertFail" by (rule offset_out)
  then show ?thesis using False
    by (simp add: acts_on_cell_def screen_op_defs screen_clean_at_def offset_of_attr_def)
qed

theorem screen_cell_operations_witness:
  "\<exists>v'. screen_write_at 65 3 4 (replicate 4000 7) = Ret v' \<and> cells v' 3 4 = (65, 7)"
proof -
  let ?v = "replicate 4000 (7::u8)"
  have "acts_on_cell 3 4 (\<lambda>(_, at). (65, at)) ?v (screen_write_at 65 3 4 ?v)"
    by (rule conjunct1 [OF screen_cell_operations [of ?v 3 4 65 SCREEN_COLOR_RED SCREEN_COLOR_BLUE]]) simp
  then obtain v' where v': "screen_write_at 65 3 4 ?v = Ret v'"
    "\<forall>r<25. \<forall>c<80. cells v' r c = (if r = unat (3::u64) \<and> c = unat (4::u64) then (case cells ?v r c of (_, at) \<Rightarrow> (65, at)) else cells ?v r c)"
    unfolding acts_on_cell_def by auto
  have "cells ?v 3 4 = (7, 7)" by (simp add: cells_def)
  then have "cells v' 3 4 = (65, 7)" using v'(2) [rule_format, of 3 4] by simp
  then show ?thesis using v'(1) by blast
qed

subsection \<open>Text and the whole screen\<close>

lemma write_str_loop_draws:
  assumes str: "str = cs @ NUL # rest" "NUL \<notin> set cs" and row: "row < 25" and col: "unat col < 80"
    and st: "length u = 4000" "shows_text (cells v) (cells u) (unat row) (unat col) (take i cs)" "i \<le> length cs" "unat col + i \<le> 80"
  shows "\<exists>v'. write_str_loop str row col (of_nat i) u = Some (Ret v') \<and> length v' = 4000 \<and>
    shows_text (cells v) (cells v') (unat row) (unat col) (take (80 - unat col) cs)"
  using st
proof (induction "80 - (unat col + i)" arbitrary: i u)
  case 0
  have ui: "unat (of_nat i :: u64) = i" using 0 by (simp add: unat_of_nat)
  have "unat (of_nat i + col) = unat col + i" using 0 ui by (subst unat_u64_add) auto
  then have "\<not> of_nat i + col < SCREEN_WIDTH" using 0(1) by (simp add: SCREEN_WIDTH_def word_less_nat_alt)
  moreover have "80 - unat col = i" using 0(1,5) by simp
  ultimately show ?case using 0 by (subst write_str_loop.simps) simp
next
  case (Suc d)
  have lt: "unat col + i < 80" using Suc.hyps(2) by simp
  have ui: "unat (of_nat i :: u64) = i" using lt by (simp add: unat_of_nat)
  have uc: "unat (of_nat i + col) = unat col + i" using lt ui by (subst unat_u64_add) auto
  then have go: "of_nat i + col < SCREEN_WIDTH" using lt by (simp add: SCREEN_WIDTH_def word_less_nat_alt)
  have get: "buf_get str (of_nat i) = Ret (str ! i)" using ui Suc.prems(3) str(1) by (simp add: buf_get_def inbounds_def)
  show ?case
  proof (cases "i = length cs")
    case True
    then have "str ! i = NUL" by (simp add: str(1))
    moreover have "take (80 - unat col) cs = take i cs" using True lt by simp
    ultimately show ?thesis using go get Suc.prems by (subst write_str_loop.simps) simp
  next
    case False
    then have il: "i < length cs" using Suc.prems(3) by simp
    then have c: "str ! i = cs ! i" using str(1) by (simp add: nth_append)
    have nz: "cs ! i \<noteq> NUL" using il str(2) by (metis nth_mem)
    have l: "length (take i cs) = i" using il by simp
    obtain u' where u': "screen_write_at (of_char (cs ! i)) row (of_nat i + col) u = Ret u'" "length u' = 4000"
      "shows_text (cells v) (cells u') (unat row) (unat col) (take i cs @ [cs ! i])"
      using vga.put_next [OF Suc.prems(1,2) row, of "of_nat i + col" "cs ! i"] uc l lt by auto
    have nx: "shows_text (cells v) (cells u') (unat row) (unat col) (take (Suc i) cs)" using u'(3) il by (simp add: take_Suc_conv_app_nth)
    have d: "d = 80 - (unat col + Suc i)" "Suc i \<le> length cs" "unat col + Suc i \<le> 80" using Suc.hyps(2) il by auto
    show ?thesis using Suc.hyps(1) [OF d(1) u'(2) nx d(2,3)] go get c nz u'(1)
      by (subst write_str_loop.simps) (simp add: add.commute)
  qed
qed

text \<open>
  \<open>screen_write_str\<close> shows a terminated string from the given cell on, cut off at the right edge of the
  screen; the attributes of the cells and all other cells stay as they are.
\<close>

theorem screen_write_str_shows:
  assumes "length v = 4000" "row < 25" "col < 80" "NUL \<notin> set cs"
  shows "\<exists>v'. screen_write_str (cs @ NUL # rest) fg bg row col v = Ret v' \<and> length v' = 4000 \<and>
    shows_text (cells v) (cells v') (unat row) (unat col) (take (80 - unat col) cs)"
proof -
  have c: "unat col < 80" using assms(3) by (simp add: word_less_nat_alt)
  have "\<exists>v'. write_str_loop (cs @ NUL # rest) row col (of_nat 0) v = Some (Ret v') \<and> length v' = 4000 \<and>
    shows_text (cells v) (cells v') (unat row) (unat col) (take (80 - unat col) cs)"
    by (rule write_str_loop_draws [OF refl assms(4,2) c assms(1)]) (use c in auto)
  then show ?thesis by (auto simp: screen_write_str_def)
qed

theorem screen_write_str_shows_witness:
  "\<exists>v'. screen_write_str (''Log'' @ [NUL]) SCREEN_COLOR_WHITE SCREEN_COLOR_BLACK 0 78 (replicate 4000 0) = Ret v' \<and>
    cells v' 0 79 = (0x6f, 0) \<and> cells v' 1 0 = (0, 0)"
proof -
  obtain v' where v': "screen_write_str (''Log'' @ NUL # []) SCREEN_COLOR_WHITE SCREEN_COLOR_BLACK 0 78 (replicate 4000 0) = Ret v'"
    "shows_text (cells (replicate 4000 0)) (cells v') (unat (0::u64)) (unat (78::u64)) (take (80 - unat (78::u64)) ''Log'')"
    using screen_write_str_shows [of "replicate 4000 0" 0 78 "''Log''" "[]" SCREEN_COLOR_WHITE SCREEN_COLOR_BLACK] by auto
  have "cells (replicate 4000 (0::u8)) 0 79 = (0, 0)" "cells (replicate 4000 (0::u8)) 1 0 = (0, 0)" by (simp_all add: cells_def)
  then have "cells v' 0 79 = (of_char CHR ''o'', 0)" "cells v' 1 0 = (0, 0)"
    using v'(2) [unfolded shows_text_def, rule_format, of 0 79] v'(2) [unfolded shows_text_def, rule_format, of 1 0] by simp_all
  then show ?thesis using v'(1) by (simp add: of_char_def)
qed

text \<open>
  \<open>screen_clean\<close> blanks the whole screen: every cell loses its character, takes the background given and
  keeps its foreground.
\<close>

theorem screen_clean_blanks:
  assumes "length v = 4000"
  shows "\<exists>v'. screen_clean bg v = Ret v' \<and> length v' = 4000 \<and>
    (\<forall>r<25. \<forall>c<80. cells v' r c = (0, (snd (cells v r c) AND 0x0f) OR push_bit 4 (color_code bg)))"
proof -
  let ?blank = "\<lambda>p :: u8 \<times> u8. (0 :: u8, (snd p AND 0x0f) OR push_bit 4 (color_code bg))"
  define Q where "Q row n u \<longleftrightarrow> length u = 4000 \<and> (\<forall>r<25. \<forall>c<80. cells u r c =
    (if r < row \<or> r = row \<and> c < n then ?blank (cells v r c) else cells v r c))" for row n u
  have inner: "\<exists>u'. count_loop 0 80 (\<lambda>col. screen_clean_at bg (of_nat row) (of_nat col)) u = Ret u' \<and> Q row (0 + 80) u'"
    if "row < 25" "Q row 0 u" for row u
  proof (rule count_loop_total)
    show "Q row 0 u" by (rule that(2))
    show "\<exists>u''. screen_clean_at bg (of_nat row) (of_nat col) u' = Ret u'' \<and> Q row (Suc col) u''" if c: "col < 0 + 80" "Q row col u'" for col u'
    proof -
      have n: "unat (of_nat row :: u64) = row" "unat (of_nat col :: u64) = col" using \<open>row < 25\<close> c(1) by (simp_all add: unat_of_nat)
      then have lt: "(of_nat row :: u64) < 25" "(of_nat col :: u64) < 80" using \<open>row < 25\<close> c(1) by (simp_all add: word_less_nat_alt)
      have len: "length u' = 4000" using c(2) by (simp add: Q_def)
      have "Q row (Suc col) (put_cell row col (\<lambda>(c, at). (0, (at AND 0x0f) OR push_bit 4 (color_code bg))) u')"
        using c \<open>row < 25\<close> unfolding Q_def by (auto simp: cells_put_cell case_prod_beta less_Suc_eq)
      then show ?thesis unfolding screen_ops_put(5) [OF len lt] n by blast
    qed
  qed
  have step: "Q (Suc row) 0 u" if "Q row 80 u" "row < 25" for row u using that unfolding Q_def by (auto simp: less_Suc_eq)
  have "\<exists>v'. count_loop 0 25 (\<lambda>row. count_loop 0 80 (\<lambda>col. screen_clean_at bg (of_nat row) (of_nat col))) v = Ret v' \<and> Q (0 + 25) 0 v'"
  proof (rule count_loop_total)
    show "Q 0 0 v" using assms by (simp add: Q_def)
  qed (use inner step in fastforce)
  then show ?thesis by (auto simp: screen_clean_def SCREEN_HEIGHT_def SCREEN_WIDTH_def Q_def)
qed

theorem screen_clean_blanks_witness:
  "\<exists>v'. screen_clean SCREEN_COLOR_BLUE (replicate 4000 0xff) = Ret v' \<and> length v' = 4000"
  using screen_clean_blanks [of "replicate 4000 0xff" SCREEN_COLOR_BLUE] by auto

end
