(* ===== verification/Interrupts.thy ===== *)
theory Interrupts
  imports Drivers_Screen
begin

text \<open>
  \<open>src/src/interrupts/interrupts.c\<close> and \<open>src/src/drivers/drivers_keyboard.c\<close>: the interrupt descriptor table,
  the interrupt controllers, the dispatch of hardware interrupts, and the keyboard handler.

  The entry stubs are assembly: their addresses are the parameters \<open>isr\<close> and \<open>irq\<close>. A handler is the address
  of a C function, 0 being \<open>NULL\<close>; \<open>call\<close> is what the function at an address does to the machine.
\<close>

subsection \<open>The descriptor table\<close>

definition IDT_GATE_LEN :: u64 where "IDT_GATE_LEN = 16"
definition IDT_GATE_COUNT :: u64 where "IDT_GATE_COUNT = 256"
definition GDT_CODE_SEGMENT_OFFSET :: u16 where "GDT_CODE_SEGMENT_OFFSET = 0x08"
definition IRQ_HANDLER_BASE :: u8 where "IRQ_HANDLER_BASE = 32"
definition INTR_ID_IRQ_KEYBOARD :: u64 where "INTR_ID_IRQ_KEYBOARD = 33"
definition INTR_ID_MAX :: u64 where "INTR_ID_MAX = 40"

datatype idt_gate_type = IDT_GATE_TYPE_INTERRUPT | IDT_GATE_TYPE_TRAP

record intr_state = io +
  idt :: "u8 list"
  idt_register :: "u16 \<times> u64"
  handlers :: "u64 list"

definition st_u16 :: "u8 list \<Rightarrow> u64 \<Rightarrow> u16 \<Rightarrow> u8 list res" where
  "st_u16 b off v = rbind (buf_set b off (ucast v)) (\<lambda>b. buf_set b (off + 1) (ucast (drop_bit 8 v)))"

definition st_u32 :: "u8 list \<Rightarrow> u64 \<Rightarrow> u32 \<Rightarrow> u8 list res" where
  "st_u32 b off v =
     rbind (buf_set b off (ucast v)) (\<lambda>b.
     rbind (buf_set b (off + 1) (ucast (drop_bit 8 v))) (\<lambda>b.
     rbind (buf_set b (off + 2) (ucast (drop_bit 16 v))) (\<lambda>b. buf_set b (off + 3) (ucast (drop_bit 24 v)))))"

text \<open>The third branch, for a value outside the enumeration, does not exist in the data type.\<close>

definition idt_gate_encode :: "u64 \<Rightarrow> idt_gate_type \<Rightarrow> u64 \<Rightarrow> u8 list \<Rightarrow> u8 list res" where
  "idt_gate_encode gate_idx type handler table =
     kassert (gate_idx < IDT_GATE_COUNT)
       (let gate = gate_idx * IDT_GATE_LEN in
        rbind (st_u16 table gate (ucast handler)) (\<lambda>table.
        rbind (st_u16 table (gate + 2) GDT_CODE_SEGMENT_OFFSET) (\<lambda>table.
        rbind (buf_set table (gate + 4) 0) (\<lambda>table.
        rbind (case type of
                 IDT_GATE_TYPE_INTERRUPT \<Rightarrow> buf_set table (gate + 5) 0x8f
               | IDT_GATE_TYPE_TRAP \<Rightarrow> buf_set table (gate + 5) 0x8e) (\<lambda>table.
        rbind (st_u16 table (gate + 6) (ucast (drop_bit 16 handler))) (\<lambda>table.
        rbind (st_u32 table (gate + 8) (ucast (drop_bit 32 handler))) (\<lambda>table.
          st_u32 table (gate + 12) 0)))))))"

definition intr_init_pic_8259 :: "'a io_scheme \<Rightarrow> 'a io_scheme" where
  "intr_init_pic_8259 s =
     fold (\<lambda>(port, data). port_write_byte port data)
       [(PORT_NO_PIC_MASTER_CMD, 0x11), (PORT_NO_PIC_SLAVE_CMD, 0x11),
        (PORT_NO_PIC_MASTER_DATA, IRQ_HANDLER_BASE), (PORT_NO_PIC_SLAVE_DATA, IRQ_HANDLER_BASE + 8),
        (PORT_NO_PIC_MASTER_DATA, 0x04), (PORT_NO_PIC_SLAVE_DATA, 0x02),
        (PORT_NO_PIC_MASTER_DATA, 0x01), (PORT_NO_PIC_SLAVE_DATA, 0x01),
        (PORT_NO_PIC_MASTER_DATA, 0x00), (PORT_NO_PIC_SLAVE_DATA, 0x00)] s"

text \<open>The three runs of calls in \<open>_intr_init_idt\<close>: exceptions, the first five hardware interrupts, the rest.\<close>

definition init_isr_low :: "(nat \<Rightarrow> u64) \<Rightarrow> u8 list \<Rightarrow> u8 list res" where
  "init_isr_low isr = count_loop 0 32 (\<lambda>i. idt_gate_encode (of_nat i) IDT_GATE_TYPE_INTERRUPT (isr i))"

definition init_irq :: "(nat \<Rightarrow> u64) \<Rightarrow> u8 list \<Rightarrow> u8 list res" where
  "init_irq irq = count_loop 0 5 (\<lambda>i. idt_gate_encode (ucast (IRQ_HANDLER_BASE + of_nat i)) IDT_GATE_TYPE_INTERRUPT (irq i))"

definition init_isr_high :: "(nat \<Rightarrow> u64) \<Rightarrow> u8 list \<Rightarrow> u8 list res" where
  "init_isr_high isr = count_loop 37 219 (\<lambda>i. idt_gate_encode (of_nat i) IDT_GATE_TYPE_INTERRUPT (isr i))"

definition intr_init_idt :: "(nat \<Rightarrow> u64) \<Rightarrow> (nat \<Rightarrow> u64) \<Rightarrow> u8 list \<Rightarrow> u8 list res" where
  "intr_init_idt isr irq table =
     rbind (init_isr_low isr table) (\<lambda>table. rbind (init_irq irq table) (init_isr_high isr))"

text \<open>\<open>lidt\<close> of the limit and the address \<open>idt_addr\<close> of the table.\<close>

definition intr_load_idt_register :: "u64 \<Rightarrow> 'a intr_state_scheme \<Rightarrow> 'a intr_state_scheme" where
  "intr_load_idt_register idt_addr s = s\<lparr>idt_register := (ucast (IDT_GATE_LEN * IDT_GATE_COUNT - 1), idt_addr)\<rparr>"

definition intr_init :: "(nat \<Rightarrow> u64) \<Rightarrow> (nat \<Rightarrow> u64) \<Rightarrow> u64 \<Rightarrow> 'a intr_state_scheme \<Rightarrow> 'a intr_state_scheme res" where
  "intr_init isr irq idt_addr s =
     rbind (intr_init_idt isr irq (idt s)) (\<lambda>table.
     let s = intr_init_pic_8259 (intr_load_idt_register idt_addr (s\<lparr>idt := table\<rparr>)) in
     rbind (count_loop 0 (unat IDT_GATE_COUNT) (\<lambda>i hs. buf_set hs (of_nat i) 0) (handlers s)) (\<lambda>hs.
       Ret (s\<lparr>handlers := hs\<rparr>)))"

subsection \<open>Dispatch\<close>

text \<open>The message of a panic is the text up to the terminator; \<open>msg0\<close> is what the stack buffer held.\<close>

definition panic_with :: "buf \<Rightarrow> 'a res" where
  "panic_with msg = Stop (KernelPanic (takeWhile (\<lambda>c. c \<noteq> NUL) msg))"

definition intr_isr_handler :: "buf \<Rightarrow> u64 \<Rightarrow> 'a intr_state_scheme \<Rightarrow> 'a intr_state_scheme res" where
  "intr_isr_handler msg0 iid s =
     kassert (iid < INTR_ID_MAX)
       (let msg_part = ''TODO: intr_isr_handler, id = '' in
        rbind (str_len (msg_part @ [NUL])) (\<lambda>part_len.
        rbind (str_buf_marshal_str msg0 0 128 (msg_part @ [NUL]) part_len) (\<lambda>(msg, n).
        let msg_len = 0 + n in
        rbind (str_buf_marshal_uint msg msg_len 128 iid) (\<lambda>(msg, n).
        let msg_len = msg_len + n in
        rbind (str_buf_marshal_terminator msg msg_len 128) (\<lambda>(msg, n). panic_with msg)))))"

definition intr_irq_handler ::
  "(u64 \<Rightarrow> u64 \<Rightarrow> u64 \<Rightarrow> 'a intr_state_scheme \<Rightarrow> 'a intr_state_scheme res) \<Rightarrow> buf \<Rightarrow> u64 \<Rightarrow> u64 \<Rightarrow> 'a intr_state_scheme \<Rightarrow> 'a intr_state_scheme res" where
  "intr_irq_handler call msg0 iid stack_addr s =
     (let s = (if iid \<ge> 40 then port_write_byte PORT_NO_PIC_SLAVE_CMD 0x20 s else s);
          s = port_write_byte PORT_NO_PIC_MASTER_CMD 0x20 s
      in kassert (iid < INTR_ID_MAX)
        (rbind (buf_get (handlers s) iid) (\<lambda>hand.
         if hand = 0 then
           (let msg_part = ''Unhandled IRQ, id: '' in
            rbind (str_len (msg_part @ [NUL])) (\<lambda>part_len.
            rbind (str_buf_marshal_str msg0 0 128 (msg_part @ [NUL]) part_len) (\<lambda>(msg, msg_len).
            rbind (str_buf_marshal_uint msg msg_len 128 iid) (\<lambda>(msg, n).
            let msg_len = msg_len + n in
            rbind (str_buf_marshal_terminator msg msg_len 128) (\<lambda>(msg, n). panic_with msg)))))
         else call hand iid stack_addr s)))"

definition intr_handler_register :: "u64 \<Rightarrow> u64 \<Rightarrow> 'a intr_state_scheme \<Rightarrow> 'a intr_state_scheme res" where
  "intr_handler_register iid handler s =
     kassert (iid < INTR_ID_MAX)
     (rbind (buf_get (handlers s) iid) (\<lambda>old.
      kassert (old = 0)
      (kassert (handler \<noteq> 0)
        (rbind (buf_set (handlers s) iid handler) (\<lambda>hs. Ret (s\<lparr>handlers := hs\<rparr>))))))"

subsection \<open>The keyboard\<close>

record kb_state = intr_state +
  video_buffer :: vga

definition status_data_is_empty :: "u8 \<Rightarrow> bool res" where
  "status_data_is_empty status_byte = rbind (byte_bit_get status_byte 0) (\<lambda>b. Ret (\<not> b))"

partial_function (option) wait_data_available :: "'a io_scheme \<Rightarrow> 'a io_scheme res option" where
  "wait_data_available s =
     (case port_read_byte PORT_NO_KEYBOARD_CMD s of (status, s) \<Rightarrow>
        (case status_data_is_empty status of
           Inl e \<Rightarrow> Some (Inl e)
         | Inr none \<Rightarrow> if none then wait_data_available s else Some (Ret s)))"

declare wait_data_available.simps [code]

definition keyboard_irq_handler :: "u64 \<Rightarrow> u64 \<Rightarrow> 'a kb_state_scheme \<Rightarrow> 'a kb_state_scheme res" where
  "keyboard_irq_handler iid para s =
     (case wait_data_available s of
        None \<Rightarrow> Stop Diverges
      | Some r \<Rightarrow> rbind r (\<lambda>s.
          case port_read_byte PORT_NO_KEYBOARD_DATA s of (data, s) \<Rightarrow>
            let put = (\<lambda>c. rbind (screen_write_at (of_char c) 0 0 (video_buffer s)) (\<lambda>v. Ret (s\<lparr>video_buffer := v\<rparr>))) in
            if data = 0x11 then put CHR ''W''
            else if data = 0x15 then put CHR ''Y''
            else if data = 0x19 then put CHR ''P''
            else Ret s))"

definition keyboard_init :: "u64 \<Rightarrow> 'a intr_state_scheme \<Rightarrow> 'a intr_state_scheme res" where
  "keyboard_init handler_addr s = intr_handler_register INTR_ID_IRQ_KEYBOARD handler_addr s"

subsection \<open>The table as the processor reads it\<close>

text \<open>
  The fields of gate \<open>i\<close>: the entry point in three pieces, the code selector, the present bit and the gate
  type, where 14 is an interrupt gate and 15 a trap gate.
\<close>

definition gate_bytes :: "u8 list \<Rightarrow> nat \<Rightarrow> u8 list" where
  "gate_bytes table i = take 16 (drop (16 * i) table)"

definition gate_entry :: "u8 list \<Rightarrow> u64" where
  "gate_entry g = le_value [g ! 0, g ! 1, g ! 6, g ! 7, g ! 8, g ! 9, g ! 10, g ! 11]"

definition gate_selector :: "u8 list \<Rightarrow> u64" where
  "gate_selector g = le_value [g ! 2, g ! 3]"

definition gate_present :: "u8 list \<Rightarrow> bool" where
  "gate_present g \<longleftrightarrow> bit (g ! 5) 7"

definition gate_type :: "u8 list \<Rightarrow> u8" where
  "gate_type g = g ! 5 AND 0x0f"

definition gate_image :: "idt_gate_type \<Rightarrow> u64 \<Rightarrow> u8 list" where
  "gate_image type h =
     [ucast h, ucast (drop_bit 8 h), 8, 0, 0, case type of IDT_GATE_TYPE_INTERRUPT \<Rightarrow> 0x8f | IDT_GATE_TYPE_TRAP \<Rightarrow> 0x8e,
      ucast (drop_bit 16 h), ucast (drop_bit 24 h), ucast (drop_bit 32 h), ucast (drop_bit 40 h),
      ucast (drop_bit 48 h), ucast (drop_bit 56 h), 0, 0, 0, 0]"

lemma length_gate_image [simp]: "length (gate_image type h) = 16"
  by (simp add: gate_image_def)

lemma le_value_split: "le_value bs = drop_bit 8 h \<Longrightarrow> le_value (ucast h # bs) = h"
proof -
  assume bs: "le_value bs = drop_bit 8 h"
  have "ucast (ucast h :: u8) = take_bit 8 h" by (rule bit_word_eqI) (simp add: bit_ucast_iff bit_take_bit_iff)
  moreover have "256 * drop_bit 8 h = push_bit 8 (drop_bit 8 h)" by (simp add: push_bit_eq_mult)
  ultimately show ?thesis using bits_ident [of 8 h] bs by (simp add: le_value_def add.commute)
qed

lemma le_value_word:
  "le_value [ucast h, ucast (drop_bit 8 h), ucast (drop_bit 16 h), ucast (drop_bit 24 h),
     ucast (drop_bit 32 h), ucast (drop_bit 40 h), ucast (drop_bit 48 h), ucast (drop_bit 56 h)] = h"
proof -
  have z: "drop_bit 64 h = 0" by (rule bit_word_eqI) (simp add: bit_drop_bit_eq)
  have "le_value [ucast (drop_bit 56 h)] = drop_bit 56 h" by (rule le_value_split) (simp add: le_value_def z)
  then have "le_value [ucast (drop_bit 48 h), ucast (drop_bit 56 h)] = drop_bit 48 h" by (intro le_value_split) simp
  then have "le_value [ucast (drop_bit 40 h), ucast (drop_bit 48 h), ucast (drop_bit 56 h)] = drop_bit 40 h" by (intro le_value_split) simp
  then have "le_value [ucast (drop_bit 32 h), ucast (drop_bit 40 h), ucast (drop_bit 48 h), ucast (drop_bit 56 h)] = drop_bit 32 h"
    by (intro le_value_split) simp
  then have "le_value [ucast (drop_bit 24 h), ucast (drop_bit 32 h), ucast (drop_bit 40 h), ucast (drop_bit 48 h), ucast (drop_bit 56 h)] = drop_bit 24 h"
    by (intro le_value_split) simp
  then have "le_value [ucast (drop_bit 16 h), ucast (drop_bit 24 h), ucast (drop_bit 32 h), ucast (drop_bit 40 h), ucast (drop_bit 48 h),
    ucast (drop_bit 56 h)] = drop_bit 16 h" by (intro le_value_split) simp
  then have "le_value [ucast (drop_bit 8 h), ucast (drop_bit 16 h), ucast (drop_bit 24 h), ucast (drop_bit 32 h), ucast (drop_bit 40 h),
    ucast (drop_bit 48 h), ucast (drop_bit 56 h)] = drop_bit 8 h" by (intro le_value_split) simp
  then show ?thesis by (rule le_value_split)
qed

lemma gate_image_fields:
  "gate_entry (gate_image type h) = h" "gate_selector (gate_image type h) = 8" "gate_present (gate_image type h)"
  "gate_type (gate_image IDT_GATE_TYPE_INTERRUPT h) = 0xf" "gate_type (gate_image IDT_GATE_TYPE_TRAP h) = 0xe"
proof -
  show "gate_entry (gate_image type h) = h" using le_value_word [of h] by (simp add: gate_entry_def gate_image_def)
  show "gate_selector (gate_image type h) = 8" by (simp add: gate_selector_def gate_image_def le_value_def)
  show "gate_present (gate_image type h)" by (cases type) (simp_all add: gate_present_def gate_image_def)
  show "gate_type (gate_image IDT_GATE_TYPE_INTERRUPT h) = 0xf" "gate_type (gate_image IDT_GATE_TYPE_TRAP h) = 0xe"
    by (simp_all add: gate_type_def gate_image_def)
qed

text \<open>Stores of two and four bytes overwrite them, low byte first.\<close>

lemma st_overwrites:
  assumes "unat off + 4 \<le> length b" "unat off + 4 < 18446744073709551616"
  shows "st_u16 b off v = Ret (overwrite b (unat off) [ucast v, ucast (drop_bit 8 v)])"
    "st_u32 b off w = Ret (overwrite b (unat off) [ucast w, ucast (drop_bit 8 w), ucast (drop_bit 16 w), ucast (drop_bit 24 w)])"
proof -
  have o: "unat (off + 1) = unat off + 1" "unat (off + 2) = unat off + 2" "unat (off + 3) = Suc (Suc (Suc (unat off)))"
    using assms(2) by (subst unat_u64_add; simp)+
  note two = overwrite_overwrite [of "unat off" _ b]
  show "st_u16 b off v = Ret (overwrite b (unat off) [ucast v, ucast (drop_bit 8 v)])"
    using assms(1) o two [of "[ucast v]" "[ucast (drop_bit 8 v)]"] by (simp add: st_u16_def)
  show "st_u32 b off w = Ret (overwrite b (unat off) [ucast w, ucast (drop_bit 8 w), ucast (drop_bit 16 w), ucast (drop_bit 24 w)])"
    using assms(1) o two [of "[ucast w]" "[ucast (drop_bit 8 w)]"] two [of "[ucast w, ucast (drop_bit 8 w)]" "[ucast (drop_bit 16 w)]"]
      two [of "[ucast w, ucast (drop_bit 8 w), ucast (drop_bit 16 w)]" "[ucast (drop_bit 24 w)]"]
    by (simp add: st_u32_def)
qed

lemma idt_gate_encode_image:
  assumes "length table = 4096" "i < 256" "gate_idx = of_nat i"
  shows "idt_gate_encode gate_idx type h table = Ret (overwrite table (16 * i) (gate_image type h))"
proof -
  let ?g = "gate_idx * IDT_GATE_LEN"
  have "unat gate_idx = i" using assms(2,3) by (simp add: unat_of_nat)
  then have ug: "unat ?g = 16 * i" and lt: "gate_idx < IDT_GATE_COUNT"
    using assms(2) by (simp_all add: IDT_GATE_LEN_def IDT_GATE_COUNT_def unat_u64_mult word_less_nat_alt)
  have o: "unat (?g + k) = 16 * i + unat k" if "unat k < 16" for k using ug assms(2) that by (subst unat_u64_add) auto
  have b: "16 * i + 16 \<le> 4096" using assms(2) by simp
  have casts: "(ucast (ucast h :: u16) :: u8) = ucast h" "(ucast (drop_bit 8 (ucast h :: u16)) :: u8) = ucast (drop_bit 8 h)"
    "(ucast (ucast h' :: u32) :: u8) = ucast h'" "(ucast (drop_bit 8 (ucast h' :: u32)) :: u8) = ucast (drop_bit 8 h')"
    "(ucast (drop_bit 16 (ucast h' :: u32)) :: u8) = ucast (drop_bit 16 h')" "(ucast (drop_bit 24 (ucast h' :: u32)) :: u8) = ucast (drop_bit 24 h')"
    for h h' :: u64 by (rule bit_word_eqI, simp add: bit_ucast_iff bit_drop_bit_eq)+
  have ow: "overwrite (overwrite table (16 * i) xs) (16 * i + unat k) ys = overwrite table (16 * i) (xs @ ys)"
    "length (overwrite table (16 * i) xs) = 4096" if "unat k = length xs" "length xs \<le> 16" for k :: u64 and xs ys
    using that b assms(1) by simp_all
  have e16: "st_u16 (overwrite table (16 * i) xs) (?g + k) v = Ret (overwrite table (16 * i) (xs @ [ucast v, ucast (drop_bit 8 v)]))"
    and e32: "st_u32 (overwrite table (16 * i) xs) (?g + k) w =
      Ret (overwrite table (16 * i) (xs @ [ucast w, ucast (drop_bit 8 w), ucast (drop_bit 16 w), ucast (drop_bit 24 w)]))"
    if "unat k = length xs" "length xs \<le> 12" for k xs v w
    using st_overwrites [of "?g + k" "overwrite table (16 * i) xs"] o [of k] that b ow [OF that(1)] by simp_all
  have e8: "buf_set (overwrite table (16 * i) xs) (?g + k) x = Ret (overwrite table (16 * i) (xs @ [x]))"
    if "unat k = length xs" "length xs < 16" for k xs x
    using o [of k] that b ow [OF that(1)] by simp
  have "st_u16 table ?g (ucast h) = Ret (overwrite table (16 * i) [ucast h, ucast (drop_bit 8 h)])"
    using e16 [of 0 "[]" "ucast h"] by (simp add: casts)
  then show ?thesis using lt
    by (cases type) (simp_all add: idt_gate_encode_def Let_def e16 e32 e8 casts gate_image_def GDT_CODE_SEGMENT_OFFSET_def)
qed

lemma gate_bytes_overwrite:
  assumes "length table = 4096" "i < 256" "j < 256" "length im = 16"
  shows "gate_bytes (overwrite table (16 * i) im) j = (if j = i then im else gate_bytes table j)"
proof -
  have len: "length (overwrite table (16 * i) im) = 4096" using assms by simp
  have nth: "overwrite table (16 * i) im ! (16 * j + k) = (if j = i then im ! k else table ! (16 * j + k))" if "k < 16" for k
  proof -
    have "16 * i \<le> 16 * j + k \<and> 16 * j + k < 16 * i + 16 \<longleftrightarrow> j = i" using that by arith
    then show ?thesis using assms that by (subst nth_overwrite) auto
  qed
  show ?thesis using assms nth len by (auto simp: gate_bytes_def list_eq_iff_nth_eq)
qed

lemma encode_run:
  assumes "length table = 4096" and idx: "\<And>k. a \<le> k \<Longrightarrow> k < a + n \<Longrightarrow> idx k = of_nat (k + c) \<and> k + c < 256"
  shows "\<exists>t. count_loop a n (\<lambda>k. idt_gate_encode (idx k) IDT_GATE_TYPE_INTERRUPT (f k)) table = Ret t \<and> length t = 4096 \<and>
    (\<forall>j<256. gate_bytes t j = (if a + c \<le> j \<and> j < a + n + c then gate_image IDT_GATE_TYPE_INTERRUPT (f (j - c)) else gate_bytes table j))"
proof -
  define P where "P m t \<longleftrightarrow> length t = 4096 \<and> (\<forall>j<256. gate_bytes t j =
    (if a + c \<le> j \<and> j < m + c then gate_image IDT_GATE_TYPE_INTERRUPT (f (j - c)) else gate_bytes table j))" for m t
  have "\<exists>t. count_loop a n (\<lambda>k. idt_gate_encode (idx k) IDT_GATE_TYPE_INTERRUPT (f k)) table = Ret t \<and> P (a + n) t"
  proof (rule count_loop_total)
    show "P a table" using assms(1) by (auto simp: P_def)
    show "\<exists>t'. idt_gate_encode (idx k) IDT_GATE_TYPE_INTERRUPT (f k) t = Ret t' \<and> P (Suc k) t'"
      if k: "a \<le> k" "k < a + n" "P k t" for k t
    proof -
      have i: "idx k = of_nat (k + c)" "k + c < 256" using idx [OF k(1,2)] by auto
      have len: "length t = 4096" using k(3) by (simp add: P_def)
      define t' where "t' = overwrite t (16 * (k + c)) (gate_image IDT_GATE_TYPE_INTERRUPT (f k))"
      have "length t' = 4096" using len i(2) by (simp add: t'_def)
      moreover have "gate_bytes t' j = (if j = k + c then gate_image IDT_GATE_TYPE_INTERRUPT (f k) else gate_bytes t j)" if "j < 256" for j
        unfolding t'_def using len i(2) that by (rule gate_bytes_overwrite) simp
      ultimately have "P (Suc k) t'" using k(1,3) unfolding P_def by (auto simp: less_Suc_eq)
      then have "P (Suc k) (overwrite t (16 * (k + c)) (gate_image IDT_GATE_TYPE_INTERRUPT (f k)))" by (simp only: t'_def)
      then show ?thesis using idt_gate_encode_image [OF len i(2,1)] by blast
    qed
  qed
  then show ?thesis by (simp add: P_def)
qed

lemma init_idt_gates:
  assumes "length table = 4096"
  shows "\<exists>t. intr_init_idt isr irq table = Ret t \<and> length t = 4096 \<and>
    (\<forall>i<256. gate_entry (gate_bytes t i) = (if 32 \<le> i \<and> i < 37 then irq (i - 32) else isr i) \<and>
      gate_present (gate_bytes t i) \<and> gate_selector (gate_bytes t i) = 8 \<and> gate_type (gate_bytes t i) = 15)"
proof -
  obtain t1 where t1: "init_isr_low isr table = Ret t1" "length t1 = 4096"
    "\<And>j. j < 256 \<Longrightarrow> j < 32 \<Longrightarrow> gate_bytes t1 j = gate_image IDT_GATE_TYPE_INTERRUPT (isr j)"
    using encode_run [OF assms, of 0 32 of_nat 0 isr] unfolding init_isr_low_def by auto
  have idx: "ucast (IRQ_HANDLER_BASE + of_nat k) = (of_nat (k + 32) :: u64) \<and> k + 32 < 256" if "0 \<le> k" "k < 0 + 5" for k
  proof -
    have "k = 0 \<or> k = 1 \<or> k = 2 \<or> k = 3 \<or> k = 4" using that by auto
    then show ?thesis by (auto simp: IRQ_HANDLER_BASE_def)
  qed
  obtain t2 where t2: "init_irq irq t1 = Ret t2" "length t2 = 4096"
    "\<And>j. j < 256 \<Longrightarrow> gate_bytes t2 j = (if 32 \<le> j \<and> j < 37 then gate_image IDT_GATE_TYPE_INTERRUPT (irq (j - 32)) else gate_bytes t1 j)"
    using encode_run [where a = 0 and n = 5 and c = 32 and f = irq, OF t1(2) idx] unfolding init_irq_def by auto
  obtain t3 where t3: "init_isr_high isr t2 = Ret t3" "length t3 = 4096"
    "\<And>j. j < 256 \<Longrightarrow> gate_bytes t3 j = (if 37 \<le> j then gate_image IDT_GATE_TYPE_INTERRUPT (isr j) else gate_bytes t2 j)"
    using encode_run [OF t2(2), of 37 219 of_nat 0 isr] unfolding init_isr_high_def by auto
  have "gate_bytes t3 i = gate_image IDT_GATE_TYPE_INTERRUPT (if 32 \<le> i \<and> i < 37 then irq (i - 32) else isr i)" if "i < 256" for i
    using t1(3) [OF that] t2(3) [OF that] t3(3) [OF that] by auto
  then have "\<forall>i<256. gate_entry (gate_bytes t3 i) = (if 32 \<le> i \<and> i < 37 then irq (i - 32) else isr i) \<and>
      gate_present (gate_bytes t3 i) \<and> gate_selector (gate_bytes t3 i) = 8 \<and> gate_type (gate_bytes t3 i) = 15"
    using gate_image_fields by simp
  moreover have "intr_init_idt isr irq table = Ret t3" using t1(1) t2(1) t3(1) by (simp add: intr_init_idt_def)
  ultimately show ?thesis using t3(2) by blast
qed

text \<open>
  C28: the table that \<open>_intr_init_idt\<close> builds takes the processor to the right place: read back from the
  table, every one of the 256 gates is present, uses the kernel's code segment, and enters the stub of its
  vector, the five hardware stubs for vectors 32 to 36. Its type is 15, a trap gate, though every call asks
  for an interrupt gate.
\<close>

theorem intr_init_idt_gates:
  assumes "length table = 4096"
  shows "\<exists>t. intr_init_idt isr irq table = Ret t \<and> length t = 4096 \<and>
    (\<forall>i<256. gate_entry (gate_bytes t i) = (if 32 \<le> i \<and> i < 37 then irq (i - 32) else isr i) \<and>
      gate_present (gate_bytes t i) \<and> gate_selector (gate_bytes t i) = 8 \<and> gate_type (gate_bytes t i) = 15)"
  by (rule init_idt_gates [OF assms])

theorem intr_init_idt_gates_witness:
  "\<exists>t. intr_init_idt (\<lambda>i. 0x200000 + of_nat i * 16) (\<lambda>i. 0x300000 + of_nat i * 16) (replicate 4096 0) = Ret t \<and>
    gate_entry (gate_bytes t 33) = 0x300010 \<and> gate_entry (gate_bytes t 14) = 0x2000e0"
proof -
  obtain t where "intr_init_idt (\<lambda>i. 0x200000 + of_nat i * 16) (\<lambda>i. 0x300000 + of_nat i * 16) (replicate 4096 0) = Ret t"
    "\<forall>i<256. gate_entry (gate_bytes t i) = (if 32 \<le> i \<and> i < 37 then 0x300000 + of_nat (i - 32) * 16 else 0x200000 + of_nat i * 16)"
    using intr_init_idt_gates [of "replicate 4096 0" "\<lambda>i. 0x200000 + of_nat i * 16" "\<lambda>i. 0x300000 + of_nat i * 16"] by auto
  then show ?thesis by simp
qed

subsection \<open>Dispatch of hardware interrupts\<close>

text \<open>A numbered message in a buffer of 128 characters.\<close>

lemma numbered_message:
  assumes "length msg0 = 128" "NUL \<notin> set p" "length p < 100"
  shows "rbind (str_len (p @ [NUL])) (\<lambda>part_len. rbind (str_buf_marshal_str msg0 0 128 (p @ [NUL]) part_len) (\<lambda>(msg, n).
      rbind (str_buf_marshal_uint msg n 128 v) (\<lambda>(msg, k). rbind (str_buf_marshal_terminator msg (n + k) 128) (\<lambda>(msg, k). panic_with msg)))) =
    Stop (KernelPanic (p @ dec_digits (unat v)))"
proof -
  let ?ds = "dec_digits (unat v)"
  have n: "unat (of_nat (length p) :: u64) = length p" "unat (of_nat (length ?ds) :: u64) = length ?ds"
    using assms(3) u64_dec_digits [of v] by (simp_all add: unat_of_nat)
  have nk: "unat (of_nat (length p) + of_nat (length ?ds) :: u64) = length p + length ?ds"
    using n assms(3) u64_dec_digits [of v] by (subst unat_u64_add) auto
  have 1: "str_buf_marshal_str msg0 0 128 (p @ [NUL]) (of_nat (length p)) = Ret (overwrite msg0 0 p, of_nat (length p))"
    using assms(1,3) n by (simp add: str_buf_marshal_str_def word_less_nat_alt marshal_str_loop_overwrites)
  have 2: "str_buf_marshal_uint (overwrite msg0 0 p) (of_nat (length p)) 128 v =
      Ret (overwrite msg0 0 (p @ ?ds), of_nat (length ?ds))"
    using uint_put.put_fits [where v = v and buf_len = 128 and b = "overwrite msg0 0 p" and off = "of_nat (length p)"] assms(1,3) n u64_dec_digits [of v]
      overwrite_overwrite [of 0 p msg0 ?ds] by simp
  have 3: "str_buf_marshal_terminator (overwrite msg0 0 (p @ ?ds)) (of_nat (length p) + of_nat (length ?ds)) 128 =
      Ret (overwrite msg0 0 ((p @ ?ds) @ [NUL]), 1)"
    using terminator_put.put_fits [where buf_len = 128 and b = "overwrite msg0 0 (p @ ?ds)" and off = "of_nat (length p) + of_nat (length ?ds)"] assms(1,3) nk
      u64_dec_digits [of v] overwrite_overwrite [of 0 "p @ ?ds" msg0 "[NUL]"] by simp
  have "c \<noteq> NUL" if "c \<in> set (p @ ?ds)" for c
    using that assms(2) dec_digits_are_digits [of c "unat v"] by (auto simp: str_char_is_digit_def ch_int_def)
  then have "takeWhile (\<lambda>c. c \<noteq> NUL) (overwrite msg0 0 ((p @ ?ds) @ [NUL])) = p @ ?ds"
    unfolding overwrite_def by (simp add: takeWhile_append)
  then show ?thesis using str_len_counts [OF assms(2), of "[]"] 1 2 3 by (simp add: panic_with_def)
qed

lemma irq_dispatch:
  assumes "length (handlers s) = 256" "length msg0 = 128"
  shows "intr_irq_handler call msg0 iid stack s =
    (if iid \<ge> 40 then Stop AssertFail
     else if handlers s ! unat iid = 0 then Stop (KernelPanic (''Unhandled IRQ, id: '' @ dec_digits (unat iid)))
     else call (handlers s ! unat iid) iid stack (port_write_byte PORT_NO_PIC_MASTER_CMD 0x20 s))"
proof (cases "iid \<ge> 40")
  case True
  then have "\<not> iid < INTR_ID_MAX" by (simp add: INTR_ID_MAX_def)
  then show ?thesis using True by (simp add: intr_irq_handler_def Let_def)
next
  case False
  then have lt: "iid < INTR_ID_MAX" "unat iid < 256" by (auto simp: INTR_ID_MAX_def word_less_nat_alt word_le_nat_alt)
  have h: "handlers (port_write_byte p d s) = handlers s" for p d by (simp add: port_write_byte_def)
  have p: "NUL \<notin> set ''Unhandled IRQ, id: ''" "length ''Unhandled IRQ, id: '' < 100" by simp_all
  show ?thesis using False lt assms(1) unfolding intr_irq_handler_def Let_def numbered_message [OF assms(2) p] by (simp add: h)
qed

text \<open>
  C32: the dispatch of a hardware interrupt. The controllers are told first that the interrupt is over. Below
  40 the registered handler is then called with the number and the stack, and without a handler the kernel
  stops with a message that names the number. From 40 on, where the second controller's interrupts are,
  the dispatch always fails an assertion.
\<close>

theorem intr_irq_dispatch:
  assumes "length (handlers s) = 256" "length msg0 = 128"
  shows "intr_irq_handler call msg0 iid stack s =
    (if iid \<ge> 40 then Stop AssertFail
     else if handlers s ! unat iid = 0 then Stop (KernelPanic (''Unhandled IRQ, id: '' @ dec_digits (unat iid)))
     else call (handlers s ! unat iid) iid stack (port_write_byte PORT_NO_PIC_MASTER_CMD 0x20 s))"
  by (rule irq_dispatch [OF assms])

theorem intr_irq_dispatch_witness:
  "intr_irq_handler (\<lambda>_ _ _. Ret) (replicate 128 NUL) 36 0
     \<lparr>answers = (\<lambda>_. 0), reads = 0, events = [], idt = [], idt_register = (0, 0), handlers = replicate 256 0\<rparr> =
   Stop (KernelPanic ''Unhandled IRQ, id: 36'')"
proof -
  have "dec_digits 36 = ''36''" by (simp add: dec_digits_eval char_of_def bit_0)
  then show ?thesis
    using intr_irq_dispatch [of "\<lparr>answers = (\<lambda>_. 0), reads = 0, events = [], idt = [], idt_register = (0, 0), handlers = replicate 256 0\<rparr>"
        "replicate 128 NUL" "\<lambda>_ _ _. Ret" 36 0] by simp
qed

subsection \<open>The keyboard\<close>

lemma wait_data_available_polls:
  assumes "reads s \<le> n" "bit (answers s n) 0" "\<And>k. reads s \<le> k \<Longrightarrow> k < n \<Longrightarrow> \<not> bit (answers s k) 0"
  shows "wait_data_available s = Some (Ret (s\<lparr>reads := Suc n,
    events := events s @ map (\<lambda>k. Port_In PORT_NO_KEYBOARD_CMD (answers s k)) [reads s..<Suc n]\<rparr>))"
  using assms
proof (induction "n - reads s" arbitrary: s)
  case (0 s)
  then have n: "n = reads s" by simp
  have "byte_bit_get (answers s n) 0 = Ret True" using 0(3) u8_single_bit [of "answers s n" 0] by (simp add: byte_bit_get_def)
  then show ?case unfolding n by (subst wait_data_available.simps) (simp add: port_read_byte_def status_data_is_empty_def)
next
  case (Suc d s)
  let ?e = "Port_In PORT_NO_KEYBOARD_CMD (answers s (reads s))"
  let ?s = "s\<lparr>reads := Suc (reads s), events := events s @ [?e]\<rparr>"
  have lt: "reads s < n" "d = n - reads ?s" "reads ?s \<le> n" using Suc.hyps(2) by auto
  have "byte_bit_get (answers s (reads s)) 0 = Ret False"
    using Suc.prems(3) [OF order_refl lt(1)] u8_single_bit [of "answers s (reads s)" 0] by (simp add: byte_bit_get_def)
  then have "wait_data_available s = wait_data_available ?s"
    by (subst wait_data_available.simps) (simp add: port_read_byte_def status_data_is_empty_def)
  also have "\<dots> = Some (Ret (?s\<lparr>reads := Suc n, events := events ?s @ map (\<lambda>k. Port_In PORT_NO_KEYBOARD_CMD (answers ?s k)) [reads ?s..<Suc n]\<rparr>))"
    by (rule Suc.hyps(1) [OF lt(2,3)]) (use Suc.prems in auto)
  moreover have "[reads s..<Suc n] = reads s # [Suc (reads s)..<Suc n]" using lt(1) by (simp add: upt_conv_Cons)
  ultimately show ?case by simp
qed

definition key_char :: "u8 \<Rightarrow> char option" where
  "key_char data = map_of [(0x11, CHR ''W''), (0x15, CHR ''Y''), (0x19, CHR ''P'')] data"

text \<open>
  C33: the keyboard handler. Once the controller reports data (read number \<open>n\<close> is the first with the status
  bit set), the handler returns; it has polled the status port up to there, read one scan code, shown the
  character of the keys W, Y and P in the top left cell, and changed nothing else on the screen.
\<close>

theorem keyboard_irq_handler_shows:
  assumes "reads s \<le> n" "bit (answers s n) 0" "\<And>k. reads s \<le> k \<Longrightarrow> k < n \<Longrightarrow> \<not> bit (answers s k) 0"
    and "length (video_buffer s) = 4000"
  shows "\<exists>s'. keyboard_irq_handler iid para s = Ret s' \<and> reads s' = n + 2 \<and>
    events s' = events s @ map (\<lambda>k. Port_In PORT_NO_KEYBOARD_CMD (answers s k)) [reads s..<Suc n] @
      [Port_In PORT_NO_KEYBOARD_DATA (answers s (Suc n))] \<and> length (video_buffer s') = 4000 \<and>
    shows_text (cells (video_buffer s)) (cells (video_buffer s')) 0 0 (case key_char (answers s (Suc n)) of None \<Rightarrow> [] | Some c \<Rightarrow> [c])"
proof -
  let ?s = "s\<lparr>reads := Suc (Suc n), events := events s @ map (\<lambda>k. Port_In PORT_NO_KEYBOARD_CMD (answers s k)) [reads s..<Suc n] @
      [Port_In PORT_NO_KEYBOARD_DATA (answers s (Suc n))]\<rparr>"
  let ?put = "\<lambda>c. rbind (screen_write_at (of_char c) 0 0 (video_buffer s)) (\<lambda>v. Ret (?s\<lparr>video_buffer := v\<rparr>))"
  have run: "keyboard_irq_handler iid para s = (case key_char (answers s (Suc n)) of None \<Rightarrow> Ret ?s | Some c \<Rightarrow> ?put c)"
    using wait_data_available_polls [OF assms(1-3)] by (simp add: keyboard_irq_handler_def port_read_byte_def key_char_def Let_def)
  show ?thesis
  proof (cases "key_char (answers s (Suc n))")
    case None
    then show ?thesis using run assms(4) by (intro exI [of _ ?s]) simp
  next
    case (Some c)
    obtain v' where v': "screen_write_at (of_char c) 0 0 (video_buffer s) = Ret v'" "length v' = 4000"
      "shows_text (cells (video_buffer s)) (cells v') 0 0 [c]"
      using vga.put_next [of "video_buffer s" "video_buffer s" 0 0 "[]" 0 c] assms(4) by auto
    then show ?thesis using run Some by (intro exI [of _ "?s\<lparr>video_buffer := v'\<rparr>"]) simp
  qed
qed

definition sample_keyboard :: kb_state where
  "sample_keyboard = \<lparr>answers = (\<lambda>n. if n = 2 then 0x1d else if n = 3 then 0x11 else 0), reads = 0, events = [], idt = [],
     idt_register = (0, 0), handlers = replicate 256 0, video_buffer = replicate 4000 0\<rparr>"

theorem keyboard_irq_handler_shows_witness:
  "\<exists>s'. keyboard_irq_handler 33 0 sample_keyboard = Ret s' \<and> cells (video_buffer s') 0 0 = (0x57, 0)"
proof -
  have "\<exists>s'. keyboard_irq_handler 33 0 sample_keyboard = Ret s' \<and>
    shows_text (cells (video_buffer sample_keyboard)) (cells (video_buffer s')) 0 0 ''W''"
    using keyboard_irq_handler_shows [of sample_keyboard 2 33 0] by (auto simp: sample_keyboard_def key_char_def)
  moreover have "cells (video_buffer sample_keyboard) 0 0 = (0, 0)" by (simp add: sample_keyboard_def cells_def)
  ultimately show ?thesis unfolding shows_text_def by (auto simp: of_char_def)
qed

end
