(* ===== verification/Drivers_Time.thy ===== *)
theory Drivers_Time
  imports Interrupts
begin

text \<open>
  \<open>src/src/drivers/drivers_time.c\<close>: the handler of the timer does nothing yet. With the keyboard, these are the two
  handlers the kernel registers; here they are composed with the dispatch of the interrupts.
\<close>

definition INTR_ID_IRQ_TIME :: u64 where "INTR_ID_IRQ_TIME = 32"

definition time_irq_handler :: "u64 \<Rightarrow> u64 \<Rightarrow> 'a intr_state_scheme \<Rightarrow> 'a intr_state_scheme res" where
  "time_irq_handler iid para s = Ret s"

definition time_init :: "u64 \<Rightarrow> 'a intr_state_scheme \<Rightarrow> 'a intr_state_scheme res" where
  "time_init handler_addr s = intr_handler_register INTR_ID_IRQ_TIME handler_addr s"

text \<open>The call of a handler through its address, with the two handlers at \<open>t\<close> and \<open>k\<close>.\<close>

definition call_handler :: "u64 \<Rightarrow> u64 \<Rightarrow> u64 \<Rightarrow> u64 \<Rightarrow> u64 \<Rightarrow> kb_state \<Rightarrow> kb_state res" where
  "call_handler t k hand iid para s =
     (if hand = t then time_irq_handler iid para s else if hand = k then keyboard_irq_handler iid para s else Stop OutOfBounds)"

lemma register_once:
  assumes "length (handlers s) = 256" "iid < INTR_ID_MAX" "h \<noteq> 0"
  shows "intr_handler_register iid h s =
    (if handlers s ! unat iid = 0 then Ret (s\<lparr>handlers := (handlers s)[unat iid := h]\<rparr>) else Stop AssertFail)"
proof -
  have "unat iid < 256" using assms(2) by (simp add: INTR_ID_MAX_def word_less_nat_alt)
  then show ?thesis using assms by (simp add: intr_handler_register_def overwrite_def upd_conv_take_nth_drop)
qed

text \<open>
  Once both drivers are started, on a table without handlers, a tick of the timer is acknowledged and nothing
  else happens, a key is acknowledged and then goes to the keyboard handler, and a second start of either
  driver fails an assertion.
\<close>

theorem started_drivers_dispatch:
  assumes "handlers s = replicate 256 0" "length msg0 = 128" "t \<noteq> 0" "k \<noteq> 0" "t \<noteq> k"
  shows "\<exists>s'. rbind (time_init t s) (keyboard_init k) = Ret s' \<and>
    intr_irq_handler (call_handler t k) msg0 INTR_ID_IRQ_TIME stack s' = Ret (port_write_byte PORT_NO_PIC_MASTER_CMD 0x20 s') \<and>
    intr_irq_handler (call_handler t k) msg0 INTR_ID_IRQ_KEYBOARD stack s' =
      keyboard_irq_handler INTR_ID_IRQ_KEYBOARD stack (port_write_byte PORT_NO_PIC_MASTER_CMD 0x20 s') \<and>
    time_init t' s' = Stop AssertFail \<and> keyboard_init k' s' = Stop AssertFail"
proof -
  let ?s = "s\<lparr>handlers := (replicate 256 0)[32 := t, 33 := k]\<rparr>"
  have n: "unat INTR_ID_IRQ_TIME = 32" "unat INTR_ID_IRQ_KEYBOARD = 33" "INTR_ID_IRQ_TIME < INTR_ID_MAX" "INTR_ID_IRQ_KEYBOARD < INTR_ID_MAX"
    by (simp_all add: INTR_ID_IRQ_TIME_def INTR_ID_IRQ_KEYBOARD_def INTR_ID_MAX_def)
  have "rbind (time_init t s) (keyboard_init k) = Ret ?s"
    using assms n by (simp add: time_init_def keyboard_init_def register_once)
  moreover have "time_init t' ?s = Stop AssertFail" "keyboard_init k' ?s = Stop AssertFail"
    using assms n by (simp_all add: time_init_def keyboard_init_def intr_handler_register_def)
  moreover have "handlers (port_write_byte p d u) = handlers u" for p d and u :: kb_state by (simp add: port_write_byte_def)
  ultimately show ?thesis using assms n
    by (intro exI [of _ ?s]) (simp add: intr_irq_handler_def Let_def call_handler_def time_irq_handler_def INTR_ID_IRQ_TIME_def INTR_ID_IRQ_KEYBOARD_def)
qed

end
