(* ===== verification/Panel.thy ===== *)
theory Panel
  imports Drivers_Screen
begin

text \<open>
  \<open>src/src/panel/panel.c\<close> and \<open>src/src/panel/panel_text.c\<close>: the navigation bar and the boxed text area that
  shows the log. The rows of a text area live in one character buffer, a row in each stretch of the area's
  width, with the lengths of the rows beside it.
\<close>

subsection \<open>Writing to the screen\<close>

definition panel_write_char :: "char \<Rightarrow> u64 \<Rightarrow> u64 \<Rightarrow> vga \<Rightarrow> vga res" where
  "panel_write_char c row col v =
     kassert (row < SCREEN_HEIGHT) (kassert (col < SCREEN_WIDTH) (screen_write_at (of_char c) row col v))"

partial_function (option) panel_str_loop :: "buf \<Rightarrow> u64 \<Rightarrow> u64 \<Rightarrow> u64 \<Rightarrow> vga \<Rightarrow> vga res option" where
  "panel_str_loop str row col i v =
     (if i + col < SCREEN_WIDTH then
        (case buf_get str i of
           Inl e \<Rightarrow> Some (Inl e)
         | Inr c \<Rightarrow>
             if c = NUL then Some (Ret v)
             else (case panel_write_char c row (col + i) v of
                     Inl e \<Rightarrow> Some (Inl e)
                   | Inr v \<Rightarrow> panel_str_loop str row col (i + 1) v))
      else Some (Ret v))"

declare panel_str_loop.simps [code]

definition panel_write_str :: "buf \<Rightarrow> u64 \<Rightarrow> u64 \<Rightarrow> vga \<Rightarrow> vga res" where
  "panel_write_str str row col v = (case panel_str_loop str row col 0 v of None \<Rightarrow> Stop Diverges | Some r \<Rightarrow> r)"

definition panel_write_str_len :: "buf \<Rightarrow> u64 \<Rightarrow> u64 \<Rightarrow> u64 \<Rightarrow> vga \<Rightarrow> vga res" where
  "panel_write_str_len str slen row col v =
     kassert (col + slen < SCREEN_WIDTH)
       (count_loop 0 (unat slen) (\<lambda>i v. rbind (buf_get str (of_nat i)) (\<lambda>c. panel_write_char c row (col + of_nat i) v)) v)"

subsection \<open>The text area\<close>

record panel_text =
  start_row :: u64
  start_col :: u64
  end_row :: u64
  end_col :: u64
  box_color :: screen_color
  body_color :: screen_color
  tbuf :: buf
  row_lens :: "u64 list"
  buf_len :: u64
  buf_tail :: u64
  window_head :: u64
  write_cnt :: u64

definition udiv :: "u64 \<Rightarrow> u64 \<Rightarrow> u64 res" where
  "udiv a b = (if b = 0 then Stop DivByZero else Ret (a div b))"

definition umod :: "u64 \<Rightarrow> u64 \<Rightarrow> u64 res" where
  "umod a b = (if b = 0 then Stop DivByZero else Ret (a mod b))"

definition panel_text_init :: "u64 \<Rightarrow> u64 \<Rightarrow> u64 \<Rightarrow> u64 \<Rightarrow> panel_text \<Rightarrow> panel_text res" where
  "panel_text_init row0 col0 rowx colx t =
     (let t = t\<lparr>start_row := row0, start_col := col0, end_row := rowx, end_col := colx, box_color := SCREEN_COLOR_BLUE\<rparr> in
      rbind (udiv (1024 * 1024) (end_col t - start_col t - 1)) (\<lambda>n.
        Ret (t\<lparr>buf_len := n, buf_tail := 0, write_cnt := 0, window_head := 0\<rparr>)))"

definition panel_text_width :: "panel_text \<Rightarrow> u64" where
  "panel_text_width t = end_col t - start_col t - 1"

definition panel_text_height :: "panel_text \<Rightarrow> u64" where
  "panel_text_height t = end_row t - start_row t - 1"

definition buf_row_total :: "panel_text \<Rightarrow> u64 res" where
  "buf_row_total t = udiv (buf_len t) (panel_text_width t)"

definition buf_row_offs :: "panel_text \<Rightarrow> u64 \<Rightarrow> u64 res" where
  "buf_row_offs t row = rbind (buf_row_total t) (\<lambda>total. kassert (row < total) (Ret (panel_text_width t * row)))"

definition buf_tail_next :: "panel_text \<Rightarrow> u64 res" where
  "buf_tail_next t = rbind (buf_row_total t) (umod (buf_tail t + 1))"

definition panel_text_is_full :: "panel_text \<Rightarrow> bool res" where
  "panel_text_is_full t = rbind (buf_tail_next t) (\<lambda>n. Ret (n = window_head t))"

definition txt_start_row :: "panel_text \<Rightarrow> u64" where
  "txt_start_row t = start_row t + 1"

definition txt_start_col :: "panel_text \<Rightarrow> u64" where
  "txt_start_col t = start_col t + 1"

definition draw_row :: "panel_text \<Rightarrow> nat \<Rightarrow> vga \<Rightarrow> vga res" where
  "draw_row t i v =
     rbind (buf_row_offs t (of_nat i + window_head t)) (\<lambda>off.
     rbind (buf_get (row_lens t) (of_nat i + window_head t)) (\<lambda>len.
       panel_write_str_len (drop (unat off) (tbuf t)) len (txt_start_row t + of_nat i) (txt_start_col t) v))"

definition draw_txt :: "panel_text \<Rightarrow> vga \<Rightarrow> vga res" where
  "draw_txt t v =
     (let row_cnt = panel_text_height t;
          row_cnt = (if write_cnt t < row_cnt then write_cnt t else row_cnt)
      in count_loop 0 (unat row_cnt) (draw_row t) v)"

definition draw_border_row :: "panel_text \<Rightarrow> nat \<Rightarrow> vga \<Rightarrow> vga res" where
  "draw_border_row t i v =
     rbind (screen_box_thin_border_v_at (of_nat i) (start_col t) v) (\<lambda>v.
     rbind (screen_set_fg_at (box_color t) (of_nat i) (start_col t) v) (\<lambda>v.
     rbind (screen_box_thin_border_v_at (of_nat i) (end_col t) v) (\<lambda>v.
       screen_set_fg_at (box_color t) (of_nat i) (end_col t) v)))"

definition draw_border_col :: "panel_text \<Rightarrow> nat \<Rightarrow> vga \<Rightarrow> vga res" where
  "draw_border_col t i v =
     rbind (screen_box_thin_border_h_at (start_row t) (of_nat i) v) (\<lambda>v.
     rbind (screen_set_fg_at (box_color t) (start_row t) (of_nat i) v) (\<lambda>v.
     rbind (screen_box_thin_border_h_at (end_row t) (of_nat i) v) (\<lambda>v.
       screen_set_fg_at (box_color t) (end_row t) (of_nat i) v)))"

text \<open>\<open>for (i = a + 1; i < b; i++)\<close> starts at \<open>a + 1\<close> as a word.\<close>

definition inner_loop :: "u64 \<Rightarrow> u64 \<Rightarrow> (nat \<Rightarrow> 's \<Rightarrow> 's res) \<Rightarrow> 's \<Rightarrow> 's res" where
  "inner_loop a b body s = count_loop (unat (a + 1)) (unat b - unat (a + 1)) body s"

definition panel_text_draw :: "panel_text \<Rightarrow> vga \<Rightarrow> vga res" where
  "panel_text_draw t v =
     rbind (screen_box_thin_corner_nw_at (start_row t) (start_col t) v) (\<lambda>v.
     rbind (screen_set_fg_at (box_color t) (start_row t) (start_col t) v) (\<lambda>v.
     rbind (screen_box_thin_corner_ne_at (start_row t) (end_col t) v) (\<lambda>v.
     rbind (screen_set_fg_at (box_color t) (start_row t) (end_col t) v) (\<lambda>v.
     rbind (screen_box_thin_corner_sw_at (end_row t) (start_col t) v) (\<lambda>v.
     rbind (screen_set_fg_at (box_color t) (end_row t) (start_col t) v) (\<lambda>v.
     rbind (screen_box_thin_corner_se_at (end_row t) (end_col t) v) (\<lambda>v.
     rbind (screen_set_fg_at (box_color t) (end_row t) (end_col t) v) (\<lambda>v.
     rbind (inner_loop (start_row t) (end_row t) (draw_border_row t) v) (\<lambda>v.
     rbind (inner_loop (start_col t) (end_col t) (draw_border_col t) v) (\<lambda>v.
       draw_txt t v))))))))))"

definition panel_text_write_row :: "panel_text \<Rightarrow> buf \<Rightarrow> u64 \<Rightarrow> (bool \<times> panel_text) res" where
  "panel_text_write_row t str slen =
     kassert (slen < panel_text_width t)
     (rbind (panel_text_is_full t) (\<lambda>full.
      if full then Ret (False, t)
      else
        rbind (buf_row_offs t (buf_tail t)) (\<lambda>off.
        rbind (count_loop 0 (unat slen) (\<lambda>i b. rbind (buf_get str (of_nat i)) (\<lambda>c. buf_set b (off + of_nat i) c)) (tbuf t)) (\<lambda>b.
        rbind (buf_set (row_lens t) (buf_tail t) slen) (\<lambda>lens.
        let t = t\<lparr>tbuf := b, row_lens := lens\<rparr> in
        rbind (buf_tail_next t) (\<lambda>n. Ret (True, t\<lparr>buf_tail := n, write_cnt := write_cnt t + 1\<rparr>)))))))"

subsection \<open>The panel\<close>

definition NAV_BG :: screen_color where "NAV_BG = SCREEN_COLOR_LIGHT_GREY"

definition panel_nav_init :: "vga \<Rightarrow> vga res" where
  "panel_nav_init v =
     rbind (count_loop 0 (unat SCREEN_WIDTH) (\<lambda>c. screen_clean_at NAV_BG 0 (of_nat c)) v) (\<lambda>v.
     rbind (panel_write_char CHR ''L'' 0 2 v) (\<lambda>v. panel_write_str (''og'' @ [NUL]) 0 3 v))"

definition panel_start :: "panel_text \<Rightarrow> vga \<Rightarrow> (panel_text \<times> vga) res" where
  "panel_start log_txt v =
     rbind (screen_clean SCREEN_COLOR_BLACK v) (\<lambda>v.
     rbind (panel_nav_init v) (\<lambda>v.
     rbind (panel_text_init 1 0 (SCREEN_HEIGHT - 2) (SCREEN_WIDTH - 1) log_txt) (\<lambda>t.
     rbind (panel_text_draw t v) (\<lambda>v. Ret (t, v)))))"

subsection \<open>The text area as a bounded list of rows\<close>

definition rows_cap :: "panel_text \<Rightarrow> nat" where
  "rows_cap t = unat (buf_len t) div unat (panel_text_width t)"

definition row_at :: "panel_text \<Rightarrow> nat \<Rightarrow> char list" where
  "row_at t i = take (unat (row_lens t ! i)) (drop (unat (panel_text_width t) * i) (tbuf t))"

definition rows_of :: "panel_text \<Rightarrow> char list list" where
  "rows_of t = map (row_at t) [0..<unat (buf_tail t)]"

text \<open>
  A text area in use: the buffers have their size, the tail is a row of the buffer, and the window starts at
  the first row, where \<open>panel_text_init\<close> puts it and from where no function moves it.
\<close>

definition area_ok :: "panel_text \<Rightarrow> bool" where
  "area_ok t \<longleftrightarrow> panel_text_width t \<noteq> 0 \<and> unat (buf_len t) \<le> 1048576 \<and> length (tbuf t) = 1048576 \<and> length (row_lens t) = 1048576 \<and>
     window_head t = 0 \<and> write_cnt t = buf_tail t \<and> unat (buf_tail t) < rows_cap t \<and>
     (\<forall>i < unat (buf_tail t). row_lens t ! i < panel_text_width t)"

lemma copy_loop:
  fixes slen :: u64
  assumes "unat slen \<le> length str" "unat off + unat slen \<le> length b" "length b < 18446744073709551616"
  shows "count_loop 0 (unat slen) (\<lambda>i b. rbind (buf_get str (of_nat i)) (\<lambda>c. buf_set b (off + of_nat i) c)) b =
    Ret (overwrite b (unat off) (take (unat slen) str))"
proof -
  define P where "P i u \<longleftrightarrow> u = overwrite b (unat off) (take i str)" for i u
  have "\<exists>u. count_loop 0 (unat slen) (\<lambda>i b. rbind (buf_get str (of_nat i)) (\<lambda>c. buf_set b (off + of_nat i) c)) b = Ret u \<and> P (0 + unat slen) u"
  proof (rule count_loop_total)
    show "P 0 b" by (simp add: P_def)
    show "\<exists>u'. rbind (buf_get str (of_nat i)) (\<lambda>c. buf_set u (off + of_nat i) c) = Ret u' \<and> P (Suc i) u'" if "i < 0 + unat slen" "P i u" for i u
    proof -
      have i: "i < unat slen" "unat (of_nat i :: u64) = i" using that(1) less_trans [OF _ unat_u64_bound [of slen], of i] by (simp_all add: unat_of_nat)
      have o: "unat (off + of_nat i) = unat off + i" using i assms by (subst unat_u64_add) auto
      have t: "take (Suc i) str = take i str @ [str ! i]" "length (take i str) = i" using i assms(1) by (simp_all add: take_Suc_conv_app_nth)
      have "overwrite u (unat off + i) [str ! i] = overwrite b (unat off) (take (Suc i) str)"
        using overwrite_overwrite [of "unat off" "take i str" b "[str ! i]"] that(2) t i assms by (simp add: P_def)
      then show ?thesis using i o t assms that(2) by (simp add: P_def)
    qed
  qed
  then show ?thesis by (simp add: P_def)
qed

lemma area_total:
  assumes "area_ok t"
  shows "buf_row_total t = Ret (buf_len t div panel_text_width t)" "unat (buf_len t div panel_text_width t) = rows_cap t"
    "rows_cap t * unat (panel_text_width t) \<le> 1048576" "rows_cap t \<le> 1048576" "0 < rows_cap t"
    "i < rows_cap t \<Longrightarrow> unat (panel_text_width t * of_nat i) = unat (panel_text_width t) * i"
proof -
  let ?w = "unat (panel_text_width t)"
  show "buf_row_total t = Ret (buf_len t div panel_text_width t)" "unat (buf_len t div panel_text_width t) = rows_cap t" "0 < rows_cap t"
    using assms by (simp_all add: area_ok_def buf_row_total_def udiv_def rows_cap_def unat_div)
  have "rows_cap t * ?w \<le> unat (buf_len t)" by (simp add: rows_cap_def div_times_less_eq_dividend)
  then show r: "rows_cap t * ?w \<le> 1048576" using assms by (simp add: area_ok_def)
  have "0 < ?w" using assms by (simp add: area_ok_def unat_gt_0)
  then show c: "rows_cap t \<le> 1048576" using r by (metis le_trans mult_le_mono2 nat_mult_1_right Suc_leI One_nat_def)
  show "unat (panel_text_width t * of_nat i) = ?w * i" if "i < rows_cap t"
  proof -
    have "i * ?w \<le> rows_cap t * ?w" using that by (intro mult_le_mono1) simp
    from order_trans [OF this r] have "?w * i \<le> 1048576" by (simp add: mult.commute)
    moreover have "unat (of_nat i :: u64) = i" using that c by (simp add: unat_of_nat)
    ultimately show ?thesis by (subst unat_u64_mult) auto
  qed
qed

text \<open>The position of the next row, and the area with one row more.\<close>

lemma area_tail:
  assumes ok: "area_ok t"
  shows "buf_tail_next t = Ret (if Suc (unat (buf_tail t)) < rows_cap t then buf_tail t + 1 else 0)"
    "panel_text_is_full t = Ret (\<not> Suc (unat (buf_tail t)) < rows_cap t)"
proof -
  let ?n = "unat (buf_tail t)"
  note tot = area_total [OF ok]
  have n: "?n < rows_cap t" "window_head t = 0" using ok by (auto simp: area_ok_def)
  have n1: "unat (buf_tail t + 1) = Suc ?n" using n(1) tot(4) by (subst unat_u64_add) auto
  have pos: "buf_len t div panel_text_width t \<noteq> 0" using tot(2,5) by auto
  have nxt: "buf_tail_next t = Ret ((buf_tail t + 1) mod (buf_len t div panel_text_width t))"
    using tot(1) pos by (simp add: buf_tail_next_def umod_def)
  have "\<not> Suc ?n < rows_cap t \<Longrightarrow> Suc ?n = rows_cap t" using n(1) by simp
  then have "(buf_tail t + 1) mod (buf_len t div panel_text_width t) = (if Suc ?n < rows_cap t then buf_tail t + 1 else 0)"
    using n1 tot(2) by (auto simp: u64_eq_iff_unat unat_mod)
  then show next_row: "buf_tail_next t = Ret (if Suc ?n < rows_cap t then buf_tail t + 1 else 0)" using nxt by simp
  show "panel_text_is_full t = Ret (\<not> Suc ?n < rows_cap t)"
    using next_row n1 n(2) by (auto simp: panel_text_is_full_def u64_eq_iff_unat)
qed

definition with_row :: "panel_text \<Rightarrow> buf \<Rightarrow> u64 \<Rightarrow> panel_text" where
  "with_row t str slen = t\<lparr>tbuf := overwrite (tbuf t) (unat (panel_text_width t) * unat (buf_tail t)) (take (unat slen) str),
     row_lens := (row_lens t)[unat (buf_tail t) := slen], buf_tail := buf_tail t + 1, write_cnt := write_cnt t + 1\<rparr>"

lemma row_fits:
  assumes ok: "area_ok t" and room: "Suc (unat (buf_tail t)) < rows_cap t"
  shows "unat (panel_text_width t * buf_tail t) = unat (panel_text_width t) * unat (buf_tail t)"
    "unat (panel_text_width t) * unat (buf_tail t) + unat (panel_text_width t) \<le> 1048576"
    "length (tbuf t) = 1048576" "length (row_lens t) = 1048576" "unat (buf_tail t) < 1048576"
proof -
  note tot = area_total [OF ok]
  have n: "unat (buf_tail t) < rows_cap t" using room by simp
  show "unat (panel_text_width t * buf_tail t) = unat (panel_text_width t) * unat (buf_tail t)" using tot(6) [OF n] by simp
  have "Suc (unat (buf_tail t)) * unat (panel_text_width t) \<le> rows_cap t * unat (panel_text_width t)" using room by (intro mult_le_mono1) simp
  then show "unat (panel_text_width t) * unat (buf_tail t) + unat (panel_text_width t) \<le> 1048576" using tot(3) by (simp add: mult.commute)
  show "length (tbuf t) = 1048576" "length (row_lens t) = 1048576" "unat (buf_tail t) < 1048576" using ok n tot(4) by (auto simp: area_ok_def)
qed

lemma write_row_runs:
  assumes ok: "area_ok t" and room: "Suc (unat (buf_tail t)) < rows_cap t" and len: "slen < panel_text_width t" "unat slen \<le> length str"
  shows "panel_text_write_row t str slen = Ret (True, with_row t str slen)"
proof -
  let ?b = "overwrite (tbuf t) (unat (panel_text_width t) * unat (buf_tail t)) (take (unat slen) str)"
  note tot = area_total [OF ok] and fit = row_fits [OF ok room]
  have sl: "unat slen < unat (panel_text_width t)" using len(1) by (simp add: word_less_nat_alt)
  have off: "buf_row_offs t (buf_tail t) = Ret (panel_text_width t * buf_tail t)"
    using tot(1,2) room by (simp add: buf_row_offs_def word_less_nat_alt)
  have copy: "count_loop 0 (unat slen) (\<lambda>i b. rbind (buf_get str (of_nat i)) (\<lambda>c. buf_set b (panel_text_width t * buf_tail t + of_nat i) c)) (tbuf t) = Ret ?b"
    using copy_loop [of slen str "panel_text_width t * buf_tail t" "tbuf t"] fit sl len(2) by simp
  have set: "buf_set (row_lens t) (buf_tail t) slen = Ret ((row_lens t)[unat (buf_tail t) := slen])"
    using fit by (simp add: buf_set_def inbounds_def)
  have nxt: "buf_tail_next (t\<lparr>tbuf := ?b, row_lens := (row_lens t)[unat (buf_tail t) := slen]\<rparr>) = Ret (buf_tail t + 1)"
    using area_tail(1) [OF ok] room by (simp add: buf_tail_next_def buf_row_total_def panel_text_width_def)
  show ?thesis using area_tail(2) [OF ok] room len(1) off copy set nxt by (simp add: panel_text_write_row_def with_row_def Let_def)
qed

lemma with_row_rows:
  assumes ok: "area_ok t" and room: "Suc (unat (buf_tail t)) < rows_cap t" and len: "slen < panel_text_width t" "unat slen \<le> length str"
  shows "rows_of (with_row t str slen) = rows_of t @ [take (unat slen) str]" "area_ok (with_row t str slen)"
    "rows_cap (with_row t str slen) = rows_cap t"
proof -
  let ?w = "unat (panel_text_width t)" and ?n = "unat (buf_tail t)" and ?t = "with_row t str slen"
  note fit = row_fits [OF ok room]
  have sl: "unat slen < ?w" using len(1) by (simp add: word_less_nat_alt)
  have w: "panel_text_width ?t = panel_text_width t" "rows_cap ?t = rows_cap t" "unat (buf_tail ?t) = Suc ?n"
    using fit(5) by (simp_all add: with_row_def panel_text_width_def rows_cap_def unat_u64_add)
  have old: "row_at ?t i = row_at t i" if "i < ?n" for i
  proof -
    have l: "unat (row_lens t ! i) < ?w" using ok that by (auto simp: area_ok_def word_less_nat_alt)
    have "Suc i * ?w \<le> ?n * ?w" using that by (intro mult_le_mono1) simp
    then have le: "?w * i + ?w \<le> ?w * ?n" by (simp add: mult.commute)
    have "take (unat (row_lens t ! i)) (drop (?w * i) (tbuf ?t)) = take (unat (row_lens t ! i)) (drop (?w * i) (tbuf t))"
    proof (rule nth_equalityI)
      show "length (take (unat (row_lens t ! i)) (drop (?w * i) (tbuf ?t))) = length (take (unat (row_lens t ! i)) (drop (?w * i) (tbuf t)))"
        using fit sl by (simp add: with_row_def)
    qed (use le l fit sl in \<open>auto simp: with_row_def nth_overwrite\<close>)
    then show ?thesis using that by (simp add: row_at_def w(1)) (simp add: with_row_def)
  qed
  have "drop (?w * ?n) (tbuf ?t) = take (unat slen) str @ drop (?w * ?n + unat slen) (tbuf t)" "row_lens ?t ! ?n = slen"
    using fit sl len(2) by (simp_all add: with_row_def overwrite_def)
  then have "row_at ?t ?n = take (unat slen) str" using len(2) by (simp add: row_at_def w(1))
  then show "rows_of ?t = rows_of t @ [take (unat slen) str]" using old w(3) by (simp add: rows_of_def)
  have "row_lens ?t ! i < panel_text_width ?t" if "i < Suc ?n" for i
    using ok that len(1) fit unfolding w(1) by (cases "i = ?n") (auto simp: with_row_def area_ok_def)
  moreover have "length (tbuf ?t) = 1048576" using fit sl by (simp add: with_row_def)
  ultimately show "area_ok ?t" using ok room w by (simp add: area_ok_def) (simp add: with_row_def)
  show "rows_cap ?t = rows_cap t" by (rule w(2))
qed

text \<open>
  C30: the text area is a bounded list of rows. While the list is shorter than the capacity less one,
  \<open>panel_text_write_row\<close> appends the row and returns true; after that it returns false and keeps the area as it
  is, since the window never moves. Rows written before are not disturbed.
\<close>

theorem panel_text_write_row_appends:
  assumes ok: "area_ok t" and len: "slen < panel_text_width t" "unat slen \<le> length str"
  shows "if Suc (length (rows_of t)) < rows_cap t
    then \<exists>t'. panel_text_write_row t str slen = Ret (True, t') \<and> area_ok t' \<and> rows_cap t' = rows_cap t \<and>
      rows_of t' = rows_of t @ [take (unat slen) str]
    else panel_text_write_row t str slen = Ret (False, t)"
proof (cases "Suc (unat (buf_tail t)) < rows_cap t")
  case True
  then show ?thesis using write_row_runs [OF ok True len] with_row_rows [OF ok True len] by (simp add: rows_of_def)
next
  case False
  then show ?thesis using area_tail(2) [OF ok] len(1) by (simp add: panel_text_write_row_def rows_of_def)
qed

definition sample_area :: panel_text where
  "sample_area = \<lparr>start_row = 1, start_col = 0, end_row = 23, end_col = 79, box_color = SCREEN_COLOR_BLUE,
     body_color = SCREEN_COLOR_BLACK, tbuf = replicate 1048576 NUL, row_lens = replicate 1048576 0, buf_len = 13443,
     buf_tail = 0, window_head = 0, write_cnt = 0\<rparr>"

lemma sample_area_init:
  "panel_text_init 1 0 (SCREEN_HEIGHT - 2) (SCREEN_WIDTH - 1) sample_area = Ret sample_area" "area_ok sample_area" "rows_cap sample_area = 172"
  by (simp_all add: panel_text_init_def sample_area_def udiv_def SCREEN_HEIGHT_def SCREEN_WIDTH_def area_ok_def panel_text_width_def rows_cap_def)

theorem panel_text_write_row_appends_witness:
  "\<exists>t'. panel_text_write_row sample_area ''boot'' 4 = Ret (True, t') \<and> rows_of t' = [''boot'']"
proof -
  have r: "rows_of sample_area = []" by (simp add: rows_of_def sample_area_def)
  have "4 < panel_text_width sample_area" by (simp add: sample_area_def panel_text_width_def)
  then show ?thesis
    using panel_text_write_row_appends [OF sample_area_init(2), of 4 "''boot''"] sample_area_init(3) r by auto
qed

subsection \<open>Drawing the rows\<close>

lemma panel_write_str_len_shows:
  assumes "length v = 4000" "row < 25" "unat col + unat slen < 80" "unat slen \<le> length cs"
  shows "\<exists>v'. panel_write_str_len cs slen row col v = Ret v' \<and> length v' = 4000 \<and>
    shows_text (cells v) (cells v') (unat row) (unat col) (take (unat slen) cs)"
proof -
  have "unat (col + slen) = unat col + unat slen" using assms(3) by (subst unat_u64_add) auto
  then have g: "col + slen < SCREEN_WIDTH" using assms(3) by (simp add: SCREEN_WIDTH_def word_less_nat_alt)
  have body: "rbind (buf_get cs (of_nat i)) (\<lambda>c. panel_write_char c row (col + of_nat i) v) = screen_write_at (of_char (cs ! i)) row (col + of_nat i) v"
    if "i < unat slen" for i v
  proof -
    have i: "unat (of_nat i :: u64) = i" using that assms(3) by (simp add: unat_of_nat)
    have "unat (col + of_nat i) = unat col + i" using that assms(3) i by (subst unat_u64_add) auto
    then have "col + of_nat i < 80" using that assms(3) by (simp add: word_less_nat_alt)
    then show ?thesis using i that assms(2,4) by (simp add: panel_write_char_def SCREEN_WIDTH_def SCREEN_HEIGHT_def)
  qed
  show ?thesis using vga.put_run [OF assms(1,2) _ assms(4) body] assms(3) g by (simp add: panel_write_str_len_def)
qed

text \<open>The screen after the first \<open>n\<close> rows of an area were drawn on it.\<close>

definition rows_drawn :: "panel_text \<Rightarrow> nat \<Rightarrow> (nat \<Rightarrow> nat \<Rightarrow> u8 \<times> u8) \<Rightarrow> (nat \<Rightarrow> nat \<Rightarrow> u8 \<times> u8) \<Rightarrow> bool" where
  "rows_drawn t n old new \<longleftrightarrow> (\<forall>r<25. \<forall>c<80. new r c =
     (let i = r - unat (start_row t) - 1; j = c - unat (start_col t) - 1 in
      if unat (start_row t) < r \<and> unat (start_col t) < c \<and> i < n \<and> j < length (row_at t i)
      then (of_char (row_at t i ! j), snd (old r c)) else old r c))"

lemma rows_drawn_Suc:
  assumes "rows_drawn t n old mid" "shows_text mid new (unat (start_row t) + 1 + n) (unat (start_col t) + 1) (row_at t n)"
  shows "rows_drawn t (Suc n) old new"
  unfolding rows_drawn_def Let_def
proof (intro allI impI)
  fix r c :: nat
  assume rc: "r < 25" "c < 80"
  have mid: "mid r c = (if unat (start_row t) < r \<and> unat (start_col t) < c \<and> r - unat (start_row t) - 1 < n \<and>
      c - unat (start_col t) - 1 < length (row_at t (r - unat (start_row t) - 1))
    then (of_char (row_at t (r - unat (start_row t) - 1) ! (c - unat (start_col t) - 1)), snd (old r c)) else old r c)"
    using assms(1) rc unfolding rows_drawn_def Let_def by blast
  have new: "new r c = (if r = unat (start_row t) + 1 + n \<and> unat (start_col t) + 1 \<le> c \<and> c < unat (start_col t) + 1 + length (row_at t n)
    then (of_char (row_at t n ! (c - (unat (start_col t) + 1))), snd (mid r c)) else mid r c)"
    using assms(2) rc unfolding shows_text_def by blast
  show "new r c = (if unat (start_row t) < r \<and> unat (start_col t) < c \<and> r - unat (start_row t) - 1 < Suc n \<and>
      c - unat (start_col t) - 1 < length (row_at t (r - unat (start_row t) - 1))
    then (of_char (row_at t (r - unat (start_row t) - 1) ! (c - unat (start_col t) - 1)), snd (old r c)) else old r c)"
  proof (cases "r = unat (start_row t) + 1 + n")
    case True
    then have "r - unat (start_row t) - 1 = n" "unat (start_row t) < r" by auto
    then show ?thesis using new mid True by auto
  next
    case False
    then have "r - unat (start_row t) - 1 < Suc n \<longleftrightarrow> r - unat (start_row t) - 1 < n" if "unat (start_row t) < r" using that by auto
    then show ?thesis using new mid False by auto
  qed
qed

text \<open>
  \<open>_draw_txt\<close> shows the rows inside the box, one below the other, each in its own row of the screen, and
  changes no other cell. It shows the first rows that fit and never later ones: once the box is full, rows
  that are written afterwards do not appear.
\<close>

theorem draw_txt_shows:
  assumes ok: "area_ok t" and v: "length v = 4000"
    and box: "start_row t < end_row t" "end_row t < 25" "start_col t < end_col t" "end_col t < 80"
  shows "\<exists>v'. draw_txt t v = Ret v' \<and> length v' = 4000 \<and>
    rows_drawn t (min (unat (buf_tail t)) (unat (end_row t) - unat (start_row t) - 1)) (cells v) (cells v')"
proof -
  let ?h = "unat (end_row t) - unat (start_row t) - 1" and ?w = "unat (end_col t) - unat (start_col t) - 1"
  let ?n = "min (unat (buf_tail t)) ?h"
  have b: "unat (start_row t) < unat (end_row t)" "unat (end_row t) < 25" "unat (start_col t) < unat (end_col t)" "unat (end_col t) < 80"
    using box by (simp_all add: word_less_nat_alt)
  have h: "unat (panel_text_height t) = ?h" "unat (panel_text_width t) = ?w"
    using b by (simp_all add: panel_text_height_def panel_text_width_def unat_u64_sub)
  have st: "unat (txt_start_col t) = unat (start_col t) + 1" using b by (simp add: txt_start_col_def unat_u64_add)
  note tot = area_total [OF ok]
  have cnt: "unat (if write_cnt t < panel_text_height t then write_cnt t else panel_text_height t) = ?n"
    using ok h by (auto simp: area_ok_def word_less_nat_alt)
  define P where "P i u \<longleftrightarrow> length u = 4000 \<and> rows_drawn t i (cells v) (cells u)" for i u
  have "\<exists>v'. count_loop 0 ?n (draw_row t) v = Ret v' \<and> P (0 + ?n) v'"
  proof (rule count_loop_total)
    show "P 0 v" using v by (simp add: P_def rows_drawn_def)
    show "\<exists>u'. draw_row t i u = Ret u' \<and> P (Suc i) u'" if i: "i < 0 + ?n" "P i u" for i u
    proof -
      have il: "i < unat (buf_tail t)" "i < ?h" using i(1) by auto
      then have ic: "i < rows_cap t" using ok by (simp add: area_ok_def)
      have ui: "unat (of_nat i :: u64) = i" using ic tot(4) by (simp add: unat_of_nat)
      have hd: "window_head t = 0" "length (tbuf t) = 1048576" "length (row_lens t) = 1048576" using ok by (auto simp: area_ok_def)
      have off: "buf_row_offs t (of_nat i + window_head t) = Ret (panel_text_width t * of_nat i)"
        using tot(1,2) ic ui hd(1) by (simp add: buf_row_offs_def word_less_nat_alt)
      have uoff: "unat (panel_text_width t * of_nat i) = unat (panel_text_width t) * i" by (rule tot(6) [OF ic])
      have get: "buf_get (row_lens t) (of_nat i + window_head t) = Ret (row_lens t ! i)" using ui hd ic tot(4) by simp
      have sl: "unat (row_lens t ! i) < ?w" using ok il(1) h(2) by (auto simp: area_ok_def word_less_nat_alt)
      have "Suc i * unat (panel_text_width t) \<le> rows_cap t * unat (panel_text_width t)" using ic by (intro mult_le_mono1) simp
      then have fit: "unat (panel_text_width t) * i + ?w \<le> 1048576" using tot(3) h(2) by (simp add: mult.commute)
      have row: "unat (txt_start_row t + of_nat i) = unat (start_row t) + 1 + i"
        using il(2) b ui by (simp add: txt_start_row_def unat_u64_add)
      then have rlt: "txt_start_row t + of_nat i < 25" using il(2) b by (simp add: word_less_nat_alt)
      have at: "take (unat (row_lens t ! i)) (drop (unat (panel_text_width t) * i) (tbuf t)) = row_at t i" by (simp add: row_at_def)
      have len: "length u = 4000" using i(2) by (simp add: P_def)
      have c1: "unat (txt_start_col t) + unat (row_lens t ! i) < 80" using st sl b by simp
      have c2: "unat (row_lens t ! i) \<le> length (drop (unat (panel_text_width t) * i) (tbuf t))"
        unfolding length_drop hd(2) using fit sl by linarith
      obtain u' where u': "panel_write_str_len (drop (unat (panel_text_width t) * i) (tbuf t)) (row_lens t ! i) (txt_start_row t + of_nat i) (txt_start_col t) u = Ret u'"
        "length u' = 4000" "shows_text (cells u) (cells u') (unat (start_row t) + 1 + i) (unat (start_col t) + 1) (row_at t i)"
        using panel_write_str_len_shows [of u "txt_start_row t + of_nat i" "txt_start_col t" "row_lens t ! i" "drop (unat (panel_text_width t) * i) (tbuf t)"]
          len rlt c1 c2 unfolding row at st by auto
      then have "draw_row t i u = Ret u'" "P (Suc i) u'"
        using off get uoff rows_drawn_Suc [of t i "cells v" "cells u" "cells u'"] i(2) by (simp_all add: draw_row_def P_def)
      then show ?thesis by blast
    qed
  qed
  then show ?thesis using cnt by (auto simp: draw_txt_def P_def Let_def)
qed

theorem draw_txt_shows_witness:
  "\<exists>v'. draw_txt sample_area (replicate 4000 7) = Ret v' \<and> length v' = 4000"
  using draw_txt_shows [OF sample_area_init(2), of "replicate 4000 7"] by (simp add: sample_area_def) blast

end
