(* ===== verification/Mm_Boot_Elf.thy ===== *)
theory Mm_Boot_Elf
  imports Mm_Boot Mm_Sample
begin

text \<open>
  The bounds of the kernel image, as \<open>mm.c\<close> computes them from the ELF section headers the boot loader
  hands over.
\<close>

text \<open>The loaded sections among the first \<open>n\<close>: address and size of those whose type is not 0.\<close>

definition elf_field :: "nat \<Rightarrow> u8 list \<Rightarrow> nat \<Rightarrow> u64" where
  "elf_field k info off = le_value (take k (drop off info))"

definition elf_loaded :: "u8 list \<Rightarrow> nat \<Rightarrow> nat \<Rightarrow> (u64 \<times> u64) list" where
  "elf_loaded info sec_size n =
     map (\<lambda>i. (elf_field 8 info (12 + i * sec_size + 16), elf_field 8 info (12 + i * sec_size + 32)))
       (filter (\<lambda>i. elf_field 4 info (12 + i * sec_size + 4) \<noteq> 0) [0..<n])"

definition elf_start :: "(u64 \<times> u64) list \<Rightarrow> u64" where
  "elf_start secs = foldl (\<lambda>a (addr, sz). min a addr) 0xFFFFFFFFFFFFFFFF secs"

definition elf_end :: "(u64 \<times> u64) list \<Rightarrow> u64" where
  "elf_end secs = foldl (\<lambda>a (addr, sz). max a (addr + sz)) 0 secs"

lemma elf_start_le: "(addr, sz) \<in> set secs \<Longrightarrow> elf_start secs \<le> addr" "elf_start secs = 0xFFFFFFFFFFFFFFFF \<or> elf_start secs \<in> fst ` set secs"
proof (induction secs rule: rev_induct)
  case (snoc x secs)
  { case 1
    then show ?case using snoc.IH(1) by (cases x) (auto simp: elf_start_def min_def)
  next
    case 2
    then show ?case using snoc.IH(2) by (cases x) (auto simp: elf_start_def min_def)
  }
qed (auto simp: elf_start_def)

lemma elf_end_ge: "(addr, sz) \<in> set secs \<Longrightarrow> addr + sz \<le> elf_end secs" "elf_end secs = 0 \<or> (\<exists>(addr, sz) \<in> set secs. elf_end secs = addr + sz)"
proof (induction secs rule: rev_induct)
  case (snoc x secs)
  { case 1
    then show ?case using snoc.IH(1) by (cases x) (auto simp: elf_end_def max_def)
  next
    case 2
    then show ?case using snoc.IH(2) by (cases x) (auto simp: elf_end_def max_def)
  }
qed (auto simp: elf_end_def)

lemma ld_field: "unat off + k \<le> length info \<Longrightarrow> ld_bytes k info off = Ret (elf_field k info (unat off))"
  by (simp add: ld_bytes_def elf_field_def inbounds_def)

lemma elf_loaded_Suc:
  "elf_loaded info sz (Suc n) = elf_loaded info sz n @
     (if elf_field 4 info (12 + n * sz + 4) \<noteq> 0 then [(elf_field 8 info (12 + n * sz + 16), elf_field 8 info (12 + n * sz + 32))] else [])"
  by (simp add: elf_loaded_def)

text \<open>The loop over the section headers computes the hull.\<close>

lemma elf_loop_hull:
  fixes cnt sec_size :: u64
  assumes "40 \<le> sec_size" "12 + unat cnt * unat sec_size \<le> length info" "length info < 2 ^ 64"
  shows "count_loop 0 (unat cnt) (elf_entry info sec_size) (0xFFFFFFFFFFFFFFFF, 0) =
    Ret (elf_start (elf_loaded info (unat sec_size) (unat cnt)), elf_end (elf_loaded info (unat sec_size) (unat cnt)))"
proof -
  let ?z = "unat sec_size"
  have z: "40 \<le> ?z" using assms(1) by (simp add: word_le_nat_alt)
  define P where "P n p \<longleftrightarrow> p = (elf_start (elf_loaded info ?z n), elf_end (elf_loaded info ?z n))" for n p
  have "\<exists>p. count_loop 0 (unat cnt) (elf_entry info sec_size) (0xFFFFFFFFFFFFFFFF, 0) = Ret p \<and> P (0 + unat cnt) p"
  proof (rule count_loop_total)
    show "P 0 (0xFFFFFFFFFFFFFFFF, 0)" by (simp add: P_def elf_loaded_def elf_start_def elf_end_def)
    show "\<exists>p'. elf_entry info sec_size i p = Ret p' \<and> P (Suc i) p'" if i: "i < 0 + unat cnt" "P i p" for i p
    proof -
      have "Suc i * ?z \<le> unat cnt * ?z" using i(1) by (intro mult_le_mono1) simp
      then have r: "12 + i * ?z + 40 \<le> length info" using assms(2) z by simp
      have iz: "unat (of_nat i :: u64) = i" using i(1) less_trans [OF _ unat_u64_bound [of cnt], of i] by (simp add: unat_of_nat)
      have u: "unat (of_nat i * sec_size) = i * ?z" using r assms(3) iz by (subst unat_u64_mult) auto
      have o: "unat (12 + of_nat i * sec_size + k) = 12 + i * ?z + unat k" if "unat k \<le> 40" for k :: u64
      proof -
        have "unat (12 + of_nat i * sec_size :: u64) = 12 + i * ?z" using u r assms(3) by (subst unat_u64_add) auto
        then show ?thesis using that r assms(3) by (subst unat_u64_add) auto
      qed
      have "ld_u32 info (12 + of_nat i * sec_size + 4) = Ret (elf_field 4 info (12 + i * ?z + 4))"
        "ld_u64 info (12 + of_nat i * sec_size + 16) = Ret (elf_field 8 info (12 + i * ?z + 16))"
        "ld_u64 info (12 + of_nat i * sec_size + 32) = Ret (elf_field 8 info (12 + i * ?z + 32))"
        using o [of 4] o [of 16] o [of 32] r by (simp_all add: ld_field)
      then show ?thesis using i(2) unfolding P_def elf_loaded_Suc
        by (auto simp: elf_entry_def Let_def elf_start_def elf_end_def min_def max_def add.commute)
    qed
  qed
  then show ?thesis by (simp add: P_def)
qed

text \<open>
  \<open>_bootstrap_kernel_elf_symbols\<close> computes the hull of the loaded sections: with all section headers
  inside the table it was given, the start is the least address and the end the greatest end of a section
  whose type is not 0, and the call returns them exactly when the hull is below 1 GB, contains the
  bootstrap code and is backed by physical memory; otherwise an assertion fails.
\<close>

theorem bootstrap_kernel_elf_symbols_hull:
  assumes "ld_u32 info 0 = Ret cnt" "ld_u32 info 4 = Ret sec_size" "40 \<le> sec_size"
    and "12 + unat cnt * unat sec_size \<le> length info" "length info < 2 ^ 64"
  defines "secs \<equiv> elf_loaded info (unat sec_size) (unat cnt)"
  shows "bootstrap_kernel_elf_symbols fn info s =
    (if elf_end secs - elf_start secs < 0x40000000 \<and> elf_start secs < fn \<and> fn < elf_end secs \<and>
        mm_pa_range_valid (elf_start secs) (elf_end secs) s
     then Ret (elf_start secs, elf_end secs) else Stop AssertFail)"
  using assms(1,2) elf_loop_hull [OF assms(3-5)] by (simp add: secs_def bootstrap_kernel_elf_symbols_def kassert_def)

text \<open>A table with one loaded section of 1 MB at 2 MB and one section of type 0.\<close>

definition sample_elf :: "u8 list" where
  "sample_elf = [2,0,0,0, 40,0,0,0, 0,0,0,0,
     0,0,0,0, 1,0,0,0, 0,0,0,0,0,0,0,0, 0,0,32,0,0,0,0,0, 0,0,0,0,0,0,0,0, 0,0,16,0,0,0,0,0,
     0,0,0,0, 0,0,0,0, 0,0,0,0,0,0,0,0, 0,0,0,0,0,0,0,0, 0,0,0,0,0,0,0,0, 0,0,0,0,0,0,0,0]"

theorem bootstrap_kernel_elf_symbols_hull_witness:
  "bootstrap_kernel_elf_symbols 0x250000 sample_elf (sample_empty\<lparr>phy_mem_secs := [\<lparr>sec_base = 0x100000, sec_len = 0xF00000\<rparr>]\<rparr>) =
     Ret (0x200000, 0x300000)"
proof -
  have ld: "ld_u32 sample_elf 0 = Ret 2" "ld_u32 sample_elf 4 = Ret 40" "length sample_elf = 92"
    by (simp_all add: sample_elf_def ld_bytes_def inbounds_def le_value_def)
  have l: "elf_loaded sample_elf 40 2 = [(0x200000, 0x100000)]"
    by (simp add: elf_loaded_def elf_field_def sample_elf_def upt_rec le_value_def)
  show ?thesis
    using bootstrap_kernel_elf_symbols_hull [OF ld(1,2), of "0x250000" "sample_empty\<lparr>phy_mem_secs := [\<lparr>sec_base = 0x100000, sec_len = 0xF00000\<rparr>]\<rparr>"] ld(3) l
    by (simp add: elf_start_def elf_end_def mm_pa_range_valid_def)
qed

end
