(* ===== verification/Mem_Frame.thy ===== *)
theory Mem_Frame
  imports Mm_Boot_Elf
begin

text \<open>
  The memory manager of \<open>src/src/mem/\<close> that the kernel main boots with: \<open>mem.c\<close> and \<open>mem_frame.c\<close>. Its state
  are the static variables of the two files and of \<open>mem_page.c\<close>; addresses the linker chooses
  (\<open>_tab_4_bootstrap\<close>, \<open>_tab_4\<close>, \<open>_frame_pool_bootstrap\<close>, \<open>_pa_list_bootstrap_pool\<close>) are fields no operation
  changes. \<open>mem_pmem\<close> is physical memory by aligned 8-byte words, \<open>pa_words\<close> the 8-byte objects that live in
  the pool of address lists. Logging leaves the state alone and is not modelled here.
\<close>

record section_t =
  st_base :: u64
  st_len :: u64

record mem_state =
  mem_pmem :: "u64 \<Rightarrow> u64"
  mem_cr3 :: u64
  tab_4_bootstrap :: u64
  mem_tab_4 :: u64
  frame_pool_bootstrap :: u64
  pa_list_bootstrap_pool :: u64
  boot_stage :: nat
  sections :: "section_t list"
  pmem_size :: u64
  kern_start_pa :: u64
  kern_end_pa :: u64
  frame_count_bootstrap :: u64
  pa_list_bootstrap_next :: u64
  pa_words :: "u64 \<Rightarrow> u64"
  frame_map :: u64
  frame_map_cap :: u64

text \<open>The stages as the enumeration gives them: the third has the value of the second.\<close>

definition MEM_BOOTSTRAP_STAGE_0 :: nat where "MEM_BOOTSTRAP_STAGE_0 = 0"
definition MEM_BOOTSTRAP_STAGE_1 :: nat where "MEM_BOOTSTRAP_STAGE_1 = 1"
definition MEM_BOOTSTRAP_STAGE_2 :: nat where "MEM_BOOTSTRAP_STAGE_2 = 2"
definition MEM_BOOTSTRAP_STAGE_3 :: nat where "MEM_BOOTSTRAP_STAGE_3 = 2"
definition MEM_BOOTSTRAP_STAGE_FINISH :: nat where "MEM_BOOTSTRAP_STAGE_FINISH = 99"

lemmas mem_stage_defs = MEM_BOOTSTRAP_STAGE_0_def MEM_BOOTSTRAP_STAGE_1_def MEM_BOOTSTRAP_STAGE_2_def
  MEM_BOOTSTRAP_STAGE_3_def MEM_BOOTSTRAP_STAGE_FINISH_def

definition SECTION_CAP :: nat where "SECTION_CAP = 32"
definition FRAME_CAP_BOOTSTRAP :: u64 where "FRAME_CAP_BOOTSTRAP = 16 * 1024"
definition PA_LIST_CAP_BOOTSTRAP :: u64 where "PA_LIST_CAP_BOOTSTRAP = 1024"

subsection \<open>Alignment and clearing\<close>

definition mem_align_check :: "u64 \<Rightarrow> u64 \<Rightarrow> bool res" where
  "mem_align_check p align = (if align = 0 then Stop DivByZero else Ret (p mod align = 0))"

definition mem_align_up :: "u64 \<Rightarrow> u64 \<Rightarrow> u64 res" where
  "mem_align_up p align =
     (let a = align - 1 in
      kassert (align > 0) (kassert (util_math_is_pow2 align) (Ret ((p + a) AND NOT a))))"

definition mem_align_down :: "u64 \<Rightarrow> u64 \<Rightarrow> u64 res" where
  "mem_align_down p align =
     (let a = align - 1 in
      kassert (align > 0) (kassert (util_math_is_pow2 align) (Ret (p AND NOT a))))"

fun mem_clean_loop :: "nat \<Rightarrow> nat \<Rightarrow> u64 \<Rightarrow> memory \<Rightarrow> memory" where
  "mem_clean_loop i 0 mem m = m"
| "mem_clean_loop i (Suc n) mem m = mem_clean_loop (Suc i) n mem (m(mem + of_nat i := 0))"

definition mem_clean :: "u64 \<Rightarrow> u64 \<Rightarrow> memory \<Rightarrow> memory res" where
  "mem_clean mem sz m = kassert (sz > 0) (Ret (mem_clean_loop 0 (unat sz) mem m))"

abbreviation mem_aligned :: "u64 \<Rightarrow> u64 \<Rightarrow> 'a res \<Rightarrow> 'a res" where
  "mem_aligned p align k \<equiv> rbind (mem_align_check p align) (\<lambda>ok. kassert ok k)"

lemma mem_aligned_4K [simp]: "mem_aligned p PAGE_SIZE_4K k = kassert (p mod 4096 = 0) k"
  by (simp add: mem_align_check_def PAGE_SIZE_4K_def)

lemma mem_aligned_2M [simp]: "mem_aligned p PAGE_SIZE_2M k = kassert (p mod 2097152 = 0) k"
  by (simp add: mem_align_check_def PAGE_SIZE_2M_def)

text \<open>The alignment functions are those of \<open>mm.c\<close>, so what is proved there holds here.\<close>

lemma mem_align_same: "mem_align_check = mm_align_check" "mem_align_up = mm_align_up" "mem_align_down = mm_align_down"
  by (simp_all add: fun_eq_iff mem_align_check_def mm_align_check_def mem_align_up_def mm_align_up_def mem_align_down_def
      mm_align_down_def util_math_is_pow2_def math_is_pow2_def)

lemma mem_clean_loop_zeroes:
  "mem_clean_loop i n mem m a = (if \<exists>k<n. a = mem + of_nat (i + k) then 0 else m a)"
proof (induction n arbitrary: i m)
  case (Suc n)
  have "(\<exists>k<Suc n. a = mem + of_nat (i + k)) \<longleftrightarrow> a = mem + of_nat i \<or> (\<exists>k<n. a = mem + of_nat (Suc i + k))"
    by (simp add: Ex_less_Suc2 del: of_nat_add of_nat_Suc)
  then show ?case unfolding mem_clean_loop.simps Suc.IH by (auto simp del: of_nat_add of_nat_Suc)
qed simp

subsection \<open>The first stage\<close>

text \<open>One entry of the memory map; the list is what is left of the map from \<open>ptr\<close> on.\<close>

definition mem_mmap_entry :: "u8 list \<Rightarrow> mem_state \<Rightarrow> mem_state res" where
  "mem_mmap_entry ptr s =
     rbind (ld_u64 ptr 0) (\<lambda>base.
     rbind (ld_u64 ptr 8) (\<lambda>len.
     rbind (ld_u32 ptr 16) (\<lambda>type.
     rbind (ld_u32 ptr 20) (\<lambda>reserve.
       if type \<noteq> 1 then Ret s
       else
         kassert (length (sections s) < SECTION_CAP)
         (mem_aligned base PAGE_SIZE_4K
         (kassert (sections s = [] \<or> base > st_base (last (sections s)) + st_len (last (sections s)))
           (Ret (s\<lparr>sections := sections s @ [\<lparr>st_base = base, st_len = len\<rparr>], pmem_size := pmem_size s + len\<rparr>))))))))"

fun mem_mmap_loop :: "nat \<Rightarrow> u8 list \<Rightarrow> mem_state \<Rightarrow> mem_state res" where
  "mem_mmap_loop 0 ptr s = Ret s"
| "mem_mmap_loop (Suc n) ptr s = rbind (mem_mmap_entry ptr s) (mem_mmap_loop n (drop 24 ptr))"

definition mem_bootstrap_mmap_info :: "u8 list \<Rightarrow> u64 \<Rightarrow> mem_state \<Rightarrow> mem_state res" where
  "mem_bootstrap_mmap_info ptr sz s =
     kassert (boot_stage s = MEM_BOOTSTRAP_STAGE_0)
     (rbind (ld_u32 ptr 0) (\<lambda>entry_size.
      rbind (ld_u32 ptr 4) (\<lambda>entry_ver.
      kassert (entry_ver = 0)
      (kassert (entry_size = 24)
      (kassert ((sz - 8) mod entry_size = 0)
        (let entry_cnt = (sz - 8) div entry_size in
         mem_mmap_loop (unat entry_cnt) (drop 8 ptr) (s\<lparr>sections := [], pmem_size := 0\<rparr>)))))))"

fun mem_range_loop :: "section_t list \<Rightarrow> u64 \<Rightarrow> u64 \<Rightarrow> bool" where
  "mem_range_loop [] start fin = False"
| "mem_range_loop (sec # secs) start fin =
     (let sec_start = st_base sec; sec_end = sec_start + st_len sec in
      if sec_start \<le> start \<and> sec_end > fin then True else mem_range_loop secs start fin)"

definition mem_pa_range_valid :: "u64 \<Rightarrow> u64 \<Rightarrow> mem_state \<Rightarrow> bool res" where
  "mem_pa_range_valid start fin s = kassert (sections s \<noteq> []) (Ret (mem_range_loop (sections s) start fin))"

text \<open>The fields of a section header are at the offsets 4 (type), 16 (address) and 32 (size).\<close>

definition mem_elf_entry :: "u8 list \<Rightarrow> u64 \<Rightarrow> nat \<Rightarrow> mem_state \<Rightarrow> mem_state res" where
  "mem_elf_entry info sec_size i s =
     (let off = 12 + of_nat i * sec_size in
      rbind (ld_u32 info (off + 4)) (\<lambda>type.
      if type \<noteq> 0 then
        rbind (ld_u64 info (off + 16)) (\<lambda>addr.
        rbind (ld_u64 info (off + 32)) (\<lambda>sz.
          let s = (if addr < kern_start_pa s then s\<lparr>kern_start_pa := addr\<rparr> else s) in
          Ret (if sz + addr > kern_end_pa s then s\<lparr>kern_end_pa := sz + addr\<rparr> else s)))
      else Ret s))"

definition mem_bootstrap_kernel_elf_symbols :: "u64 \<Rightarrow> u8 list \<Rightarrow> mem_state \<Rightarrow> mem_state res" where
  "mem_bootstrap_kernel_elf_symbols fn info s =
     kassert (boot_stage s = MEM_BOOTSTRAP_STAGE_0)
     (rbind (ld_u32 info 0) (\<lambda>sec_cnt.
      rbind (ld_u32 info 4) (\<lambda>sec_size.
      rbind (count_loop 0 (unat sec_cnt) (mem_elf_entry info sec_size) (s\<lparr>kern_start_pa := 0xFFFFFFFFFFFFFFFF, kern_end_pa := 0\<rparr>)) (\<lambda>s.
      kassert (kern_end_pa s - kern_start_pa s < 1024 * 1024 * 1024)
      (kassert (fn < kern_end_pa s)
      (kassert (fn > kern_start_pa s)
      (rbind (mem_pa_range_valid (kern_start_pa s) (kern_end_pa s) s) (\<lambda>valid.
       kassert valid (Ret s)))))))))"

definition mem_frame_bootstrap_1 :: "u64 \<Rightarrow> u8 list \<Rightarrow> u8 list \<Rightarrow> u64 \<Rightarrow> mem_state \<Rightarrow> mem_state res" where
  "mem_frame_bootstrap_1 fn mb_elf mb_mmap mb_mmap_len s =
     kassert (boot_stage s = MEM_BOOTSTRAP_STAGE_0)
     (rbind (mem_bootstrap_mmap_info mb_mmap mb_mmap_len
         (s\<lparr>frame_count_bootstrap := 0, pa_list_bootstrap_next := pa_list_bootstrap_pool s\<rparr>)) (\<lambda>s.
      mem_bootstrap_kernel_elf_symbols fn mb_elf s))"

definition mem_frame_alloc :: "mem_state \<Rightarrow> (u64 option \<times> mem_state) res" where
  "mem_frame_alloc s =
     kassert (boot_stage s < MEM_BOOTSTRAP_STAGE_FINISH)
       (if frame_count_bootstrap s < FRAME_CAP_BOOTSTRAP then
          let out_frame = frame_pool_bootstrap s + frame_count_bootstrap s * PAGE_SIZE_4K in
          Ret (Some out_frame, s\<lparr>frame_count_bootstrap := frame_count_bootstrap s + 1\<rparr>)
        else Ret (None, s))"

definition mem_pa_start :: "mem_state \<Rightarrow> u64 res" where
  "mem_pa_start s = kassert (sections s \<noteq> []) (Ret (st_base (hd (sections s))))"

definition mem_pa_end :: "mem_state \<Rightarrow> u64 res" where
  "mem_pa_end s = kassert (sections s \<noteq> []) (Ret (st_base (last (sections s)) + st_len (last (sections s))))"

definition mem_pa_ker_start :: "mem_state \<Rightarrow> u64" where
  "mem_pa_ker_start s = kern_start_pa s"

definition mem_pa_ker_end :: "mem_state \<Rightarrow> u64" where
  "mem_pa_ker_end s = kern_end_pa s"

subsection \<open>The second stage\<close>

definition pa_range_overlaps :: "u64 \<Rightarrow> u64 \<Rightarrow> u64 \<Rightarrow> u64 \<Rightarrow> bool" where
  "pa_range_overlaps a1 len1 a2 len2 =
     (let result = (a1 + len1 < a2 \<or> a2 + len2 < a1) in \<not> result)"

fun overlaps_cfg_loop :: "nat \<Rightarrow> nat \<Rightarrow> u64 \<Rightarrow> u64 \<Rightarrow> pcie_state \<Rightarrow> bool res" where
  "overlaps_cfg_loop i 0 pa len pst = Ret False"
| "overlaps_cfg_loop i (Suc n) pa len pst =
     rbind (d_pcie_group_get_cfg_pa pst (of_nat i)) (\<lambda>cfg_start.
     if pa_range_overlaps pa len cfg_start d_pcie_group_get_cfg_len then Ret True
     else overlaps_cfg_loop (Suc i) n pa len pst)"

definition pa_overlaps_pcie_cfg_space :: "pcie_state \<Rightarrow> u64 \<Rightarrow> u64 \<Rightarrow> bool res" where
  "pa_overlaps_pcie_cfg_space pst pa len = overlaps_cfg_loop 0 (unat (d_pcie_group_get_cnt pst)) pa len pst"

definition pa_overlaps_vesa_frame_buffer :: "vesa_state \<Rightarrow> u64 \<Rightarrow> u64 \<Rightarrow> bool" where
  "pa_overlaps_vesa_frame_buffer v pa len =
     pa_range_overlaps pa len (d_vesa_get_frame_buffer v) (d_vesa_get_frame_buffer_len v)"

text \<open>The checks on a section above 8 MB, which both loops of \<open>mem_frame_bootstrap_2\<close> make.\<close>

definition section_checks :: "pcie_state \<Rightarrow> vesa_state \<Rightarrow> section_t \<Rightarrow> 'a res \<Rightarrow> 'a res" where
  "section_checks pst v sec k =
     rbind (pa_overlaps_pcie_cfg_space pst (st_base sec) (st_len sec)) (\<lambda>cfg.
     kassert (\<not> cfg) (kassert (\<not> pa_overlaps_vesa_frame_buffer v (st_base sec) (st_len sec)) k))"

fun pa_len_loop :: "pcie_state \<Rightarrow> vesa_state \<Rightarrow> section_t list \<Rightarrow> u64 \<Rightarrow> u64 res" where
  "pa_len_loop pst v [] pa_len = Ret pa_len"
| "pa_len_loop pst v (sec # secs) pa_len =
     (if st_len sec > 8 * 1024 * 1024 then section_checks pst v sec (pa_len_loop pst v secs (pa_len + st_len sec))
      else pa_len_loop pst v secs pa_len)"

fun place_map_loop :: "pcie_state \<Rightarrow> vesa_state \<Rightarrow> u64 \<Rightarrow> section_t list \<Rightarrow> mem_state \<Rightarrow> mem_state res" where
  "place_map_loop pst v map_page_cnt [] s = Ret s"
| "place_map_loop pst v map_page_cnt (sec # secs) s =
     (if st_len sec > 8 * 1024 * 1024 then
        section_checks pst v sec
          (rbind (if frame_map s = 0 then
                    rbind (mem_align_up (st_base sec + PAGE_SIZE_4K) PAGE_SIZE_4K) (\<lambda>fm.
                    let s = s\<lparr>frame_map := fm\<rparr>;
                        map_end = frame_map s + map_page_cnt * PAGE_SIZE_4K;
                        sec_end = st_base sec + st_len sec in
                    kassert (map_end < sec_end) (Ret s))
                  else Ret s) (place_map_loop pst v map_page_cnt secs))
      else place_map_loop pst v map_page_cnt secs s)"

definition mem_frame_bootstrap_2 :: "pcie_state \<Rightarrow> vesa_state \<Rightarrow> mem_state \<Rightarrow> mem_state res" where
  "mem_frame_bootstrap_2 pst v s =
     rbind (pa_len_loop pst v (sections s) 0) (\<lambda>pa_len.
     let s = s\<lparr>frame_map_cap := pa_len div PAGE_SIZE_4K * 2\<rparr>;
         map_page_cnt = frame_map_cap s * 8 div PAGE_SIZE_4K;
         map_page_cnt = map_page_cnt + 2;
         s = s\<lparr>frame_map_cap := map_page_cnt * PAGE_SIZE_4K div 8, frame_map := 0\<rparr> in
     place_map_loop pst v map_page_cnt (sections s) s)"

subsection \<open>Lists of physical ranges\<close>

text \<open>
  A \<open>pa_list_t\<close> is a pointer into the pool: the number of ranges at 0, and at 8 and 16 the pointers to the
  arrays of start addresses and of page counts.
\<close>

definition sizeof_pa_list :: u64 where "sizeof_pa_list = 24"

definition pa_put :: "u64 \<Rightarrow> u64 \<Rightarrow> mem_state \<Rightarrow> mem_state" where
  "pa_put a x s = s\<lparr>pa_words := (pa_words s)(a := x)\<rparr>"

abbreviation pa_n :: "u64 \<Rightarrow> mem_state \<Rightarrow> u64" where
  "pa_n list s \<equiv> pa_words s list"

abbreviation pa_cell :: "u64 \<Rightarrow> u64 \<Rightarrow> mem_state \<Rightarrow> u64" where
  "pa_cell list i s \<equiv> pa_words s (list + 8) + 8 * i"

abbreviation n_pg_cell :: "u64 \<Rightarrow> u64 \<Rightarrow> mem_state \<Rightarrow> u64" where
  "n_pg_cell list i s \<equiv> pa_words s (list + 16) + 8 * i"

definition pa_list_new_bootstrap :: "u64 \<Rightarrow> mem_state \<Rightarrow> (u64 \<times> mem_state) res" where
  "pa_list_new_bootstrap n_range s =
     (let fin = pa_list_bootstrap_pool s + PA_LIST_CAP_BOOTSTRAP in
      kassert (boot_stage s < MEM_BOOTSTRAP_STAGE_FINISH)
      (kassert (pa_list_bootstrap_next s < fin)
        (let res = pa_list_bootstrap_next s;
             s = s\<lparr>pa_list_bootstrap_next := pa_list_bootstrap_next s + sizeof_pa_list\<rparr> in
         kassert (pa_list_bootstrap_next s \<le> fin)
           (let s = pa_put res n_range s;
                s = pa_put (res + 8) (pa_list_bootstrap_next s) s;
                s = s\<lparr>pa_list_bootstrap_next := pa_list_bootstrap_next s + 8 * n_range\<rparr> in
            kassert (pa_list_bootstrap_next s \<le> fin)
              (let s = pa_put (res + 16) (pa_list_bootstrap_next s) s;
                   s = s\<lparr>pa_list_bootstrap_next := pa_list_bootstrap_next s + 8 * n_range\<rparr> in
               kassert (pa_list_bootstrap_next s \<le> fin) (Ret (res, s)))))))"

definition pa_list_free_bootstrap :: "u64 \<Rightarrow> mem_state \<Rightarrow> mem_state" where
  "pa_list_free_bootstrap list s = s"

definition pa_list_set_range :: "u64 \<Rightarrow> u64 \<Rightarrow> u64 \<Rightarrow> u64 \<Rightarrow> mem_state \<Rightarrow> mem_state res" where
  "pa_list_set_range list rng pa n_pg s =
     kassert (rng < pa_n list s)
     (mem_aligned pa PAGE_SIZE_4K
       (let s = pa_put (pa_cell list rng s) pa s in
        Ret (pa_put (n_pg_cell list rng s) n_pg s)))"

definition pa_list_n_page :: "u64 \<Rightarrow> mem_state \<Rightarrow> u64" where
  "pa_list_n_page list s = fold (\<lambda>i n_page. n_page + pa_words s (n_pg_cell list (of_nat i) s)) [0..<unat (pa_n list s)] 0"

definition pa_list_n_range :: "u64 \<Rightarrow> mem_state \<Rightarrow> u64 res" where
  "pa_list_n_range list s = kassert (pa_n list s > 0) (Ret (pa_n list s))"

definition pa_list_range_n_page :: "u64 \<Rightarrow> u64 \<Rightarrow> mem_state \<Rightarrow> u64 res" where
  "pa_list_range_n_page list range_idx s =
     kassert (range_idx < pa_n list s) (Ret (pa_words s (n_pg_cell list range_idx s)))"

definition pa_list_range_pa :: "u64 \<Rightarrow> u64 \<Rightarrow> mem_state \<Rightarrow> u64 res" where
  "pa_list_range_pa list range_idx s =
     kassert (range_idx < pa_n list s)
     (mem_aligned (pa_words s (pa_cell list range_idx s)) PAGE_SIZE_4K (Ret (pa_words s (pa_cell list range_idx s))))"

subsection \<open>What the first stage records\<close>

text \<open>
  The comparison the code makes between a section and the one before it: the end is computed on 64 bits, so it
  says that the sections are apart only if no end wraps.
\<close>

fun sections_checked :: "section_t list \<Rightarrow> bool" where
  "sections_checked (x # y # zs) \<longleftrightarrow> st_base x + st_len x < st_base y \<and> sections_checked (y # zs)"
| "sections_checked _ \<longleftrightarrow> True"

lemma sections_checked_snoc:
  "sections_checked (xs @ [y]) \<longleftrightarrow> sections_checked xs \<and> (xs = [] \<or> st_base (last xs) + st_len (last xs) < st_base y)"
  by (induction xs rule: sections_checked.induct) auto

definition ends_fit :: "section_t list \<Rightarrow> bool" where
  "ends_fit secs \<longleftrightarrow> (\<forall>sec \<in> set secs. unat (st_base sec) + unat (st_len sec) < 2 ^ 64)"

definition sections_apart :: "section_t list \<Rightarrow> bool" where
  "sections_apart secs \<longleftrightarrow> sorted_wrt (\<lambda>x y. unat (st_base x) + unat (st_len x) < unat (st_base y)) secs"

lemma checked_apart: "sections_checked secs \<Longrightarrow> ends_fit secs \<Longrightarrow> sections_apart secs"
proof (induction secs rule: sections_checked.induct)
  case (1 x y zs)
  have e: "unat (st_base x) + unat (st_len x) < unat (st_base y)"
    using 1(2,3) unat_u64_add [of "st_base x" "st_len x"] by (simp add: ends_fit_def word_less_nat_alt)
  moreover have "sections_apart (y # zs)" using 1 by (simp add: ends_fit_def)
  ultimately show ?case unfolding sections_apart_def sorted_wrt.simps(2) by auto
qed (simp_all add: sections_apart_def)

text \<open>What is apart adds up without wrapping.\<close>

lemma apart_sum:
  assumes "sections_apart secs" "ends_fit secs" "secs \<noteq> []"
  shows "unat (st_base (hd secs)) + (\<Sum>sec\<leftarrow>secs. unat (st_len sec)) < 2 ^ 64"
  using assms
proof (induction secs)
  case (Cons x ys)
  show ?case
  proof (cases "ys = []")
    case True
    then show ?thesis using Cons.prems(2) by (simp add: ends_fit_def)
  next
    case False
    then have "hd ys \<in> set ys" by simp
    then have "unat (st_base x) + unat (st_len x) < unat (st_base (hd ys))" "sections_apart ys" "ends_fit ys"
      using Cons.prems by (auto simp: sections_apart_def ends_fit_def)
    then show ?thesis using Cons.IH False by simp
  qed
qed simp

lemma unat_sum_list: "(\<Sum>x\<leftarrow>xs. unat (f x)) < 2 ^ 64 \<Longrightarrow> unat (sum_list (map f xs) :: u64) = (\<Sum>x\<leftarrow>xs. unat (f x))"
  by (induction xs) (simp_all add: unat_u64_add)

text \<open>Sections that overlap pass the comparison when an end wraps.\<close>

lemma overlap_checked:
  "sections_checked [\<lparr>st_base = 0x1000, st_len = - 0x1000\<rparr>, \<lparr>st_base = 0x1000, st_len = 0x2000\<rparr>]"
  by simp

definition sections_ok :: "mem_state \<Rightarrow> bool" where
  "sections_ok s \<longleftrightarrow> sections_checked (sections s) \<and> length (sections s) \<le> SECTION_CAP \<and>
     (\<forall>sec \<in> set (sections s). st_base sec mod 4096 = 0) \<and> pmem_size s = sum_list (map st_len (sections s))"

lemma mem_mmap_entry_keeps: "mem_mmap_entry ptr s = Ret s' \<Longrightarrow> sections_ok s \<Longrightarrow> sections_ok s'"
  by (auto simp: mem_mmap_entry_def sections_ok_def sections_checked_snoc split: if_splits del: mod_0_imp_dvd)

lemma mem_mmap_loop_keeps: "mem_mmap_loop n ptr s = Ret s' \<Longrightarrow> sections_ok s \<Longrightarrow> sections_ok s'"
  by (induction n arbitrary: ptr s) (auto dest: mem_mmap_entry_keeps)

text \<open>The first stage writes nothing but what it records.\<close>

definition unrecorded :: "mem_state \<Rightarrow> mem_state" where
  "unrecorded s = s\<lparr>sections := [], pmem_size := 0, kern_start_pa := 0, kern_end_pa := 0\<rparr>"

lemma unrecorded_fields:
  assumes "unrecorded s = unrecorded s'"
  shows "mem_pmem s = mem_pmem s'" "mem_cr3 s = mem_cr3 s'" "tab_4_bootstrap s = tab_4_bootstrap s'" "mem_tab_4 s = mem_tab_4 s'"
    "frame_pool_bootstrap s = frame_pool_bootstrap s'" "pa_list_bootstrap_pool s = pa_list_bootstrap_pool s'"
    "boot_stage s = boot_stage s'" "frame_count_bootstrap s = frame_count_bootstrap s'"
    "pa_list_bootstrap_next s = pa_list_bootstrap_next s'" "pa_words s = pa_words s'"
  using assms by (cases s; cases s'; simp add: unrecorded_def)+

lemma mem_mmap_loop_unrecorded: "mem_mmap_loop n ptr s = Ret s' \<Longrightarrow> unrecorded s' = unrecorded s"
proof (induction n arbitrary: ptr s)
  case (Suc n)
  then obtain s1 where s1: "mem_mmap_entry ptr s = Ret s1" "mem_mmap_loop n (drop 24 ptr) s1 = Ret s'" by auto
  have "unrecorded s1 = unrecorded s" using s1(1) by (auto simp: mem_mmap_entry_def unrecorded_def split: if_splits)
  then show ?case using Suc.IH [OF s1(2)] by simp
qed simp

lemma mem_range_loop_iff:
  "mem_range_loop secs start fin \<longleftrightarrow> (\<exists>sec \<in> set secs. st_base sec \<le> start \<and> fin < st_base sec + st_len sec)"
  by (induction secs) (auto simp: Let_def)

text \<open>The bounds of the image as a pair, which is the form \<open>mm.c\<close> has them in.\<close>

lemma mem_elf_loop_pair:
  "count_loop i n (mem_elf_entry info sz) s =
     rbind (count_loop i n (elf_entry info sz) (kern_start_pa s, kern_end_pa s)) (\<lambda>(a, b). Ret (s\<lparr>kern_start_pa := a, kern_end_pa := b\<rparr>))"
proof (induction n arbitrary: i s)
  case (Suc n)
  have one: "mem_elf_entry info sz i s =
      rbind (elf_entry info sz i (kern_start_pa s, kern_end_pa s)) (\<lambda>(a, b). Ret (s\<lparr>kern_start_pa := a, kern_end_pa := b\<rparr>))"
    by (auto simp: mem_elf_entry_def elf_entry_def Let_def rbind_def split: sum.splits)
  show ?case
    by (cases "elf_entry info sz i (kern_start_pa s, kern_end_pa s)") (auto simp: one Suc.IH)
qed simp

text \<open>
  C14: when \<open>mem_frame_bootstrap_1\<close> returns, the sections of memory are at most 32 and page aligned, each passed
  the comparison with the end of the one before, \<open>_pmem_size\<close> is the sum of their lengths modulo \<open>2^64\<close>, the
  bounds of the kernel are the hull of the loaded ELF sections and contain the bootstrap code, and no frame of
  the pool is in use. The code computes ends on 64 bits. If no end wraps, as the map of real firmware has it,
  the sections are in order and apart from one another, \<open>_pmem_size\<close> is exactly the sum of their lengths, and
  the kernel lies inside one section.
\<close>

theorem mem_frame_bootstrap_1_records:
  assumes "mem_frame_bootstrap_1 fn elf mmap len s = Ret s'"
    and "ld_u32 elf 0 = Ret cnt" "ld_u32 elf 4 = Ret sec_size" "40 \<le> sec_size"
    and "12 + unat cnt * unat sec_size \<le> length elf" "length elf < 2 ^ 64"
  shows "sections_ok s' \<and> frame_count_bootstrap s' = 0 \<and>
    kern_start_pa s' = elf_start (elf_loaded elf (unat sec_size) (unat cnt)) \<and>
    kern_end_pa s' = elf_end (elf_loaded elf (unat sec_size) (unat cnt)) \<and>
    kern_start_pa s' < fn \<and> fn < kern_end_pa s' \<and>
    (ends_fit (sections s') \<longrightarrow> sections_apart (sections s') \<and>
       unat (pmem_size s') = (\<Sum>sec\<leftarrow>sections s'. unat (st_len sec)) \<and>
       (\<exists>sec \<in> set (sections s'). unat (st_base sec) \<le> unat (kern_start_pa s') \<and>
          unat (kern_end_pa s') < unat (st_base sec) + unat (st_len sec)))"
proof -
  let ?s = "s\<lparr>frame_count_bootstrap := 0, pa_list_bootstrap_next := pa_list_bootstrap_pool s, sections := [], pmem_size := 0\<rparr>"
  let ?secs = "elf_loaded elf (unat sec_size) (unat cnt)"
  obtain n s1 where s1: "mem_mmap_loop n (drop 8 mmap) ?s = Ret s1" and elf: "mem_bootstrap_kernel_elf_symbols fn elf s1 = Ret s'"
    using assms(1) by (auto simp: mem_frame_bootstrap_1_def mem_bootstrap_mmap_info_def Let_def)
  have fin: "s' = s1\<lparr>kern_start_pa := elf_start ?secs, kern_end_pa := elf_end ?secs\<rparr>"
    "elf_start ?secs < fn" "fn < elf_end ?secs" "mem_range_loop (sections s1) (elf_start ?secs) (elf_end ?secs)"
    using elf assms(2,3) elf_loop_hull [OF assms(4-6)]
    by (simp_all add: mem_bootstrap_kernel_elf_symbols_def mem_elf_loop_pair mem_pa_range_valid_def)
  have "sections_ok s1" using mem_mmap_loop_keeps [OF s1] by (simp add: sections_ok_def)
  moreover have "frame_count_bootstrap s1 = 0" using unrecorded_fields(8) [OF mem_mmap_loop_unrecorded [OF s1]] by simp
  ultimately have ok: "sections_ok s'" "frame_count_bootstrap s' = 0" using fin(1) by (simp_all add: sections_ok_def)
  have "sections_apart (sections s') \<and> unat (pmem_size s') = (\<Sum>sec\<leftarrow>sections s'. unat (st_len sec)) \<and>
      (\<exists>sec \<in> set (sections s'). unat (st_base sec) \<le> unat (kern_start_pa s') \<and> unat (kern_end_pa s') < unat (st_base sec) + unat (st_len sec))"
    if fit: "ends_fit (sections s')"
  proof -
    obtain sec where sec: "sec \<in> set (sections s')" "st_base sec \<le> kern_start_pa s'" "kern_end_pa s' < st_base sec + st_len sec"
      using fin(1,4) by (auto simp: mem_range_loop_iff)
    have apart: "sections_apart (sections s')" using checked_apart [OF _ fit] ok(1) by (simp add: sections_ok_def)
    moreover have "unat (pmem_size s') = (\<Sum>sec\<leftarrow>sections s'. unat (st_len sec))"
    proof -
      have "sections s' \<noteq> []" using sec(1) by auto
      then have "(\<Sum>sec\<leftarrow>sections s'. unat (st_len sec)) < 2 ^ 64" using apart_sum [OF apart fit] by linarith
      then show ?thesis using ok(1) unat_sum_list [of st_len "sections s'"] by (simp add: sections_ok_def)
    qed
    moreover have "unat (st_base sec + st_len sec) = unat (st_base sec) + unat (st_len sec)"
      using fit sec(1) by (intro unat_u64_add) (auto simp: ends_fit_def)
    ultimately show ?thesis using sec by (auto simp: word_le_nat_alt word_less_nat_alt)
  qed
  then show ?thesis using ok fin by simp
qed

text \<open>A machine with 15 MB from 1 MB on and one more page after a gap, and a kernel of 1 MB at 2 MB.\<close>

definition sample_mem :: mem_state where
  "sample_mem = \<lparr>mem_pmem = (\<lambda>_. 0), mem_cr3 = 0, tab_4_bootstrap = 0x200000, mem_tab_4 = 0x201000, frame_pool_bootstrap = 0x210000,
     pa_list_bootstrap_pool = 0x202000, boot_stage = 0, sections = [], pmem_size = 0, kern_start_pa = 0, kern_end_pa = 0,
     frame_count_bootstrap = 0, pa_list_bootstrap_next = 0, pa_words = (\<lambda>_. 0), frame_map = 0, frame_map_cap = 0\<rparr>"

definition sample_mem_mmap :: "u8 list" where
  "sample_mem_mmap = [24,0,0,0, 0,0,0,0,
     0,0,0x10,0,0,0,0,0, 0,0,0xF0,0,0,0,0,0, 1,0,0,0, 0,0,0,0,
     0,0x10,0,1,0,0,0,0, 0,0x10,0,0,0,0,0,0, 1,0,0,0, 0,0,0,0]"

theorem mem_frame_bootstrap_1_records_witness:
  "\<exists>s'. mem_frame_bootstrap_1 0x250000 sample_elf sample_mem_mmap 56 sample_mem = Ret s' \<and> sections_apart (sections s') \<and> length (sections s') = 2 \<and>
     unat (pmem_size s') = 0xF01000 \<and> kern_end_pa s' = 0x300000"
proof -
  have ld: "ld_u32 sample_elf 0 = Ret 2" "ld_u32 sample_elf 4 = Ret 40" "length sample_elf = 92"
    by (simp_all add: sample_elf_def ld_bytes_def inbounds_def le_value_def)
  have l: "elf_loaded sample_elf 40 2 = [(0x200000, 0x100000)]"
    by (simp add: elf_loaded_def elf_field_def sample_elf_def upt_rec le_value_def)
  have hull: "count_loop 0 2 (elf_entry sample_elf 40) (0xFFFFFFFFFFFFFFFF, 0) = Ret (0x200000, 0x300000)"
    using elf_loop_hull [of 40 "2 :: u64" sample_elf] ld(3) l by (simp add: elf_start_def elf_end_def)
  let ?secs = "[\<lparr>st_base = 0x100000, st_len = 0xF00000\<rparr>, \<lparr>st_base = 0x1001000, st_len = 0x1000\<rparr>]"
  let ?s = "sample_mem\<lparr>frame_count_bootstrap := 0, pa_list_bootstrap_next := 0x202000\<rparr>"
  let ?s1 = "?s\<lparr>sections := ?secs, pmem_size := 0xF01000\<rparr>"
  have "mem_mmap_loop (Suc (Suc 0)) (drop 8 sample_mem_mmap) (?s\<lparr>sections := [], pmem_size := 0\<rparr>) = Ret ?s1"
    by (simp add: mem_mmap_entry_def SECTION_CAP_def sample_mem_mmap_def ld_bytes_def le_value_def inbounds_def)
  then have "mem_mmap_loop 2 (drop 8 sample_mem_mmap) (?s\<lparr>sections := [], pmem_size := 0\<rparr>) = Ret ?s1"
    unfolding numeral_2_eq_2 .
  moreover have "ld_u32 sample_mem_mmap 0 = Ret 24" "ld_u32 sample_mem_mmap 4 = Ret 0"
    by (simp_all add: sample_mem_mmap_def ld_bytes_def le_value_def inbounds_def)
  ultimately have "mem_bootstrap_mmap_info sample_mem_mmap 56 ?s = Ret ?s1"
    by (simp add: mem_bootstrap_mmap_info_def sample_mem_def mem_stage_defs del: mem_mmap_loop.simps)
  then have "mem_frame_bootstrap_1 0x250000 sample_elf sample_mem_mmap 56 sample_mem =
      Ret (?s1\<lparr>kern_start_pa := 0x200000, kern_end_pa := 0x300000\<rparr>)" (is "_ = Ret ?s'")
    using hull ld
    by (simp add: mem_frame_bootstrap_1_def mem_bootstrap_kernel_elf_symbols_def mem_elf_loop_pair mem_pa_range_valid_def
        mem_stage_defs sample_mem_def)
  moreover from mem_frame_bootstrap_1_records [OF this ld(1,2)] ld(3) l
  have "sections_apart (sections ?s') \<and> unat (pmem_size ?s') = (\<Sum>sec\<leftarrow>sections ?s'. unat (st_len sec))"
    by (simp add: ends_fit_def)
  ultimately show ?thesis by (intro exI [of _ ?s']) simp
qed

end
