(* ===== verification/Mem_Frame_Map.thy ===== *)
theory Mem_Frame_Map
  imports Mem_Frame
begin

text \<open>
  The second stage of \<open>src/src/mem/mem_frame.c\<close>: which sections of memory it accepts, and where it puts the
  frame map.
\<close>

text \<open>
  Two ranges overlap for \<open>pa_range_overlaps\<close> if they share an address or touch: the end of a range counts
  as part of it.
\<close>

lemma pa_range_overlaps_closed:
  assumes "unat a1 + unat len1 < 2 ^ 64" "unat a2 + unat len2 < 2 ^ 64"
  shows "pa_range_overlaps a1 len1 a2 len2 \<longleftrightarrow>
    (\<exists>x. unat a1 \<le> x \<and> x \<le> unat a1 + unat len1 \<and> unat a2 \<le> x \<and> x \<le> unat a2 + unat len2)"
proof -
  have "unat (a1 + len1) = unat a1 + unat len1" "unat (a2 + len2) = unat a2 + unat len2"
    using assms by (simp_all add: unat_u64_add)
  then have "pa_range_overlaps a1 len1 a2 len2 \<longleftrightarrow> unat a2 \<le> unat a1 + unat len1 \<and> unat a1 \<le> unat a2 + unat len2"
    by (auto simp: pa_range_overlaps_def word_less_nat_alt)
  also have "\<dots> \<longleftrightarrow> (\<exists>x. unat a1 \<le> x \<and> x \<le> unat a1 + unat len1 \<and> unat a2 \<le> x \<and> x \<le> unat a2 + unat len2)"
    by (auto intro: exI [of _ "max (unat a1) (unat a2)"])
  finally show ?thesis .
qed

text \<open>A section is clear if neither a configuration space nor the frame buffer overlaps it.\<close>

definition section_clear :: "pcie_state \<Rightarrow> vesa_state \<Rightarrow> section_t \<Rightarrow> bool" where
  "section_clear pst v sec \<longleftrightarrow>
     (\<forall>i<unat (group_cnt pst). \<not> pa_range_overlaps (st_base sec) (st_len sec) (cfg_space_base_pa (groups pst ! i)) d_pcie_group_get_cfg_len) \<and>
     \<not> pa_overlaps_vesa_frame_buffer v (st_base sec) (st_len sec)"

definition large_sections :: "mem_state \<Rightarrow> section_t list" where
  "large_sections s = filter (\<lambda>sec. st_len sec > 0x800000) (sections s)"

lemma overlaps_cfg_loop_ex:
  assumes "i + n = unat (group_cnt pst)" "unat (group_cnt pst) \<le> length (groups pst)"
  shows "overlaps_cfg_loop i n pa len pst =
    Ret (\<exists>k. i \<le> k \<and> k < unat (group_cnt pst) \<and> pa_range_overlaps pa len (cfg_space_base_pa (groups pst ! k)) d_pcie_group_get_cfg_len)"
  using assms(1)
proof (induction n arbitrary: i)
  case (Suc n)
  have i: "i < unat (group_cnt pst)" using Suc.prems by simp
  then have u: "unat (of_nat i :: u64) = i" using less_trans [OF i unat_u64_bound] by (simp add: unat_of_nat)
  have g: "d_pcie_group_get_cfg_pa pst (of_nat i) = Ret (cfg_space_base_pa (groups pst ! i))"
    using i u assms(2) by (simp add: d_pcie_group_get_cfg_pa_def word_less_nat_alt)
  have "(\<exists>k\<ge>i. P k) \<longleftrightarrow> P i \<or> (\<exists>k\<ge>Suc i. P k)" for P by (metis Suc_leD le_antisym not_less_eq_eq order_refl)
  then show ?case using Suc.IH [of "Suc i"] Suc.prems i by (simp add: g)
qed simp

lemma section_checks_clear:
  assumes "unat (group_cnt pst) \<le> length (groups pst)"
  shows "section_checks pst v sec k = kassert (section_clear pst v sec) k"
  using overlaps_cfg_loop_ex [OF _ assms, of 0 "unat (group_cnt pst)"]
  by (auto simp: section_checks_def section_clear_def pa_overlaps_pcie_cfg_space_def d_pcie_group_get_cnt_def kassert_def)

lemma pa_len_loop_sum:
  assumes "unat (group_cnt pst) \<le> length (groups pst)"
  shows "pa_len_loop pst v secs n =
    kassert (\<forall>sec \<in> set (filter (\<lambda>sec. st_len sec > 0x800000) secs). section_clear pst v sec)
      (Ret (n + sum_list (map st_len (filter (\<lambda>sec. st_len sec > 0x800000) secs))))"
proof (induction secs arbitrary: n)
  case (Cons sec secs)
  then show ?case by (auto simp: section_checks_clear [OF assms] kassert_def add.assoc)
qed simp

lemma place_map_loop_keeps:
  assumes "unat (group_cnt pst) \<le> length (groups pst)" "frame_map s \<noteq> 0"
    and "\<forall>sec \<in> set (filter (\<lambda>sec. st_len sec > 0x800000) secs). section_clear pst v sec"
  shows "place_map_loop pst v cnt secs s = Ret s"
  using assms(3) by (induction secs) (auto simp: section_checks_clear [OF assms(1)] assms(2))

lemma mem_align_up_page: "p mod 4096 = 0 \<Longrightarrow> mem_align_up p 4096 = Ret p"
  using page_offset(2) [of p 4095] by (simp add: mem_align_up_def util_math_is_pow2_def)

lemma place_map_loop_first:
  assumes grp: "unat (group_cnt pst) \<le> length (groups pst)" and "frame_map s = 0"
    and "\<forall>sec \<in> set (filter (\<lambda>sec. st_len sec > 0x800000) secs). section_clear pst v sec"
    and "\<forall>sec \<in> set secs. st_base sec mod 4096 = 0 \<and> st_base sec + 4096 \<noteq> 0"
  shows "place_map_loop pst v cnt secs s =
    (case filter (\<lambda>sec. st_len sec > 0x800000) secs of
       [] \<Rightarrow> Ret s
     | sec # _ \<Rightarrow> kassert (st_base sec + 4096 + cnt * 4096 < st_base sec + st_len sec) (Ret (s\<lparr>frame_map := st_base sec + 4096\<rparr>)))"
  using assms(3,4)
proof (induction secs)
  case (Cons sec secs)
  show ?case
  proof (cases "st_len sec > 0x800000")
    case True
    have "(st_base sec + 4096) mod 4096 = 0" using page_multiple [of "st_base sec" 1] Cons.prems(2) by simp
    note up = mem_align_up_page [OF this]
    then show ?thesis
      using True Cons.prems assms(2) place_map_loop_keeps [OF grp, of "s\<lparr>frame_map := st_base sec + 4096\<rparr>" secs v cnt]
      by (auto simp: section_checks_clear [OF grp] PAGE_SIZE_4K_def kassert_def)
  next
    case False
    then show ?thesis using Cons by simp
  qed
qed (simp add: assms(2))


text \<open>
  The map has two words for each page of the large sections and at least one page to spare.
\<close>

definition map_words :: "nat \<Rightarrow> nat" where
  "map_words pages = 512 * (pages div 256 + 2)"

definition section_bytes :: "section_t list \<Rightarrow> nat" where
  "section_bytes secs = sum_list (map (\<lambda>sec. unat (st_len sec)) secs)"

lemma map_words_enough: "2 * pages + 512 < map_words pages"
  using div_mult_mod_eq [of pages 256] mod_less_divisor [of 256 pages] by (simp add: map_words_def)

lemma section_bytes_bound:
  "\<forall>sec \<in> set secs. unat (st_len sec) \<le> 4503599627370496 \<Longrightarrow> section_bytes secs \<le> length secs * 4503599627370496"
  by (induction secs) (auto simp: section_bytes_def)

lemma section_bytes_word: "section_bytes secs < 2 ^ 64 \<Longrightarrow> unat (sum_list (map st_len secs)) = section_bytes secs"
proof (induction secs)
  case (Cons sec secs)
  then show ?case by (simp add: section_bytes_def unat_u64_add)
qed (simp add: section_bytes_def)

text \<open>The number of pages the map takes, and the comparison with the end of a section.\<close>

definition map_page_cnt :: "u64 \<Rightarrow> u64" where
  "map_page_cnt n = n div 4096 * 2 * 8 div 4096 + 2"

lemma map_page_cnt_words:
  assumes "unat n \<le> 144115188075855872"
  shows "unat (map_page_cnt n * 4096) = 8 * map_words (unat n div 4096)"
    "map_page_cnt n * 4096 div 8 = of_nat (map_words (unat n div 4096))"
proof -
  let ?p = "unat n div 4096"
  have p: "?p \<le> 35184372088832" using assms by simp
  have "unat (n div 4096 * 2 * 8) = ?p * 2 * 8" using p by (simp add: unat_u64_mult unat_div)
  then have "unat (map_page_cnt n) = ?p div 256 + 2" using p by (simp add: map_page_cnt_def unat_u64_add unat_div)
  then show c4: "unat (map_page_cnt n * 4096) = 8 * map_words ?p" using p by (simp add: unat_u64_mult map_words_def)
  have "unat (map_page_cnt n * 4096 div 8) = map_words ?p" using c4 by (simp add: unat_div)
  moreover have "map_words ?p < 18446744073709551616" using p by (simp add: map_words_def)
  ultimately show "map_page_cnt n * 4096 div 8 = of_nat (map_words ?p)" by (simp add: u64_eq_iff_unat unat_of_nat)
qed

lemma map_end_less:
  assumes "unat n \<le> 144115188075855872" "unat base + unat len \<le> 2 ^ 52"
  shows "base + 4096 + map_page_cnt n * 4096 < base + len \<longleftrightarrow> unat base + 4096 + 8 * map_words (unat n div 4096) < unat base + unat len"
proof -
  have "map_words (unat n div 4096) \<le> 70368744178688 * 10" using assms(1) by (simp add: map_words_def)
  then have "unat (base + 4096 + map_page_cnt n * 4096) = unat base + 4096 + 8 * map_words (unat n div 4096)"
    "unat (base + len) = unat base + unat len"
    using assms(2) map_page_cnt_words(1) [OF assms(1)] by (simp_all add: unat_u64_add)
  then show ?thesis by (simp add: word_less_nat_alt)
qed

lemma large_sections_bytes:
  assumes "sections_ok s" "\<And>sec. sec \<in> set (sections s) \<Longrightarrow> unat (st_base sec) + unat (st_len sec) \<le> 2 ^ 52"
  shows "section_bytes (large_sections s) \<le> 144115188075855872"
    "unat (sum_list (map st_len (large_sections s))) = section_bytes (large_sections s)"
proof -
  have "section_bytes (large_sections s) \<le> length (large_sections s) * 4503599627370496"
    by (rule section_bytes_bound) (use assms(2) in \<open>auto simp: large_sections_def intro: order_trans [OF le_add2]\<close>)
  also have "\<dots> \<le> 32 * 4503599627370496"
    using assms(1) le_trans [OF length_filter_le] by (intro mult_le_mono1) (auto simp: large_sections_def sections_ok_def SECTION_CAP_def)
  finally show b: "section_bytes (large_sections s) \<le> 144115188075855872" by simp
  then show "unat (sum_list (map st_len (large_sections s))) = section_bytes (large_sections s)" by (intro section_bytes_word) simp
qed

lemma frame_map_placed:
  assumes grp: "unat (group_cnt pst) \<le> length (groups pst)" and ok: "sections_ok s"
    and low: "\<And>sec. sec \<in> set (sections s) \<Longrightarrow> unat (st_base sec) + unat (st_len sec) \<le> 2 ^ 52"
  shows "mem_frame_bootstrap_2 pst v s =
    (let cap = map_words (section_bytes (large_sections s) div 4096) in
     kassert (\<forall>sec \<in> set (large_sections s). section_clear pst v sec)
       (case large_sections s of
          [] \<Rightarrow> Ret (s\<lparr>frame_map_cap := 1024, frame_map := 0\<rparr>)
        | sec # _ \<Rightarrow>
            kassert (unat (st_base sec) + 4096 + 8 * cap < unat (st_base sec) + unat (st_len sec))
              (Ret (s\<lparr>frame_map_cap := of_nat cap, frame_map := st_base sec + 4096\<rparr>))))"
proof -
  let ?p = "section_bytes (large_sections s) div 4096" and ?n = "sum_list (map st_len (large_sections s))"
  let ?cnt = "map_page_cnt ?n"
  have n: "unat ?n = section_bytes (large_sections s)" "unat ?n \<le> 144115188075855872"
    using large_sections_bytes [OF ok low] by simp_all
  note words = map_page_cnt_words(2) [OF n(2), unfolded n(1)] and less = map_end_less [OF n(2), unfolded n(1)]
  have cnts: "16 * (?n div 4096) div 4096 + 2 = ?cnt" "(16 * (?n div 4096) div 4096 * 4096 + 8192) div 8 = of_nat (map_words ?p)"
    using words by (simp_all add: map_page_cnt_def distrib_right)
  have base: "\<forall>sec \<in> set (sections s). st_base sec mod 4096 = 0 \<and> st_base sec + 4096 \<noteq> 0"
  proof
    fix sec
    assume sec: "sec \<in> set (sections s)"
    have "unat (st_base sec + 4096) = unat (st_base sec) + 4096" using low [OF sec] by (subst unat_u64_add) auto
    then show "st_base sec mod 4096 = 0 \<and> st_base sec + 4096 \<noteq> 0" using ok sec by (auto simp: sections_ok_def)
  qed
  have sum: "pa_len_loop pst v (sections s) 0 = kassert (\<forall>sec \<in> set (large_sections s). section_clear pst v sec) (Ret ?n)"
    using pa_len_loop_sum [OF grp, of v "sections s" 0] by (simp add: large_sections_def)
  show ?thesis
  proof (cases "\<forall>sec \<in> set (large_sections s). section_clear pst v sec")
    case True
    let ?s = "s\<lparr>frame_map_cap := of_nat (map_words ?p), frame_map := 0\<rparr>"
    have run: "mem_frame_bootstrap_2 pst v s = (case large_sections s of [] \<Rightarrow> Ret ?s
        | sec # _ \<Rightarrow> kassert (st_base sec + 4096 + ?cnt * 4096 < st_base sec + st_len sec) (Ret (?s\<lparr>frame_map := st_base sec + 4096\<rparr>)))"
      using place_map_loop_first [OF grp _ _ base, of ?s v ?cnt] True
      by (simp add: mem_frame_bootstrap_2_def sum PAGE_SIZE_4K_def Let_def cnts large_sections_def [symmetric])
    show ?thesis
    proof (cases "large_sections s")
      case Nil
      then show ?thesis using run by (simp add: map_words_def section_bytes_def)
    next
      case (Cons sec secs)
      then have "sec \<in> set (sections s)" by (metis filter_is_subset large_sections_def list.set_intros(1) subsetD)
      from less [OF low [OF this]] show ?thesis using Cons True run by (simp add: Let_def)
    qed
  next
    case False
    then show ?thesis by (auto simp: mem_frame_bootstrap_2_def sum Let_def)
  qed
qed

text \<open>
  C13: for sections as the first stage records them, below the 52-bit limit of physical addresses, the second
  stage decides and places as follows. If a section above 8 MB touches a configuration space or the frame
  buffer, an assertion fails. Otherwise the frame map gets \<open>map_words\<close> words, more than two for every page of
  these sections, one page behind the start of the first of them, and an assertion fails unless it ends
  before that section does. Without a section above 8 MB the map is left a null pointer and no assertion
  fails.
\<close>

theorem mem_frame_bootstrap_2_places:
  assumes grp: "unat (group_cnt pst) \<le> length (groups pst)" and ok: "sections_ok s"
    and low: "\<And>sec. sec \<in> set (sections s) \<Longrightarrow> unat (st_base sec) + unat (st_len sec) \<le> 2 ^ 52"
  shows "mem_frame_bootstrap_2 pst v s =
    (let cap = map_words (section_bytes (large_sections s) div 4096) in
     kassert (\<forall>sec \<in> set (large_sections s). section_clear pst v sec)
       (case large_sections s of
          [] \<Rightarrow> Ret (s\<lparr>frame_map_cap := 1024, frame_map := 0\<rparr>)
        | sec # _ \<Rightarrow>
            kassert (unat (st_base sec) + 4096 + 8 * cap < unat (st_base sec) + unat (st_len sec))
              (Ret (s\<lparr>frame_map_cap := of_nat cap, frame_map := st_base sec + 4096\<rparr>))))"
  by (rule frame_map_placed [OF assms])

text \<open>
  With 4 GB from 1 MB on and a kernel at 2 MB, as a PC has them, the frame map begins at 1 MB and 4 KB and is
  more than 16 MB long: it lies across the kernel image, which the second stage does not look at.
\<close>

theorem mem_frame_bootstrap_2_places_witness:
  "\<exists>s'. mem_frame_bootstrap_2 \<lparr>groups = [], group_cnt = 0, funcs = []\<rparr> \<lparr>vesa_buf = 0, vesa_width = 0, vesa_height = 0, vesa_depth = 4\<rparr>
       (sample_mem\<lparr>sections := [\<lparr>st_base = 0x100000, st_len = 0xFFF00000\<rparr>], pmem_size := 0xFFF00000,
          kern_start_pa := 0x200000, kern_end_pa := 0x300000\<rparr>) = Ret s' \<and>
     frame_map s' < kern_start_pa s' \<and> kern_end_pa s' < frame_map s' + 8 * frame_map_cap s'"
proof -
  let ?s = "sample_mem\<lparr>sections := [\<lparr>st_base = 0x100000, st_len = 0xFFF00000\<rparr>], pmem_size := 0xFFF00000,
          kern_start_pa := 0x200000, kern_end_pa := 0x300000\<rparr>"
  let ?v = "\<lparr>vesa_buf = 0, vesa_width = 0, vesa_height = 0, vesa_depth = 4\<rparr>" and ?p = "\<lparr>groups = [], group_cnt = 0, funcs = []\<rparr>"
  have l: "large_sections ?s = [\<lparr>st_base = 0x100000, st_len = 0xFFF00000\<rparr>]" by (simp add: large_sections_def)
  have m: "map_words (section_bytes (large_sections ?s) div 4096) = 2097664" by (simp add: l section_bytes_def map_words_def)
  have "mem_frame_bootstrap_2 ?p ?v ?s = Ret (?s\<lparr>frame_map_cap := 2097664, frame_map := 0x101000\<rparr>)"
    using mem_frame_bootstrap_2_places [of ?p ?s ?v] m l
    by (simp add: sections_ok_def SECTION_CAP_def section_clear_def pa_overlaps_vesa_frame_buffer_def pa_range_overlaps_def
        d_vesa_get_frame_buffer_def d_vesa_get_frame_buffer_len_def)
  then show ?thesis by simp
qed

end
