(* ===== verification/Mem_Page.thy ===== *)
theory Mem_Page
  imports Mem_Frame_Map Mm_Boot_Early Mm_Boot_Map
begin

text \<open>
  \<open>src/src/mem/mem_page.c\<close> and the entry points of \<open>src/src/mem/mem.c\<close>: the bootstrap map of the first
  terabyte, the mapping of lists of physical ranges, and the address space the kernel main switches to.

  The tables are static objects of the kernel image and frames of the static pool. The bootstrap map and
  the final map take the image to itself, so tables are read and written at their physical addresses. The
  functions on single entries repeat those of \<open>mm_page.c\<close> word for word.
\<close>

subsection \<open>Entries and tables\<close>

definition mem_tab_load_root :: "u64 \<Rightarrow> mem_state \<Rightarrow> mem_state res" where
  "mem_tab_load_root p4 s = mem_aligned p4 PAGE_SIZE_4K (Ret (s\<lparr>mem_cr3 := p4 AND 0x000ffffffffff000\<rparr>))"

definition mem_tab_zero :: "u64 \<Rightarrow> mem_state \<Rightarrow> mem_state" where
  "mem_tab_zero tab s = s\<lparr>mem_pmem := (\<lambda>a. if a - tab < 4096 then 0 else mem_pmem s a)\<rparr>"

definition mem_tab_entry_is_zero :: "u64 \<Rightarrow> bool" where
  "mem_tab_entry_is_zero e = (e = 0)"

definition mem_tab_entry_idx :: "u64 \<Rightarrow> nat \<Rightarrow> u64 res" where
  "mem_tab_entry_idx va level =
     kassert (level \<ge> 1 \<and> level \<le> 4)
       (let shift = (level - 1) * 9 + 12; idx = drop_bit shift va AND 0x1ff in kassert (idx < 512) (Ret idx))"

definition mem_tab_entry_present :: "u64 \<Rightarrow> bool" where
  "mem_tab_entry_present e = bit e 0"

definition mem_tab_entry_get_pa :: "u64 \<Rightarrow> u64" where
  "mem_tab_entry_get_pa ent = ent AND 0x0ffffffffffff000"

definition mem_tab_entry_init :: "nat \<Rightarrow> bool \<Rightarrow> bool \<Rightarrow> u64 \<Rightarrow> u64 \<Rightarrow> u64 res" where
  "mem_tab_entry_init level pres write padd padd_size =
     rbind (if level = 4 \<or> level = 1 then kassert (padd_size = PAGE_SIZE_4K) (Ret ())
            else if level = 2 then kassert (padd_size = PAGE_SIZE_4K \<or> padd_size = PAGE_SIZE_2M) (Ret ())
            else if level = 3 then kassert (padd_size = PAGE_SIZE_4K \<or> padd_size = PAGE_SIZE_1G) (Ret ())
            else Stop (KernelPanic ''Invalid page table level'')) (\<lambda>_.
     mem_aligned padd padd_size
     (kassert (padd \<le> VA_48_LOW_END \<or> padd \<ge> VA_48_HIGH_START)
       (let e = padd;
            e = (if pres then e OR 1 else e);
            e = (if write then e OR 2 else e);
            e = (if padd_size = PAGE_SIZE_2M \<or> padd_size = PAGE_SIZE_1G then e OR 0x80 else e)
        in Ret e)))"

definition mem_store :: "u64 \<Rightarrow> u64 \<Rightarrow> mem_state \<Rightarrow> mem_state" where
  "mem_store pa x s = s\<lparr>mem_pmem := (mem_pmem s)(pa := x)\<rparr>"

lemma mem_entry_same [simp]:
  "mem_tab_entry_init = tab_entry_init" "mem_tab_entry_idx = vadd_tab_index" "mem_tab_entry_get_pa = tab_entry_get_padd"
  "mem_tab_entry_present = tab_entry_is_present" "mem_tab_entry_is_zero = tab_entry_is_zero"
  by (simp_all add: fun_eq_iff mem_tab_entry_init_def tab_entry_init_def mem_tab_entry_idx_def vadd_tab_index_def tab_index_def
      mem_tab_entry_get_pa_def tab_entry_get_padd_def mem_tab_entry_present_def tab_entry_is_present_def
      mem_tab_entry_is_zero_def tab_entry_is_zero_def mem_align_check_def mm_align_check_def Let_def)

subsection \<open>Mapping\<close>

text \<open>
  One round of the descent that \<open>_map_bootstrap\<close> and \<open>_map_page\<close> share: the table of the next level, from the
  pool if there is none yet; \<open>None\<close> when the pool is used up. The descent ends above level \<open>lv_min\<close>.
\<close>

definition table_step :: "nat \<Rightarrow> u64 \<Rightarrow> u64 \<Rightarrow> mem_state \<Rightarrow> (u64 option \<times> mem_state) res" where
  "table_step lv va tab s =
     rbind (mem_tab_entry_idx va lv) (\<lambda>entry_idx.
     let entry = tab + 8 * entry_idx in
     if \<not> mem_tab_entry_present (mem_pmem s entry) then
       kassert (mem_tab_entry_is_zero (mem_pmem s entry))
       (rbind (mem_frame_alloc s) (\<lambda>(frame, s).
        case frame of
          None \<Rightarrow> Ret (None, s)
        | Some frame \<Rightarrow>
            kassert (frame \<noteq> 0)
            (rbind (mem_tab_entry_init lv True True frame PAGE_SIZE_4K) (\<lambda>e.
             let s = mem_tab_zero frame (mem_store entry e s) in
             Ret (Some (mem_tab_entry_get_pa (mem_pmem s entry)), s)))))
     else Ret (Some (mem_tab_entry_get_pa (mem_pmem s entry)), s))"

fun tables_loop :: "nat \<Rightarrow> nat \<Rightarrow> u64 \<Rightarrow> u64 \<Rightarrow> mem_state \<Rightarrow> (u64 option \<times> mem_state) res" where
  "tables_loop lv_min lv va tab s =
     (if lv > lv_min then
        rbind (table_step lv va tab s) (\<lambda>(r, s).
        case r of None \<Rightarrow> Ret (None, s) | Some tab \<Rightarrow> tables_loop lv_min (lv - 1) va tab s)
      else Ret (Some tab, s))"

declare tables_loop.simps [simp del]

definition map_bootstrap :: "u64 \<Rightarrow> u64 \<Rightarrow> u64 \<Rightarrow> mem_state \<Rightarrow> (bool \<times> mem_state) res" where
  "map_bootstrap root va pa s =
     mem_aligned va PAGE_SIZE_2M
     (mem_aligned pa PAGE_SIZE_2M
     (rbind (tables_loop 2 4 va root s) (\<lambda>(r, s).
      case r of
        None \<Rightarrow> Ret (False, s)
      | Some tab \<Rightarrow>
          rbind (mem_tab_entry_idx va 2) (\<lambda>entry_idx.
          let entry = tab + 8 * entry_idx in
          kassert (mem_tab_entry_is_zero (mem_pmem s entry))
          (rbind (mem_tab_entry_init 2 True True pa PAGE_SIZE_2M) (\<lambda>e. Ret (True, mem_store entry e s)))))))"

definition PA_MAX :: u64 where "PA_MAX = 1024 * 1024 * 1024 * 1024"

partial_function (option) bootstrap_map_loop :: "u64 \<Rightarrow> mem_state \<Rightarrow> mem_state res option" where
  "bootstrap_map_loop va s =
     (if va + PAGE_SIZE_2M < PA_MAX then
        (case map_bootstrap (tab_4_bootstrap s) va va s of
           Inl e \<Rightarrow> Some (Inl e)
         | Inr (ok, s) \<Rightarrow> if ok then bootstrap_map_loop (va + PAGE_SIZE_2M) s else Some (Stop AssertFail))
      else Some (Ret s))"

definition mem_page_bootstrap_1 :: "mem_state \<Rightarrow> mem_state res" where
  "mem_page_bootstrap_1 s =
     kassert (boot_stage s = MEM_BOOTSTRAP_STAGE_0)
     (rbind (mem_pa_start s) (\<lambda>phy_0.
      rbind (mem_pa_end s) (\<lambda>phy_z.
      kassert (phy_0 < mem_pa_ker_start s)
      (kassert (mem_pa_ker_start s < mem_pa_ker_end s)
      (kassert (mem_pa_ker_end s < phy_z)
        (case bootstrap_map_loop 0 (mem_tab_zero (tab_4_bootstrap s) s) of
           None \<Rightarrow> Stop Diverges
         | Some r \<Rightarrow> rbind r (\<lambda>s. mem_tab_load_root (tab_4_bootstrap s) s)))))))"

definition map_page :: "u64 \<Rightarrow> u64 \<Rightarrow> u64 \<Rightarrow> mem_state \<Rightarrow> mem_state res" where
  "map_page root va pa s =
     mem_aligned va PAGE_SIZE_4K
     (mem_aligned pa PAGE_SIZE_4K
     (rbind (tables_loop 1 4 va root s) (\<lambda>(r, s).
      case r of
        None \<Rightarrow> Stop AssertFail
      | Some tab \<Rightarrow>
          rbind (mem_tab_entry_idx va 1) (\<lambda>entry_idx.
          let entry = tab + 8 * entry_idx in
          kassert (mem_tab_entry_is_zero (mem_pmem s entry))
          (rbind (mem_tab_entry_init 1 True True pa PAGE_SIZE_4K) (\<lambda>e. Ret (mem_store entry e s)))))))"

partial_function (option) map_impl_loop :: "u64 \<Rightarrow> u64 \<Rightarrow> u64 \<Rightarrow> u64 \<Rightarrow> u64 \<Rightarrow> u64 \<Rightarrow> u64 \<Rightarrow> mem_state \<Rightarrow> mem_state res option" where
  "map_impl_loop root va n_pg pa i pa_idx pa_page s =
     (if i < n_pg then
        (case rbind (pa_list_n_range pa s) (\<lambda>n. kassert (pa_idx < n) (pa_list_range_n_page pa pa_idx s)) of
           Inl e \<Rightarrow> Some (Inl e)
         | Inr n_page \<Rightarrow>
             if pa_page < n_page then
               (case rbind (pa_list_range_pa pa pa_idx s) (\<lambda>pa_0.
                       map_page root (va + i * PAGE_SIZE_4K) (pa_0 + pa_page * PAGE_SIZE_4K) s) of
                  Inl e \<Rightarrow> Some (Inl e)
                | Inr s \<Rightarrow> map_impl_loop root va n_pg pa (i + 1) pa_idx (pa_page + 1) s)
             else map_impl_loop root va n_pg pa i (pa_idx + 1) 0 s)
      else Some (Ret s))"

definition map_impl :: "u64 \<Rightarrow> u64 \<Rightarrow> u64 \<Rightarrow> u64 \<Rightarrow> mem_state \<Rightarrow> mem_state res" where
  "map_impl root va n_pg pa s =
     mem_aligned va PAGE_SIZE_4K
     (kassert (n_pg = pa_list_n_page pa s)
       (case map_impl_loop root va n_pg pa 0 0 0 s of None \<Rightarrow> Stop Diverges | Some r \<Rightarrow> r))"

definition mem_page_map :: "u64 \<Rightarrow> u64 \<Rightarrow> u64 \<Rightarrow> mem_state \<Rightarrow> mem_state res" where
  "mem_page_map va n_pg pa s = kassert (boot_stage s > MEM_BOOTSTRAP_STAGE_0) (map_impl (mem_tab_4 s) va n_pg pa s)"

definition VA_48_FRAME_BUFFER_END :: u64 where
  "VA_48_FRAME_BUFFER_END = VA_48_HIGH_START + 4096 * PAGE_SIZE_4K"

definition mem_page_bootstrap_2 :: "vesa_state \<Rightarrow> mem_state \<Rightarrow> (mem_state \<times> vesa_state) res" where
  "mem_page_bootstrap_2 v s =
     (let s = mem_tab_zero (mem_tab_4 s) s; ker_0_va = 0 in
      mem_aligned ker_0_va PAGE_SIZE_4K
      (let ker_z_va = mem_pa_ker_end s in
       mem_aligned ker_0_va PAGE_SIZE_4K
       (let ker_n_page = (ker_z_va - ker_0_va) div PAGE_SIZE_4K in
        rbind (pa_list_new_bootstrap 1 s) (\<lambda>(pa, s).
        rbind (pa_list_set_range pa 0 ker_0_va ker_n_page s) (\<lambda>s.
        rbind (map_impl (mem_tab_4 s) ker_0_va ker_n_page pa s) (\<lambda>s.
        let fb = d_vesa_get_frame_buffer v in
        mem_aligned fb PAGE_SIZE_4K
        (let fb_len = d_vesa_get_frame_buffer_len v in
         kassert (fb_len mod PAGE_SIZE_4K = 0)
         (kassert (fb_len < VA_48_FRAME_BUFFER_END - VA_48_FRAME_BUFFER)
         (rbind (pa_list_set_range pa 0 fb (fb_len div PAGE_SIZE_4K) s) (\<lambda>s.
          let v = d_vesa_set_frame_buffer VA_48_FRAME_BUFFER v in
          rbind (map_impl (mem_tab_4 s) VA_48_FRAME_BUFFER (fb_len div PAGE_SIZE_4K) pa s) (\<lambda>s.
          let s = pa_list_free_bootstrap pa s in
          rbind (mem_tab_load_root (mem_tab_4 s) s) (\<lambda>s. Ret (s, v)))))))))))))"

subsection \<open>The entry points\<close>

definition mem_bootstrap_1 :: "u64 \<Rightarrow> u8 list \<Rightarrow> u8 list \<Rightarrow> u64 \<Rightarrow> mem_state \<Rightarrow> mem_state res" where
  "mem_bootstrap_1 fn mb_elf mb_mmap mb_mmap_len s =
     kassert (boot_stage s = MEM_BOOTSTRAP_STAGE_0)
     (rbind (mem_frame_bootstrap_1 fn mb_elf mb_mmap mb_mmap_len s) (\<lambda>s.
      rbind (mem_page_bootstrap_1 s) (\<lambda>s.
      Ret (s\<lparr>boot_stage := MEM_BOOTSTRAP_STAGE_1\<rparr>))))"

definition mem_bootstrap_2 :: "pcie_state \<Rightarrow> vesa_state \<Rightarrow> mem_state \<Rightarrow> (mem_state \<times> vesa_state) res" where
  "mem_bootstrap_2 pst v s =
     kassert (boot_stage s = MEM_BOOTSTRAP_STAGE_1)
     (rbind (mem_frame_bootstrap_2 pst v s) (\<lambda>s.
      rbind (mem_page_bootstrap_2 v s) (\<lambda>(s, v).
      Ret (s\<lparr>boot_stage := MEM_BOOTSTRAP_STAGE_2\<rparr>, v))))"

definition mem_bootstrap_3 :: "mem_state \<Rightarrow> mem_state res" where
  "mem_bootstrap_3 s =
     kassert (boot_stage s = MEM_BOOTSTRAP_STAGE_2) (Ret (s\<lparr>boot_stage := MEM_BOOTSTRAP_STAGE_3\<rparr>))"

end
