(* ===== verification/Mem_Page_Map.thy ===== *)
theory Mem_Page_Map
  imports Mem_Page
begin

text \<open>
  The address spaces that \<open>src/src/mem/mem_page.c\<close> builds, against the translation of the processor.
\<close>

subsection \<open>Tables from the pool\<close>

definition mem_walk :: "mem_state \<Rightarrow> u64 \<Rightarrow> u64 option" where
  "mem_walk s va = (if canonical va then walk_from (mem_pmem s) 4 (mem_cr3 s) va else None)"

abbreviation mem_pool_frame :: "mem_state \<Rightarrow> nat \<Rightarrow> u64" where
  "mem_pool_frame s i \<equiv> frame_pool_bootstrap s + of_nat i * 4096"

text \<open>
  The invariant under which a root is built up: a well-formed tree, and a pool of usable frames of which
  those not yet handed out are no tables of it.
\<close>

definition pool_ok :: "u64 \<Rightarrow> mem_state \<Rightarrow> bool" where
  "pool_ok r s \<longleftrightarrow> boot_stage s < MEM_BOOTSTRAP_STAGE_FINISH \<and> frame_count_bootstrap s \<le> FRAME_CAP_BOOTSTRAP \<and>
     tree_ok (mem_pmem s) r \<and> (\<forall>i<16384. frame_ok (mem_pool_frame s i)) \<and>
     (\<forall>i<16384. unat (frame_count_bootstrap s) \<le> i \<longrightarrow> \<not> is_table (mem_pmem s) r (mem_pool_frame s i))"

abbreviation frames_used :: "mem_state \<Rightarrow> nat" where
  "frames_used s \<equiv> unat (frame_count_bootstrap s)"

text \<open>Everything but memory and the count of frames.\<close>

definition same_else :: "mem_state \<Rightarrow> mem_state \<Rightarrow> bool" where
  "same_else s s' \<longleftrightarrow> s' = s\<lparr>mem_pmem := mem_pmem s', frame_count_bootstrap := frame_count_bootstrap s'\<rparr>"

lemma same_else_refl [simp]: "same_else s s"
  by (simp add: same_else_def)

lemma same_else_update: "same_else s (s\<lparr>frame_count_bootstrap := c, mem_pmem := m\<rparr>)" "same_else s (s\<lparr>mem_pmem := m\<rparr>)"
  by (simp_all add: same_else_def)

lemma same_else_trans: "same_else s s' \<Longrightarrow> same_else s' s'' \<Longrightarrow> same_else s s''"
  unfolding same_else_def by (cases s; cases s'; cases s'') simp

lemma same_else_fields:
  assumes "same_else s s'"
  shows "tab_4_bootstrap s' = tab_4_bootstrap s" "mem_tab_4 s' = mem_tab_4 s" "frame_pool_bootstrap s' = frame_pool_bootstrap s"
    "boot_stage s' = boot_stage s" "pa_words s' = pa_words s" "mem_cr3 s' = mem_cr3 s" "sections s' = sections s"
    "kern_start_pa s' = kern_start_pa s" "kern_end_pa s' = kern_end_pa s"
    "pa_list_bootstrap_pool s' = pa_list_bootstrap_pool s" "pa_list_bootstrap_next s' = pa_list_bootstrap_next s"
  using assms unfolding same_else_def by (cases s; cases s'; simp)+

lemma mem_pool_frame_inj: "i < 16384 \<Longrightarrow> j < 16384 \<Longrightarrow> mem_pool_frame s i = mem_pool_frame s j \<longleftrightarrow> i = j"
proof -
  assume "i < 16384" "j < 16384"
  then have "unat (of_nat i * 4096 :: u64) = i * 4096" "unat (of_nat j * 4096 :: u64) = j * 4096" by (simp_all add: unat_u64_mult unat_of_nat)
  then have "of_nat i * 4096 = (of_nat j * 4096 :: u64) \<longleftrightarrow> i = j" by (simp add: u64_eq_iff_unat)
  then show ?thesis by simp
qed

text \<open>The next frame of the pool, linked below an empty entry.\<close>

definition mem_link :: "u64 \<Rightarrow> mem_state \<Rightarrow> mem_state" where
  "mem_link en s = s\<lparr>frame_count_bootstrap := frame_count_bootstrap s + 1,
     mem_pmem := linked en (mem_pool_frame s (frames_used s)) (mem_pmem s)\<rparr>"

lemma mem_link_ok:
  assumes ok: "pool_ok r s" and room: "frames_used s < 16384"
    and t: "tab_at (mem_pmem s) r va d = Some tab" "d < 3" and e0: "mem_pmem s (entry_at tab va d) = 0"
  defines "s' \<equiv> mem_link (entry_at tab va d) s" and "f \<equiv> mem_pool_frame s (frames_used s)"
  shows "pool_ok r s'" "tab_at (mem_pmem s') r va (Suc d) = Some f" "walk_from (mem_pmem s') 4 r v = walk_from (mem_pmem s) 4 r v"
    "table_step (4 - d) va tab s = Ret (Some f, s')" "frames_used s' = frames_used s + 1" "same_else s s'"
proof -
  let ?c = "frames_used s" and ?s1 = "s\<lparr>frame_count_bootstrap := frame_count_bootstrap s + 1\<rparr>"
  have tree: "tree_ok (mem_pmem s) r" and nf: "\<not> is_table (mem_pmem s) r f" and f: "frame_ok f"
    using ok room unfolding pool_ok_def f_def by blast+
  note l = tree_link_zeroed [OF tree t e0 f nf]
  have s': "mem_pmem s' = linked (entry_at tab va d) f (mem_pmem s)" "frame_pool_bootstrap s' = frame_pool_bootstrap s"
    "boot_stage s' = boot_stage s" "frame_count_bootstrap s' = frame_count_bootstrap s + 1"
    by (simp_all add: s'_def mem_link_def f_def)
  show c': "frames_used s' = ?c + 1" using room unfolding s' by (subst unat_u64_add) auto
  have "\<not> is_table (mem_pmem s') r (mem_pool_frame s' i)" if i: "i < 16384" "frames_used s' \<le> i" for i
  proof -
    have "mem_pool_frame s i \<noteq> f" using mem_pool_frame_inj [OF i(1) room] i(2) c' by (simp add: f_def)
    moreover have "\<not> is_table (mem_pmem s) r (mem_pool_frame s i)" using ok i c' unfolding pool_ok_def by simp
    ultimately show ?thesis using l(2) by (simp add: s')
  qed
  moreover have "frame_count_bootstrap s' \<le> FRAME_CAP_BOOTSTRAP" using room c' by (simp add: word_le_nat_alt FRAME_CAP_BOOTSTRAP_def)
  ultimately show "pool_ok r s'" using ok l(1) unfolding pool_ok_def by (simp add: s')
  show "tab_at (mem_pmem s') r va (Suc d) = Some f" "walk_from (mem_pmem s') 4 r v = walk_from (mem_pmem s) 4 r v"
    using l(3,4) by (simp_all add: s' del: tab_at.simps)
  show "same_else s s'" unfolding s'_def mem_link_def by (rule same_else_update)
  have alloc: "mem_frame_alloc s = Ret (Some f, ?s1)"
    using ok room by (simp add: mem_frame_alloc_def pool_ok_def f_def FRAME_CAP_BOOTSTRAP_def PAGE_SIZE_4K_def word_less_nat_alt)
  have zero: "mem_tab_zero f (mem_store (entry_at tab va d) (mk_entry f) ?s1) = s'"
    using l(6) by (simp add: mem_tab_zero_def mem_store_def s'_def mem_link_def f_def cong: if_cong)
  have e: "mem_pmem s' (entry_at tab va d) = mk_entry f" by (simp add: s' linked_def)
  have lv: "1 \<le> 4 - d" "4 - d \<le> 4" using t(2) by auto
  note ff = frame_okD [OF f]
  show "table_step (4 - d) va tab s = Ret (Some f, s')"
    using e0 alloc zero e ff tab_entry_init_4K [OF lv ff(1,2)] mk_entry_fields(4) [OF ff(1,2)] lv
    by (simp add: table_step_def Let_def tab_entry_is_present_def tab_entry_is_zero_def)
qed

text \<open>One level down, with or without a new table.\<close>

lemma table_step_ok:
  assumes ok: "pool_ok r s" and t: "tab_at (mem_pmem s) r va d = Some tab" "d < 3" and none: "walk_from (mem_pmem s) 4 r va = None"
    and room: "frames_used s < 16384 \<or> tab_at (mem_pmem s) r va (Suc d) \<noteq> None"
  shows "\<exists>t s'. table_step (4 - d) va tab s = Ret (Some t, s') \<and> pool_ok r s' \<and> tab_at (mem_pmem s') r va (Suc d) = Some t \<and>
    (\<forall>v. walk_from (mem_pmem s') 4 r v = walk_from (mem_pmem s) 4 r v) \<and> same_else s s' \<and> frames_used s' \<le> frames_used s + 1 \<and>
    (tab_at (mem_pmem s) r va (Suc d) \<noteq> None \<longrightarrow> s' = s) \<and>
    (d < 2 \<longrightarrow> (\<forall>w. tab_at (mem_pmem s) r w 3 = None) \<longrightarrow> (\<forall>w. tab_at (mem_pmem s') r w 3 = None))"
proof (cases "bit (mem_pmem s (entry_at tab va d)) 0")
  case True
  let ?e = "mem_pmem s (entry_at tab va d)"
  have tree: "tree_ok (mem_pmem s) r" using ok by (simp add: pool_ok_def)
  have lv: "1 \<le> 4 - d" "4 - d \<le> 4" using t(2) by auto
  have "\<not> (bit ?e 7 \<and> (4 - d = 2 \<or> 4 - d = 3))"
  proof
    assume h: "bit ?e 7 \<and> (4 - d = 2 \<or> 4 - d = 3)"
    obtain l where l: "4 - d = Suc l" using lv by (cases "4 - d") auto
    then have "walk_from (mem_pmem s) (4 - d) tab va \<noteq> None" using h True l by auto
    then show False using walk_tab_at [OF _ t(1)] none t(2) by simp
  qed
  then have nx: "next_tab (4 - d) ?e = Some (hw_padd ?e)" using True by (simp add: next_tab_def)
  moreover have "entry_ok d ?e" using tree_okD(2) [OF tree t(1)] t(2) by simp
  ultimately have "tab_entry_get_padd ?e = hw_padd ?e" using t(2) by (simp add: entry_ok_def)
  then have "table_step (4 - d) va tab s = Ret (Some (hw_padd ?e), s)"
    using True lv by (simp add: table_step_def Let_def tab_entry_is_present_def)
  moreover have "tab_at (mem_pmem s) r va (Suc d) = Some (hw_padd ?e)" using nx t(1) by simp
  ultimately show ?thesis using ok by (intro exI [of _ "hw_padd ?e"] exI [of _ s]) (simp del: tab_at.simps)
next
  case False
  let ?e = "mem_pmem s (entry_at tab va d)" and ?f = "mem_pool_frame s (frames_used s)" and ?s' = "mem_link (entry_at tab va d) s"
  have tree: "tree_ok (mem_pmem s) r" using ok by (simp add: pool_ok_def)
  have e0: "?e = 0" using tree_okD(2) [OF tree t(1)] t(2) False by (simp add: entry_ok_def)
  then have nt: "tab_at (mem_pmem s) r va (Suc d) = None" using t(1) by (simp add: next_tab_def)
  then have r: "frames_used s < 16384" using room by blast
  note l = mem_link_ok [OF ok r t e0]
  have f: "frame_ok ?f" "\<not> is_table (mem_pmem s) r ?f" using ok r unfolding pool_ok_def by blast+
  have "\<forall>w. tab_at (mem_pmem ?s') r w 3 = None" if "d < 2" "\<forall>w. tab_at (mem_pmem s) r w 3 = None"
    using linked_tab_at [OF tree t f, of 3] that by (simp add: mem_link_def del: tab_at.simps)
  then show ?thesis using l(1,2,4-6) l(3) nt by (intro exI [of _ ?f] exI [of _ ?s']) (simp del: tab_at.simps)
qed

lemma tables_loop_reaches:
  assumes "pool_ok r s" "tab_at (mem_pmem s) r va d = Some tab" "d \<le> D" "D \<le> 3" "walk_from (mem_pmem s) 4 r va = None"
    and "frames_used s + (D - d) \<le> 16384 \<or> tab_at (mem_pmem s) r va D \<noteq> None"
  shows "\<exists>t s'. tables_loop (4 - D) (4 - d) va tab s = Ret (Some t, s') \<and> pool_ok r s' \<and> tab_at (mem_pmem s') r va D = Some t \<and>
    (\<forall>v. walk_from (mem_pmem s') 4 r v = walk_from (mem_pmem s) 4 r v) \<and> same_else s s' \<and>
    frames_used s' \<le> frames_used s + (D - d) \<and> (tab_at (mem_pmem s) r va D \<noteq> None \<longrightarrow> s' = s) \<and>
    (D \<le> 2 \<longrightarrow> (\<forall>w. tab_at (mem_pmem s) r w 3 = None) \<longrightarrow> (\<forall>w. tab_at (mem_pmem s') r w 3 = None))"
  using assms
proof (induction "D - d" arbitrary: d tab s)
  case 0
  then have [simp]: "d = D" by simp
  have "tables_loop (4 - D) (4 - D) va tab s = Ret (Some tab, s)" by (subst tables_loop.simps) simp
  then show ?case using 0 by (intro exI [of _ tab] exI [of _ s]) (simp del: tab_at.simps)
next
  case (Suc n)
  then have d: "d < 3" "4 - D < 4 - d" "4 - d - 1 = 4 - Suc d" "n = D - Suc d" "Suc d \<le> D" by auto
  have here: "tab_at (mem_pmem s) r va (Suc d) \<noteq> None" if "tab_at (mem_pmem s) r va D \<noteq> None"
    using that tab_at_below [of "mem_pmem s" r va D _ "Suc d"] d(5) by (cases "tab_at (mem_pmem s) r va D") (auto simp del: tab_at.simps)
  have "frames_used s < 16384 \<or> tab_at (mem_pmem s) r va (Suc d) \<noteq> None" using Suc.prems(6) here d(4) Suc.hyps(2) by linarith
  from table_step_ok [OF Suc.prems(1,2) d(1) Suc.prems(5) this] obtain t s1 where
    s1: "table_step (4 - d) va tab s = Ret (Some t, s1)" "pool_ok r s1" "tab_at (mem_pmem s1) r va (Suc d) = Some t"
      "\<And>v. walk_from (mem_pmem s1) 4 r v = walk_from (mem_pmem s) 4 r v" "same_else s s1" "frames_used s1 \<le> frames_used s + 1"
      "tab_at (mem_pmem s) r va (Suc d) \<noteq> None \<Longrightarrow> s1 = s"
      "d < 2 \<Longrightarrow> \<forall>w. tab_at (mem_pmem s) r w 3 = None \<Longrightarrow> \<forall>w. tab_at (mem_pmem s1) r w 3 = None"
    by blast
  have room: "frames_used s1 + (D - Suc d) \<le> 16384 \<or> tab_at (mem_pmem s1) r va D \<noteq> None"
    using Suc.prems(6) s1(6) here s1(7) d(4) Suc.hyps(2) by (auto simp del: tab_at.simps)
  have "walk_from (mem_pmem s1) 4 r va = None" using s1(4) Suc.prems(5) by simp
  from Suc.hyps(1) [OF d(4) s1(2,3) d(5) Suc.prems(4) this room] obtain t' s' where
    s': "tables_loop (4 - D) (4 - Suc d) va t s1 = Ret (Some t', s')" "pool_ok r s'" "tab_at (mem_pmem s') r va D = Some t'"
      "\<And>v. walk_from (mem_pmem s') 4 r v = walk_from (mem_pmem s1) 4 r v" "same_else s1 s'" "frames_used s' \<le> frames_used s1 + (D - Suc d)"
      "tab_at (mem_pmem s1) r va D \<noteq> None \<Longrightarrow> s' = s1"
      "D \<le> 2 \<Longrightarrow> \<forall>w. tab_at (mem_pmem s1) r w 3 = None \<Longrightarrow> \<forall>w. tab_at (mem_pmem s') r w 3 = None"
    by blast
  have run: "tables_loop (4 - D) (4 - d) va tab s = Ret (Some t', s')"
    using s1(1) s'(1) d(2,3) by (subst tables_loop.simps) simp
  have count: "frames_used s' \<le> frames_used s + (D - d)" using s'(6) s1(6) d(4) Suc.hyps(2) by linarith
  have keep: "s' = s" if "tab_at (mem_pmem s) r va D \<noteq> None" using s1(7) [OF here [OF that]] s'(7) that by simp
  have leaf: "\<forall>w. tab_at (mem_pmem s') r w 3 = None" if "D \<le> 2" "\<forall>w. tab_at (mem_pmem s) r w 3 = None"
    using s'(8) [OF that(1) s1(8) [OF _ that(2)]] d(5) that(1) by simp
  show ?case
    using run s'(2,3) s'(4) s1(4) same_else_trans [OF s1(5) s'(5)] count keep leaf
    by (intro exI [of _ t'] exI [of _ s']) (simp del: tab_at.simps)
qed

subsection \<open>The bootstrap map\<close>

abbreviation no_small_pages :: "u64 \<Rightarrow> mem_state \<Rightarrow> bool" where
  "no_small_pages r s \<equiv> (\<forall>w. tab_at (mem_pmem s) r w 3 = None)"

lemma map_bootstrap_maps:
  assumes ok: "pool_ok r s" and small: "no_small_pages r s" and va: "va mod PAGE_SIZE_2M = 0" "va \<le> VA_48_LOW_END"
    and none: "walk_from (mem_pmem s) 4 r va = None"
    and room: "frames_used s + 2 \<le> 16384 \<or> tab_at (mem_pmem s) r va 2 \<noteq> None"
  shows "\<exists>s'. map_bootstrap r va va s = Ret (True, s') \<and> pool_ok r s' \<and> no_small_pages r s' \<and> same_else s s' \<and>
    tab_at (mem_pmem s') r va 2 \<noteq> None \<and>
    frames_used s' \<le> (if tab_at (mem_pmem s) r va 2 \<noteq> None then frames_used s else frames_used s + 2) \<and>
    (\<forall>v. walk_from (mem_pmem s') 4 r v = (if same_path 3 v va then Some (va + (v AND mask 21)) else walk_from (mem_pmem s) 4 r v))"
proof -
  have "frames_used s + (2 - 0) \<le> 16384 \<or> tab_at (mem_pmem s) r va 2 \<noteq> None" using room by simp
  from tables_loop_reaches [OF ok _ _ _ none this, of r] obtain tab s1 where
    s1: "tables_loop 2 4 va r s = Ret (Some tab, s1)" "pool_ok r s1" "tab_at (mem_pmem s1) r va 2 = Some tab"
      "\<And>v. walk_from (mem_pmem s1) 4 r v = walk_from (mem_pmem s) 4 r v" "same_else s s1"
      "frames_used s1 \<le> frames_used s + 2" "tab_at (mem_pmem s) r va 2 \<noteq> None \<Longrightarrow> s1 = s" "no_small_pages r s1"
    using small by auto
  have tree: "tree_ok (mem_pmem s1) r" using s1(2) by (simp add: pool_ok_def)
  let ?e = "mem_pmem s1 (entry_at tab va 2)" and ?s' = "mem_store (entry_at tab va 2) (huge_entry va) s1"
  have e0: "?e = 0"
  proof (rule ccontr)
    assume nz: "?e \<noteq> 0"
    have b: "bit ?e 0" using tree_okD(2) [OF tree s1(3)] nz by (simp add: entry_ok_def)
    have "next_tab (4 - 2) ?e = None" using s1(8) [rule_format, of va] s1(3) by (simp add: numeral_3_eq_3 numeral_2_eq_2 split: option.splits)
    then have "bit ?e 7" using b by (auto simp: next_tab_def split: if_splits)
    then have "walk_from (mem_pmem s1) (Suc (Suc 0)) tab va \<noteq> None" using b by (simp add: numeral_2_eq_2 Let_def)
    then show False using walk_tab_at [OF _ s1(3)] s1(4) [of va] none by (simp add: numeral_2_eq_2 del: walk_from.simps)
  qed
  note h = tree_huge [OF tree s1(3) e0 va]
  have al: "va mod 2097152 = 0" using va(1) by (simp add: PAGE_SIZE_2M_def)
  have "map_bootstrap r va va s = Ret (True, ?s')"
    using s1(1) al e0 huge_entry_fields(2) [OF va] by (simp add: map_bootstrap_def tab_entry_is_zero_def Let_def)
  moreover have "pool_ok r ?s'" using s1(2) h(2,3) unfolding pool_ok_def by (simp add: mem_store_def)
  moreover have "no_small_pages r ?s'" using s1(8) h(1) [of 3] by (simp add: mem_store_def del: tab_at.simps)
  moreover have "same_else s ?s'" unfolding mem_store_def by (rule same_else_trans [OF s1(5) same_else_update(2)])
  moreover have "tab_at (mem_pmem ?s') r va 2 \<noteq> None" using h(1) [of 2 va] s1(3) by (simp add: mem_store_def del: tab_at.simps)
  moreover have "frames_used ?s' = frames_used s1" by (simp add: mem_store_def)
  ultimately show ?thesis using s1(4,6,7) h(4) by (intro exI [of _ ?s']) (auto simp: mem_store_def simp del: tab_at.simps)
qed

lemma same_path_div:
  assumes "d \<le> 4" "unat va div 2 ^ (48 - 9 * d) = unat va' div 2 ^ (48 - 9 * d)"
  shows "same_path d va va'"
  unfolding same_path_def
proof (intro allI impI)
  fix k
  assume k: "k < d"
  let ?n = "48 - 9 * d"
  have "unat (2 ^ ?n :: u64) = 2 ^ ?n" using assms(1) by (intro unat_u64_2p) simp
  then have dr: "drop_bit ?n va = drop_bit ?n va'" using assms(2) by (simp add: u64_eq_iff_unat drop_bit_eq_div unat_div)
  have b: "bit va (?n + j) = bit va' (?n + j)" for j
    using arg_cong [OF dr, of "\<lambda>w. bit w j"] unfolding bit_drop_bit_eq comp_apply .
  show "tab_index va (4 - k) = tab_index va' (4 - k)"
  proof (rule bit_word_eqI)
    fix j
    have "(4 - k - 1) * 9 + 12 + j = ?n + ((d - 1 - k) * 9 + j)" using k assms(1) by simp
    then show "bit (tab_index va (4 - k)) j = bit (tab_index va' (4 - k)) j" using b [of "(d - 1 - k) * 9 + j"] by (simp only: bit_tab_index)
  qed
qed

abbreviation identity_upto :: "u64 \<Rightarrow> mem_state \<Rightarrow> nat \<Rightarrow> bool" where
  "identity_upto r s n \<equiv> (\<forall>v. canonical v \<longrightarrow> walk_from (mem_pmem s) 4 r v = (if unat v < n then Some v else None))"

text \<open>
  Page \<open>k\<close> of 2 MB comes after \<open>k\<close> others: at most two tables were taken for every gigabyte begun, and the
  table for the current gigabyte is there unless the page is its first.
\<close>

definition big_page :: "nat \<Rightarrow> u64" where
  "big_page k = 2097152 * of_nat k"

lemma unat_big_page: "k \<le> 524288 \<Longrightarrow> unat (big_page k) = 2097152 * k"
  by (simp add: big_page_def unat_u64_mult unat_of_nat)

lemma big_page_facts:
  assumes "k < 524288"
  shows "big_page k mod PAGE_SIZE_2M = 0" "big_page k \<le> VA_48_LOW_END" "canonical (big_page k)"
    "big_page k + PAGE_SIZE_2M = big_page (Suc k)" "big_page k + PAGE_SIZE_2M < PA_MAX \<longleftrightarrow> Suc k < 524288"
    "Suc k mod 512 \<noteq> 0 \<Longrightarrow> same_path 2 (big_page (Suc k)) (big_page k)"
proof -
  note u = unat_big_page [of k] unat_big_page [of "Suc k"]
  show "big_page k mod PAGE_SIZE_2M = 0" using u assms by (simp add: PAGE_SIZE_2M_def u64_eq_iff_unat unat_mod)
  show le: "big_page k \<le> VA_48_LOW_END" using u assms by (simp add: word_le_nat_alt VA_48_LOW_END_def)
  then show "canonical (big_page k)" by (simp add: canonical_def)
  show nx: "big_page k + PAGE_SIZE_2M = big_page (Suc k)" by (simp add: big_page_def PAGE_SIZE_2M_def distrib_left)
  show "big_page k + PAGE_SIZE_2M < PA_MAX \<longleftrightarrow> Suc k < 524288"
    unfolding nx using u assms by (simp add: word_less_nat_alt PA_MAX_def)
  show "same_path 2 (big_page (Suc k)) (big_page k)" if "Suc k mod 512 \<noteq> 0"
  proof (rule same_path_div)
    have "Suc k div 512 = k div 512" using that by (simp add: div_Suc)
    moreover have "2097152 * j div 1073741824 = j div 512" for j :: nat
      using div_mult_mult1 [of 2097152 j 512] by simp
    ultimately show "unat (big_page (Suc k)) div 2 ^ (48 - 9 * 2) = unat (big_page k) div 2 ^ (48 - 9 * 2)"
      using u assms by simp
  qed simp
qed

lemma bootstrap_map_loop_maps:
  assumes "tab_4_bootstrap s = r" "pool_ok r s" "no_small_pages r s" "k < 524288" "identity_upto r s (2097152 * k)"
    and "frames_used s \<le> 2 * ((k + 511) div 512)" "k mod 512 \<noteq> 0 \<Longrightarrow> tab_at (mem_pmem s) r (big_page k) 2 \<noteq> None"
  shows "\<exists>s'. bootstrap_map_loop (big_page k) s = Some (Ret s') \<and> pool_ok r s' \<and> same_else s s' \<and> frames_used s' \<le> 2048 \<and>
    identity_upto r s' (2097152 * 524287)"
  using assms
proof (induction "524287 - k" arbitrary: k s)
  case 0
  then have k: "k = 524287" by simp
  have "\<not> big_page k + PAGE_SIZE_2M < PA_MAX" using big_page_facts(5) [of k] by (simp add: k)
  then show ?case using 0 by (subst bootstrap_map_loop.simps) (auto simp: k)
next
  case (Suc n)
  then have k: "k < 524287" "n = 524287 - Suc k" "Suc k < 524288" by auto
  note f = big_page_facts [OF Suc.prems(4)]
  have u: "unat (big_page k) = 2097152 * k" using unat_big_page k by simp
  have none: "walk_from (mem_pmem s) 4 r (big_page k) = None" using Suc.prems(5) f(3) u by simp
  have used: "frames_used s \<le> 2046 \<or> k mod 512 \<noteq> 0" 
  proof (cases "k mod 512 = 0")
    case True
    then have "k div 512 \<le> 1023" "(k + 511) div 512 = k div 512" using k(1) by (auto simp: mod_eq_0_iff_dvd elim!: dvdE)
    then show ?thesis using Suc.prems(6) by simp
  qed simp
  then have room: "frames_used s + 2 \<le> 16384 \<or> tab_at (mem_pmem s) r (big_page k) 2 \<noteq> None" using Suc.prems(7) by auto
  from map_bootstrap_maps [OF Suc.prems(2,3) f(1,2) none room] obtain s1 where
    s1: "map_bootstrap r (big_page k) (big_page k) s = Ret (True, s1)" "pool_ok r s1" "no_small_pages r s1" "same_else s s1"
      "tab_at (mem_pmem s1) r (big_page k) 2 \<noteq> None"
      "frames_used s1 \<le> (if tab_at (mem_pmem s) r (big_page k) 2 \<noteq> None then frames_used s else frames_used s + 2)"
      "\<And>v. walk_from (mem_pmem s1) 4 r v = (if same_path 3 v (big_page k) then Some (big_page k + (v AND mask 21)) else walk_from (mem_pmem s) 4 r v)"
    by blast
  have "identity_upto r s1 (2097152 * Suc k)"
  proof (intro allI impI)
    fix v
    assume v: "canonical v"
    show "walk_from (mem_pmem s1) 4 r v = (if unat v < 2097152 * Suc k then Some v else None)"
      using same_path_3 [OF v f(1,2)] s1(7) Suc.prems(5) v u by (cases "same_path 3 v (big_page k)") auto
  qed
  moreover have "frames_used s1 \<le> 2 * ((Suc k + 511) div 512)"
  proof (cases "k mod 512 = 0")
    case True
    then have "(Suc k + 511) div 512 = (k + 511) div 512 + 1" by (auto simp: mod_eq_0_iff_dvd elim!: dvdE)
    then show ?thesis using s1(6) Suc.prems(6) by (auto split: if_splits)
  next
    case False
    then show ?thesis using s1(6) Suc.prems(6,7) div_le_mono [of "k + 511" "Suc k + 511" 512] by fastforce
  qed
  moreover have "tab_at (mem_pmem s1) r (big_page (Suc k)) 2 \<noteq> None" if "Suc k mod 512 \<noteq> 0"
    using s1(5) tab_at_same_path [OF f(6) [OF that]] by metis
  moreover have "tab_4_bootstrap s1 = r" using same_else_fields(1) [OF s1(4)] Suc.prems(1) by simp
  ultimately obtain s' where s': "bootstrap_map_loop (big_page (Suc k)) s1 = Some (Ret s')" "pool_ok r s'" "same_else s1 s'"
    "frames_used s' \<le> 2048" "identity_upto r s' (2097152 * 524287)"
    using Suc.hyps(1) [OF k(2) _ s1(2,3) k(3)] by blast
  have "bootstrap_map_loop (big_page k) s = Some (Ret s')"
    using s1(1) s'(1) f(4,5) k(3) Suc.prems(1) by (subst bootstrap_map_loop.simps) simp
  then show ?case using s' same_else_trans [OF s1(4) s'(3)] by blast
qed

subsection \<open>Runs of small pages\<close>

definition root_trans :: "u64 \<Rightarrow> mem_state \<Rightarrow> u64 \<Rightarrow> u64 option" where
  "root_trans r s v = (if canonical v then walk_from (mem_pmem s) 4 r v else None)"

lemma map_page_maps:
  assumes ok: "pool_ok r s" and va: "va mod 4096 = 0" "canonical va" "root_trans r s va = None" and pa: "pa mod 4096 = 0" "pa \<le> VA_48_LOW_END"
    and room: "frames_used s + 3 \<le> 16384 \<or> tab_at (mem_pmem s) r va 3 \<noteq> None"
  shows "\<exists>s'. map_page r va pa s = Ret s' \<and> pool_ok r s' \<and> same_else s s' \<and> tab_at (mem_pmem s') r va 3 \<noteq> None \<and>
    frames_used s' \<le> (if tab_at (mem_pmem s) r va 3 \<noteq> None then frames_used s else frames_used s + 3) \<and>
    (\<forall>v. root_trans r s' v = (if canonical v \<and> same_page v va then Some (pa + (v AND 0xfff)) else root_trans r s v))"
proof -
  have none: "walk_from (mem_pmem s) 4 r va = None" using va by (simp add: root_trans_def)
  have "frames_used s + (3 - 0) \<le> 16384 \<or> tab_at (mem_pmem s) r va 3 \<noteq> None" using room by simp
  from tables_loop_reaches [OF ok _ _ _ none this, of r] obtain tab s1 where
    s1: "tables_loop 1 4 va r s = Ret (Some tab, s1)" "pool_ok r s1" "tab_at (mem_pmem s1) r va 3 = Some tab"
      "\<And>v. walk_from (mem_pmem s1) 4 r v = walk_from (mem_pmem s) 4 r v" "same_else s s1"
      "frames_used s1 \<le> frames_used s + 3" "tab_at (mem_pmem s) r va 3 \<noteq> None \<Longrightarrow> s1 = s"
    by auto
  have tree: "tree_ok (mem_pmem s1) r" using s1(2) by (simp add: pool_ok_def)
  let ?e = "mem_pmem s1 (entry_at tab va 3)" and ?s' = "mem_store (entry_at tab va 3) (mk_entry pa) s1"
  have e0: "?e = 0"
  proof (rule ccontr)
    assume "?e \<noteq> 0"
    then have "bit ?e 0" using tree_okD(2) [OF tree s1(3)] by (simp add: entry_ok_def)
    then have "walk_from (mem_pmem s1) (Suc 0) tab va \<noteq> None" by simp
    then show False using walk_tab_at [OF _ s1(3)] s1(4) [of va] none by simp
  qed
  note leaf = tree_leaf [OF tree s1(3), of "mk_entry pa"]
  have "map_page r va pa s = Ret ?s'"
    using s1(1) va(1) pa e0 tab_entry_init_4K [of 1 pa] by (simp add: map_page_def tab_entry_is_zero_def Let_def)
  moreover have "pool_ok r ?s'" using s1(2) leaf(2,3) unfolding pool_ok_def by (simp add: mem_store_def)
  moreover have "same_else s ?s'" unfolding mem_store_def by (rule same_else_trans [OF s1(5) same_else_update(2)])
  moreover have "tab_at (mem_pmem ?s') r va 3 \<noteq> None" using leaf(1) [of 3 va] s1(3) by (simp add: mem_store_def del: tab_at.simps)
  moreover have "frames_used ?s' = frames_used s1" by (simp add: mem_store_def)
  moreover have "root_trans r ?s' v = (if canonical v \<and> same_page v va then Some (pa + (v AND 0xfff)) else root_trans r s v)" for v
    using leaf(4) [of v] mk_entry_fields [OF pa] same_path_page [of v va] va(2) s1(4) [of v]
    by (auto simp: root_trans_def mem_store_def simp del: walk_from.simps)
  ultimately show ?thesis using s1(6,7) by (intro exI [of _ ?s']) (auto simp del: tab_at.simps)
qed

text \<open>The number of blocks of 2 MB that \<open>i\<close> pages from page number \<open>P\<close> on touch.\<close>

definition touched_2M :: "nat \<Rightarrow> nat \<Rightarrow> nat" where
  "touched_2M P i = (if i = 0 then 0 else (P + i - 1) div 512 - P div 512 + 1)"

lemma touched_2M_Suc: "touched_2M P (Suc i) = (if i = 0 \<or> (P + i) mod 512 = 0 then touched_2M P i + 1 else touched_2M P i)"
proof (cases i)
  case (Suc j)
  have "P div 512 \<le> (P + j) div 512" by (intro div_le_mono) simp
  then show ?thesis using Suc div_Suc [of "P + j" 512] by (auto simp: touched_2M_def Suc_diff_le)
qed (simp add: touched_2M_def)

lemma touched_2M_mono: "i \<le> j \<Longrightarrow> touched_2M P i \<le> touched_2M P j"
  by (rule lift_Suc_mono_le [of "touched_2M P"]) (simp_all add: touched_2M_Suc)

text \<open>A region of \<open>n\<close> pages from \<open>va\<close> on that can be mapped.\<close>

definition region_ok :: "u64 \<Rightarrow> nat \<Rightarrow> bool" where
  "region_ok va n \<longleftrightarrow> va mod 4096 = 0 \<and> n < 2 ^ 52 \<and> unat va + 4096 * n \<le> 2 ^ 64 \<and> (\<forall>i<n. canonical (va + 4096 * of_nat i))"

lemma region_okD:
  assumes "region_ok va n" "i < n"
  shows "unat (va + 4096 * of_nat i) = unat va + 4096 * i" "(va + 4096 * of_nat i) mod 4096 = 0" "canonical (va + 4096 * of_nat i)"
    "unat (va + 4096 * of_nat i) div 4096 = unat va div 4096 + i" "j < i \<Longrightarrow> \<not> same_page (va + 4096 * of_nat i) (va + 4096 * of_nat j)"
    "0 < i \<Longrightarrow> (unat va div 4096 + i) mod 512 \<noteq> 0 \<Longrightarrow> same_path 3 (va + 4096 * of_nat i) (va + 4096 * of_nat (i - 1))"
proof -
  have u: "unat (va + 4096 * of_nat k) = unat va + 4096 * k" if "k < n" for k
  proof -
    have "unat (4096 * of_nat k :: u64) = 4096 * k" using that assms(1) by (simp add: region_ok_def unat_u64_mult unat_of_nat)
    then show ?thesis using that assms(1) by (subst unat_u64_add) (auto simp: region_ok_def)
  qed
  show "unat (va + 4096 * of_nat i) = unat va + 4096 * i" using u assms(2) .
  have al: "(va + 4096 * of_nat k) mod 4096 = 0" for k using assms(1) by (intro page_multiple) (simp add: region_ok_def)
  then show "(va + 4096 * of_nat i) mod 4096 = 0" .
  show "canonical (va + 4096 * of_nat i)" using assms by (simp add: region_ok_def)
  have pg: "unat (va + 4096 * of_nat k) div 4096 = unat va div 4096 + k" if "k < n" for k using u [OF that] by simp
  then show "unat (va + 4096 * of_nat i) div 4096 = unat va div 4096 + i" using assms(2) .
  show "\<not> same_page (va + 4096 * of_nat i) (va + 4096 * of_nat j)" if "j < i"
    using same_page_aligned [OF al al] u [OF assms(2)] u [of j] that assms(2) by (auto simp: u64_eq_iff_unat)
  show "same_path 3 (va + 4096 * of_nat i) (va + 4096 * of_nat (i - 1))" if "0 < i" "(unat va div 4096 + i) mod 512 \<noteq> 0"
  proof (rule same_path_div)
    have d: "x div 2097152 = x div 4096 div 512" for x :: nat by (simp add: div_mult2_eq [symmetric])
    from that(1) obtain k where k: "i = Suc k" by (cases i) auto
    have "(unat va div 4096 + Suc k) div 512 = (unat va div 4096 + k) div 512"
      using that(2) k div_Suc [of "unat va div 4096 + k" 512] by simp
    then show "unat (va + 4096 * of_nat i) div 2 ^ (48 - 9 * 3) = unat (va + 4096 * of_nat (i - 1)) div 2 ^ (48 - 9 * 3)"
      using pg [of i] pg [of k] assms(2) k d [of "unat (va + 4096 * of_nat i)"] d [of "unat (va + 4096 * of_nat k)"]
      by (simp del: of_nat_Suc)
  qed simp
qed

definition run_ok :: "u64 \<Rightarrow> u64 \<Rightarrow> (nat \<Rightarrow> u64) \<Rightarrow> mem_state \<Rightarrow> nat \<Rightarrow> mem_state \<Rightarrow> bool" where
  "run_ok r va pp s i u \<longleftrightarrow> pool_ok r u \<and> same_else s u \<and>
     pages_mapped (root_trans r s) (root_trans r u) (\<lambda>j. va + 4096 * of_nat j) pp i \<and>
     frames_used u \<le> frames_used s + 3 * touched_2M (unat va div 4096) i \<and>
     (0 < i \<longrightarrow> tab_at (mem_pmem u) r (va + 4096 * of_nat (i - 1)) 3 \<noteq> None)"

lemma run_step:
  assumes run: "run_ok r va pp s i u" and reg: "region_ok va n" and i: "i < n"
    and none: "root_trans r s (va + 4096 * of_nat i) = None" and pa: "pp i mod 4096 = 0" "pp i \<le> VA_48_LOW_END"
    and room: "frames_used s + 3 * touched_2M (unat va div 4096) n \<le> 16384"
  shows "\<exists>u'. map_page r (va + 4096 * of_nat i) (pp i) u = Ret u' \<and> run_ok r va pp s (Suc i) u'"
proof -
  let ?P = "unat va div 4096" and ?v = "va + 4096 * of_nat i"
  note rg = region_okD [OF reg i]
  have u: "pool_ok r u" "same_else s u" "pages_mapped (root_trans r s) (root_trans r u) (\<lambda>j. va + 4096 * of_nat j) pp i"
    "frames_used u \<le> frames_used s + 3 * touched_2M ?P i" "0 < i \<Longrightarrow> tab_at (mem_pmem u) r (va + 4096 * of_nat (i - 1)) 3 \<noteq> None"
    using run by (auto simp: run_ok_def)
  have n: "root_trans r u ?v = None" using u(3) rg(5) none by (auto simp: pages_mapped_def)
  have here: "tab_at (mem_pmem u) r ?v 3 \<noteq> None" if "touched_2M ?P (Suc i) = touched_2M ?P i"
  proof -
    have "0 < i" "(?P + i) mod 512 \<noteq> 0" using that by (auto simp: touched_2M_Suc split: if_splits)
    then show ?thesis using u(5) tab_at_same_path [OF rg(6)] by metis
  qed
  have bl: "touched_2M ?P (Suc i) = touched_2M ?P i \<or> touched_2M ?P (Suc i) = touched_2M ?P i + 1" by (simp add: touched_2M_Suc)
  have "touched_2M ?P (Suc i) \<le> touched_2M ?P n" using i by (intro touched_2M_mono) simp
  then have "frames_used u + 3 \<le> 16384 \<or> tab_at (mem_pmem u) r ?v 3 \<noteq> None" using bl here u(4) room by auto
  from map_page_maps [OF u(1) rg(2,3) n pa this] obtain u' where
    u': "map_page r ?v (pp i) u = Ret u'" "pool_ok r u'" "same_else u u'" "tab_at (mem_pmem u') r ?v 3 \<noteq> None"
      "frames_used u' \<le> (if tab_at (mem_pmem u) r ?v 3 \<noteq> None then frames_used u else frames_used u + 3)"
      "\<And>v. root_trans r u' v = (if canonical v \<and> same_page v ?v then Some (pp i + (v AND 0xfff)) else root_trans r u v)"
    by blast
  have "pages_mapped (root_trans r s) (root_trans r u') (\<lambda>j. va + 4096 * of_nat j) pp (Suc i)"
    using u'(6) by (intro pages_mapped_Suc [OF u(3) rg(5)]) (auto simp: root_trans_def)
  moreover have "frames_used u' \<le> frames_used s + 3 * touched_2M ?P (Suc i)" using u'(5) u(4) here bl by (auto split: if_splits)
  ultimately show ?thesis using u'(1,2,4) same_else_trans [OF u(2) u'(3)] by (auto simp: run_ok_def)
qed

subsection \<open>Lists of ranges\<close>

text \<open>The pages of a list, one after the other.\<close>

abbreviation range_len :: "u64 \<Rightarrow> mem_state \<Rightarrow> nat \<Rightarrow> nat" where
  "range_len pa s k \<equiv> unat (pa_words s (n_pg_cell pa (of_nat k) s))"

definition range_pages :: "u64 \<Rightarrow> mem_state \<Rightarrow> nat \<Rightarrow> u64 list" where
  "range_pages pa s k = map (\<lambda>p. pa_words s (pa_cell pa (of_nat k) s) + 4096 * of_nat p) [0..<range_len pa s k]"

definition pages_upto :: "u64 \<Rightarrow> mem_state \<Rightarrow> nat \<Rightarrow> u64 list" where
  "pages_upto pa s k = concat (map (range_pages pa s) [0..<k])"

definition pa_pages :: "u64 \<Rightarrow> mem_state \<Rightarrow> u64 list" where
  "pa_pages pa s = pages_upto pa s (unat (pa_n pa s))"

lemma length_range_pages [simp]: "length (range_pages pa s k) = range_len pa s k"
  by (simp add: range_pages_def)

lemma pages_upto_Suc: "pages_upto pa s (Suc k) = pages_upto pa s k @ range_pages pa s k"
  by (simp add: pages_upto_def)

lemma pages_upto_split: "k < n \<Longrightarrow> \<exists>zs. pages_upto pa s n = pages_upto pa s k @ range_pages pa s k @ zs"
proof -
  assume "k < n"
  then have "[0..<n] = [0..<k] @ k # [Suc k..<n]" by (metis upt_add_eq_append upt_conv_Cons less_imp_le le0 le_add_diff_inverse)
  then show ?thesis by (auto simp: pages_upto_def)
qed

lemma pages_upto_nth:
  assumes "k < n" "p < range_len pa s k"
  shows "pages_upto pa s n ! (length (pages_upto pa s k) + p) = pa_words s (pa_cell pa (of_nat k) s) + 4096 * of_nat p"
    "length (pages_upto pa s k) + range_len pa s k \<le> length (pages_upto pa s n)"
  using pages_upto_split [OF assms(1), of pa s] assms(2) by (auto simp: nth_append range_pages_def)

lemma pages_upto_le: "k \<le> n \<Longrightarrow> length (pages_upto pa s k) \<le> length (pages_upto pa s n)"
  using pages_upto_split [of k n pa s] by (cases "k = n") auto

lemma pa_list_n_page_length: "pa_list_n_page pa s = of_nat (length (pa_pages pa s))"
proof -
  have "fold (\<lambda>i n_page. n_page + pa_words s (n_pg_cell pa (of_nat i) s)) [0..<k] 0 = (of_nat (length (pages_upto pa s k)) :: u64)" for k
  proof (induction k)
    case (Suc k)
    then show ?case by (simp add: pages_upto_Suc)
  qed (simp add: pages_upto_def)
  then show ?thesis by (simp add: pa_list_n_page_def pa_pages_def)
qed

text \<open>A list that can be mapped: aligned ranges below the end of the low half, and not too many pages.\<close>

definition list_ok :: "u64 \<Rightarrow> mem_state \<Rightarrow> bool" where
  "list_ok pa s \<longleftrightarrow> 0 < unat (pa_n pa s) \<and> (\<forall>k<unat (pa_n pa s). pa_words s (pa_cell pa (of_nat k) s) mod 4096 = 0) \<and>
     (\<forall>x \<in> set (pa_pages pa s). x \<le> VA_48_LOW_END)"

lemma map_impl_loop_runs:
  fixes s :: mem_state and pa va r :: u64
  defines "ps \<equiv> pa_pages pa s" and "N \<equiv> unat (pa_n pa s)"
  assumes ok: "list_ok pa s" and reg: "region_ok va (length ps)"
    and none: "\<And>j. j < length ps \<Longrightarrow> root_trans r s (va + 4096 * of_nat j) = None"
    and room: "frames_used s + 3 * touched_2M (unat va div 4096) (length ps) \<le> 16384"
    and run: "run_ok r va ((!) ps) s (length (pages_upto pa s k) + p) u" "k \<le> N" "k < N \<Longrightarrow> p \<le> range_len pa s k" "k = N \<Longrightarrow> p = 0"
  shows "\<exists>u'. map_impl_loop r va (of_nat (length ps)) pa (of_nat (length (pages_upto pa s k) + p)) (of_nat k) (of_nat p) u = Some (Ret u') \<and>
    run_ok r va ((!) ps) s (length ps) u'"
  using run
proof (induction "(length ps - (length (pages_upto pa s k) + p)) + (N - k)" arbitrary: k p u rule: less_induct)
  case less
  let ?i = "length (pages_upto pa s k) + p"
  have lenN: "length ps = length (pages_upto pa s N)" by (simp add: ps_def pa_pages_def N_def)
  have small: "length ps < 4503599627370496" using reg by (simp add: region_ok_def)
  have le: "?i \<le> length ps"
  proof (cases "k = N")
    case False
    then have "k < N" using less.prems(2) by simp
    then show ?thesis using pages_upto_le [of "Suc k" N pa s] less.prems(3) lenN by (simp add: pages_upto_Suc)
  qed (use less.prems(4) lenN in simp)
  have same: "pa_words u = pa_words s" using less.prems(1) by (simp add: run_ok_def same_else_fields)
  have iu: "unat (of_nat ?i :: u64) = ?i" "unat (of_nat (length ps) :: u64) = length ps" using le small by (simp_all add: unat_of_nat del: of_nat_add)
  show ?case
  proof (cases "?i < length ps")
    case False
    then show ?thesis using less.prems(1) le iu
      by (subst map_impl_loop.simps) (simp add: word_less_nat_alt del: of_nat_add)
  next
    case True
    then have k: "k < N" using less.prems(2,4) lenN by (cases "k = N") auto
    have kN: "unat (of_nat k :: u64) = k" using less_trans [OF k, of "2 ^ 64"] unat_u64_bound [of "pa_n pa s"] by (simp add: N_def unat_of_nat)
    have rn: "rbind (pa_list_n_range pa u) (\<lambda>n. kassert (of_nat k < n) (pa_list_range_n_page pa (of_nat k) u)) =
        Ret (pa_words s (n_pg_cell pa (of_nat k) s))"
      using k kN ok by (simp add: pa_list_n_range_def pa_list_range_n_page_def same word_less_nat_alt N_def list_ok_def)
    have lt: "(of_nat ?i :: u64) < of_nat (length ps)" using True iu by (simp only: word_less_nat_alt)
    show ?thesis
    proof (cases "p < range_len pa s k")
      case p: True
      have pu: "unat (of_nat p :: u64) = p" using p less_trans [OF p unat_u64_bound] by (simp add: unat_of_nat)
      have nth: "ps ! ?i = pa_words s (pa_cell pa (of_nat k) s) + 4096 * of_nat p"
        using pages_upto_nth(1) [OF k p] by (simp add: ps_def pa_pages_def N_def)
      have base: "pa_words s (pa_cell pa (of_nat k) s) mod 4096 = 0" using ok k by (simp add: list_ok_def N_def)
      have "ps ! ?i mod 4096 = 0" "ps ! ?i \<le> VA_48_LOW_END"
        using page_multiple [OF base] ok nth_mem [OF True] unfolding nth by (auto simp: list_ok_def ps_def nth)
      from run_step [OF less.prems(1) reg True none [OF True] this room] obtain u' where
        u': "map_page r (va + 4096 * of_nat ?i) (ps ! ?i) u = Ret u'" "run_ok r va ((!) ps) s (Suc ?i) u'" by blast
      have one: "rbind (pa_list_range_pa pa (of_nat k) u) (\<lambda>pa_0.
          map_page r (va + of_nat ?i * PAGE_SIZE_4K) (pa_0 + of_nat p * PAGE_SIZE_4K) u) = Ret u'"
        using u'(1) k kN base unfolding nth
        by (simp add: pa_list_range_pa_def same word_less_nat_alt N_def mem_align_check_def PAGE_SIZE_4K_def mult.commute [of _ 4096] del: of_nat_add)
      have "\<exists>u''. map_impl_loop r va (of_nat (length ps)) pa (of_nat (length (pages_upto pa s k) + Suc p)) (of_nat k) (of_nat (Suc p)) u' =
          Some (Ret u'') \<and> run_ok r va ((!) ps) s (length ps) u''"
        by (rule less.hyps) (use True u'(2) less.prems(2) k p in auto)
      moreover have "(of_nat p :: u64) < pa_words s (n_pg_cell pa (of_nat k) s)" using p pu by (simp add: word_less_nat_alt)
      moreover have "(of_nat (length (pages_upto pa s k) + Suc p) :: u64) = of_nat ?i + 1" "(of_nat (Suc p) :: u64) = of_nat p + 1" by simp_all
      ultimately show ?thesis
        by (subst map_impl_loop.simps) (simp only: lt rn one if_True sum.case)
    next
      case p: False
      then have eq: "p = range_len pa s k" using less.prems(3) [OF k] by simp
      then have i: "?i = length (pages_upto pa s (Suc k)) + 0" by (simp add: pages_upto_Suc)
      have "\<exists>u''. map_impl_loop r va (of_nat (length ps)) pa (of_nat (length (pages_upto pa s (Suc k)) + 0)) (of_nat (Suc k)) (of_nat 0) u =
          Some (Ret u'') \<and> run_ok r va ((!) ps) s (length ps) u''"
        by (rule less.hyps) (use less.prems(1) k eq in \<open>auto simp: pages_upto_Suc\<close>)
      moreover have "\<not> (of_nat p :: u64) < pa_words s (n_pg_cell pa (of_nat k) s)" by (simp add: eq)
      moreover have "(of_nat (Suc k) :: u64) = of_nat k + 1" "(of_nat 0 :: u64) = 0" by simp_all
      ultimately show ?thesis unfolding i [symmetric]
        by (subst map_impl_loop.simps) (simp only: lt rn if_True if_False sum.case)
    qed
  qed
qed

text \<open>\<open>_map_impl\<close> as a whole.\<close>

lemma map_impl_maps:
  assumes ok: "pool_ok r s" "list_ok pa s" and reg: "region_ok va (length (pa_pages pa s))"
    and none: "\<And>j. j < length (pa_pages pa s) \<Longrightarrow> root_trans r s (va + 4096 * of_nat j) = None"
    and room: "frames_used s + 3 * touched_2M (unat va div 4096) (length (pa_pages pa s)) \<le> 16384"
  shows "\<exists>s'. map_impl r va (of_nat (length (pa_pages pa s))) pa s = Ret s' \<and> run_ok r va ((!) (pa_pages pa s)) s (length (pa_pages pa s)) s'"
proof -
  have "run_ok r va ((!) (pa_pages pa s)) s (length (pages_upto pa s 0) + 0) s" using ok(1) by (simp add: run_ok_def pages_upto_def)
  from map_impl_loop_runs [OF ok(2) reg none room this] obtain s' where
    "map_impl_loop r va (of_nat (length (pa_pages pa s))) pa 0 0 0 s = Some (Ret s')" "run_ok r va ((!) (pa_pages pa s)) s (length (pa_pages pa s)) s'"
    using ok(2) by (auto simp: pages_upto_def list_ok_def)
  then show ?thesis using reg by (simp add: map_impl_def pa_list_n_page_length region_ok_def)
qed

text \<open>
  C3: \<open>mem_page_map\<close> maps a list of physical ranges onto consecutive pages. For a page-aligned, unmapped region
  as long as the list and with enough frames in the pool (three for every 2 MB of the region that is
  touched), it returns; page \<open>j\<close> of the region is translated to page \<open>j\<close> of the list, where empty ranges count
  nothing, and no other translation changes.
\<close>

theorem mem_page_map_maps:
  assumes "0 < boot_stage s" "pool_ok (mem_tab_4 s) s" "mem_cr3 s = mem_tab_4 s" "list_ok pa s" "region_ok va (length (pa_pages pa s))"
    and "\<And>j. j < length (pa_pages pa s) \<Longrightarrow> mem_walk s (va + 4096 * of_nat j) = None"
    and "frames_used s + 3 * touched_2M (unat va div 4096) (length (pa_pages pa s)) \<le> 16384"
  shows "\<exists>s'. mem_page_map va (of_nat (length (pa_pages pa s))) pa s = Ret s' \<and> pool_ok (mem_tab_4 s') s' \<and>
    frames_used s' \<le> frames_used s + 3 * touched_2M (unat va div 4096) (length (pa_pages pa s)) \<and>
    pages_mapped (mem_walk s) (mem_walk s') (\<lambda>j. va + 4096 * of_nat j) ((!) (pa_pages pa s)) (length (pa_pages pa s))"
proof -
  have w: "mem_walk s = root_trans (mem_tab_4 s) s" using assms(3) by (simp add: fun_eq_iff mem_walk_def root_trans_def)
  from map_impl_maps [OF assms(2,4,5) _ assms(7)] obtain s' where
    s': "map_impl (mem_tab_4 s) va (of_nat (length (pa_pages pa s))) pa s = Ret s'"
      "run_ok (mem_tab_4 s) va ((!) (pa_pages pa s)) s (length (pa_pages pa s)) s'"
    using assms(6) w by auto
  then have same: "same_else s s'" by (simp add: run_ok_def)
  have "mem_walk s' = root_trans (mem_tab_4 s) s'" using same_else_fields [OF same] assms(3) by (simp add: fun_eq_iff mem_walk_def root_trans_def)
  then show ?thesis using s' w assms(1) same_else_fields [OF same] by (auto simp: mem_page_map_def run_ok_def mem_stage_defs)
qed

subsection \<open>The address spaces of the two stages\<close>

text \<open>A root table and a pool of the kernel image: usable frames, different from one another.\<close>

definition root_image_ok :: "u64 \<Rightarrow> mem_state \<Rightarrow> bool" where
  "root_image_ok r s \<longleftrightarrow> frame_ok r \<and> (\<forall>i<16384. frame_ok (mem_pool_frame s i) \<and> mem_pool_frame s i \<noteq> r)"

lemma zeroed_root:
  assumes "root_image_ok r s" "boot_stage s < 99" "frames_used s \<le> 16384"
  shows "pool_ok r (mem_tab_zero r s)" "no_small_pages r (mem_tab_zero r s)" "walk_from (mem_pmem (mem_tab_zero r s)) 4 r v = None"
    "same_else s (mem_tab_zero r s)" "frames_used (mem_tab_zero r s) = frames_used s"
proof -
  let ?s = "mem_tab_zero r s"
  have f: "frame_ok r" using assms(1) by (simp add: root_image_ok_def)
  have z: "mem_pmem ?s (r + 8 * i) = 0" if "unat i < 512" for i using page_words [OF f that] by (simp add: mem_tab_zero_def)
  note e = empty_root [where m = "mem_pmem ?s", OF f z]
  show "no_small_pages r ?s"
  proof
    fix w
    show "tab_at (mem_pmem ?s) r w 3 = None" using e(1) [of w 3] by (cases "tab_at (mem_pmem ?s) r w 3") (auto simp del: tab_at.simps)
  qed
  show "walk_from (mem_pmem ?s) 4 r v = None" by (rule e(4))
  show "same_else s ?s" unfolding mem_tab_zero_def by (rule same_else_update)
  show "frames_used ?s = frames_used s" by (simp add: mem_tab_zero_def)
  show "pool_ok r ?s" using assms e(2,3) unfolding pool_ok_def root_image_ok_def
    by (simp add: mem_tab_zero_def mem_stage_defs FRAME_CAP_BOOTSTRAP_def word_le_nat_alt)
qed

lemma mem_tab_load_root_frame: "frame_ok f \<Longrightarrow> mem_tab_load_root f s = Ret (s\<lparr>mem_cr3 := f\<rparr>)"
proof -
  assume f: "frame_ok f"
  have m: "(0x000ffffffffff000 :: u64) = mask 52 AND NOT (mask 12)" by (simp add: mask_eq_exp_minus_1)
  have "f AND 0x000ffffffffff000 = f"
  proof (rule bit_word_eqI)
    fix n
    show "bit (f AND 0x000ffffffffff000) n = bit f n" unfolding m
      using frame_ok_bits [OF frame_okD(1) [OF f] frame_okD(2) [OF f], of n]
      by (auto simp: bit_and_iff bit_not_iff bit_mask_iff)
  qed
  then show ?thesis using frame_okD(1) [OF f] by (simp add: mem_tab_load_root_def)
qed

lemma stage_1_maps:
  assumes "root_image_ok (tab_4_bootstrap s) s" "boot_stage s = 0" "frame_count_bootstrap s = 0"
    and "mem_pa_start s = Ret phy_0" "mem_pa_end s = Ret phy_z"
    and "phy_0 < kern_start_pa s" "kern_start_pa s < kern_end_pa s" "kern_end_pa s < phy_z"
  shows "\<exists>s'. mem_page_bootstrap_1 s = Ret s' \<and> mem_cr3 s' = tab_4_bootstrap s' \<and> frames_used s' \<le> 2048 \<and>
    same_else (s\<lparr>mem_cr3 := tab_4_bootstrap s\<rparr>) s' \<and>
    (\<forall>v. mem_walk s' v = (if unat v < 2 ^ 40 - 2 ^ 21 then Some v else None))"
proof -
  let ?r = "tab_4_bootstrap s" and ?s = "mem_tab_zero (tab_4_bootstrap s) s"
  note z = zeroed_root [OF assms(1)]
  have zs: "pool_ok ?r ?s" "no_small_pages ?r ?s" "identity_upto ?r ?s (2097152 * 0)" "same_else s ?s" "frames_used ?s = 0"
    using z assms(2,3) by simp_all
  have "\<exists>s1. bootstrap_map_loop (big_page 0) ?s = Some (Ret s1) \<and> pool_ok ?r s1 \<and> same_else ?s s1 \<and> frames_used s1 \<le> 2048 \<and>
      identity_upto ?r s1 (2097152 * 524287)"
    by (rule bootstrap_map_loop_maps) (use zs same_else_fields(1) [OF zs(4)] in auto)
  then obtain s1 where s1: "bootstrap_map_loop 0 ?s = Some (Ret s1)" "pool_ok ?r s1" "same_else ?s s1" "frames_used s1 \<le> 2048"
    "identity_upto ?r s1 (2097152 * 524287)" by (auto simp: big_page_def)
  have same: "same_else s s1" by (rule same_else_trans [OF zs(4) s1(3)])
  let ?s' = "s1\<lparr>mem_cr3 := ?r\<rparr>"
  have f: "frame_ok ?r" using assms(1) by (simp add: root_image_ok_def)
  have "mem_page_bootstrap_1 s = Ret ?s'"
    using assms(2,4-8) s1(1) mem_tab_load_root_frame [OF f] same_else_fields(1) [OF same]
    by (simp add: mem_page_bootstrap_1_def mem_pa_ker_start_def mem_pa_ker_end_def mem_stage_defs)
  moreover have "mem_walk ?s' v = (if unat v < 2 ^ 40 - 2 ^ 21 then Some v else None)" for v
    using s1(5) by (auto simp: mem_walk_def canonical_def VA_48_LOW_END_def word_le_nat_alt)
  moreover have "same_else (s\<lparr>mem_cr3 := ?r\<rparr>) ?s'" using same unfolding same_else_def by (cases s; cases s1) simp
  ultimately show ?thesis using s1(4) same_else_fields(1) [OF same] by (intro exI [of _ ?s']) simp
qed

text \<open>
  C12: the bootstrap address space. On a kernel image with its root table and pool in place, and with the
  bounds of kernel and memory in the order the code asserts, \<open>mem_page_bootstrap_1\<close> returns; the processor then
  translates every address below one terabyte less 2 MB to itself and no other address, and the tables
  took at most 2048 of the 16384 frames of the pool.
\<close>

theorem mem_page_bootstrap_1_identity:
  assumes "root_image_ok (tab_4_bootstrap s) s" "boot_stage s = 0" "frame_count_bootstrap s = 0"
    and "mem_pa_start s = Ret phy_0" "mem_pa_end s = Ret phy_z"
    and "phy_0 < kern_start_pa s" "kern_start_pa s < kern_end_pa s" "kern_end_pa s < phy_z"
  shows "\<exists>s'. mem_page_bootstrap_1 s = Ret s' \<and> mem_cr3 s' = tab_4_bootstrap s' \<and> frames_used s' \<le> 2048 \<and>
    same_else (s\<lparr>mem_cr3 := tab_4_bootstrap s\<rparr>) s' \<and>
    (\<forall>v. mem_walk s' v = (if unat v < 2 ^ 40 - 2 ^ 21 then Some v else None))"
  by (rule stage_1_maps [OF assms])

end
