(* ===== verification/Mem_Boot.thy ===== *)
theory Mem_Boot
  imports Mem_Page_Map
begin

text \<open>
  The address space of the second stage of \<open>src/src/mem/mem.c\<close>, and the whole of both stages.
\<close>

subsection \<open>Linear runs\<close>

lemma same_page_div: "same_page a b \<longleftrightarrow> unat a div 4096 = unat b div 4096"
proof -
  have "same_page a b \<longleftrightarrow> drop_bit 12 a = drop_bit 12 b"
  proof
    assume "same_page a b"
    then have b: "bit a (12 + n) = bit b (12 + n)" for n
      using bit_imp_le_length [of a "12 + n"] bit_imp_le_length [of b "12 + n"] by (cases "12 + n < 64") (auto simp: same_page_bits)
    show "drop_bit 12 a = drop_bit 12 b" by (rule bit_word_eqI) (simp add: bit_drop_bit_eq b)
  next
    assume d: "drop_bit 12 a = drop_bit 12 b"
    show "same_page a b" unfolding same_page_bits
    proof (intro allI impI)
      fix n :: nat
      assume "12 \<le> n"
      then obtain j where j: "n = 12 + j" using le_Suc_ex by blast
      show "bit a n = bit b n" using arg_cong [OF d, of "\<lambda>w. bit w j"] unfolding bit_drop_bit_eq comp_apply j .
    qed
  qed
  then show ?thesis by (simp add: u64_eq_iff_unat drop_bit_eq_div unat_div)
qed

lemma same_page_canonical: "same_page v w \<Longrightarrow> canonical w \<Longrightarrow> canonical v"
proof -
  assume p: "same_page v w" and c: "canonical w"
  have d: "unat v div 4096 = unat w div 4096" using p by (simp add: same_page_div)
  have "unat w \<le> 140737488355327 \<or> 18446603336221196288 \<le> unat w"
    using c by (auto simp: canonical_def VA_48_LOW_END_def VA_48_HIGH_START_def word_le_nat_alt)
  then have "unat w div 4096 \<le> 34359738367 \<or> 4503565267632128 \<le> unat w div 4096" by auto
  then have "unat v \<le> 140737488355327 \<or> 18446603336221196288 \<le> unat v" unfolding d [symmetric] by auto
  then show ?thesis by (auto simp: canonical_def VA_48_LOW_END_def VA_48_HIGH_START_def word_le_nat_alt)
qed

lemma unat_offset: "unat (v AND 0xfff :: u64) = unat v mod 4096"
proof -
  have m: "(0xfff :: u64) = mask 12" by (simp add: mask_eq_exp_minus_1)
  show ?thesis unfolding m by (simp add: take_bit_eq_mod unat_mod flip: take_bit_eq_mask)
qed

lemma linear_pages:
  assumes reg: "region_ok va n" and mp: "pages_mapped old new (\<lambda>j. va + 4096 * of_nat j) pp n"
    and pp: "\<And>j. j < n \<Longrightarrow> pp j = p + 4096 * of_nat j"
  shows "new v = (if unat va \<le> unat v \<and> unat v < unat va + 4096 * n then Some (p + (v - va)) else old v)"
proof -
  have al: "unat va mod 4096 = 0" using reg by (simp add: region_ok_def u64_eq_iff_unat unat_mod)
  have pg: "same_page v (va + 4096 * of_nat j) \<longleftrightarrow> unat v div 4096 = unat va div 4096 + j" if "j < n" for j
    using region_okD(4) [OF reg that] by (simp add: same_page_div)
  show ?thesis
  proof (cases "unat va \<le> unat v \<and> unat v < unat va + 4096 * n")
    case True
    define j where "j = unat v div 4096 - unat va div 4096"
    obtain q where q: "unat va = 4096 * q" using al by (auto simp: mod_eq_0_iff_dvd elim: dvdE)
    have j: "j < n" "unat v div 4096 = unat va div 4096 + j" using True q by (auto simp: j_def)
    then have s: "same_page v (va + 4096 * of_nat j)" using pg by simp
    have "canonical v" by (rule same_page_canonical [OF s region_okD(3) [OF reg j(1)]])
    then have n: "new v = Some (p + 4096 * of_nat j + (v AND 0xfff))" using mp s j(1) pp [OF j(1)] by (simp add: pages_mapped_def)
    have "unat (va + 4096 * of_nat j) + unat (v AND 0xfff) = unat v"
      using region_okD(1) [OF reg j(1)] q j(2) div_mult_mod_eq [of "unat v" 4096] by (simp add: unat_offset)
    then have "unat (va + 4096 * of_nat j + (v AND 0xfff)) = unat v"
      using unat_u64_bound [of v] by (subst unat_u64_add) (simp_all only:)
    then have e: "va + 4096 * of_nat j + (v AND 0xfff) = v" by (simp only: u64_eq_iff_unat)
    have "p + (v - va) = p + 4096 * of_nat j + x" if "va + 4096 * of_nat j + x = v" for x using that by auto
    from n [folded this [OF e]] show ?thesis using True by simp
  next
    case False
    have "\<not> same_page v (va + 4096 * of_nat j)" if "j < n" for j
    proof
      assume "same_page v (va + 4096 * of_nat j)"
      then have e: "unat v div 4096 = unat va div 4096 + j" using pg that by simp
      obtain q where q: "unat va = 4096 * q" using al by (auto simp: mod_eq_0_iff_dvd elim: dvdE)
      show False using False e that div_mult_mod_eq [of "unat v" 4096] mod_less_divisor [of 4096 "unat v"] by (simp add: q)
    qed
    then show ?thesis using mp False by (auto simp: pages_mapped_def)
  qed
qed

subsection \<open>A list of one range\<close>

text \<open>The five words of a list with one range.\<close>

definition one_range :: "u64 \<Rightarrow> u64 \<Rightarrow> u64 \<Rightarrow> mem_state \<Rightarrow> bool" where
  "one_range l p n s \<longleftrightarrow> pa_words s l = 1 \<and> pa_words s (l + 8) = l + 24 \<and> pa_words s (l + 16) = l + 32 \<and>
     pa_words s (l + 24) = p \<and> pa_words s (l + 32) = n"

lemma pa_list_new_one:
  assumes "boot_stage s < 99" "unat (pa_list_bootstrap_next s) + 40 \<le> unat (pa_list_bootstrap_pool s) + 1024"
    and "unat (pa_list_bootstrap_pool s) + 1024 < 2 ^ 64"
  shows "\<exists>s'. pa_list_new_bootstrap 1 s = Ret (pa_list_bootstrap_next s, s') \<and>
    one_range (pa_list_bootstrap_next s) (pa_words s (pa_list_bootstrap_next s + 24)) (pa_words s (pa_list_bootstrap_next s + 32)) s' \<and>
    s' = s\<lparr>pa_list_bootstrap_next := pa_list_bootstrap_next s + 40, pa_words := pa_words s'\<rparr>"
proof -
  let ?n = "pa_list_bootstrap_next s"
  have u: "unat (pa_list_bootstrap_pool s + 1024) = unat (pa_list_bootstrap_pool s) + 1024" "unat (?n + 24) = unat ?n + 24"
    "unat (32 + ?n) = 32 + unat ?n" "unat (40 + ?n) = 40 + unat ?n" using assms(2,3) by (subst unat_u64_add; simp)+
  have "?n < pa_list_bootstrap_pool s + 1024" "?n + 24 \<le> pa_list_bootstrap_pool s + 1024" "32 + ?n \<le> pa_list_bootstrap_pool s + 1024"
    "40 + ?n \<le> pa_list_bootstrap_pool s + 1024" using assms(2) u by (simp_all add: word_less_nat_alt word_le_nat_alt)
  then show ?thesis using assms(1)
    by (simp add: pa_list_new_bootstrap_def PA_LIST_CAP_BOOTSTRAP_def sizeof_pa_list_def mem_stage_defs Let_def pa_put_def one_range_def)
qed

lemma pa_list_set_one:
  assumes "one_range l p n s" "p' mod 4096 = 0"
  shows "\<exists>s'. pa_list_set_range l 0 p' n' s = Ret s' \<and> one_range l p' n' s' \<and> s' = s\<lparr>pa_words := pa_words s'\<rparr>"
  using assms by (simp add: pa_list_set_range_def mem_align_check_def PAGE_SIZE_4K_def one_range_def pa_put_def Let_def)

lemma one_range_pages:
  assumes "one_range l p n s"
  shows "pa_pages l s = map (\<lambda>j. p + 4096 * of_nat j) [0..<unat n]"
    "p mod 4096 = 0 \<Longrightarrow> unat p + 4096 * unat n \<le> 2 ^ 47 \<Longrightarrow> list_ok l s"
proof -
  show pg: "pa_pages l s = map (\<lambda>j. p + 4096 * of_nat j) [0..<unat n]"
    using assms by (simp add: pa_pages_def pages_upto_def range_pages_def one_range_def)
  have "p + 4096 * of_nat j \<le> VA_48_LOW_END" if "unat p + 4096 * unat n \<le> 2 ^ 47" "j < unat n" for j
  proof -
    have "unat (4096 * of_nat j :: u64) = 4096 * j" using that by (simp add: unat_u64_mult unat_of_nat)
    then have "unat (p + 4096 * of_nat j) = unat p + 4096 * j" using that by (subst unat_u64_add) auto
    then show ?thesis using that by (simp add: word_le_nat_alt VA_48_LOW_END_def)
  qed
  then show "p mod 4096 = 0 \<Longrightarrow> unat p + 4096 * unat n \<le> 2 ^ 47 \<Longrightarrow> list_ok l s"
    using assms unfolding list_ok_def pg by (auto simp: one_range_def del: mod_0_imp_dvd)
qed

lemma map_one_range:
  assumes ok: "pool_ok r s" "one_range l p n s" and p: "p mod 4096 = 0" "unat p + 4096 * unat n \<le> 2 ^ 47" and reg: "region_ok va (unat n)"
    and none: "\<And>v. unat va \<le> unat v \<Longrightarrow> unat v < unat va + 4096 * unat n \<Longrightarrow> root_trans r s v = None"
    and room: "frames_used s + 3 * touched_2M (unat va div 4096) (unat n) \<le> 16384"
  shows "\<exists>s'. map_impl r va n l s = Ret s' \<and> pool_ok r s' \<and> same_else s s' \<and>
    frames_used s' \<le> frames_used s + 3 * touched_2M (unat va div 4096) (unat n) \<and>
    (\<forall>v. root_trans r s' v = (if unat va \<le> unat v \<and> unat v < unat va + 4096 * unat n then Some (p + (v - va)) else root_trans r s v))"
proof -
  note pg = one_range_pages [OF ok(2)]
  have len: "length (pa_pages l s) = unat n" by (simp add: pg(1))
  have "root_trans r s (va + 4096 * of_nat j) = None" if "j < length (pa_pages l s)" for j
    using none region_okD(1) [OF reg, of j] that by (simp add: len)
  from map_impl_maps [OF ok(1) pg(2) [OF p], of va, unfolded len, OF reg this [unfolded len] room] obtain s' where
    s': "map_impl r va (of_nat (unat n)) l s = Ret s'" "run_ok r va ((!) (pa_pages l s)) s (unat n) s'" by auto
  have "root_trans r s' v = (if unat va \<le> unat v \<and> unat v < unat va + 4096 * unat n then Some (p + (v - va)) else root_trans r s v)" for v
    using s'(2) by (intro linear_pages [OF reg, where pp = "(!) (pa_pages l s)"]) (auto simp: run_ok_def pg(1))
  then show ?thesis using s' by (auto simp: run_ok_def)
qed

subsection \<open>The second address space\<close>

text \<open>
  What the second stage needs: the bounds of the kernel and of the frame buffer below the end of the low
  half, room for one list, and room in the pool for the tables.
\<close>

definition stage_2_ready :: "vesa_state \<Rightarrow> mem_state \<Rightarrow> bool" where
  "stage_2_ready v s \<longleftrightarrow> root_image_ok (mem_tab_4 s) s \<and> boot_stage s < 99 \<and> unat (kern_end_pa s) \<le> 2 ^ 47 \<and>
     vesa_buf v mod 4096 = 0 \<and> d_vesa_get_frame_buffer_len v mod 4096 = 0 \<and>
     unat (vesa_buf v) + unat (d_vesa_get_frame_buffer_len v) \<le> 2 ^ 47 \<and> unat (d_vesa_get_frame_buffer_len v) < 3840 * 4096 \<and>
     unat (pa_list_bootstrap_next s) + 40 \<le> unat (pa_list_bootstrap_pool s) + 1024 \<and> unat (pa_list_bootstrap_pool s) + 1024 < 2 ^ 64 \<and>
     frames_used s + 3 * touched_2M 0 (unat (kern_end_pa s) div 4096) + 3 * touched_2M (unat VA_48_FRAME_BUFFER div 4096) (unat (d_vesa_get_frame_buffer_len v) div 4096) \<le> 16384"

lemma low_region: "n \<le> 34359738368 \<Longrightarrow> region_ok 0 n"
proof -
  assume n: "n \<le> 34359738368"
  have "canonical (4096 * of_nat i)" if "i < n" for i
  proof -
    have "unat (4096 * of_nat i :: u64) = 4096 * i" using that n by (simp add: unat_u64_mult unat_of_nat)
    then show ?thesis using that n by (simp add: canonical_def word_le_nat_alt VA_48_LOW_END_def)
  qed
  then show ?thesis using n by (simp add: region_ok_def)
qed

lemma unat_FRAME_BUFFER: "unat VA_48_FRAME_BUFFER = 18446603336222244864"
  by (simp add: va_layout_defs)

lemma fb_region: "n \<le> 3840 \<Longrightarrow> region_ok VA_48_FRAME_BUFFER n"
proof -
  assume n: "n \<le> 3840"
  have "canonical (VA_48_FRAME_BUFFER + 4096 * of_nat i)" if "i < n" for i
  proof -
    have "unat (4096 * of_nat i :: u64) = 4096 * i" using that n by (simp add: unat_u64_mult unat_of_nat)
    then have "unat (VA_48_FRAME_BUFFER + 4096 * of_nat i) = unat VA_48_FRAME_BUFFER + 4096 * i"
      using that n unat_FRAME_BUFFER by (subst unat_u64_add) auto
    then show ?thesis by (simp add: canonical_def word_le_nat_alt VA_48_HIGH_START_def unat_FRAME_BUFFER)
  qed
  moreover have "VA_48_FRAME_BUFFER mod 4096 = 0" by (simp add: va_layout_defs)
  ultimately show ?thesis using n by (simp add: region_ok_def unat_FRAME_BUFFER)
qed

lemma pa_words_update:
  assumes "s' = s\<lparr>pa_list_bootstrap_next := x, pa_words := w\<rparr>"
  shows "pool_ok r s' = pool_ok r s" "root_trans r s' = root_trans r s" "frames_used s' = frames_used s" "mem_tab_4 s' = mem_tab_4 s" "boot_stage s' = boot_stage s"
  using assms by (simp_all add: pool_ok_def root_trans_def fun_eq_iff)

text \<open>The two halves of the second stage: the pages of the kernel, then those of the frame buffer.\<close>

lemma stage_2_kernel:
  assumes "stage_2_ready v s"
  shows "\<exists>s1 s2 s3. pa_list_new_bootstrap 1 (mem_tab_zero (mem_tab_4 s) s) = Ret (pa_list_bootstrap_next s, s1) \<and>
    pa_list_set_range (pa_list_bootstrap_next s) 0 0 (kern_end_pa s div 4096) s1 = Ret s2 \<and>
    map_impl (mem_tab_4 s) 0 (kern_end_pa s div 4096) (pa_list_bootstrap_next s) s2 = Ret s3 \<and>
    pool_ok (mem_tab_4 s) s3 \<and> one_range (pa_list_bootstrap_next s) 0 (kern_end_pa s div 4096) s3 \<and>
    frames_used s3 \<le> frames_used s + 3 * touched_2M 0 (unat (kern_end_pa s) div 4096) \<and>
    (\<forall>a. root_trans (mem_tab_4 s) s3 a = (if unat a < 4096 * (unat (kern_end_pa s) div 4096) then Some a else None)) \<and>
    kern_end_pa (mem_tab_zero (mem_tab_4 s) s) = kern_end_pa s \<and> mem_tab_4 s2 = mem_tab_4 s \<and> mem_tab_4 s3 = mem_tab_4 s \<and> boot_stage s3 = boot_stage s"
proof -
  let ?r = "mem_tab_4 s" and ?s0 = "mem_tab_zero (mem_tab_4 s) s" and ?l = "pa_list_bootstrap_next s"
  let ?K = "kern_end_pa s div 4096"
  note rd = assms [unfolded stage_2_ready_def]
  have K: "unat ?K = unat (kern_end_pa s) div 4096" by (simp add: unat_div)
  have "frames_used s \<le> 16384" using rd by linarith
  note z = zeroed_root [OF conjunct1 [OF rd] _ this]
  have s0: "pool_ok ?r ?s0" "root_trans ?r ?s0 a = None" "frames_used ?s0 = frames_used s" "same_else s ?s0" for a
    using z rd by (auto simp: root_trans_def)
  note f0 = same_else_fields [OF s0(4)]
  obtain s1 p0 n0 where s1: "pa_list_new_bootstrap 1 ?s0 = Ret (?l, s1)" "one_range ?l p0 n0 s1"
    "s1 = ?s0\<lparr>pa_list_bootstrap_next := ?l + 40, pa_words := pa_words s1\<rparr>"
    using pa_list_new_one [of ?s0] rd f0 by auto
  obtain s2 where s2: "pa_list_set_range ?l 0 0 ?K s1 = Ret s2" "one_range ?l 0 ?K s2" "s2 = s1\<lparr>pa_words := pa_words s2\<rparr>"
    using pa_list_set_one [OF s1(2), of 0 ?K] by auto
  have e2: "s2 = ?s0\<lparr>pa_list_bootstrap_next := ?l + 40, pa_words := pa_words s2\<rparr>"
    by (subst s2(3), subst s1(3)) simp
  note p2 = pa_words_update [OF e2]
  have "\<exists>s3. map_impl ?r 0 ?K ?l s2 = Ret s3 \<and> pool_ok ?r s3 \<and> same_else s2 s3 \<and>
      frames_used s3 \<le> frames_used s2 + 3 * touched_2M (unat (0 :: u64) div 4096) (unat ?K) \<and>
      (\<forall>a. root_trans ?r s3 a = (if unat (0 :: u64) \<le> unat a \<and> unat a < unat (0 :: u64) + 4096 * unat ?K then Some (0 + (a - 0)) else root_trans ?r s2 a))"
    by (rule map_one_range [OF _ s2(2)]) (use rd s0 in \<open>auto simp: p2 K intro!: low_region\<close>)
  then obtain s3 where s3: "map_impl ?r 0 ?K ?l s2 = Ret s3" "pool_ok ?r s3" "same_else s2 s3"
      "frames_used s3 \<le> frames_used s + 3 * touched_2M 0 (unat ?K)" "\<And>a. root_trans ?r s3 a = (if unat a < 4096 * unat ?K then Some a else None)"
    using s0(2,3) by (auto simp: p2)
  note f3 = same_else_fields [OF s3(3)]
  have "one_range ?l 0 ?K s3" using s2(2) f3(5) by (simp add: one_range_def)
  then show ?thesis using s1(1) s2(1) s3 f0 f3 unfolding K [symmetric] by (auto simp: p2)
qed

lemma stage_2_frame_buffer:
  assumes "stage_2_ready v s" and ok: "pool_ok r s3" "one_range l p n s3"
    and used: "frames_used s3 \<le> frames_used s + 3 * touched_2M 0 (unat (kern_end_pa s) div 4096)"
    and trans3: "\<forall>a. root_trans r s3 a = (if unat a < 4096 * (unat (kern_end_pa s) div 4096) then Some a else None)"
  shows "\<exists>s4 s5. pa_list_set_range l 0 (vesa_buf v) (d_vesa_get_frame_buffer_len v div 4096) s3 = Ret s4 \<and>
    map_impl r VA_48_FRAME_BUFFER (d_vesa_get_frame_buffer_len v div 4096) l s4 = Ret s5 \<and> pool_ok r s5 \<and>
    (\<forall>a. root_trans r s5 a =
      (if unat a < 4096 * (unat (kern_end_pa s) div 4096) then Some a
       else if unat VA_48_FRAME_BUFFER \<le> unat a \<and> unat a < unat VA_48_FRAME_BUFFER + unat (d_vesa_get_frame_buffer_len v)
         then Some (vesa_buf v + (a - VA_48_FRAME_BUFFER))
       else None)) \<and>
    mem_tab_4 s4 = mem_tab_4 s3 \<and> mem_tab_4 s5 = mem_tab_4 s3 \<and> boot_stage s5 = boot_stage s3"
proof -
  let ?F = "d_vesa_get_frame_buffer_len v div 4096" and ?K = "unat (kern_end_pa s) div 4096"
  note rd = assms(1) [unfolded stage_2_ready_def]
  have F: "unat ?F = unat (d_vesa_get_frame_buffer_len v) div 4096" by (simp add: unat_div)
  have vb: "vesa_buf v mod 4096 = 0" using rd by simp
  obtain s4 where s4: "pa_list_set_range l 0 (vesa_buf v) ?F s3 = Ret s4" "one_range l (vesa_buf v) ?F s4" "s4 = s3\<lparr>pa_words := pa_words s4\<rparr>"
    using pa_list_set_one [OF ok(2) vb, of ?F] by blast
  have "s4 = s3\<lparr>pa_list_bootstrap_next := pa_list_bootstrap_next s3, pa_words := pa_words s4\<rparr>" by (subst s4(3)) simp
  note p4 = pa_words_update [OF this]
  have Fn: "unat ?F \<le> 3840" "unat (vesa_buf v) + 4096 * unat ?F \<le> 2 ^ 47" "4096 * unat ?F = unat (d_vesa_get_frame_buffer_len v)"
  proof -
    have "4096 dvd unat (d_vesa_get_frame_buffer_len v)" using rd by (simp add: u64_eq_iff_unat unat_mod mod_eq_0_iff_dvd)
    then show "4096 * unat ?F = unat (d_vesa_get_frame_buffer_len v)" by (simp add: F)
    then show "unat ?F \<le> 3840" "unat (vesa_buf v) + 4096 * unat ?F \<le> 2 ^ 47" using rd by auto
  qed
  have high: "\<not> unat a < 4096 * ?K" if "unat VA_48_FRAME_BUFFER \<le> unat a" for a
    using that rd unfolding unat_FRAME_BUFFER by auto
  have "\<exists>s5. map_impl r VA_48_FRAME_BUFFER ?F l s4 = Ret s5 \<and> pool_ok r s5 \<and> same_else s4 s5 \<and>
      frames_used s5 \<le> frames_used s4 + 3 * touched_2M (unat VA_48_FRAME_BUFFER div 4096) (unat ?F) \<and>
      (\<forall>a. root_trans r s5 a = (if unat VA_48_FRAME_BUFFER \<le> unat a \<and> unat a < unat VA_48_FRAME_BUFFER + 4096 * unat ?F
        then Some (vesa_buf v + (a - VA_48_FRAME_BUFFER)) else root_trans r s4 a))"
  proof (rule map_one_range [OF _ s4(2)])
    show "frames_used s4 + 3 * touched_2M (unat VA_48_FRAME_BUFFER div 4096) (unat ?F) \<le> 16384" using rd used by (simp add: p4 F)
  qed (use rd Fn ok(1) trans3 high in \<open>auto simp: p4 intro!: fb_region\<close>)
  then obtain s5 where s5: "map_impl r VA_48_FRAME_BUFFER ?F l s4 = Ret s5" "pool_ok r s5" "same_else s4 s5"
      "\<And>a. root_trans r s5 a = (if unat VA_48_FRAME_BUFFER \<le> unat a \<and> unat a < unat VA_48_FRAME_BUFFER + 4096 * unat ?F
        then Some (vesa_buf v + (a - VA_48_FRAME_BUFFER)) else root_trans r s4 a)" by blast
  have "root_trans r s5 a =
      (if unat a < 4096 * ?K then Some a
       else if unat VA_48_FRAME_BUFFER \<le> unat a \<and> unat a < unat VA_48_FRAME_BUFFER + unat (d_vesa_get_frame_buffer_len v)
         then Some (vesa_buf v + (a - VA_48_FRAME_BUFFER))
       else None)" for a
    using s5(4) [of a] trans3 p4(2) Fn(3) high [of a] by auto
  then show ?thesis using s4(1) s5(1,2) same_else_fields [OF s5(3)] by (auto simp: p4)
qed

lemma stage_2_maps:
  assumes "stage_2_ready v s"
  shows "\<exists>s'. mem_page_bootstrap_2 v s = Ret (s', v\<lparr>vesa_buf := VA_48_FRAME_BUFFER\<rparr>) \<and> mem_cr3 s' = mem_tab_4 s' \<and> pool_ok (mem_tab_4 s') s' \<and>
    boot_stage s' = boot_stage s \<and>
    (\<forall>a. mem_walk s' a =
      (if unat a < 4096 * (unat (kern_end_pa s) div 4096) then Some a
       else if unat VA_48_FRAME_BUFFER \<le> unat a \<and> unat a < unat VA_48_FRAME_BUFFER + unat (d_vesa_get_frame_buffer_len v)
         then Some (vesa_buf v + (a - VA_48_FRAME_BUFFER))
       else None))"
proof -
  let ?r = "mem_tab_4 s" and ?l = "pa_list_bootstrap_next s"
  note rd = assms [unfolded stage_2_ready_def]
  obtain s1 s2 s3 where k: "pa_list_new_bootstrap 1 (mem_tab_zero ?r s) = Ret (?l, s1)" "pa_list_set_range ?l 0 0 (kern_end_pa s div 4096) s1 = Ret s2"
      "map_impl ?r 0 (kern_end_pa s div 4096) ?l s2 = Ret s3" "pool_ok ?r s3" "one_range ?l 0 (kern_end_pa s div 4096) s3"
      "frames_used s3 \<le> frames_used s + 3 * touched_2M 0 (unat (kern_end_pa s) div 4096)"
      "\<forall>a. root_trans ?r s3 a = (if unat a < 4096 * (unat (kern_end_pa s) div 4096) then Some a else None)"
      "kern_end_pa (mem_tab_zero ?r s) = kern_end_pa s" "mem_tab_4 s2 = ?r" "mem_tab_4 s3 = ?r" "boot_stage s3 = boot_stage s"
    using stage_2_kernel [OF assms] by blast
  obtain s4 s5 where f: "pa_list_set_range ?l 0 (vesa_buf v) (d_vesa_get_frame_buffer_len v div 4096) s3 = Ret s4"
      "map_impl ?r VA_48_FRAME_BUFFER (d_vesa_get_frame_buffer_len v div 4096) ?l s4 = Ret s5" "pool_ok ?r s5"
      "mem_tab_4 s4 = ?r" "mem_tab_4 s5 = ?r" "boot_stage s5 = boot_stage s"
      and w: "\<And>a. root_trans ?r s5 a =
        (if unat a < 4096 * (unat (kern_end_pa s) div 4096) then Some a
         else if unat VA_48_FRAME_BUFFER \<le> unat a \<and> unat a < unat VA_48_FRAME_BUFFER + unat (d_vesa_get_frame_buffer_len v)
           then Some (vesa_buf v + (a - VA_48_FRAME_BUFFER)) else None)"
    using stage_2_frame_buffer [OF assms k(4-7)] k(10,11) by auto
  let ?s' = "s5\<lparr>mem_cr3 := ?r\<rparr>"
  have "frame_ok ?r" using rd by (simp add: root_image_ok_def)
  note ld = mem_tab_load_root_frame [OF this, of s5]
  have len: "d_vesa_get_frame_buffer_len v < VA_48_FRAME_BUFFER_END - VA_48_FRAME_BUFFER"
    using rd by (simp add: word_less_nat_alt VA_48_FRAME_BUFFER_END_def va_layout_defs)
  have "mem_page_bootstrap_2 v s = Ret (?s', v\<lparr>vesa_buf := VA_48_FRAME_BUFFER\<rparr>)"
    using k f ld rd len
    by (simp add: mem_page_bootstrap_2_def mem_pa_ker_end_def PAGE_SIZE_4K_def mem_align_check_def d_vesa_get_frame_buffer_def
        d_vesa_set_frame_buffer_def pa_list_free_bootstrap_def Let_def)
  moreover have "mem_walk ?s' a = root_trans ?r s5 a" for a by (simp add: mem_walk_def root_trans_def)
  moreover have "pool_ok ?r ?s'" using f(3) by (simp add: pool_ok_def)
  ultimately show ?thesis using w f(5,6) by (intro exI [of _ ?s']) simp
qed

text \<open>
  C4: the address space the kernel runs in. From a state of the first stage that is ready for it,
  \<open>mem_page_bootstrap_2\<close> returns with the new tables loaded; the processor then translates the whole pages
  below the end of the kernel to themselves and the frame buffer's place in the high half to the frame
  buffer, and nothing else. The last page of the kernel is mapped only if the kernel ends on a page boundary.
\<close>

theorem mem_page_bootstrap_2_maps:
  assumes "stage_2_ready v s"
  shows "\<exists>s'. mem_page_bootstrap_2 v s = Ret (s', v\<lparr>vesa_buf := VA_48_FRAME_BUFFER\<rparr>) \<and> mem_cr3 s' = mem_tab_4 s' \<and> pool_ok (mem_tab_4 s') s' \<and>
    boot_stage s' = boot_stage s \<and>
    (\<forall>a. mem_walk s' a =
      (if unat a < 4096 * (unat (kern_end_pa s) div 4096) then Some a
       else if unat VA_48_FRAME_BUFFER \<le> unat a \<and> unat a < unat VA_48_FRAME_BUFFER + unat (d_vesa_get_frame_buffer_len v)
         then Some (vesa_buf v + (a - VA_48_FRAME_BUFFER))
       else None))"
  by (rule stage_2_maps [OF assms])

subsection \<open>A machine\<close>

text \<open>1 GB of memory from 1 MB on, and a kernel from 2 MB to 80 MB.\<close>

definition sample_stage :: "nat \<Rightarrow> mem_state" where
  "sample_stage k = sample_mem\<lparr>boot_stage := k, sections := [\<lparr>st_base = 0x100000, st_len = 0x40000000\<rparr>],
     kern_start_pa := 0x200000, kern_end_pa := 0x5000000, pa_list_bootstrap_next := 0x202000\<rparr>"

lemma sample_image:
  "frame_pool_bootstrap s = 0x210000 \<Longrightarrow> root_image_ok 0x200000 s" "frame_pool_bootstrap s = 0x210000 \<Longrightarrow> root_image_ok 0x201000 s"
proof -
  assume p: "frame_pool_bootstrap s = 0x210000"
  have u: "unat (mem_pool_frame s i) = 2162688 + 4096 * i" if "i < 16384" for i
  proof -
    have "unat (of_nat i * 4096 :: u64) = 4096 * i" using that by (simp add: unat_u64_mult unat_of_nat)
    then show ?thesis using that by (simp add: p unat_u64_add)
  qed
  have d: "4096 dvd 2162688 + 4096 * i" for i :: nat by (intro dvd_add) auto
  have ok: "frame_ok (mem_pool_frame s i)" "mem_pool_frame s i \<noteq> 0x200000" "mem_pool_frame s i \<noteq> 0x201000" if "i < 16384" for i
    using u [OF that] d that unfolding frame_ok_unat by (auto simp: u64_eq_iff_unat)
  show "root_image_ok 0x200000 s" "root_image_ok 0x201000 s"
    using ok by (simp_all add: root_image_ok_def frame_ok_def VA_48_LOW_END_def)
qed

theorem mem_page_bootstrap_1_identity_witness:
  "\<exists>s'. mem_page_bootstrap_1 (sample_stage 0) = Ret s' \<and> mem_walk s' 0x12345678 = Some 0x12345678 \<and> mem_walk s' 0xFFFFE00000 = None"
proof -
  have "\<exists>s'. mem_page_bootstrap_1 (sample_stage 0) = Ret s' \<and> mem_cr3 s' = tab_4_bootstrap s' \<and> frames_used s' \<le> 2048 \<and>
    same_else (sample_stage 0\<lparr>mem_cr3 := tab_4_bootstrap (sample_stage 0)\<rparr>) s' \<and>
    (\<forall>v. mem_walk s' v = (if unat v < 2 ^ 40 - 2 ^ 21 then Some v else None))"
    by (rule mem_page_bootstrap_1_identity [of "sample_stage 0" "0x100000" "0x40100000"])
      (simp_all add: sample_stage_def sample_mem_def sample_image mem_pa_start_def mem_pa_end_def)
  then show ?thesis by auto
qed

lemma sample_len: "d_vesa_get_frame_buffer_len sample_vesa = 0x300000"
  by (simp add: sample_vesa_def d_vesa_get_frame_buffer_len_def)

lemma sample_ready: "stage_2_ready sample_vesa (sample_stage 1)"
  unfolding stage_2_ready_def sample_len
  by (simp add: sample_stage_def sample_mem_def sample_image sample_vesa_def touched_2M_def unat_FRAME_BUFFER)

theorem mem_page_bootstrap_2_maps_witness:
  "\<exists>s'. mem_page_bootstrap_2 sample_vesa (sample_stage 1) = Ret (s', sample_vesa\<lparr>vesa_buf := VA_48_FRAME_BUFFER\<rparr>) \<and>
     mem_walk s' 0x4FFFFFF = Some 0x4FFFFFF \<and> mem_walk s' 0x5000000 = None \<and> mem_walk s' (VA_48_FRAME_BUFFER + 5) = Some 0xFD000005"
proof -
  have u: "unat (VA_48_FRAME_BUFFER + 5) = unat VA_48_FRAME_BUFFER + 5" by (simp add: unat_FRAME_BUFFER unat_u64_add)
  have "kern_end_pa (sample_stage 1) = 0x5000000" "vesa_buf sample_vesa = 0xFD000000" by (simp_all add: sample_stage_def sample_vesa_def)
  then show ?thesis using mem_page_bootstrap_2_maps [OF sample_ready] u by (auto simp: sample_len unat_FRAME_BUFFER)
qed

text \<open>A list of an empty range and a range of two pages.\<close>

definition sample_list :: "mem_state \<Rightarrow> mem_state" where
  "sample_list s = s\<lparr>pa_words := (\<lambda>_. 0)(0x202000 := 2, 0x202008 := 0x202018, 0x202010 := 0x202028,
     0x202018 := 0x300000, 0x202020 := 0x400000, 0x202028 := 0, 0x202030 := 2)\<rparr>"

theorem mem_page_map_maps_witness:
  "\<exists>s'. mem_page_map VA_48_FRAME_BUFFER 2 0x202000
      (sample_list (mem_tab_zero 0x201000 (sample_stage 2))\<lparr>mem_cr3 := 0x201000\<rparr>) = Ret s' \<and>
     mem_walk s' (VA_48_FRAME_BUFFER + 4096) = Some 0x401000"
proof -
  let ?z = "mem_tab_zero 0x201000 (sample_stage 2)" and ?s = "sample_list (mem_tab_zero 0x201000 (sample_stage 2))\<lparr>mem_cr3 := 0x201000\<rparr>"
  have im: "root_image_ok 0x201000 (sample_stage 2)" by (rule sample_image) (simp add: sample_stage_def sample_mem_def)
  have z: "pool_ok 0x201000 ?z" "walk_from (mem_pmem ?z) 4 0x201000 v = None" for v
    using zeroed_root [OF im] by (simp_all add: sample_stage_def sample_mem_def)
  have s: "pool_ok 0x201000 ?s" "mem_tab_4 ?s = 0x201000" "boot_stage ?s = 2" "mem_walk ?s v = None" "frames_used ?s = 0" for v
    using z by (simp_all add: pool_ok_def mem_walk_def sample_list_def) (simp_all add: mem_tab_zero_def sample_stage_def sample_mem_def)
  have w: "pa_words ?s = (\<lambda>_. 0)(0x202000 := 2, 0x202008 := 0x202018, 0x202010 := 0x202028,
     0x202018 := 0x300000, 0x202020 := 0x400000, 0x202028 := 0, 0x202030 := 2)" by (simp add: sample_list_def)
  have two: "[0..<2] = [0, 1::nat]" by (simp add: upt_rec)
  have pg: "pa_pages 0x202000 ?s = [0x400000, 0x401000]"
    unfolding pa_pages_def pages_upto_def range_pages_def w by (simp add: two)
  have l: "list_ok 0x202000 ?s" unfolding list_ok_def pg w by (auto simp: VA_48_LOW_END_def less_2_cases_iff)
  have "\<exists>s'. mem_page_map VA_48_FRAME_BUFFER (of_nat (length (pa_pages 0x202000 ?s))) 0x202000 ?s = Ret s' \<and> pool_ok (mem_tab_4 s') s' \<and>
    frames_used s' \<le> frames_used ?s + 3 * touched_2M (unat VA_48_FRAME_BUFFER div 4096) (length (pa_pages 0x202000 ?s)) \<and>
    pages_mapped (mem_walk ?s) (mem_walk s') (\<lambda>j. VA_48_FRAME_BUFFER + 4096 * of_nat j) ((!) (pa_pages 0x202000 ?s)) (length (pa_pages 0x202000 ?s))"
    by (rule mem_page_map_maps) (use s l in \<open>simp_all add: pg fb_region touched_2M_def unat_FRAME_BUFFER\<close>)
  then obtain s' where s': "mem_page_map VA_48_FRAME_BUFFER 2 0x202000 ?s = Ret s'"
    "pages_mapped (mem_walk ?s) (mem_walk s') (\<lambda>j. VA_48_FRAME_BUFFER + 4096 * of_nat j) ((!) [0x400000, 0x401000]) 2"
    unfolding pg by (auto simp: numeral_2_eq_2)
  note m = s'(2) [unfolded pages_mapped_def, THEN conjunct1, rule_format, of 1 "VA_48_FRAME_BUFFER + 4096 * of_nat 1"]
  have "mem_walk s' (VA_48_FRAME_BUFFER + 4096 * of_nat 1) = Some ([0x400000, 0x401000] ! 1 + ((VA_48_FRAME_BUFFER + 4096 * of_nat 1) AND 0xfff))"
    by (rule m) (use region_okD(3) [OF fb_region [of 2], of 1] in \<open>simp_all add: same_page_def\<close>)
  then show ?thesis using s'(1) by (simp add: va_layout_defs)
qed

end
