(* ===== verification/Mem_Heap.thy ===== *)
theory Mem_Heap
  imports Mem_Frame_Map
begin

text \<open>
  \<open>src/src/mem/mem_heap.c\<close>: a heap of pages whose free lists are kept in a map of 64-bit words beside it. The
  map is the array \<open>hp_map\<close>; an access outside it stops with \<open>OutOfBounds\<close>. The file has no operation
  that allocates yet; the only entry point is \<open>mem_heap_new_bootstrap\<close>.
\<close>

record mem_heap =
  add_0 :: u64
  add_z :: u64
  map_addr :: u64
  hp_map :: "u64 list"
  map_size :: u64

definition CLASS_MAX :: u64 where "CLASS_MAX = 15"
definition BOOTSTRAP_BUFF_SIZE :: u64 where "BOOTSTRAP_BUFF_SIZE = 65536"
definition MAP_NULL :: u64 where "MAP_NULL = 0xFFFFFFFFFFFFFFFF"

definition hm_get :: "u64 \<Rightarrow> mem_heap \<Rightarrow> u64 res" where
  "hm_get i h = inbounds (unat i < length (hp_map h)) (Ret (hp_map h ! unat i))"

definition hm_set :: "u64 \<Rightarrow> u64 \<Rightarrow> mem_heap \<Rightarrow> mem_heap res" where
  "hm_set i x h = inbounds (unat i < length (hp_map h)) (Ret (h\<lparr>hp_map := (hp_map h)[unat i := x]\<rparr>))"

definition page_max :: "mem_heap \<Rightarrow> u64" where
  "page_max h = (add_z h - add_0 h) div PAGE_SIZE_4K"

definition map_header_len :: u64 where
  "map_header_len = 8 * 2 * (CLASS_MAX + 1)"

definition map_max_heap :: "u64 \<Rightarrow> u64 res" where
  "map_max_heap sz =
     kassert (sz mod PAGE_SIZE_4K = 0)
       (let sz = sz - map_header_len in
        kassert (sz mod (8 * 2) = 0) (Ret (sz div (8 * 2 * 2) * PAGE_SIZE_4K)))"

definition map_slot_max :: "mem_heap \<Rightarrow> u64" where
  "map_slot_max h = (map_size h - map_header_len) div 2"

definition map_slot_idx :: "mem_heap \<Rightarrow> u64 \<Rightarrow> u64 res" where
  "map_slot_idx h slt = kassert (slt < map_slot_max h) (Ret (map_header_len + slt * 2))"

definition map_slot_set_slot :: "u64 \<Rightarrow> u64 \<Rightarrow> mem_heap \<Rightarrow> mem_heap res" where
  "map_slot_set_slot slt set_slot h =
     kassert (slt < map_slot_max h)
     (kassert (set_slot = MAP_NULL \<or> set_slot < map_slot_max h)
     (rbind (map_slot_idx h slt) (\<lambda>idx.
      rbind (hm_set idx set_slot h) (\<lambda>h.
      rbind (map_slot_idx h slt) (\<lambda>idx. hm_set (idx + 1) set_slot h)))))"

definition map_slot_set_page :: "u64 \<Rightarrow> u64 \<Rightarrow> mem_heap \<Rightarrow> mem_heap res" where
  "map_slot_set_page slt page h =
     kassert (slt < map_slot_max h)
     (kassert (page = MAP_NULL \<or> page < page_max h)
     (rbind (map_slot_idx h slt) (\<lambda>idx. hm_set idx page h)))"

definition map_slot_set_next :: "u64 \<Rightarrow> u64 \<Rightarrow> mem_heap \<Rightarrow> mem_heap res" where
  "map_slot_set_next slt nxt h =
     kassert (slt < map_slot_max h)
     (kassert (nxt = MAP_NULL \<or> nxt < map_slot_max h)
     (rbind (map_slot_idx h slt) (\<lambda>idx. hm_set (idx + 1) nxt h)))"

definition map_slot_get_page :: "u64 \<Rightarrow> mem_heap \<Rightarrow> u64 res" where
  "map_slot_get_page slt h =
     kassert (slt < map_slot_max h) (rbind (map_slot_idx h slt) (\<lambda>idx. hm_get idx h))"

definition map_slot_get_next :: "u64 \<Rightarrow> mem_heap \<Rightarrow> u64 res" where
  "map_slot_get_next slt h =
     kassert (slt < map_slot_max h) (rbind (map_slot_idx h slt) (\<lambda>idx. hm_get (idx + 1) h))"

definition map_slots_idx :: u64 where
  "map_slots_idx = CLASS_MAX * 2"

definition map_slots_dequeue :: "mem_heap \<Rightarrow> (u64 \<times> mem_heap) res" where
  "map_slots_dequeue h =
     (let head = map_slots_idx in
      rbind (hm_get head h) (\<lambda>slt. kassert (slt \<noteq> MAP_NULL)
      (rbind (hm_get (head + 1) h) (\<lambda>tail. kassert (tail \<noteq> MAP_NULL)
      (kassert (slt < map_slot_max h)
      (rbind (map_slot_get_next slt h) (\<lambda>nxt.
       rbind (map_slot_get_page slt h) (\<lambda>page. kassert (page = nxt)
       (rbind (if nxt = MAP_NULL then
                 kassert (slt = tail) (rbind (hm_set head MAP_NULL h) (hm_set (head + 1) MAP_NULL))
               else kassert (slt \<noteq> tail) (hm_set head nxt h)) (\<lambda>h. Ret (nxt, h)))))))))))"

definition map_slots_enqueue :: "u64 \<Rightarrow> mem_heap \<Rightarrow> mem_heap res" where
  "map_slots_enqueue slt h =
     kassert (slt < map_slot_max h)
     (let head = map_slots_idx in
      rbind (hm_get head h) (\<lambda>first.
      rbind (hm_get (head + 1) h) (\<lambda>tail_slot.
      if first = MAP_NULL then
        kassert (tail_slot = MAP_NULL)
        (rbind (hm_set head slt h) (\<lambda>h.
         rbind (hm_set (head + 1) slt h) (\<lambda>h.
         rbind (map_slot_set_page slt MAP_NULL h) (map_slot_set_next slt MAP_NULL))))
      else
        kassert (tail_slot \<noteq> MAP_NULL)
        (kassert (tail_slot < map_slot_max h)
        (rbind (map_slot_get_next tail_slot h) (\<lambda>nxt. kassert (nxt = MAP_NULL)
        (rbind (map_slot_get_page tail_slot h) (\<lambda>page. kassert (page = MAP_NULL)
        (rbind (map_slot_set_page slt MAP_NULL h) (\<lambda>h.
         rbind (map_slot_set_next slt MAP_NULL h) (map_slot_set_slot tail_slot slt)))))))))))"

definition map_list_idx :: "u64 \<Rightarrow> u64 res" where
  "map_list_idx list = kassert (list < CLASS_MAX) (Ret (list * 2))"

definition map_list_enqueue :: "u64 \<Rightarrow> u64 \<Rightarrow> mem_heap \<Rightarrow> mem_heap res" where
  "map_list_enqueue pg_0 cls h =
     kassert (cls < CLASS_MAX)
     (rbind (util_math_2_exp (ucast cls)) (\<lambda>e. kassert (pg_0 mod e = 0)
     (rbind (map_list_idx cls) (\<lambda>head.
      rbind (map_slots_dequeue h) (\<lambda>(slt, h).
      rbind (map_slot_set_page slt pg_0 h) (\<lambda>h.
      rbind (map_slot_set_next slt MAP_NULL h) (\<lambda>h.
      rbind (hm_get head h) (\<lambda>first.
      rbind (hm_get (head + 1) h) (\<lambda>tail_slot.
      if first = MAP_NULL then
        kassert (tail_slot = MAP_NULL) (rbind (hm_set head slt h) (hm_set (head + 1) slt))
      else
        kassert (tail_slot \<noteq> MAP_NULL)
        (rbind (map_slot_get_next tail_slot h) (\<lambda>nxt. kassert (nxt = MAP_NULL) (map_slot_set_next tail_slot slt h))))))))))))"

partial_function (option) cut_loop :: "u64 \<Rightarrow> u64 \<Rightarrow> mem_heap \<Rightarrow> mem_heap res option" where
  "cut_loop sz ct h =
     (if ct < sz \<and> sz - ct \<ge> PAGE_SIZE_4K then
        (case rbind (util_math_log_2_down (sz - ct)) (\<lambda>cls.
                kassert (cls < CLASS_MAX)
                (rbind (util_math_2_exp (ucast cls)) (\<lambda>e.
                 kassert (ct div PAGE_SIZE_4K mod e = 0)
                 (rbind (map_list_enqueue (ct div PAGE_SIZE_4K) cls h) (\<lambda>h. Ret (e, h)))))) of
           Inl e \<Rightarrow> Some (Inl e)
         | Inr (e, h) \<Rightarrow> cut_loop sz (ct + e * PAGE_SIZE_4K) h)
      else Some (Ret h))"

definition map_init :: "u64 \<Rightarrow> u64 \<Rightarrow> mem_heap \<Rightarrow> (u64 \<times> mem_heap) res" where
  "map_init heap_add heap_size h =
     mem_aligned (map_addr h) PAGE_SIZE_4K
     (kassert (map_size h mod PAGE_SIZE_4K = 0)
     (kassert (map_size h > map_header_len)
     (mem_aligned heap_add PAGE_SIZE_4K
     (kassert (heap_size mod PAGE_SIZE_4K = 0)
     (rbind (map_max_heap (map_size h)) (\<lambda>sz.
      let sz = (if heap_size < sz then heap_size else sz) in
      kassert (sz > PAGE_SIZE_4K)
      (let h = h\<lparr>add_0 := heap_add, add_z := heap_add + sz\<rparr> in
       rbind (count_loop 0 (unat CLASS_MAX) (\<lambda>cls h.
         rbind (map_list_idx (of_nat cls)) (\<lambda>i. rbind (hm_set i MAP_NULL h) (hm_set (i + 1) MAP_NULL))) h) (\<lambda>h.
       rbind (hm_set map_slots_idx MAP_NULL h) (\<lambda>h.
       rbind (hm_set (map_slots_idx + 1) MAP_NULL h) (\<lambda>h.
       rbind (count_loop 0 (unat (map_slot_max h)) (\<lambda>slt. map_slots_enqueue (of_nat slt)) h) (\<lambda>h.
       case cut_loop sz 0 h of None \<Rightarrow> Stop Diverges | Some r \<Rightarrow> rbind r (\<lambda>h. Ret (sz, h)))))))))))))"

text \<open>
  \<open>buff\<close> is the address of \<open>_bootstrap_buff\<close> and \<open>words\<close> what its second and later pages hold; \<open>None\<close> is the
  null pointer.
\<close>

definition mem_heap_new_bootstrap :: "u64 \<Rightarrow> u64 list \<Rightarrow> u64 \<Rightarrow> u64 \<Rightarrow> mem_state \<Rightarrow> mem_heap option res" where
  "mem_heap_new_bootstrap buff words heap_add heap_size s =
     kassert (boot_stage s < MEM_BOOTSTRAP_STAGE_FINISH)
     (rbind (mem_align_check heap_add PAGE_SIZE_4K) (\<lambda>aligned.
      if \<not> aligned then Ret None
      else if heap_size mod PAGE_SIZE_4K \<noteq> 0 then Ret None
      else
        rbind (map_init heap_add heap_size \<lparr>add_0 = 0, add_z = 0, map_addr = buff + PAGE_SIZE_4K, hp_map = words,
            map_size = BOOTSTRAP_BUFF_SIZE - PAGE_SIZE_4K\<rparr>) (\<lambda>(_, h). Ret (Some h))))"

subsection \<open>The queue of slots takes two\<close>

lemmas heap_map_defs = hm_get_def hm_set_def map_slots_idx_def CLASS_MAX_def MAP_NULL_def map_slot_max_def map_header_len_def
  map_slot_idx_def map_slot_set_slot_def map_slot_set_page_def map_slot_set_next_def map_slot_get_page_def map_slot_get_next_def

text \<open>
  The tail of the queue of slots is set when the first slot is put in and never again, so the third slt
  finds the successor of the tail taken.
\<close>

lemma map_slots_third:
  assumes h: "length (hp_map h) = 7680" "map_size h = 61440" "hp_map h ! 30 = MAP_NULL" "hp_map h ! 31 = MAP_NULL"
  shows "rbind (map_slots_enqueue 0 h) (\<lambda>h. rbind (map_slots_enqueue 1 h) (map_slots_enqueue 2)) = Stop AssertFail"
proof -
  let ?h1 = "h\<lparr>hp_map := (hp_map h)[30 := 0, 31 := 0, 256 := MAP_NULL, 257 := MAP_NULL]\<rparr>"
  let ?h2 = "h\<lparr>hp_map := (hp_map h)[30 := 0, 31 := 0, 256 := MAP_NULL, 257 := MAP_NULL, 258 := MAP_NULL, 259 := MAP_NULL, 256 := 1, 257 := 1]\<rparr>"
  have "map_slots_enqueue 0 h = Ret ?h1" using h by (simp add: map_slots_enqueue_def heap_map_defs)
  moreover have "map_slots_enqueue 1 ?h1 = Ret ?h2" using h by (simp add: map_slots_enqueue_def heap_map_defs)
  moreover have "map_slots_enqueue 2 ?h2 = Stop AssertFail" using h by (simp add: map_slots_enqueue_def heap_map_defs)
  ultimately show ?thesis by simp
qed

abbreviation clear_list :: "nat \<Rightarrow> mem_heap \<Rightarrow> mem_heap res" where
  "clear_list cls h \<equiv> rbind (map_list_idx (of_nat cls)) (\<lambda>i. rbind (hm_set i MAP_NULL h) (hm_set (i + 1) MAP_NULL))"

lemma clear_lists:
  assumes "length (hp_map h) = 7680"
  shows "\<exists>ws. count_loop 0 15 clear_list h = Ret (h\<lparr>hp_map := ws\<rparr>) \<and> length ws = 7680"
proof -
  let ?P = "\<lambda>_ h'. \<exists>ws. h' = h\<lparr>hp_map := ws\<rparr> \<and> length ws = 7680"
  have "\<exists>h'. count_loop 0 15 clear_list h = Ret h' \<and> ?P (0 + 15 :: nat) h'"
  proof (rule count_loop_total [where P = ?P])
    show "\<exists>ws. h = h\<lparr>hp_map := ws\<rparr> \<and> length ws = 7680" using assms by (intro exI [of _ "hp_map h"]) simp
    fix k :: nat and u
    assume k: "k < 0 + 15" and u: "\<exists>ws. u = h\<lparr>hp_map := ws\<rparr> \<and> length ws = 7680"
    have n: "unat (of_nat k * 2 :: u64) = k * 2" "unat (of_nat k * 2 + 1 :: u64) = k * 2 + 1" "(of_nat k :: u64) < 15"
      using k by (simp_all add: unat_word_ariths unat_of_nat word_less_nat_alt)
    show "\<exists>u'. clear_list k u = Ret u' \<and> (\<exists>ws. u' = h\<lparr>hp_map := ws\<rparr> \<and> length ws = 7680)"
      using u n k by (auto simp: map_list_idx_def CLASS_MAX_def hm_set_def)
  qed
  then show ?thesis by blast
qed

lemma slots_fail:
  assumes "length (hp_map h) = 7680" "map_size h = 61440" "hp_map h ! 30 = MAP_NULL" "hp_map h ! 31 = MAP_NULL"
  shows "count_loop 0 30592 (\<lambda>slt. map_slots_enqueue (of_nat slt)) h = Stop AssertFail"
proof -
  have n: "(30592 :: nat) = Suc (Suc (Suc 30589))" by simp
  let ?rest = "count_loop 3 30589 (\<lambda>slt. map_slots_enqueue (of_nat slt))"
  have "count_loop 0 30592 (\<lambda>slt. map_slots_enqueue (of_nat slt)) h =
    rbind (rbind (map_slots_enqueue 0 h) (\<lambda>h. rbind (map_slots_enqueue 1 h) (map_slots_enqueue 2))) ?rest"
    unfolding n count_loop.simps by (simp add: rbind_assoc eval_nat_numeral)
  then show ?thesis using map_slots_third [OF assms] by simp
qed

lemma map_clear_fails:
  assumes "length (hp_map h) = 7680" "map_size h = 61440"
  shows "rbind (count_loop 0 15 clear_list h) (\<lambda>h.
    rbind (hm_set map_slots_idx MAP_NULL h) (\<lambda>h. rbind (hm_set (map_slots_idx + 1) MAP_NULL h) (\<lambda>h.
    rbind (count_loop 0 (unat (map_slot_max h)) (\<lambda>slt. map_slots_enqueue (of_nat slt)) h) k))) = Stop AssertFail"
proof -
  obtain ws where ws: "count_loop 0 15 clear_list h = Ret (h\<lparr>hp_map := ws\<rparr>)" "length ws = 7680" using clear_lists [OF assms(1)] by blast
  let ?h = "h\<lparr>hp_map := ws[30 := MAP_NULL, 31 := MAP_NULL]\<rparr>"
  have "hm_set map_slots_idx MAP_NULL (h\<lparr>hp_map := ws\<rparr>) = Ret (h\<lparr>hp_map := ws[30 := MAP_NULL]\<rparr>)"
    "hm_set (map_slots_idx + 1) MAP_NULL (h\<lparr>hp_map := ws[30 := MAP_NULL]\<rparr>) = Ret ?h"
    using ws(2) by (simp_all add: hm_set_def map_slots_idx_def CLASS_MAX_def)
  moreover have "map_slot_max ?h = 30592" using assms(2) by (simp add: map_slot_max_def map_header_len_def CLASS_MAX_def)
  moreover have "count_loop 0 30592 (\<lambda>slt. map_slots_enqueue (of_nat slt)) ?h = Stop AssertFail"
    using ws(2) assms(2) by (intro slots_fail) simp_all
  ultimately show ?thesis using ws(1) by simp
qed

lemma map_init_fails:
  assumes "map_addr h mod 4096 = 0" "length (hp_map h) = 7680" "map_size h = 61440" "heap_add mod 4096 = 0" "heap_size mod 4096 = 0"
  shows "map_init heap_add heap_size h = Stop AssertFail"
  using assms
  by (simp add: map_clear_fails kassert_def map_init_def Let_def map_max_heap_def map_header_len_def CLASS_MAX_def PAGE_SIZE_4K_def mem_align_check_def)

text \<open>
  C39: no heap can be made. For a start address and a size that are multiples of the page size,
  \<open>mem_heap_new_bootstrap\<close> always fails an assertion, whatever the size and whatever the buffer holds; for
  others it returns the null pointer.
\<close>

theorem mem_heap_new_bootstrap_fails:
  assumes "length words = 7680" "buff mod 4096 = 0"
  shows "mem_heap_new_bootstrap buff words heap_add heap_size s =
    (if boot_stage s < 99 \<and> (heap_add mod 4096 \<noteq> 0 \<or> heap_size mod 4096 \<noteq> 0) then Ret None else Stop AssertFail)"
proof -
  have "(buff + 4096) mod 4096 = 0" using page_multiple [of buff 1] assms(2) by simp
  then have "heap_add mod 4096 = 0 \<Longrightarrow> heap_size mod 4096 = 0 \<Longrightarrow>
      map_init heap_add heap_size \<lparr>add_0 = 0, add_z = 0, map_addr = buff + 4096, hp_map = words, map_size = 61440\<rparr> = Stop AssertFail"
    using assms(1) by (intro map_init_fails) simp_all
  then show ?thesis
    by (simp add: mem_heap_new_bootstrap_def mem_align_check_def PAGE_SIZE_4K_def BOOTSTRAP_BUFF_SIZE_def mem_stage_defs kassert_def)
qed

theorem mem_heap_new_bootstrap_fails_witness:
  "mem_heap_new_bootstrap 0x100000 (replicate 7680 0) 0x200000 0x10000 sample_mem = Stop AssertFail"
  using mem_heap_new_bootstrap_fails [where words = "replicate 7680 0" and buff = "0x100000" and heap_add = "0x200000" and heap_size = "0x10000" and s = sample_mem] by simp

end
