(* ===== verification/Video.thy ===== *)
theory Video
  imports Drivers_Vesa Video_Font
begin

text \<open>
  \<open>src/src/video/video.c\<close>: characters on the frame buffer, eight pixels wide and sixteen tall, drawn in white
  over what is there. The drawing loops of this file and of the text interface share the interface
  \<open>canvas\<close>: an operation that sets one pixel, and what it means for a set of pixels to be painted.
\<close>

subsection \<open>Drawing\<close>

definition video_char_row_max :: "vesa_state \<Rightarrow> u64" where
  "video_char_row_max v = d_vesa_get_height v div 16"

definition video_char_col_max :: "vesa_state \<Rightarrow> u64" where
  "video_char_col_max v = d_vesa_get_width v div 8"

definition draw_char_line :: "vesa_state \<Rightarrow> u64 \<Rightarrow> u64 \<Rightarrow> u64 \<Rightarrow> u8 \<Rightarrow> memory \<Rightarrow> memory res" where
  "draw_char_line v row col ln ln_byte m =
     count_loop 0 8 (\<lambda>bt m. rbind (byte_bit_get ln_byte (8 - of_nat bt - 1)) (\<lambda>on.
       if on then d_vesa_draw_pixel v (col * 8 + of_nat bt) (row * 16 + ln) 255 255 255 m else Ret m)) m"

definition video_draw_char :: "vesa_state \<Rightarrow> u64 \<Rightarrow> u64 \<Rightarrow> u8 \<Rightarrow> memory \<Rightarrow> memory res" where
  "video_draw_char v row col ch m =
     kassert (row < video_char_row_max v)
     (kassert (col < video_char_col_max v)
       (let off = ucast ch * 16 in
        count_loop 0 16 (\<lambda>ln m. rbind (buf_get font_vga_8x16 (off + of_nat ln)) (\<lambda>ln_byte.
          draw_char_line v row col (of_nat ln) ln_byte m)) m))"

subsection \<open>The interface to the frame buffer\<close>

lemma byte_bit_get_left:
  assumes "i < 8"
  shows "byte_bit_get b (8 - of_nat i - 1) = Ret (bit b (7 - i))"
proof -
  have u: "unat (8 - of_nat i - 1 :: u64) = 7 - i"
    using assms by (simp add: unat_u64_sub unat_of_nat unat_sub_if')
  then have "(8 - of_nat i - 1 :: u64) < 8" by (simp add: word_less_nat_alt)
  then show ?thesis unfolding byte_bit_get_def u by (simp add: bit_iff_and_push_bit_not_eq_0 and.commute)
qed

text \<open>The pixels of one line of eight: the highest bit is the leftmost.\<close>

definition line_pixels :: "u64 \<Rightarrow> u64 \<Rightarrow> u8 \<Rightarrow> (u64 \<times> u64) set" where
  "line_pixels x y line = (\<Union>i<8. if bit line (7 - i) then {(x + of_nat i, y)} else {})"

locale canvas =
  fixes draw :: "u64 \<Rightarrow> u64 \<Rightarrow> 'm \<Rightarrow> 'm res"
    and inside :: "u64 \<Rightarrow> u64 \<Rightarrow> bool"
    and painted :: "(u64 \<times> u64) set \<Rightarrow> 'm \<Rightarrow> 'm \<Rightarrow> bool"
  assumes painted_none: "painted {} m m"
    and painted_trans: "painted S m m' \<Longrightarrow> painted T m' m'' \<Longrightarrow> painted (S \<union> T) m m''"
    and draw_paints: "inside x y \<Longrightarrow> \<exists>m'. draw x y m = Ret m' \<and> painted {(x, y)} m m'"
begin

text \<open>Drawing in rounds paints the union of what the rounds paint.\<close>

lemma rounds_paint:
  assumes "\<And>i m. i < n \<Longrightarrow> \<exists>m'. body i m = Ret m' \<and> painted (S i) m m'"
  shows "\<exists>m'. count_loop 0 n body m = Ret m' \<and> painted (\<Union>i<n. S i) m m'"
proof -
  have "\<exists>m'. count_loop 0 n body m = Ret m' \<and> painted (\<Union>i<0 + n. S i) m m'"
  proof (rule count_loop_total [where P = "\<lambda>k. painted (\<Union>i<k. S i) m"])
    show "painted (\<Union>i<0. S i) m m" by (simp add: painted_none)
    fix k u
    assume k: "k < 0 + n" and u: "painted (\<Union>i<k. S i) m u"
    obtain u' where u': "body k u = Ret u'" "painted (S k) u u'" using assms [of k u] k by auto
    have "painted (\<Union>i<Suc k. S i) m u'" using painted_trans [OF u u'(2)] by (simp add: lessThan_Suc Un_commute)
    then show "\<exists>u'. body k u = Ret u' \<and> painted (\<Union>i<Suc k. S i) m u'" using u'(1) by blast
  qed
  then show ?thesis by simp
qed

lemma line_paints:
  assumes "\<And>i. i < 8 \<Longrightarrow> inside (x + of_nat i) y"
  shows "\<exists>m'. count_loop 0 8 (\<lambda>i m. rbind (byte_bit_get line (8 - of_nat i - 1)) (\<lambda>on. if on then draw (x + of_nat i) y m else Ret m)) m = Ret m' \<and>
    painted (line_pixels x y line) m m'"
  unfolding line_pixels_def
proof (rule rounds_paint)
  fix i :: nat and m
  assume i: "i < 8"
  have b: "byte_bit_get line (8 - of_nat i - 1) = Ret (bit line (7 - i))" using i by (rule byte_bit_get_left)
  show "\<exists>m'. rbind (byte_bit_get line (8 - of_nat i - 1)) (\<lambda>on. if on then draw (x + of_nat i) y m else Ret m) = Ret m' \<and>
      painted (if bit line (7 - i) then {(x + of_nat i, y)} else {}) m m'"
    unfolding b rbind_Inr using draw_paints [OF assms [OF i]] painted_none by auto
qed

end

text \<open>
  On the frame buffer: the pixels of the set have the colour, every other pixel and all memory outside the
  buffer keep their bytes. The fourth byte of a pixel is never written.
\<close>

definition pixel :: "vesa_state \<Rightarrow> memory \<Rightarrow> u64 \<times> u64 \<Rightarrow> u8 \<times> u8 \<times> u8 \<times> u8" where
  "pixel v m = (\<lambda>(x, y). let p = pixel_addr v x y in (m p, m (p + 1), m (p + 2), m (p + 3)))"

definition coloured :: "u8 \<Rightarrow> u8 \<Rightarrow> u8 \<Rightarrow> u8 \<times> u8 \<times> u8 \<times> u8 \<Rightarrow> u8 \<times> u8 \<times> u8 \<times> u8" where
  "coloured red green blue = (\<lambda>(_, _, _, rest). (blue, green, red, rest))"

definition on_screen :: "vesa_state \<Rightarrow> (u64 \<times> u64) set" where
  "on_screen v = {(x, y). x < vesa_width v \<and> y < vesa_height v}"

definition in_buffer :: "vesa_state \<Rightarrow> u64 \<Rightarrow> bool" where
  "in_buffer v a \<longleftrightarrow> unat (d_vesa_get_frame_buffer v) \<le> unat a \<and> unat a < unat (d_vesa_get_frame_buffer v) + unat (d_vesa_get_frame_buffer_len v)"

definition painted :: "vesa_state \<Rightarrow> u8 \<Rightarrow> u8 \<Rightarrow> u8 \<Rightarrow> (u64 \<times> u64) set \<Rightarrow> memory \<Rightarrow> memory \<Rightarrow> bool" where
  "painted v red green blue S m m' \<longleftrightarrow>
     (\<forall>q \<in> on_screen v. pixel v m' q = (if q \<in> S then coloured red green blue (pixel v m q) else pixel v m q)) \<and>
     (\<forall>a. \<not> in_buffer v a \<longrightarrow> m' a = m a)"

lemma coloured_twice [simp]: "coloured red green blue (coloured red green blue p) = coloured red green blue p"
  by (cases p) (simp add: coloured_def)

lemma draw_pixel_paints:
  assumes ok: "vesa_ok v" and xy: "x < vesa_width v" "y < vesa_height v"
  shows "\<exists>m'. d_vesa_draw_pixel v x y red green blue m = Ret m' \<and> painted v red green blue {(x, y)} m m'"
proof -
  let ?p = "pixel_addr v x y"
  let ?m = "m(?p := blue, ?p + 1 := green, ?p + 2 := red)"
  have run: "d_vesa_draw_pixel v x y red green blue m = Ret ?m"
    using xy ok by (simp add: d_vesa_draw_pixel_def pixel_addr_def vesa_ok_def Let_def add.assoc)
  have keep: "?m (pixel_addr v x' y' + k) = m (pixel_addr v x' y' + k)"
    if "(x', y') \<noteq> (x, y)" "x' < vesa_width v" "y' < vesa_height v" "unat k < 4" for x' y' k
  proof -
    note t = that
    obtain m' where "d_vesa_draw_pixel v x y red green blue m = Ret m'"
      "(x, y) \<noteq> (x', y') \<longrightarrow> m' (pixel_addr v x' y' + k) = m (pixel_addr v x' y' + k)"
      using d_vesa_draw_pixel_writes [OF ok xy t(2-4)] by blast
    then show ?thesis using run t(1) by auto
  qed
  have other: "pixel v ?m (x', y') = pixel v m (x', y')" if "(x', y') \<noteq> (x, y)" "x' < vesa_width v" "y' < vesa_height v" for x' y'
    using keep [OF that, of 0] keep [OF that, of 1] keep [OF that, of 2] keep [OF that, of 3] by (simp add: pixel_def Let_def)
  have "?m a = m a" if "\<not> in_buffer v a" for a
  proof -
    obtain m' where "d_vesa_draw_pixel v x y red green blue m = Ret m'" "\<forall>a. \<not> in_buffer v a \<longrightarrow> m' a = m a"
      using d_vesa_draw_pixel_writes [OF ok xy xy, of 0 red green blue m] by (auto simp: in_buffer_def not_le not_less)
    then show ?thesis using run that by auto
  qed
  moreover have "pixel v ?m (x, y) = coloured red green blue (pixel v m (x, y))"
    by (simp add: pixel_def coloured_def Let_def)
  ultimately have "painted v red green blue {(x, y)} m ?m" using other by (auto simp: painted_def on_screen_def)
  then show ?thesis using run by blast
qed

interpretation fb: canvas "\<lambda>x y. d_vesa_draw_pixel v x y red green blue"
  "\<lambda>x y. vesa_ok v \<and> x < vesa_width v \<and> y < vesa_height v" "painted v red green blue"
proof
  show "painted v red green blue {} m m" for m by (simp add: painted_def)
  show "painted v red green blue (S \<union> T) m m''" if "painted v red green blue S m m'" "painted v red green blue T m' m''" for S T m m' m''
    using that unfolding painted_def by auto
  show "\<exists>m'. d_vesa_draw_pixel v x y red green blue m = Ret m' \<and> painted v red green blue {(x, y)} m m'"
    if "vesa_ok v \<and> x < vesa_width v \<and> y < vesa_height v" for x y m
    using draw_pixel_paints that by blast
qed

subsection \<open>Characters\<close>

text \<open>The places of a cell of \<open>n\<close> pixels in a row or column of whole cells.\<close>

lemma cell_inside:
  assumes "(c :: u64) < w div of_nat n" "i < n" "n < 256"
  shows "unat (c * of_nat n + of_nat i) = unat c * n + i" "c * of_nat n + of_nat i < w"
proof -
  have n: "unat (of_nat n :: u64) = n" "unat (of_nat i :: u64) = i" using assms(2,3) by (simp_all add: unat_of_nat)
  have "Suc (unat c) \<le> unat w div n" using assms(1) n by (simp add: word_less_nat_alt unat_div)
  then have "Suc (unat c) * n \<le> unat w" by (rule order_trans [OF mult_le_mono1]) simp
  then have l: "unat c * n + i < unat w" using assms(2) by simp
  then have "unat (c * of_nat n) = unat c * n" using n unat_u64_bound [of w] by (subst unat_u64_mult) auto
  then show u: "unat (c * of_nat n + of_nat i) = unat c * n + i" using n l unat_u64_bound [of w] by (subst unat_u64_add) auto
  show "c * of_nat n + of_nat i < w" using l by (simp add: word_less_nat_alt u)
qed

lemma cell_iff:
  assumes "(c :: u64) < w div of_nat n" "0 < n" "n < 256"
  shows "(\<exists>i<n. x = c * of_nat n + of_nat i \<and> P i) \<longleftrightarrow> x div of_nat n = c \<and> P (unat (x mod of_nat n))"
proof -
  have n: "unat (of_nat n :: u64) = n" using assms(3) by (simp add: unat_of_nat)
  have "x = x div of_nat n * of_nat n + of_nat (unat (x mod of_nat n))" by (simp add: div_mult_mod_eq)
  moreover have "unat (x mod of_nat n) < n" using n assms(2) by (simp add: unat_mod)
  moreover have "x div of_nat n = c \<and> unat (x mod of_nat n) = i" if "i < n" "x = c * of_nat n + of_nat i" for i
    using cell_inside(1) [OF assms(1) that(1) assms(3)] that n by (simp add: u64_eq_iff_unat unat_div unat_mod)
  ultimately show ?thesis by metis
qed

lemma glyph_line:
  assumes "ln < 16"
  shows "buf_get font_vga_8x16 (ucast (ch :: u8) * 16 + of_nat ln) = Ret (glyph ch ! ln)"
proof -
  have c: "unat ch < 256" using unsigned_less [of ch, where 'a = nat] by simp
  have "unat (ucast ch * 16 :: u64) = 16 * unat ch" using c by (subst unat_u64_mult) (auto simp: unsigned_ucast_eq take_bit_eq_mod)
  then have "unat (ucast ch * 16 + of_nat ln :: u64) = 16 * unat ch + ln"
    using c assms by (subst unat_u64_add) (auto simp: unat_of_nat)
  then show ?thesis using c assms by (simp add: glyph_def)
qed

definition char_pixels :: "u64 \<Rightarrow> u64 \<Rightarrow> u8 \<Rightarrow> (u64 \<times> u64) set" where
  "char_pixels row col ch = (\<Union>ln<16. line_pixels (col * 8) (row * 16 + of_nat ln) (glyph ch ! ln))"

lemma draw_char_paints:
  assumes "vesa_ok v" "row < video_char_row_max v" "col < video_char_col_max v"
  shows "\<exists>m'. video_draw_char v row col ch m = Ret m' \<and> painted v 255 255 255 (char_pixels row col ch) m m'"
proof -
  have x: "i < 8 \<Longrightarrow> col * 8 + of_nat i < vesa_width v" for i
    using cell_inside(2) [of col "vesa_width v" 8 i] assms(3) by (simp add: video_char_col_max_def d_vesa_get_width_def)
  have y: "i < 16 \<Longrightarrow> row * 16 + of_nat i < vesa_height v" for i
    using cell_inside(2) [of row "vesa_height v" 16 i] assms(2) by (simp add: video_char_row_max_def d_vesa_get_height_def)
  have "\<exists>m'. count_loop 0 16 (\<lambda>ln m. rbind (buf_get font_vga_8x16 (ucast ch * 16 + of_nat ln)) (\<lambda>ln_byte.
      draw_char_line v row col (of_nat ln) ln_byte m)) m = Ret m' \<and> painted v 255 255 255 (char_pixels row col ch) m m'"
    unfolding char_pixels_def
  proof (rule fb.rounds_paint)
    show "\<exists>m'. rbind (buf_get font_vga_8x16 (ucast ch * 16 + of_nat ln)) (\<lambda>ln_byte. draw_char_line v row col (of_nat ln) ln_byte m) = Ret m' \<and>
        painted v 255 255 255 (line_pixels (col * 8) (row * 16 + of_nat ln) (glyph ch ! ln)) m m'" if "ln < 16" for ln m
      unfolding glyph_line [OF that] rbind_Inr draw_char_line_def by (rule fb.line_paints) (use that assms(1) x y in auto)
  qed
  then show ?thesis using assms by (simp add: video_draw_char_def Let_def)
qed

text \<open>
  C25: \<open>video_draw_char\<close> draws the glyph. For a character position on the screen it returns, and the pixels of the
  8 by 16 cell whose bit is set in the font have become white; every other pixel of the screen and all
  memory outside the frame buffer are as they were.
\<close>

theorem video_draw_char_draws:
  assumes "vesa_ok v" "row < video_char_row_max v" "col < video_char_col_max v"
  shows "\<exists>m'. video_draw_char v row col ch m = Ret m' \<and>
    (\<forall>x y. x < vesa_width v \<longrightarrow> y < vesa_height v \<longrightarrow>
       pixel v m' (x, y) =
         (if x div 8 = col \<and> y div 16 = row \<and> bit (glyph ch ! unat (y mod 16)) (7 - unat (x mod 8))
          then coloured 255 255 255 (pixel v m (x, y)) else pixel v m (x, y))) \<and>
    (\<forall>a. \<not> in_buffer v a \<longrightarrow> m' a = m a)"
proof -
  have mem: "(x, y) \<in> char_pixels row col ch \<longleftrightarrow>
      x div 8 = col \<and> y div 16 = row \<and> bit (glyph ch ! unat (y mod 16)) (7 - unat (x mod 8))" for x y
  proof -
    have "(x, y) \<in> char_pixels row col ch \<longleftrightarrow>
        (\<exists>ln<16. y = row * of_nat 16 + of_nat ln \<and> (\<exists>i<8. x = col * of_nat 8 + of_nat i \<and> bit (glyph ch ! ln) (7 - i)))"
      by (auto simp: char_pixels_def line_pixels_def split: if_splits)
    also have "\<dots> \<longleftrightarrow> y div of_nat 16 = row \<and> x div of_nat 8 = col \<and> bit (glyph ch ! unat (y mod of_nat 16)) (7 - unat (x mod of_nat 8))"
      using assms(2,3) by (subst cell_iff [where w = "vesa_width v"], simp_all add: video_char_col_max_def d_vesa_get_width_def)
        (subst cell_iff [where w = "vesa_height v" and n = 16, simplified], simp_all add: video_char_row_max_def d_vesa_get_height_def)
    finally show ?thesis by auto
  qed
  then show ?thesis using draw_char_paints [OF assms, of ch m] by (auto simp: painted_def on_screen_def)
qed

text \<open>The letter A in the upper left corner: its fifth line is the byte \<open>0x63\<close>, two pixels on either side.\<close>

lemma glyph_A: "glyph 0x41 = [0, 0, 0x1c, 0x36, 0x63, 0x63, 0x63, 0x7f, 0x63, 0x63, 0x63, 0x63, 0, 0, 0, 0]"
  by (simp add: glyph_part_4 font_part_4_def)

theorem video_draw_char_draws_witness:
  "\<exists>m'. video_draw_char sample_vesa 0 0 0x41 (\<lambda>_. 0) = Ret m' \<and>
     pixel sample_vesa m' (1, 4) = (255, 255, 255, 0) \<and> pixel sample_vesa m' (3, 4) = (0, 0, 0, 0)"
proof -
  have ok: "vesa_ok sample_vesa" "(0 :: u64) < video_char_row_max sample_vesa" "(0 :: u64) < video_char_col_max sample_vesa"
    by (simp_all add: vesa_ok_def sample_vesa_def video_char_row_max_def video_char_col_max_def d_vesa_get_height_def d_vesa_get_width_def)
  have size: "vesa_width sample_vesa = 1024" "vesa_height sample_vesa = 768" by (simp_all add: sample_vesa_def)
  obtain m' where m': "video_draw_char sample_vesa 0 0 0x41 (\<lambda>_. 0) = Ret m'"
    and p: "\<And>x y. x < 1024 \<Longrightarrow> y < 768 \<Longrightarrow> pixel sample_vesa m' (x, y) =
      (if x div 8 = 0 \<and> y div 16 = 0 \<and> bit (glyph 0x41 ! unat (y mod 16)) (7 - unat (x mod 8))
       then coloured 255 255 255 (pixel sample_vesa (\<lambda>_. 0) (x, y)) else pixel sample_vesa (\<lambda>_. 0) (x, y))"
    using video_draw_char_draws [OF ok, of "0x41" "\<lambda>_. 0"] unfolding size by blast
  have "pixel sample_vesa m' (1, 4) = (255, 255, 255, 0)" "pixel sample_vesa m' (3, 4) = (0, 0, 0, 0)"
    using p [of 1 4] p [of 3 4] by (simp_all add: glyph_A pixel_def coloured_def)
  then show ?thesis using m' by blast
qed

end
