(* ===== verification/Tui.thy ===== *)
theory Tui
  imports Video
begin

text \<open>
  \<open>src/src/tui/tui.c\<close>: the text interface divides the screen into tiles of 8 by 8 pixels and draws a menu bar
  two tiles tall over its top.
\<close>

definition TILE_WIDTH :: u64 where "TILE_WIDTH = 8"
definition TILE_HEIGHT :: u64 where "TILE_HEIGHT = 8"
definition TILE_X_MAX :: u64 where "TILE_X_MAX = 240"
definition TILE_Y_MAX :: u64 where "TILE_Y_MAX = 135"

lemmas tile_defs = TILE_WIDTH_def TILE_HEIGHT_def TILE_X_MAX_def TILE_Y_MAX_def

record tui_color =
  red :: u8
  green :: u8
  blue :: u8

record tui_widget_menu =
  start_x :: u64
  start_y :: u64
  menu_width :: u64
  bg :: tui_color

definition tui_screen_draw_tile_line :: "vesa_state \<Rightarrow> u64 \<Rightarrow> u64 \<Rightarrow> u64 \<Rightarrow> u8 \<Rightarrow> tui_color \<Rightarrow> memory \<Rightarrow> memory res" where
  "tui_screen_draw_tile_line v x y line_no line color m =
     kassert (line_no < TILE_HEIGHT)
       (let pixel_y = y * TILE_HEIGHT + line_no in
        count_loop 0 (unat TILE_WIDTH) (\<lambda>i m. rbind (byte_bit_get line (8 - of_nat i - 1)) (\<lambda>on.
          if on then d_vesa_draw_pixel v (x * TILE_WIDTH + of_nat i) pixel_y (red color) (green color) (blue color) m
          else Ret m)) m)"

definition tui_screen_draw_tile_full :: "vesa_state \<Rightarrow> u64 \<Rightarrow> u64 \<Rightarrow> tui_color \<Rightarrow> memory \<Rightarrow> memory res" where
  "tui_screen_draw_tile_full v x y color m =
     count_loop 0 (unat TILE_HEIGHT) (\<lambda>i. tui_screen_draw_tile_line v x y (of_nat i) 0xFF color) m"

definition tui_widget_menu_draw :: "vesa_state \<Rightarrow> tui_widget_menu \<Rightarrow> memory \<Rightarrow> memory res" where
  "tui_widget_menu_draw v menu m =
     count_loop 0 (unat (menu_width menu)) (\<lambda>i m.
       rbind (tui_screen_draw_tile_full v (start_x menu + of_nat i) (start_y menu) (bg menu) m)
         (tui_screen_draw_tile_full v (start_x menu + of_nat i) (start_y menu + 1) (bg menu))) m"

definition tui_start :: "vesa_state \<Rightarrow> memory \<Rightarrow> memory res" where
  "tui_start v m =
     kassert (d_vesa_get_width v div TILE_WIDTH \<ge> TILE_X_MAX)
     (kassert (d_vesa_get_height v div TILE_HEIGHT \<ge> TILE_Y_MAX)
       (let top = \<lparr>start_x = 0, start_y = 0, menu_width = TILE_X_MAX, bg = \<lparr>red = 187, green = 187, blue = 187\<rparr>\<rparr> in
        tui_widget_menu_draw v top m))"

subsection \<open>The menu bar\<close>

definition tile_pixels :: "u64 \<Rightarrow> u64 \<Rightarrow> (u64 \<times> u64) set" where
  "tile_pixels x y = {(px, py). px div 8 = x \<and> py div 8 = y}"

lemma full_line: "line_pixels x y 0xFF = (\<Union>i<8. {(x + of_nat i, y)})"
proof -
  have "bit (0xFF :: u8) (7 - i)" for i
    using bit_mask_iff [of 8 "7 - i", where 'a = "8 word"] by (simp add: mask_eq_exp_minus_1)
  then show ?thesis by (simp add: line_pixels_def)
qed

lemma tile_full_paints:
  assumes "vesa_ok v" "x < vesa_width v div 8" "y < vesa_height v div 8"
  shows "\<exists>m'. tui_screen_draw_tile_full v x y color m = Ret m' \<and>
    painted v (red color) (green color) (blue color) (tile_pixels x y) m m'"
proof -
  have "\<exists>m'. count_loop 0 8 (\<lambda>i. tui_screen_draw_tile_line v x y (of_nat i) 0xFF color) m = Ret m' \<and>
      painted v (red color) (green color) (blue color) (\<Union>ln<8. line_pixels (x * 8) (y * 8 + of_nat ln) 0xFF) m m'"
  proof (rule fb.rounds_paint)
    fix ln :: nat and m
    assume ln: "ln < 8"
    have "(of_nat ln :: u64) < 8" using ln by (simp add: word_less_nat_alt unat_of_nat)
    moreover have "\<exists>m'. count_loop 0 8 (\<lambda>i m. rbind (byte_bit_get 0xFF (8 - of_nat i - 1)) (\<lambda>on.
        if on then d_vesa_draw_pixel v (x * 8 + of_nat i) (y * 8 + of_nat ln) (red color) (green color) (blue color) m else Ret m)) m = Ret m' \<and>
        painted v (red color) (green color) (blue color) (line_pixels (x * 8) (y * 8 + of_nat ln) 0xFF) m m'"
      by (rule fb.line_paints) (use cell_inside(2) [of x "vesa_width v" 8] cell_inside(2) [of y "vesa_height v" 8 ln] assms ln in simp)
    ultimately show "\<exists>m'. tui_screen_draw_tile_line v x y (of_nat ln) 0xFF color m = Ret m' \<and>
        painted v (red color) (green color) (blue color) (line_pixels (x * 8) (y * 8 + of_nat ln) 0xFF) m m'"
      unfolding tui_screen_draw_tile_line_def tile_defs by simp
  qed
  moreover have "(\<Union>ln<8. line_pixels (x * 8) (y * 8 + of_nat ln) 0xFF) = tile_pixels x y"
  proof -
    have "(px, py) \<in> (\<Union>ln<8. line_pixels (x * 8) (y * 8 + of_nat ln) 0xFF) \<longleftrightarrow>
        (\<exists>ln<8. py = y * 8 + of_nat ln) \<and> (\<exists>i<8. px = x * 8 + of_nat i)" for px py
      by (auto simp: full_line)
    moreover have "(\<exists>i<8. px = x * 8 + of_nat i) \<longleftrightarrow> px div 8 = x" "(\<exists>ln<8. py = y * 8 + of_nat ln) \<longleftrightarrow> py div 8 = y" for px py
      using assms(2,3) cell_iff [of x "vesa_width v" 8 px "\<lambda>_. True"] cell_iff [of y "vesa_height v" 8 py "\<lambda>_. True"] by simp_all
    ultimately show ?thesis by (auto simp: tile_pixels_def)
  qed
  ultimately show ?thesis by (simp add: tui_screen_draw_tile_full_def TILE_HEIGHT_def)
qed

lemma bar_tiles: "(\<Union>i<240. tile_pixels (of_nat i) 0 \<union> tile_pixels (of_nat i) 1) = {(x, y). x < 1920 \<and> y < 16}"
proof -
  have "(\<exists>i<240. x div 8 = (of_nat i :: u64)) \<longleftrightarrow> x < 1920" for x :: u64
  proof -
    have "(\<exists>i<240. x div 8 = (of_nat i :: u64)) \<longleftrightarrow> (\<exists>i<240. unat x div 8 = i)"
      by (auto simp: u64_eq_iff_unat unat_div unat_of_nat)
    then show ?thesis by (auto simp: word_less_nat_alt)
  qed
  moreover have "y div 8 = 0 \<or> y div 8 = 1 \<longleftrightarrow> y < 16" for y :: u64
    by (auto simp: u64_eq_iff_unat unat_div word_less_nat_alt)
  ultimately show ?thesis by (auto simp: tile_pixels_def)
qed

text \<open>
  C34: \<open>tui_start\<close> needs a screen of 1920 by 1080 pixels, and fails an assertion on a smaller one. On such a
  screen it returns and has filled exactly the bar of the first sixteen rows and 1920 columns with its grey.
\<close>

theorem tui_start_draws:
  assumes "vesa_ok v"
  shows "if 1920 \<le> unat (vesa_width v) \<and> 1080 \<le> unat (vesa_height v)
    then \<exists>m'. tui_start v m = Ret m' \<and> painted v 187 187 187 {(x, y). x < 1920 \<and> y < 16} m m'
    else tui_start v m = Stop AssertFail"
proof -
  let ?top = "\<lparr>start_x = 0, start_y = 0, menu_width = 240, bg = \<lparr>red = 187, green = 187, blue = 187\<rparr>\<rparr>"
  have size: "TILE_X_MAX \<le> d_vesa_get_width v div TILE_WIDTH \<longleftrightarrow> 1920 \<le> unat (vesa_width v)"
    "TILE_Y_MAX \<le> d_vesa_get_height v div TILE_HEIGHT \<longleftrightarrow> 1080 \<le> unat (vesa_height v)"
    by (auto simp: tile_defs d_vesa_get_width_def d_vesa_get_height_def word_le_nat_alt unat_div)
  have "\<exists>m'. tui_widget_menu_draw v ?top m = Ret m' \<and> painted v 187 187 187 {(x, y). x < 1920 \<and> y < 16} m m'"
    if big: "1920 \<le> unat (vesa_width v)" "1080 \<le> unat (vesa_height v)"
  proof -
    let ?body = "\<lambda>i m. rbind (tui_screen_draw_tile_full v (of_nat i) 0 (bg ?top) m) (tui_screen_draw_tile_full v (of_nat i) 1 (bg ?top))"
    have "\<exists>m'. count_loop 0 240 ?body m = Ret m' \<and> painted v 187 187 187 (\<Union>i<240. tile_pixels (of_nat i) 0 \<union> tile_pixels (of_nat i) 1) m m'"
    proof (rule fb.rounds_paint)
      fix i :: nat and m
      assume "i < 240"
      then have x: "(of_nat i :: u64) < vesa_width v div 8" "(0 :: u64) < vesa_height v div 8" "(1 :: u64) < vesa_height v div 8"
        using big by (simp_all add: word_less_nat_alt unat_div unat_of_nat)
      obtain m1 where m1: "tui_screen_draw_tile_full v (of_nat i) 0 (bg ?top) m = Ret m1" "painted v 187 187 187 (tile_pixels (of_nat i) 0) m m1"
        using tile_full_paints [OF assms x(1,2), of "bg ?top" m] by auto
      obtain m2 where m2: "tui_screen_draw_tile_full v (of_nat i) 1 (bg ?top) m1 = Ret m2" "painted v 187 187 187 (tile_pixels (of_nat i) 1) m1 m2"
        using tile_full_paints [OF assms x(1,3), of "bg ?top" m1] by auto
      show "\<exists>m'. ?body i m = Ret m' \<and> painted v 187 187 187 (tile_pixels (of_nat i) 0 \<union> tile_pixels (of_nat i) 1) m m'"
        using m1 m2 fb.painted_trans [OF m1(2) m2(2)] by auto
    qed
    moreover have "(\<Union>i<240. tile_pixels (of_nat i) 0 \<union> tile_pixels (of_nat i) 1) = {(x, y). x < 1920 \<and> y < 16}" by (rule bar_tiles)
    ultimately show ?thesis by (simp add: tui_widget_menu_draw_def)
  qed
  then show ?thesis using size by (auto simp: tui_start_def TILE_X_MAX_def)
qed

theorem tui_start_draws_witness:
  "\<exists>m'. tui_start \<lparr>vesa_buf = 0xFD000000, vesa_width = 1920, vesa_height = 1080, vesa_depth = 4\<rparr> (\<lambda>_. 0) = Ret m' \<and>
     tui_start sample_vesa (\<lambda>_. 0) = Stop AssertFail"
proof -
  have ok: "vesa_ok \<lparr>vesa_buf = 0xFD000000, vesa_width = 1920, vesa_height = 1080, vesa_depth = 4\<rparr>" "vesa_ok sample_vesa"
    by (simp_all add: vesa_ok_def sample_vesa_def)
  then show ?thesis using tui_start_draws [OF ok(1), of "\<lambda>_. 0"] tui_start_draws [OF ok(2), of "\<lambda>_. 0"] by (auto simp: sample_vesa_def)
qed

end
