(* ===== verification/Log.thy ===== *)
theory Log
  imports Video Drivers_Port
begin

text \<open>
  \<open>src/src/log/log.c\<close>: a line of the log goes to the serial line and, once \<open>log_enable_video_write\<close> was called,
  to the current row of the screen, cut at the right edge. The state are the ports, the three static
  variables of the file, and the frame buffer with its driver. Strings are given with their terminator; the
  buffers on the stack, \<open>msg0\<close> and \<open>buf0\<close>, are what they hold at the start.
\<close>

subsection \<open>Operations\<close>

record log_state = io +
  screen_row :: u64
  screen_col :: u64
  write_screen :: bool
  log_vesa :: vesa_state
  log_mem :: memory

datatype log_level = LOG_LEVEL_SELF_TEST | LOG_LEVEL_DEBUG | LOG_LEVEL_INFO | LOG_LEVEL_WARN | LOG_LEVEL_ERROR | LOG_LEVEL_FATAL

fun LINE_PREFIX_LEVEL :: "log_level \<Rightarrow> buf" where
  "LINE_PREFIX_LEVEL LOG_LEVEL_SELF_TEST = ''[STE]'' @ [NUL]"
| "LINE_PREFIX_LEVEL LOG_LEVEL_DEBUG = ''[DBG]'' @ [NUL]"
| "LINE_PREFIX_LEVEL LOG_LEVEL_INFO = ''[INF]'' @ [NUL]"
| "LINE_PREFIX_LEVEL LOG_LEVEL_WARN = ''[WRN]'' @ [NUL]"
| "LINE_PREFIX_LEVEL LOG_LEVEL_ERROR = ''[ERR]'' @ [NUL]"
| "LINE_PREFIX_LEVEL LOG_LEVEL_FATAL = ''[FAT]'' @ [NUL]"

definition LINE_PREFIX_LEVEL_LEN :: u64 where "LINE_PREFIX_LEVEL_LEN = 6"

definition log_enable_video_write :: "log_state \<Rightarrow> log_state" where
  "log_enable_video_write s = s\<lparr>write_screen := True\<rparr>"

definition log_draw :: "buf \<Rightarrow> nat \<Rightarrow> log_state \<Rightarrow> log_state res" where
  "log_draw str i s =
     rbind (buf_get str (of_nat i)) (\<lambda>c.
     rbind (video_draw_char (log_vesa s) (screen_row s) (screen_col s) (of_char c) (log_mem s)) (\<lambda>m.
     Ret (s\<lparr>screen_col := screen_col s + 1, log_mem := m\<rparr>)))"

definition log_str_len :: "buf \<Rightarrow> u64 \<Rightarrow> log_state \<Rightarrow> log_state res" where
  "log_str_len str len s =
     rbind (serial_write_str str len s) (\<lambda>s.
     if write_screen s then
       let video_width = video_char_col_max (log_vesa s) in
       kassert (screen_col s \<le> video_width)
         (let write_len = (if video_width - screen_col s < len then video_width - screen_col s else len) in
          count_loop 0 (unat write_len) (log_draw str) s)
     else Ret s)"

definition log_str :: "buf \<Rightarrow> log_state \<Rightarrow> log_state res" where
  "log_str str s = rbind (str_len str) (\<lambda>len. log_str_len str len s)"

definition log_uint :: "buf \<Rightarrow> u64 \<Rightarrow> log_state \<Rightarrow> log_state res" where
  "log_uint msg0 uval s =
     rbind (str_buf_marshal_uint msg0 0 64 uval) (\<lambda>(msg, msg_len). log_str_len msg msg_len s)"

text \<open>
  The list is what is left of the path from \<open>file + idx\<close> on. The score is at most 5 at the start of a round, so
  the assertion at the end of a round holds. The loop leaves at the digit 0, not at the terminator.
\<close>

fun file_strip_loop :: "buf \<Rightarrow> buf \<Rightarrow> nat \<Rightarrow> buf res" where
  "file_strip_loop file [] score = Stop OutOfBounds"
| "file_strip_loop file (c # cs) score =
     (if c = CHR ''0'' then Ret file
      else if score = 0 then file_strip_loop file cs (if c = CHR ''/'' then 1 else 0)
      else if score = 1 then file_strip_loop file cs (if c = CHR ''s'' then 2 else 0)
      else if score = 2 then file_strip_loop file cs (if c = CHR ''r'' then 3 else 0)
      else if score = 3 then file_strip_loop file cs (if c = CHR ''c'' then 4 else 0)
      else if score = 4 then file_strip_loop file cs (if c = CHR ''/'' then 5 else 0)
      else if score = 5 then Ret (c # cs)
      else Stop (KernelPanic ''Unreachable code.''))"

definition file_strip :: "buf \<Rightarrow> buf res" where
  "file_strip file = file_strip_loop file file 0"

definition log_line_start :: "buf \<Rightarrow> log_level \<Rightarrow> buf \<Rightarrow> u64 \<Rightarrow> log_state \<Rightarrow> log_state res" where
  "log_line_start msg0 lv file line s =
     rbind (log_str_len (LINE_PREFIX_LEVEL lv) LINE_PREFIX_LEVEL_LEN s) (\<lambda>s.
     rbind (log_str_len ('' '' @ [NUL]) 1 s) (\<lambda>s.
     rbind (file_strip file) (\<lambda>name.
     rbind (log_str name s) (\<lambda>s.
     rbind (log_str_len ('':'' @ [NUL]) 1 s) (\<lambda>s.
     rbind (log_uint msg0 line s) (log_str_len ('' '' @ [NUL]) 1))))))"

definition log_line_end :: "log_state \<Rightarrow> log_state res" where
  "log_line_end s =
     rbind (if write_screen s then
              let rows = video_char_row_max (log_vesa s) in
              if rows = 0 then Stop DivByZero else Ret (s\<lparr>screen_row := (screen_row s + 1) mod rows, screen_col := 0\<rparr>)
            else Ret s) (serial_write_str [CHR 0x0D, CHR 0x0A, NUL] 2)"

definition log_builtin_test_pass :: "buf \<Rightarrow> buf \<Rightarrow> buf \<Rightarrow> u64 \<Rightarrow> log_state \<Rightarrow> log_state res" where
  "log_builtin_test_pass msg0 test_name file line s =
     rbind (log_line_start msg0 LOG_LEVEL_SELF_TEST file line s) (\<lambda>s.
     rbind (log_str test_name s) (\<lambda>s.
     rbind (log_str ('' .. Passed.'' @ [NUL]) s) log_line_end))"

definition log_line_format_v :: "buf \<Rightarrow> buf \<Rightarrow> log_level \<Rightarrow> buf \<Rightarrow> u64 \<Rightarrow> buf \<Rightarrow> va_arg list \<Rightarrow> log_state \<Rightarrow> log_state res" where
  "log_line_format_v msg0 buf0 lv file line format va s =
     rbind (log_line_start msg0 lv file line s) (\<lambda>s.
     rbind (str_len format) (\<lambda>format_len.
     rbind (str_buf_marshal_format_v buf0 0 256 format format_len va) (\<lambda>(bf, buf_len).
     rbind (log_str_len bf buf_len s) log_line_end)))"

subsection \<open>Writing text\<close>

text \<open>
  The state in which the log works: the serial line becomes ready again and again, and when the screen is
  written, the cursor is on it.
\<close>

definition log_ok :: "log_state \<Rightarrow> bool" where
  "log_ok s \<longleftrightarrow> line_ready (answers s) \<and>
     (write_screen s \<longrightarrow> vesa_ok (log_vesa s) \<and> screen_row s < video_char_row_max (log_vesa s) \<and> screen_col s \<le> video_char_col_max (log_vesa s))"

abbreviation cols :: "log_state \<Rightarrow> nat" where
  "cols s \<equiv> unat (video_char_col_max (log_vesa s))"

text \<open>The pixels of a text from column \<open>c\<close> of a row on, as far as it is on the screen.\<close>

definition text_pixels :: "nat \<Rightarrow> u64 \<Rightarrow> nat \<Rightarrow> buf \<Rightarrow> (u64 \<times> u64) set" where
  "text_pixels w row c t = (\<Union>i<length t. if c + i < w then char_pixels row (of_nat (c + i)) (of_char (t ! i)) else {})"

lemma Union_below_add: "(\<Union>i<a + b. S i) = (\<Union>i<a. S i) \<union> (\<Union>j<b. S (a + j))" for a b :: nat
proof -
  have "i < a \<or> (\<exists>j<b. i = a + j)" if "i < a + b" for i using that by (cases "i < a") (auto intro: exI [of _ "i - a"])
  then show ?thesis by fastforce
qed

lemma text_pixels_append: "text_pixels w row c (t @ u) = text_pixels w row c t \<union> text_pixels w row (c + length t) u"
  unfolding text_pixels_def length_append Union_below_add
  by (rule arg_cong2 [where f = "(\<union>)"]) (rule SUP_cong; simp add: nth_append add.assoc)+

lemma text_pixels_off: "w \<le> c \<Longrightarrow> text_pixels w row c t = {}"
  by (auto simp: text_pixels_def)

text \<open>What it means that a text was written: it went out on the serial line and onto the screen.\<close>

definition wrote :: "buf \<Rightarrow> log_state \<Rightarrow> log_state \<Rightarrow> bool" where
  "wrote t s s' \<longleftrightarrow>
     (\<exists>es. events s' = events s @ es \<and> list_all serial_event es \<and> outs PORT_NO_SERIAL_COM1 es = map of_char t) \<and>
     answers s' = answers s \<and> log_vesa s' = log_vesa s \<and> write_screen s' = write_screen s \<and> screen_row s' = screen_row s \<and>
     (if write_screen s
      then unat (screen_col s') = min (cols s) (unat (screen_col s) + length t) \<and>
        painted (log_vesa s) 255 255 255 (text_pixels (cols s) (screen_row s) (unat (screen_col s)) t) (log_mem s) (log_mem s')
      else screen_col s' = screen_col s \<and> log_mem s' = log_mem s)"

definition writes :: "(log_state \<Rightarrow> log_state res) \<Rightarrow> buf \<Rightarrow> bool" where
  "writes put t \<longleftrightarrow> (\<forall>s. log_ok s \<longrightarrow> (\<exists>s'. put s = Ret s' \<and> wrote t s s'))"

lemma wrote_ok: "wrote t s s' \<Longrightarrow> log_ok s \<Longrightarrow> log_ok s'"
  by (auto simp: wrote_def log_ok_def word_le_nat_alt)

lemma wrote_trans:
  assumes 1: "wrote t s s'" and 2: "wrote u s' s''"
  shows "wrote (t @ u) s s''"
proof -
  obtain es fs where "events s' = events s @ es" "list_all serial_event es" "outs PORT_NO_SERIAL_COM1 es = map of_char t"
    "events s'' = events s' @ fs" "list_all serial_event fs" "outs PORT_NO_SERIAL_COM1 fs = map of_char u"
    using assms by (auto simp: wrote_def)
  then have "\<exists>es. events s'' = events s @ es \<and> list_all serial_event es \<and> outs PORT_NO_SERIAL_COM1 es = map of_char (t @ u)"
    by (intro exI [of _ "es @ fs"]) simp
  moreover have "text_pixels (cols s) (screen_row s) (min (cols s) (unat (screen_col s) + length t)) u =
      text_pixels (cols s) (screen_row s) (unat (screen_col s) + length t) u"
    by (simp add: min_def text_pixels_off)
  ultimately show ?thesis
    using assms fb.painted_trans by (auto simp: wrote_def text_pixels_append split: if_splits)
qed

lemma writes_then:
  assumes "writes m t" "writes f u"
  shows "writes (\<lambda>s. rbind (m s) f) (t @ u)"
  unfolding writes_def
proof (intro allI impI)
  fix s assume ok: "log_ok s"
  obtain s' where s': "m s = Ret s'" "wrote t s s'" using assms(1) ok by (auto simp: writes_def)
  obtain s'' where "f s' = Ret s''" "wrote u s' s''" using assms(2) wrote_ok [OF s'(2) ok] by (auto simp: writes_def)
  then show "\<exists>s'. rbind (m s) f = Ret s' \<and> wrote (t @ u) s s'" using s' wrote_trans by auto
qed

lemma log_draw_row:
  assumes ok: "vesa_ok (log_vesa s)" "screen_row s < video_char_row_max (log_vesa s)"
    and n: "n \<le> length str" "unat (screen_col s) + n \<le> cols s"
  shows "\<exists>m'. count_loop 0 n (log_draw str) s = Ret (s\<lparr>screen_col := screen_col s + of_nat n, log_mem := m'\<rparr>) \<and>
    painted (log_vesa s) 255 255 255 (\<Union>i<n. char_pixels (screen_row s) (screen_col s + of_nat i) (of_char (str ! i))) (log_mem s) m'"
proof -
  let ?S = "\<lambda>k. \<Union>i<k. char_pixels (screen_row s) (screen_col s + of_nat i) (of_char (str ! i))"
  let ?P = "\<lambda>k u. \<exists>m'. u = s\<lparr>screen_col := screen_col s + of_nat k, log_mem := m'\<rparr> \<and> painted (log_vesa s) 255 255 255 (?S k) (log_mem s) m'"
  have "\<exists>s'. count_loop 0 n (log_draw str) s = Ret s' \<and> ?P (0 + n) s'"
  proof (rule count_loop_total [where P = ?P])
    show "?P 0 s" using fb.painted_none by (intro exI [of _ "log_mem s"]) simp
    fix k u
    assume k: "k < 0 + n" and "?P k u"
    then obtain m' where u: "u = s\<lparr>screen_col := screen_col s + of_nat k, log_mem := m'\<rparr>" and m': "painted (log_vesa s) 255 255 255 (?S k) (log_mem s) m'" by blast
    have kk: "unat (of_nat k :: u64) = k" using k n(2) unat_u64_bound [of "video_char_col_max (log_vesa s)"] by (simp add: unat_of_nat)
    have "unat (screen_col s + of_nat k) = unat (screen_col s) + k"
      using k n(2) kk unat_u64_bound [of "video_char_col_max (log_vesa s)"] by (subst unat_u64_add) auto
    then have c: "screen_col s + of_nat k < video_char_col_max (log_vesa s)" using k n(2) by (simp add: word_less_nat_alt)
    obtain m'' where m'': "video_draw_char (log_vesa s) (screen_row s) (screen_col s + of_nat k) (of_char (str ! k)) m' = Ret m''"
      "painted (log_vesa s) 255 255 255 (char_pixels (screen_row s) (screen_col s + of_nat k) (of_char (str ! k))) m' m''"
      using draw_char_paints [OF ok c] by blast
    have "painted (log_vesa s) 255 255 255 (?S (Suc k)) (log_mem s) m''"
      using fb.painted_trans [OF m' m''(2)] by (simp add: lessThan_Suc Un_commute)
    then show "\<exists>u'. log_draw str k u = Ret u' \<and> ?P (Suc k) u'"
      using m''(1) kk k n(1) u by (auto simp: log_draw_def ac_simps)
  qed
  then show ?thesis by auto
qed

lemma text_pixels_shown:
  assumes "n = min (length t) (w - c)" "unat col = c"
  shows "text_pixels w row c t = (\<Union>i<n. char_pixels row (col + of_nat i) (of_char (t ! i)))"
proof -
  define F where "F i = (if c + i < w then char_pixels row (of_nat (c + i)) (of_char (t ! i)) else {})" for i
  have "text_pixels w row c t = (\<Union>i<n + (length t - n). F i)" using assms(1) by (simp add: text_pixels_def F_def)
  also have "\<dots> = (\<Union>i<n. F i) \<union> (\<Union>j<length t - n. F (n + j))" by (rule Union_below_add)
  also have "(\<Union>j<length t - n. F (n + j)) = {}" using assms(1) by (auto simp: F_def min_def)
  also have "(\<Union>i<n. F i) = (\<Union>i<n. char_pixels row (col + of_nat i) (of_char (t ! i)))"
    using assms by (intro SUP_cong) (auto simp: F_def)
  finally show ?thesis by simp
qed

lemma log_str_len_writes:
  assumes "unat len \<le> length str"
  shows "writes (log_str_len str len) (take (unat len) str)"
  unfolding writes_def
proof (intro allI impI)
  fix s assume ok: "log_ok s"
  let ?t = "take (unat len) str"
  obtain s1 es where s1: "serial_write_str str len s = Ret s1" "s1 = s\<lparr>reads := reads s1, events := events s @ es\<rparr>"
    "list_all serial_event es" "outs PORT_NO_SERIAL_COM1 es = map of_char ?t"
    using serial_write_str_run [of s len str] ok assms by (auto simp: log_ok_def)
  have f: "events s1 = events s @ es" "answers s1 = answers s" "log_vesa s1 = log_vesa s" "write_screen s1 = write_screen s"
    "screen_row s1 = screen_row s" "screen_col s1 = screen_col s" "log_mem s1 = log_mem s" by (subst s1(2), simp)+
  show "\<exists>s'. log_str_len str len s = Ret s' \<and> wrote ?t s s'"
  proof (cases "write_screen s")
    case False
    then show ?thesis using s1 f by (auto simp: log_str_len_def wrote_def)
  next
    case True
    let ?w = "video_char_col_max (log_vesa s)" and ?c = "screen_col s"
    define wl where "wl = (if ?w - ?c < len then ?w - ?c else len)"
    have on: "vesa_ok (log_vesa s)" "screen_row s < video_char_row_max (log_vesa s)" "?c \<le> ?w" using True ok by (auto simp: log_ok_def)
    have d: "unat (?w - ?c) = unat ?w - unat ?c" using on(3) by (simp add: unat_u64_sub word_le_nat_alt)
    then have n: "unat wl = min (length ?t) (unat ?w - unat ?c)" using assms by (auto simp: wl_def word_less_nat_alt min_def)
    have "unat wl \<le> length str" "unat ?c + unat wl \<le> unat ?w" using n assms on(3) by (auto simp: word_le_nat_alt)
    then obtain m' where m': "count_loop 0 (unat wl) (log_draw str) s1 = Ret (s1\<lparr>screen_col := ?c + of_nat (unat wl), log_mem := m'\<rparr>)"
      "painted (log_vesa s) 255 255 255 (\<Union>i<unat wl. char_pixels (screen_row s) (?c + of_nat i) (of_char (str ! i))) (log_mem s) m'"
      using log_draw_row [of s1 "unat wl" str] on f by auto
    have "log_str_len str len s = Ret (s1\<lparr>screen_col := ?c + wl, log_mem := m'\<rparr>)"
      using s1(1) f True on(3) m'(1) by (cases "?w - ?c < len") (simp_all add: log_str_len_def Let_def wl_def)
    moreover have "unat (?c + wl) = min (unat ?w) (unat ?c + length ?t)"
      using n on(3) unat_u64_bound [of ?w] by (subst unat_u64_add) (auto simp: word_le_nat_alt)
    moreover have "text_pixels (unat ?w) (screen_row s) (unat ?c) ?t = (\<Union>i<unat wl. char_pixels (screen_row s) (?c + of_nat i) (of_char (str ! i)))"
      using text_pixels_shown [OF n refl] n by (simp cong: SUP_cong_simp)
    ultimately show ?thesis using f s1 m'(2) True by (auto simp: wrote_def)
  qed
qed

lemma log_str_writes:
  assumes "NUL \<notin> set t" "length t < 18446744073709551616"
  shows "writes (log_str (t @ [NUL])) t"
proof -
  have "unat (of_nat (length t) :: u64) = length t" using assms(2) by (simp add: unat_of_nat)
  moreover have "log_str (t @ [NUL]) = log_str_len (t @ [NUL]) (of_nat (length t))"
    using str_len_counts [OF assms(1), of "[]"] by (simp add: fun_eq_iff log_str_def)
  ultimately show ?thesis using log_str_len_writes [of "of_nat (length t)" "t @ [NUL]"] by simp
qed

lemma log_uint_writes:
  assumes "length msg0 = 64"
  shows "writes (log_uint msg0 v) (dec_digits (unat v))"
proof -
  let ?d = "dec_digits (unat v)"
  have d: "unat (of_nat (length ?d) :: u64) = length ?d" "length ?d \<le> 20" using u64_dec_digits [of v] by (simp_all add: unat_of_nat)
  have "log_uint msg0 v = log_str_len (overwrite msg0 0 ?d) (of_nat (length ?d))"
    using uint_put.put_fits [where v = v and buf_len = 64 and b = msg0 and off = 0] assms d by (simp add: fun_eq_iff log_uint_def)
  moreover have "take (length ?d) (overwrite msg0 0 ?d) = ?d" by (simp add: overwrite_def)
  ultimately show ?thesis using log_str_len_writes [of "of_nat (length ?d)" "overwrite msg0 0 ?d"] assms d by simp
qed

subsection \<open>The name of a file\<close>

lemma strip_skips_name: "CHR ''/'' \<notin> set d \<Longrightarrow> CHR ''0'' \<notin> set d \<Longrightarrow> file_strip_loop f (d @ rest) 0 = file_strip_loop f rest 0"
  by (induction d) auto

lemma strip_skips_dir:
  assumes "CHR ''/'' \<notin> set d" "CHR ''0'' \<notin> set d" "take (length d) ''src'' \<noteq> d"
  shows "file_strip_loop f (CHR ''/'' # d @ rest) 0 = file_strip_loop f rest 0"
proof -
  note skip = strip_skips_name [OF _ _, of _ f rest]
  have "file_strip_loop f (d @ rest) 1 = file_strip_loop f rest 0"
  proof (cases d)
    case (Cons a d1)
    show ?thesis
    proof (cases "a = CHR ''s''")
      case False
      then show ?thesis using Cons assms skip [of d1] by auto
    next
      case a: True
      then obtain b d2 where d1: "d1 = b # d2" using Cons assms(3) by (cases d1) auto
      show ?thesis
      proof (cases "b = CHR ''r''")
        case False
        then show ?thesis using Cons a d1 assms skip [of d2] by auto
      next
        case b: True
        then obtain c d3 where d2: "d2 = c # d3" using Cons a d1 assms(3) by (cases d2) auto
        show ?thesis
        proof (cases "c = CHR ''c''")
          case False
          then show ?thesis using Cons a b d1 d2 assms skip [of d3] by auto
        next
          case c: True
          then obtain e d4 where "d3 = e # d4" using Cons a b d1 d2 assms(3) by (cases d3) auto
          then show ?thesis using Cons a b c d1 d2 assms skip [of d4] by auto
        qed
      qed
    qed
  qed (use assms(3) in simp)
  then show ?thesis by simp
qed

text \<open>
  A directory of a path that the search gets past: its name is not one of the beginnings of \<open>src\<close>, the empty
  name included.
\<close>

definition plain_dir :: "buf \<Rightarrow> bool" where
  "plain_dir d \<longleftrightarrow> CHR ''/'' \<notin> set d \<and> CHR ''0'' \<notin> set d \<and> take (length d) ''src'' \<noteq> d"

lemma file_strip_name:
  assumes "\<forall>d \<in> set ds. plain_dir d" "name \<noteq> []" "hd name \<noteq> CHR ''0''"
  shows "file_strip (concat (map (\<lambda>d. CHR ''/'' # d) ds) @ ''/src/'' @ name) = Ret name"
proof -
  have "file_strip_loop f (concat (map (\<lambda>d. CHR ''/'' # d) ds) @ ''/src/'' @ name) 0 = Ret name" for f
    using assms
  proof (induction ds)
    case Nil
    then show ?case by (cases name) auto
  next
    case (Cons d ds)
    have "file_strip_loop f (CHR ''/'' # d @ (concat (map (\<lambda>d. CHR ''/'' # d) ds) @ ''/src/'' @ name)) 0 =
        file_strip_loop f (concat (map (\<lambda>d. CHR ''/'' # d) ds) @ ''/src/'' @ name) 0"
      using Cons.prems(1) by (intro strip_skips_dir) (auto simp: plain_dir_def)
    then show ?case using Cons by simp
  qed
  then show ?thesis by (simp add: file_strip_def)
qed

text \<open>Two searches that miss: a directory called \<open>s\<close>, and a digit 0 before the sources.\<close>

lemma file_strip_misses:
  "file_strip (''/s/src/log.c'' @ [NUL]) = Stop OutOfBounds"
  "file_strip (''/b0/src/log.c'' @ [NUL]) = Ret (''/b0/src/log.c'' @ [NUL])"
  by (simp_all add: file_strip_def)

subsection \<open>A line of the log\<close>

definition log_text :: "log_level \<Rightarrow> buf \<Rightarrow> u64 \<Rightarrow> buf \<Rightarrow> buf" where
  "log_text lv name line t = LINE_PREFIX_LEVEL lv @ '' '' @ name @ '':'' @ dec_digits (unat line) @ '' '' @ t"

lemma log_line_start_writes:
  assumes "length msg0 = 64" "file_strip file = Ret (name @ [NUL])" "NUL \<notin> set name" "length name < 18446744073709551616"
  shows "writes (log_line_start msg0 lv file line) (log_text lv name line [])"
proof -
  have p: "writes (log_str_len (LINE_PREFIX_LEVEL lv) LINE_PREFIX_LEVEL_LEN) (LINE_PREFIX_LEVEL lv)"
    using log_str_len_writes [of LINE_PREFIX_LEVEL_LEN "LINE_PREFIX_LEVEL lv"] by (cases lv) (simp_all add: LINE_PREFIX_LEVEL_LEN_def)
  have b: "writes (log_str_len ('' '' @ [NUL]) 1) '' ''" "writes (log_str_len ('':'' @ [NUL]) 1) '':''"
    using log_str_len_writes [of 1 "'' '' @ [NUL]"] log_str_len_writes [of 1 "'':'' @ [NUL]"] by simp_all
  note w = writes_then [OF p writes_then [OF b(1) writes_then [OF log_str_writes [OF assms(3,4)]
    writes_then [OF b(2) writes_then [OF log_uint_writes [OF assms(1), of line] b(1)]]]]]
  then show ?thesis using assms(2) unfolding log_line_start_def [abs_def] log_text_def by simp
qed

lemma log_line_end_ends:
  assumes "log_ok s"
  shows "\<exists>s' es. log_line_end s = Ret s' \<and> log_ok s' \<and> answers s' = answers s \<and> log_vesa s' = log_vesa s \<and> log_mem s' = log_mem s \<and>
    write_screen s' = write_screen s \<and> events s' = events s @ es \<and> list_all serial_event es \<and>
    outs PORT_NO_SERIAL_COM1 es = map of_char [CHR 0x0D, CHR 0x0A] \<and>
    (if write_screen s then screen_row s' = (screen_row s + 1) mod video_char_row_max (log_vesa s) \<and> screen_col s' = 0
     else screen_row s' = screen_row s \<and> screen_col s' = screen_col s)"
proof -
  let ?r = "video_char_row_max (log_vesa s)"
  define u where "u = (if write_screen s then s\<lparr>screen_row := (screen_row s + 1) mod ?r, screen_col := 0\<rparr> else s)"
  have r: "write_screen s \<Longrightarrow> ?r \<noteq> 0" using assms by (auto simp: log_ok_def)
  have e: "log_line_end s = serial_write_str [CHR 0x0D, CHR 0x0A, NUL] 2 u" using r by (simp add: log_line_end_def u_def Let_def)
  have lr: "line_ready (answers u)" using assms by (simp add: log_ok_def u_def)
  obtain s' es where s': "serial_write_str [CHR 0x0D, CHR 0x0A, NUL] 2 u = Ret s'" "s' = u\<lparr>reads := reads s', events := events u @ es\<rparr>"
    "list_all serial_event es" "outs PORT_NO_SERIAL_COM1 es = map of_char [CHR 0x0D, CHR 0x0A]"
    using serial_write_str_run [OF lr, of 2 "[CHR 0x0D, CHR 0x0A, NUL]"] by auto
  have f: "answers s' = answers s" "log_vesa s' = log_vesa s" "log_mem s' = log_mem s" "write_screen s' = write_screen s"
    "events s' = events s @ es" "write_screen s \<Longrightarrow> screen_row s' = (screen_row s + 1) mod ?r" "write_screen s \<Longrightarrow> screen_col s' = 0"
    "\<not> write_screen s \<Longrightarrow> screen_row s' = screen_row s" "\<not> write_screen s \<Longrightarrow> screen_col s' = screen_col s"
    by (subst s'(2), simp add: u_def)+
  moreover have "write_screen s \<Longrightarrow> (screen_row s + 1) mod ?r < ?r" using r by (simp add: word_mod_less_divisor word_gt_0)
  ultimately have "log_ok s'" using assms by (auto simp: log_ok_def)
  then show ?thesis using e s' f by auto
qed

definition logged :: "buf \<Rightarrow> log_state \<Rightarrow> log_state \<Rightarrow> bool" where
  "logged t s s' \<longleftrightarrow> log_ok s' \<and> log_vesa s' = log_vesa s \<and> write_screen s' = write_screen s \<and>
     (\<exists>es. events s' = events s @ es \<and> list_all serial_event es \<and> outs PORT_NO_SERIAL_COM1 es = map of_char (t @ [CHR 0x0D, CHR 0x0A])) \<and>
     (if write_screen s
      then painted (log_vesa s) 255 255 255 (text_pixels (cols s) (screen_row s) (unat (screen_col s)) t) (log_mem s) (log_mem s') \<and>
        screen_row s' = (screen_row s + 1) mod video_char_row_max (log_vesa s) \<and> screen_col s' = 0
      else log_mem s' = log_mem s \<and> screen_row s' = screen_row s \<and> screen_col s' = screen_col s)"

lemma log_line_logged:
  assumes "log_ok s" "length msg0 = 64" "length buf0 = 256"
    and "\<forall>d \<in> set ds. plain_dir d" "NUL \<notin> set name" "hd (name @ [NUL]) \<noteq> CHR ''0''" "length name < 18446744073709551616"
    and "\<forall>x \<in> set ps. piece_ok x" "NUL \<notin> set (concat (map piece_fmt ps))"
    and "length (concat (map piece_fmt ps)) < 18446744073709551616" "length (concat (map piece_text ps)) < 256"
  shows "\<exists>s'. log_line_format_v msg0 buf0 lv (concat (map (\<lambda>d. CHR ''/'' # d) ds) @ ''/src/'' @ name @ [NUL]) line
      (concat (map piece_fmt ps) @ [NUL]) (concat (map piece_args ps)) s = Ret s' \<and> logged (log_text lv name line (concat (map piece_text ps))) s s'"
proof -
  let ?file = "concat (map (\<lambda>d. CHR ''/'' # d) ds) @ ''/src/'' @ name @ [NUL]" and ?t = "concat (map piece_text ps)"
  have fname: "file_strip ?file = Ret (name @ [NUL])" using assms(4,6) by (intro file_strip_name) auto
  note fmt = marshal_format_v_renders [OF assms(8-10), of 256 buf0 0]
  have t: "unat (of_nat (length ?t) :: u64) = length ?t" "take (length ?t) (overwrite buf0 0 ?t) = ?t"
    using assms(11) by (simp_all add: unat_of_nat overwrite_def)
  have start: "writes (log_line_start msg0 lv ?file line) (log_text lv name line [])"
    by (rule log_line_start_writes [OF assms(2) fname assms(5,7)])
  have "writes (log_str_len (overwrite buf0 0 ?t) (of_nat (length ?t))) ?t"
    using log_str_len_writes [of "of_nat (length ?t)" "overwrite buf0 0 ?t"] t assms(3,11) by simp
  from writes_then [OF start this] assms(1) obtain s1 where
    s1: "rbind (log_line_start msg0 lv ?file line s) (log_str_len (overwrite buf0 0 ?t) (of_nat (length ?t))) = Ret s1"
      "wrote (log_text lv name line ?t) s s1" by (auto simp: writes_def log_text_def)
  obtain s' fs where s': "log_line_end s1 = Ret s'" "log_ok s'" "log_vesa s' = log_vesa s1" "write_screen s' = write_screen s1" "log_mem s' = log_mem s1"
    "events s' = events s1 @ fs" "list_all serial_event fs" "outs PORT_NO_SERIAL_COM1 fs = map of_char [CHR 0x0D, CHR 0x0A]"
    "if write_screen s1 then screen_row s' = (screen_row s1 + 1) mod video_char_row_max (log_vesa s1) \<and> screen_col s' = 0
     else screen_row s' = screen_row s1 \<and> screen_col s' = screen_col s1"
    using log_line_end_ends [OF wrote_ok [OF s1(2) assms(1)]] by blast
  have run: "log_line_format_v msg0 buf0 lv ?file line (concat (map piece_fmt ps) @ [NUL]) (concat (map piece_args ps)) s = Ret s'"
    using s1(1) s'(1) fmt(1,2) assms(3,11) by (auto simp: log_line_format_v_def)
  obtain es where "events s1 = events s @ es" "list_all serial_event es" "outs PORT_NO_SERIAL_COM1 es = map of_char (log_text lv name line ?t)"
    using s1(2) by (auto simp: wrote_def)
  then have "logged (log_text lv name line ?t) s s'" using s' s1(2)
    unfolding logged_def by (auto simp: wrote_def split: if_splits intro: exI [of _ "es @ fs"])
  then show ?thesis using run by blast
qed

lemma pieces_lit [simp]:
  "concat (map (piece_fmt \<circ> Lit) xs) = xs" "concat (map (piece_args \<circ> Lit) xs) = []" "concat (map (piece_text \<circ> Lit) xs) = xs"
  by (induction xs) auto

text \<open>
  Before \<open>d_vesa_bootstrap\<close> the height of the screen is 0: a line that is also written to the screen, as after
  \<open>log_enable_video_write\<close>, divides by it at its end.
\<close>

lemma log_line_end_no_screen:
  "d_vesa_get_height (log_vesa s) < 16 \<Longrightarrow> log_line_end (log_enable_video_write s) = Stop DivByZero"
  by (simp add: log_line_end_def log_enable_video_write_def video_char_row_max_def u64_eq_iff_unat unat_div word_less_nat_alt)

text \<open>
  C23: a line of the log. With the serial line ready again and again, and the cursor on the screen when the
  screen is written, \<open>_log_line_format_v\<close> returns for every file under \<open>/src/\<close> and every rendering of fewer than
  256 characters. The serial line has sent the level with its terminator, the file, the line number, the
  text and a line end, and nothing else was done to the ports; the same text was drawn on the current row,
  cut at the right edge, the cursor is at the start of the next row, and again on the screen.
\<close>

theorem log_line_format_v_writes:
  assumes "log_ok s" "length msg0 = 64" "length buf0 = 256"
    and "\<forall>d \<in> set ds. plain_dir d" "NUL \<notin> set name" "hd (name @ [NUL]) \<noteq> CHR ''0''" "length name < 18446744073709551616"
    and "\<forall>x \<in> set ps. piece_ok x" "NUL \<notin> set (concat (map piece_fmt ps))"
    and "length (concat (map piece_fmt ps)) < 18446744073709551616" "length (concat (map piece_text ps)) < 256"
  shows "\<exists>s' es. log_line_format_v msg0 buf0 lv (concat (map (\<lambda>d. CHR ''/'' # d) ds) @ ''/src/'' @ name @ [NUL]) line
      (concat (map piece_fmt ps) @ [NUL]) (concat (map piece_args ps)) s = Ret s' \<and> log_ok s' \<and>
    events s' = events s @ es \<and> list_all serial_event es \<and>
    outs PORT_NO_SERIAL_COM1 es = map of_char (log_text lv name line (concat (map piece_text ps)) @ [CHR 0x0D, CHR 0x0A]) \<and>
    (if write_screen s
     then painted (log_vesa s) 255 255 255
         (text_pixels (cols s) (screen_row s) (unat (screen_col s)) (log_text lv name line (concat (map piece_text ps)))) (log_mem s) (log_mem s') \<and>
       screen_row s' = (screen_row s + 1) mod video_char_row_max (log_vesa s) \<and> screen_col s' = 0
     else log_mem s' = log_mem s)"
  using log_line_logged [OF assms, of lv line] by (auto simp: logged_def)

definition sample_log :: log_state where
  "sample_log = \<lparr>answers = (\<lambda>_. 0x60), reads = 0, events = [], screen_row = 47, screen_col = 0, write_screen = True,
     log_vesa = sample_vesa, log_mem = (\<lambda>_. 0)\<rparr>"

lemma sample_log_ok: "log_ok sample_log"
  by (auto simp: log_ok_def sample_log_def line_ready_def vesa_ok_def sample_vesa_def video_char_row_max_def video_char_col_max_def
      d_vesa_get_height_def d_vesa_get_width_def)

text \<open>On the last of 48 rows: the line goes out and the next one starts at the top.\<close>

theorem log_line_format_v_writes_witness:
  "\<exists>s'. log_line_format_v (replicate 64 NUL) (replicate 256 NUL) LOG_LEVEL_WARN (''/home/cing/src/mem.c'' @ [NUL]) 12
      (''got %lu'' @ [NUL]) [VaU64 7] sample_log = Ret s' \<and>
    outs PORT_NO_SERIAL_COM1 (events s') = map of_char (''[WRN]'' @ [NUL] @ '' mem.c:12 got 7'' @ [CHR 0x0D, CHR 0x0A]) \<and> screen_row s' = 0"
proof -
  have "(47 + 1 :: u64) mod video_char_row_max sample_vesa = 0"
    by (simp add: video_char_row_max_def d_vesa_get_height_def sample_vesa_def)
  then show ?thesis
    using log_line_format_v_writes [OF sample_log_ok, of "replicate 64 NUL" "replicate 256 NUL" "[''home'', ''cing'']" "''mem.c''"
      "[Lit CHR ''g'', Lit CHR ''o'', Lit CHR ''t'', Lit CHR '' '', PUint 7]" LOG_LEVEL_WARN 12]
    by (auto simp: plain_dir_def log_text_def dec_digits_eval sample_log_def char_of_def bit_0)
qed

end
