(* ===== verification/Kernel_Panic.thy ===== *)
theory Kernel_Panic
  imports Log Drivers_Screen
begin

text \<open>
  \<open>src/src/kernel/kernel_panic.c\<close>: what a panic and a failed assertion leave behind. Both end in an endless
  loop of \<open>hlt\<close>; the models return the state in which the machine halts: the text screen and the log.
  \<open>this\<close> is the path of \<open>kernel_panic.c\<close> that the compiler puts into the log macros, and \<open>at\<close> the line of a log
  call; \<open>ln0\<close>, \<open>msg0\<close> and \<open>buf0\<close> are what the buffers on the stack hold at the start.
\<close>

subsection \<open>Operations\<close>

function unsigned_to_str_loop :: "buf \<Rightarrow> u64 \<Rightarrow> u64 \<Rightarrow> buf res" where
  "unsigned_to_str_loop b buf_off uval =
     (let digit = uval mod 10 in
      rbind (buf_set b buf_off (char_of (unat (digit + 48)))) (\<lambda>b.
      let buf_off = buf_off - 1; uval = uval div 10 in
      if uval = 0 then Ret b else unsigned_to_str_loop b buf_off uval))"
  by pat_completeness auto
termination
  by (relation "measure (\<lambda>(b, p, v). unat v)") (auto simp: u64_eq_iff_unat unat_div)

declare unsigned_to_str_loop.simps [simp del]

definition unsigned_to_str :: "u64 \<Rightarrow> buf \<Rightarrow> u64 \<Rightarrow> buf res" where
  "unsigned_to_str uval b buf_cap =
     (let digit_cnt = count_digits uval 0 in
      if digit_cnt + 1 > buf_cap then
        if buf_cap \<ge> 3 then
          rbind (buf_set b 0 CHR ''E'') (\<lambda>b. rbind (buf_set b 1 CHR ''R'') (\<lambda>b. buf_set b 2 NUL))
        else if buf_cap = 2 then rbind (buf_set b 0 CHR ''E'') (\<lambda>b. buf_set b 1 NUL)
        else if buf_cap = 1 then buf_set b 0 CHR ''E''
        else Ret b
      else
        rbind (unsigned_to_str_loop b (digit_cnt - 1) uval) (\<lambda>b. buf_set b digit_cnt NUL))"

abbreviation panic_write :: "buf \<Rightarrow> u64 \<Rightarrow> vga \<Rightarrow> vga res" where
  "panic_write str row v \<equiv> screen_write_str str SCREEN_COLOR_WHITE SCREEN_COLOR_RED row 0 v"

definition kernel_panic ::
  "buf \<Rightarrow> buf \<Rightarrow> buf \<Rightarrow> buf \<Rightarrow> u64 \<times> u64 \<Rightarrow> buf \<Rightarrow> u64 \<Rightarrow> buf \<Rightarrow> vga \<times> log_state \<Rightarrow> (vga \<times> log_state) res" where
  "kernel_panic ln0 msg0 buf0 this at file_name line msg = (\<lambda>(v, s).
     rbind (panic_write (''Kernel panic!'' @ [NUL]) (SCREEN_HEIGHT - 5) v) (\<lambda>v.
     rbind (panic_write msg (SCREEN_HEIGHT - 4) v) (\<lambda>v.
     rbind (panic_write (''File:'' @ [NUL]) (SCREEN_HEIGHT - 3) v) (\<lambda>v.
     rbind (panic_write file_name (SCREEN_HEIGHT - 2) v) (\<lambda>v.
     rbind (unsigned_to_str line ln0 128) (\<lambda>ln_str.
     rbind (panic_write ln_str (SCREEN_HEIGHT - 1) v) (\<lambda>v.
     rbind (log_line_format_v msg0 buf0 LOG_LEVEL_FATAL this (fst at) (''Kernel panic! %s'' @ [NUL]) [VaStr msg] s) (\<lambda>s.
     rbind (log_line_format_v msg0 buf0 LOG_LEVEL_FATAL this (snd at) (''File: %s, line:%lu '' @ [NUL]) [VaStr file_name, VaU64 line] s) (\<lambda>s.
     Ret (v, s))))))))))"

definition kernel_assert_fail ::
  "buf \<Rightarrow> buf \<Rightarrow> buf \<Rightarrow> buf \<Rightarrow> u64 \<times> u64 \<Rightarrow> buf \<Rightarrow> buf \<Rightarrow> u64 \<Rightarrow> vga \<times> log_state \<Rightarrow> (vga \<times> log_state) res" where
  "kernel_assert_fail ln0 msg0 buf0 this at expr file_name line = (\<lambda>(v, s).
     rbind (panic_write (''Kernel assertion failure!'' @ [NUL]) (SCREEN_HEIGHT - 7) v) (\<lambda>v.
     rbind (panic_write (''Expression:'' @ [NUL]) (SCREEN_HEIGHT - 6) v) (\<lambda>v.
     rbind (panic_write expr (SCREEN_HEIGHT - 5) v) (\<lambda>v.
     rbind (panic_write (''File:'' @ [NUL]) (SCREEN_HEIGHT - 4) v) (\<lambda>v.
     rbind (panic_write file_name (SCREEN_HEIGHT - 3) v) (\<lambda>v.
     rbind (unsigned_to_str line ln0 128) (\<lambda>ln_str.
     rbind (panic_write (''Line:'' @ [NUL]) (SCREEN_HEIGHT - 2) v) (\<lambda>v.
     rbind (panic_write ln_str (SCREEN_HEIGHT - 1) v) (\<lambda>v.
     rbind (log_line_format_v msg0 buf0 LOG_LEVEL_FATAL this (fst at) (''Kernel assertion failure! Expression: %s'' @ [NUL]) [VaStr expr] s) (\<lambda>s.
     rbind (log_line_format_v msg0 buf0 LOG_LEVEL_FATAL this (snd at) (''File: %s, line: %lu'' @ [NUL]) [VaStr file_name, VaU64 line] s) (\<lambda>s.
     Ret (v, s))))))))))))"

definition stack_chk_fail ::
  "buf \<Rightarrow> buf \<Rightarrow> buf \<Rightarrow> buf \<Rightarrow> u64 \<times> u64 \<Rightarrow> u64 \<Rightarrow> vga \<times> log_state \<Rightarrow> (vga \<times> log_state) res" where
  "stack_chk_fail ln0 msg0 buf0 this at line = kernel_panic ln0 msg0 buf0 this at this line (''Stack smashing detected'' @ [NUL])"

subsection \<open>Numbers\<close>

text \<open>The loop is the one of \<open>str_buf_marshal_uint\<close>, which goes on to check where it ended.\<close>

lemma unsigned_to_str_loop_eq: "unsigned_to_str_loop b p v = rbind (write_digits b p v) (\<lambda>(b, _). Ret b)"
proof (induction b p v rule: unsigned_to_str_loop.induct)
  case (1 b p v)
  then show ?case
    by (subst unsigned_to_str_loop.simps, subst write_digits.simps) (auto simp: Let_def rbind_assoc intro!: rbind_cong)
qed

lemma digit_put_next:
  assumes "length xs < length b" "unat i = length xs"
  shows "buf_set (overwrite b 0 xs) i c = Ret (overwrite b 0 (xs @ [c]))"
  using assms overwrite_overwrite [of 0 xs b "[c]"] by simp

lemma unsigned_to_str_fits:
  assumes "length (dec_digits (unat v)) + 1 \<le> unat n" "unat n \<le> length b"
  shows "unsigned_to_str v b n = Ret (overwrite b 0 (dec_digits (unat v) @ [NUL]))"
proof -
  let ?ds = "dec_digits (unat v)"
  have k: "unat (count_digits v 0) = length ?ds" using count_digits_length [of 0 v] u64_dec_digits [of v] by simp
  have k1: "unat (count_digits v 0 - 1) = length ?ds - 1" using k by (subst unat_u64_sub) (cases ?ds; auto)+
  have "unat (count_digits v 0 + 1) = length ?ds + 1" using k u64_dec_digits [of v] by (subst unat_u64_add) auto
  then have "\<not> count_digits v 0 + 1 > n" using assms(1) by (simp add: word_less_nat_alt)
  moreover have "unsigned_to_str_loop b (count_digits v 0 - 1) v = Ret (overwrite b 0 ?ds)"
    using write_digits_overwrites [of "count_digits v 0 - 1" b v] assms k1 by (cases ?ds) (auto simp: unsigned_to_str_loop_eq)
  moreover have "buf_set (overwrite b 0 ?ds) (count_digits v 0) NUL = Ret (overwrite b 0 (?ds @ [NUL]))"
    using digit_put_next [of ?ds b "count_digits v 0" NUL] assms k by simp
  ultimately show ?thesis by (simp add: unsigned_to_str_def Let_def)
qed

text \<open>
  C36: \<open>_unsigned_to_str\<close> stays inside its buffer. A number whose decimal digits and terminator fit is written as
  such; otherwise the beginning of \<open>ER\<close> and, from two characters on, a terminator are written, as much as the
  capacity allows. The rest of the buffer is unchanged.
\<close>

theorem unsigned_to_str_writes:
  assumes "unat buf_cap \<le> length b"
  shows "unsigned_to_str uval b buf_cap =
    Ret (overwrite b 0
      (let ds = dec_digits (unat uval) in
       if length ds + 1 \<le> unat buf_cap then ds @ [NUL]
       else if unat buf_cap = 1 then ''E'' else if unat buf_cap = 0 then [] else take (unat buf_cap - 1) ''ER'' @ [NUL]))"
proof (cases "length (dec_digits (unat uval)) + 1 \<le> unat buf_cap")
  case True
  then show ?thesis using unsigned_to_str_fits assms by (simp add: Let_def)
next
  case False
  let ?ds = "dec_digits (unat uval)"
  have "unat (count_digits uval 0) = length ?ds" using count_digits_length [of 0 uval] u64_dec_digits [of uval] by simp
  then have "unat (count_digits uval 0 + 1) = length ?ds + 1" using u64_dec_digits [of uval] by (subst unat_u64_add) auto
  then have no: "count_digits uval 0 + 1 > buf_cap" using False by (simp add: word_less_nat_alt)
  consider "unat buf_cap = 0" | "unat buf_cap = 1" | "unat buf_cap = 2" | "3 \<le> unat buf_cap" by linarith
  then show ?thesis
  proof cases
    case 4
    then have cap: "buf_cap \<ge> 3" and l: "3 \<le> length b" "b \<noteq> []" using assms by (auto simp: word_le_nat_alt)
    note put = digit_put_next [of "[]" b 0 "CHR ''E''"] digit_put_next [of "''E''" b 1 "CHR ''R''"] digit_put_next [of "''ER''" b 2 NUL]
    have "buf_set b 0 CHR ''E'' = Ret (overwrite b 0 ''E'')" "buf_set (overwrite b 0 ''E'') 1 CHR ''R'' = Ret (overwrite b 0 ''ER'')"
      "buf_set (overwrite b 0 ''ER'') 2 NUL = Ret (overwrite b 0 (''ER'' @ [NUL]))" using put l by simp_all
    moreover have "take (unat buf_cap - 1) ''ER'' = ''ER''" using 4 by simp
    ultimately show ?thesis using no False 4 cap by (simp add: unsigned_to_str_def Let_def)
  next
    case 3
    then have "buf_cap = 2" "b \<noteq> []" "2 \<le> length b" using assms by (auto simp: u64_eq_iff_unat)
    then show ?thesis using no False assms digit_put_next [of "[]" b 0 "CHR ''E''"] digit_put_next [of "''E''" b 1 NUL] by (auto simp: unsigned_to_str_def Let_def)
  next
    case 2
    then have "buf_cap = 1" "b \<noteq> []" "\<not> 3 \<le> buf_cap" using assms by (auto simp: u64_eq_iff_unat word_le_nat_alt)
    then show ?thesis using no False assms by (auto simp: unsigned_to_str_def Let_def)
  next
    case 1
    then have "buf_cap = 0" by (simp add: u64_eq_iff_unat)
    then show ?thesis using no by (simp add: unsigned_to_str_def Let_def)
  qed
qed

theorem unsigned_to_str_writes_witness:
  "unsigned_to_str 407 ''.....'' 5 = Ret (''407'' @ [NUL] @ ''.'') \<and> unsigned_to_str 407 ''.....'' 3 = Ret (''ER'' @ [NUL] @ ''..'')"
  using unsigned_to_str_writes [of 5 "''.....''" 407] unsigned_to_str_writes [of 3 "''.....''" 407]
  by (simp add: dec_digits_eval overwrite_def char_of_def bit_0)

subsection \<open>Reports\<close>

text \<open>Rows of the text screen from \<open>r0\<close> on that show one text each, cut at the right edge.\<close>

definition shows_lines :: "(nat \<Rightarrow> nat \<Rightarrow> u8 \<times> u8) \<Rightarrow> (nat \<Rightarrow> nat \<Rightarrow> u8 \<times> u8) \<Rightarrow> nat \<Rightarrow> buf list \<Rightarrow> bool" where
  "shows_lines old new r0 ts \<longleftrightarrow> (\<forall>r<25. \<forall>c<80. new r c =
     (if r0 \<le> r \<and> r < r0 + length ts \<and> c < length (ts ! (r - r0)) then (of_char (ts ! (r - r0) ! c), snd (old r c)) else old r c))"

lemma shows_lines_Nil [simp]: "shows_lines old old r0 []"
  by (auto simp: shows_lines_def)

text \<open>Texts on consecutive rows are written one after the other.\<close>

definition shown :: "vga \<Rightarrow> nat \<Rightarrow> buf list \<Rightarrow> vga \<Rightarrow> bool" where
  "shown v r0 ts u \<longleftrightarrow> length u = 4000 \<and> shows_lines (cells v) (cells u) r0 ts"

lemma panic_write_next:
  assumes u: "shown v r0 ts u" and row: "unat row = r0 + length ts" "r0 + length ts < 25" and str: "str = cs @ NUL # rest" "NUL \<notin> set cs"
  shows "\<exists>u'. panic_write str row u = Ret u' \<and> shown v r0 (ts @ [cs]) u'"
proof -
  have "row < 25" using row by (simp add: word_less_nat_alt)
  then obtain u' where u': "panic_write str row u = Ret u'" "length u' = 4000" "shows_text (cells u) (cells u') (unat row) 0 (take 80 cs)"
    using write_str_loop_draws [OF str, of row 0 u u 0] u by (auto simp: screen_write_str_def shown_def)
  have "shows_lines (cells v) (cells u') r0 (ts @ [cs])"
    unfolding shows_lines_def
  proof (intro allI impI)
    fix r c :: nat
    assume rc: "r < 25" "c < 80"
    note new = u'(3) [unfolded shows_text_def, rule_format, OF rc] and old = u [unfolded shown_def shows_lines_def, THEN conjunct2, rule_format, OF rc]
    consider "r = r0 + length ts" | "r < r0 + length ts" | "r0 + length ts < r" by linarith
    then show "cells u' r c = (if r0 \<le> r \<and> r < r0 + length (ts @ [cs]) \<and> c < length ((ts @ [cs]) ! (r - r0))
        then (of_char ((ts @ [cs]) ! (r - r0) ! c), snd (cells v r c)) else cells v r c)"
      by cases (use new old row rc in \<open>auto simp: nth_append\<close>)
  qed
  then show ?thesis using u' by (auto simp: shown_def)
qed

lemma panic_write_then:
  assumes "shown v r0 ts u" "unat row = r0 + length ts" "r0 + length ts < 25" "NUL \<notin> set cs"
    and "\<And>u'. shown v r0 (ts @ [cs]) u' \<Longrightarrow> \<exists>v' s'. f u' = Ret (v', s') \<and> Q v' s'"
  shows "\<exists>v' s'. rbind (panic_write (cs @ NUL # rest) row u) f = Ret (v', s') \<and> Q v' s'"
  using panic_write_next [OF assms(1-3) refl assms(4)] assms(5) by (metis rbind_Inr)

lemma screen_rows:
  "unat (SCREEN_HEIGHT - 7) = 18" "unat (SCREEN_HEIGHT - 6) = 19" "unat (SCREEN_HEIGHT - 5) = 20" "unat (SCREEN_HEIGHT - 4) = 21"
  "unat (SCREEN_HEIGHT - 3) = 22" "unat (SCREEN_HEIGHT - 2) = 23" "unat (SCREEN_HEIGHT - 1) = 24"
  by (simp_all add: SCREEN_HEIGHT_def)

lemma dec_digits_NUL [simp]: "NUL \<notin> set (dec_digits n)"
  using dec_digits_are_digits by (force simp: str_char_is_digit_def ch_int_def)

lemma line_str:
  assumes "length ln0 = 128"
  shows "unsigned_to_str line ln0 128 = Ret (dec_digits (unat line) @ NUL # drop (length (dec_digits (unat line)) + 1) ln0)"
  using unsigned_to_str_fits [of line 128 ln0] u64_dec_digits [of line] assms by (simp add: overwrite_def)

text \<open>The two lines both reports leave in the log.\<close>

lemma report_log:
  assumes ok: "log_ok s" "length msg0 = 64" "length buf0 = 256" "\<forall>d \<in> set ds. plain_dir d" "NUL \<notin> set name"
    "hd (name @ [NUL]) \<noteq> CHR ''0''" "length name < 18446744073709551616"
    and pre: "NUL \<notin> set pre" "CHR ''%'' \<notin> set pre" "length pre < 100" and sep: "NUL \<notin> set sep" "CHR ''%'' \<notin> set sep" "length sep < 10"
    and post: "NUL \<notin> set post" "CHR ''%'' \<notin> set post" "length post < 10"
    and msg: "NUL \<notin> set msg" "length pre + length msg < 256" and file_name: "NUL \<notin> set file_name" "length file_name < 200"
  shows "\<exists>s1 s'. rbind (log_line_format_v msg0 buf0 lv (concat (map (\<lambda>d. CHR ''/'' # d) ds) @ ''/src/'' @ name @ [NUL]) l1 (pre @ ''%s'' @ [NUL]) [VaStr (msg @ [NUL])] s)
      (log_line_format_v msg0 buf0 lv (concat (map (\<lambda>d. CHR ''/'' # d) ds) @ ''/src/'' @ name @ [NUL]) l2 (''File: %s'' @ sep @ ''%lu'' @ post @ [NUL])
         [VaStr (file_name @ [NUL]), VaU64 line]) = Ret s' \<and>
    logged (log_text lv name l1 (pre @ msg)) s s1 \<and>
    logged (log_text lv name l2 (''File: '' @ file_name @ sep @ dec_digits (unat line) @ post)) s1 s'"
proof -
  let ?p1 = "map Lit pre @ [PStr msg]" and ?p2 = "map Lit ''File: '' @ [PStr file_name] @ map Lit sep @ [PUint line] @ map Lit post"
  have "\<exists>s1. log_line_format_v msg0 buf0 lv (concat (map (\<lambda>d. CHR ''/'' # d) ds) @ ''/src/'' @ name @ [NUL]) l1
      (concat (map piece_fmt ?p1) @ [NUL]) (concat (map piece_args ?p1)) s = Ret s1 \<and> logged (log_text lv name l1 (concat (map piece_text ?p1))) s s1"
    by (rule log_line_logged [OF ok]) (use pre msg in auto)
  then obtain s1 where s1: "log_line_format_v msg0 buf0 lv (concat (map (\<lambda>d. CHR ''/'' # d) ds) @ ''/src/'' @ name @ [NUL]) l1 (pre @ ''%s'' @ [NUL])
      [VaStr (msg @ [NUL])] s = Ret s1" "logged (log_text lv name l1 (pre @ msg)) s s1" by auto
  have "log_ok s1" using s1(2) by (simp add: logged_def)
  then have "\<exists>s'. log_line_format_v msg0 buf0 lv (concat (map (\<lambda>d. CHR ''/'' # d) ds) @ ''/src/'' @ name @ [NUL]) l2
      (concat (map piece_fmt ?p2) @ [NUL]) (concat (map piece_args ?p2)) s1 = Ret s' \<and> logged (log_text lv name l2 (concat (map piece_text ?p2))) s1 s'"
    by (rule log_line_logged [OF _ ok(2-)]) (use sep post file_name u64_dec_digits [of line] in auto)
  then show ?thesis using s1 by auto
qed

text \<open>
  C26: \<open>_kernel_panic\<close> reports. With the log in order, for a message and a file name that fit the log's buffer, it
  halts the machine with the last five rows of the text screen showing the panic, the message, the file
  and the line in decimal, every other cell and all attributes unchanged, and with the two lines in the log.
\<close>

theorem kernel_panic_reports:
  assumes "length v = 4000" "length ln0 = 128"
    and ok: "log_ok s" "length msg0 = 64" "length buf0 = 256" "\<forall>d \<in> set ds. plain_dir d" "NUL \<notin> set name"
      "hd (name @ [NUL]) \<noteq> CHR ''0''" "length name < 18446744073709551616"
    and msg: "NUL \<notin> set msg" "length msg < 200" "NUL \<notin> set file_name" "length file_name < 200"
  shows "\<exists>v' s1 s'. kernel_panic ln0 msg0 buf0 (concat (map (\<lambda>d. CHR ''/'' # d) ds) @ ''/src/'' @ name @ [NUL]) (l1, l2)
      (file_name @ [NUL]) line (msg @ [NUL]) (v, s) = Ret (v', s') \<and>
    shows_lines (cells v) (cells v') 20 [''Kernel panic!'', msg, ''File:'', file_name, dec_digits (unat line)] \<and>
    logged (log_text LOG_LEVEL_FATAL name l1 (''Kernel panic! '' @ msg)) s s1 \<and>
    logged (log_text LOG_LEVEL_FATAL name l2 (''File: '' @ file_name @ '', line:'' @ dec_digits (unat line) @ '' '')) s1 s'"
proof -
  let ?path = "concat (map (\<lambda>d. CHR ''/'' # d) ds) @ ''/src/'' @ name @ [NUL]"
  let ?t1 = "log_text LOG_LEVEL_FATAL name l1 (''Kernel panic! '' @ msg)"
    and ?t2 = "log_text LOG_LEVEL_FATAL name l2 (''File: '' @ file_name @ '', line:'' @ dec_digits (unat line) @ '' '')"
  from report_log [OF ok, of "''Kernel panic! ''" "'', line:''" "'' ''" msg file_name LOG_LEVEL_FATAL l1 l2 line] msg
  obtain s1 s' where log: "rbind (log_line_format_v msg0 buf0 LOG_LEVEL_FATAL ?path l1 (''Kernel panic! %s'' @ [NUL]) [VaStr (msg @ [NUL])] s)
      (log_line_format_v msg0 buf0 LOG_LEVEL_FATAL ?path l2 (''File: %s, line:%lu '' @ [NUL]) [VaStr (file_name @ [NUL]), VaU64 line]) = Ret s'"
    and lines: "logged ?t1 s s1" "logged ?t2 s1 s'" by auto
  have "shown v 20 [] v" using assms(1) by (simp add: shown_def)
  then have "\<exists>v' u. kernel_panic ln0 msg0 buf0 ?path (l1, l2) (file_name @ [NUL]) line (msg @ [NUL]) (v, s) = Ret (v', u) \<and>
      shown v 20 [''Kernel panic!'', msg, ''File:'', file_name, dec_digits (unat line)] v' \<and> u = s'"
    unfolding kernel_panic_def prod.case line_str [OF assms(2)] rbind_Inr
    by - ((rule panic_write_then, assumption, simp add: screen_rows, simp, simp add: msg)+, use log in auto)
  then show ?thesis using lines by (auto simp: shown_def)
qed

theorem kernel_panic_reports_witness:
  "\<exists>v' s'. kernel_panic (replicate 128 NUL) (replicate 64 NUL) (replicate 256 NUL) (''/cing/src/kernel/kernel_panic.c'' @ [NUL]) (68, 69)
      (''mm.c'' @ [NUL]) 7 (''Bad'' @ [NUL]) (replicate 4000 0, sample_log) = Ret (v', s') \<and> cells v' 21 1 = (0x61, 0) \<and> screen_row s' = 1"
proof -
  obtain v' s1 s' where r: "kernel_panic (replicate 128 NUL) (replicate 64 NUL) (replicate 256 NUL) (''/cing/src/kernel/kernel_panic.c'' @ [NUL]) (68, 69)
      (''mm.c'' @ [NUL]) 7 (''Bad'' @ [NUL]) (replicate 4000 0, sample_log) = Ret (v', s')"
    "shows_lines (cells (replicate 4000 0)) (cells v') 20 [''Kernel panic!'', ''Bad'', ''File:'', ''mm.c'', dec_digits 7]"
    and l: "\<exists>t. logged t sample_log s1" "\<exists>t. logged t s1 s'"
    using kernel_panic_reports [OF _ _ sample_log_ok, of "replicate 4000 0" "replicate 128 NUL" "replicate 64 NUL" "replicate 256 NUL" "[''cing'']"
        "''kernel/kernel_panic.c''" "''Bad''" "''mm.c''" 68 69 7]
    by (auto simp: plain_dir_def)
  have w: "write_screen sample_log" by (simp add: sample_log_def)
  obtain t u where "logged t sample_log s1" "logged u s1 s'" using l by blast
  then have l: "screen_row s1 = (screen_row sample_log + 1) mod video_char_row_max (log_vesa sample_log)"
    "screen_row s' = (screen_row s1 + 1) mod video_char_row_max (log_vesa sample_log)"
    using w by (auto simp: logged_def)
  have "cells v' 21 1 = (0x61, 0)"
    using r(2) [unfolded shows_lines_def, rule_format, of 21 1] by (simp add: cells_def of_char_def)
  moreover have "screen_row s' = 1"
    using l by (simp add: sample_log_def sample_vesa_def video_char_row_max_def d_vesa_get_height_def)
  ultimately show ?thesis using r(1) by blast
qed

text \<open>\<open>_kernel_assert_fail\<close> does the same on the last seven rows.\<close>

theorem kernel_assert_fail_reports:
  assumes "length v = 4000" "length ln0 = 128"
    and ok: "log_ok s" "length msg0 = 64" "length buf0 = 256" "\<forall>d \<in> set ds. plain_dir d" "NUL \<notin> set name"
      "hd (name @ [NUL]) \<noteq> CHR ''0''" "length name < 18446744073709551616"
    and msg: "NUL \<notin> set expr" "length expr < 200" "NUL \<notin> set file_name" "length file_name < 200"
  shows "\<exists>v' s1 s'. kernel_assert_fail ln0 msg0 buf0 (concat (map (\<lambda>d. CHR ''/'' # d) ds) @ ''/src/'' @ name @ [NUL]) (l1, l2)
      (expr @ [NUL]) (file_name @ [NUL]) line (v, s) = Ret (v', s') \<and>
    shows_lines (cells v) (cells v') 18
      [''Kernel assertion failure!'', ''Expression:'', expr, ''File:'', file_name, ''Line:'', dec_digits (unat line)] \<and>
    logged (log_text LOG_LEVEL_FATAL name l1 (''Kernel assertion failure! Expression: '' @ expr)) s s1 \<and>
    logged (log_text LOG_LEVEL_FATAL name l2 (''File: '' @ file_name @ '', line: '' @ dec_digits (unat line))) s1 s'"
proof -
  let ?path = "concat (map (\<lambda>d. CHR ''/'' # d) ds) @ ''/src/'' @ name @ [NUL]"
  let ?t1 = "log_text LOG_LEVEL_FATAL name l1 (''Kernel assertion failure! Expression: '' @ expr)"
    and ?t2 = "log_text LOG_LEVEL_FATAL name l2 (''File: '' @ file_name @ '', line: '' @ dec_digits (unat line))"
  from report_log [OF ok, of "''Kernel assertion failure! Expression: ''" "'', line: ''" "[]" expr file_name LOG_LEVEL_FATAL l1 l2 line] msg
  obtain s1 s' where log: "rbind (log_line_format_v msg0 buf0 LOG_LEVEL_FATAL ?path l1 (''Kernel assertion failure! Expression: %s'' @ [NUL]) [VaStr (expr @ [NUL])] s)
      (log_line_format_v msg0 buf0 LOG_LEVEL_FATAL ?path l2 (''File: %s, line: %lu'' @ [NUL]) [VaStr (file_name @ [NUL]), VaU64 line]) = Ret s'"
    and lines: "logged ?t1 s s1" "logged ?t2 s1 s'" by auto
  have "shown v 18 [] v" using assms(1) by (simp add: shown_def)
  then have "\<exists>v' u. kernel_assert_fail ln0 msg0 buf0 ?path (l1, l2) (expr @ [NUL]) (file_name @ [NUL]) line (v, s) = Ret (v', u) \<and>
      shown v 18 [''Kernel assertion failure!'', ''Expression:'', expr, ''File:'', file_name, ''Line:'', dec_digits (unat line)] v' \<and> u = s'"
    unfolding kernel_assert_fail_def prod.case line_str [OF assms(2)] rbind_Inr
    by - ((rule panic_write_then, assumption, simp add: screen_rows, simp, simp add: msg)+, use log in auto)
  then show ?thesis using lines by (auto simp: shown_def)
qed

end
