(* ===== verification/Kernel_Lines.thy ===== *)
theory Kernel_Lines
  imports Log Mem_Frame Drivers_Acpi
begin

text \<open>
  The log lines of the parts that \<open>kernal_main\<close> starts: those of \<open>mem_frame.c\<close>, \<open>drivers_vesa.c\<close>,
  \<open>drivers_acpi.c\<close> and \<open>drivers_pcie.c\<close>. A line changes nothing of its part, so a part and its calls of
  \<open>log_line_format\<close> are definitions of their own: the calls are listed in their order, and \<open>kernal_main\<close> makes them
  when the part has returned. The number of a call over several lines is that of its first line.
\<close>

subsection \<open>Calls of the log\<close>

text \<open>The source files, whose paths the macro \<open>log_line_format\<close> takes from the compiler.\<close>

datatype source_file = Kernel_Main_C | Mem_Frame_C | Drivers_Vesa_C | Drivers_Acpi_C | Drivers_Pcie_C

datatype log_call = Log_Call (call_level: log_level) (call_file: source_file) (call_line: u64) (call_format: buf) (call_args: "va_arg list")

subsection \<open>Memory\<close>

definition mem_section_call :: "section_t \<Rightarrow> log_call" where
  "mem_section_call sec =
     Log_Call LOG_LEVEL_INFO Mem_Frame_C 121 ''Availabe physical memory: %lu, len %lu'' [VaU64 (st_base sec), VaU64 (st_len sec)]"

definition mem_size_call :: "u64 \<Rightarrow> log_call" where
  "mem_size_call n = Log_Call LOG_LEVEL_INFO Mem_Frame_C 134 ''Physical memory size: %lu'' [VaU64 n]"

definition mem_kernel_call :: "u64 \<Rightarrow> u64 \<Rightarrow> log_call" where
  "mem_kernel_call kern_start kern_end =
     Log_Call LOG_LEVEL_INFO Mem_Frame_C 174 ''kernel start: %lu, end: %lu'' [VaU64 kern_start, VaU64 kern_end]"

text \<open>The calls of \<open>mem_frame_bootstrap_1\<close>, from what it has recorded: sections, size of memory, extent of the kernel.\<close>

definition mem_frame_1_calls :: "section_t list \<Rightarrow> u64 \<Rightarrow> u64 \<Rightarrow> u64 \<Rightarrow> log_call list" where
  "mem_frame_1_calls secs n kern_start kern_end = map mem_section_call secs @ [mem_size_call n] @ [mem_kernel_call kern_start kern_end]"

definition mem_frame_2_calls :: "section_t list \<Rightarrow> log_call list" where
  "mem_frame_2_calls secs =
     (let pa_len = sum_list (map st_len (filter (\<lambda>sec. st_len sec > 8 * 1024 * 1024) secs));
          frame_map_cap = pa_len div PAGE_SIZE_4K * 2;
          map_page_cnt = frame_map_cap * 8 div PAGE_SIZE_4K;
          map_page_cnt = map_page_cnt + 2;
          frame_map_cap = map_page_cnt * PAGE_SIZE_4K div 8 in
      [Log_Call LOG_LEVEL_INFO Mem_Frame_C 287 ''Frames map size: %lu, pages: %lu'' [VaU64 frame_map_cap, VaU64 map_page_cnt]])"

subsection \<open>Screen\<close>

definition d_vesa_calls :: "vesa_state \<Rightarrow> log_call list" where
  "d_vesa_calls v =
     [Log_Call LOG_LEVEL_INFO Drivers_Vesa_C 82 ''Frame buffer: %lux%lu, %lu, pa: %lu''
        [VaU64 (vesa_width v), VaU64 (vesa_height v), VaU64 (vesa_depth v), VaU64 (vesa_buf v)]]"

subsection \<open>PCIe\<close>

text \<open>No device of the tables is called \<open>Unknown\<close>: this name is that of the default branch.\<close>

definition device_name_calls :: "u16 \<Rightarrow> u16 \<Rightarrow> log_call list" where
  "device_name_calls vendor device =
     (if vendor = 0x1234 \<and> device_name_1234 vendor device = Ret ''Unknown'' then
        [Log_Call LOG_LEVEL_DEBUG Drivers_Pcie_C 228 ''Unknown device: %lu'' [VaU64 (ucast device)]]
      else if vendor = 0x8086 \<and> device_name_8086 vendor device = Ret ''Unknown'' then
        [Log_Call LOG_LEVEL_DEBUG Drivers_Pcie_C 211 ''Unknown device: %lu'' [VaU64 (ucast device)]]
      else [])"

definition iden_name_calls :: "u16 \<Rightarrow> u16 \<Rightarrow> log_call list res" where
  "iden_name_calls vendor device =
     rbind (iden_lookup vendor device) (\<lambda>(vname, dname).
     Ret (device_name_calls vendor device @
       (if vname = None then [Log_Call LOG_LEVEL_WARN Drivers_Pcie_C 258 ''Unknown vendor: %lu'' [VaU64 (ucast vendor)]] else []) @
       (if dname = None then [Log_Call LOG_LEVEL_WARN Drivers_Pcie_C 263 ''Unknown vendor: %lu'' [VaU64 (ucast device)]] else [])))"

definition class_name_calls :: "u8 \<Rightarrow> u8 \<Rightarrow> u8 \<Rightarrow> log_call list res" where
  "class_name_calls base sub pi =
     rbind (class_lookup base sub pi) (\<lambda>name.
     Ret (if name = None then [Log_Call LOG_LEVEL_WARN Drivers_Pcie_C 426 ''Unknown class code: %lu,%lu,%lu''
            [VaU64 (ucast base), VaU64 (ucast sub), VaU64 (ucast pi)]] else []))"

text \<open>The calls while \<open>bootstrap_fun\<close> records the function \<open>f\<close>.\<close>

definition bootstrap_fun_calls :: "d_pcie_func \<Rightarrow> log_call list res" where
  "bootstrap_fun_calls f =
     rbind (iden_name_calls (vendor_id f) (device_id f)) (\<lambda>iden_calls.
     rbind (iden_name (vendor_id f) (device_id f)) (\<lambda>(vname, dname).
     rbind (class_name_calls (base_class f) (sub_class f) (fn_pi f)) (\<lambda>class_calls.
     rbind (class_name (base_class f) (sub_class f) (fn_pi f)) (\<lambda>cname.
     rbind (byte_bit_get (header_type f) 7) (\<lambda>multi.
     Ret (iden_calls @ class_calls @
       [Log_Call LOG_LEVEL_INFO Drivers_Pcie_C 514 ''[%lu,%lu,%lu]: %s, %s''
          [VaU64 (fn_bus f), VaU64 (fn_dev f), VaU64 (fn_fun f), VaStr (cname @ [NUL]), VaStr (dname @ [NUL])],
        Log_Call LOG_LEVEL_INFO Drivers_Pcie_C 516 ''%s, header_type: %lu, multi_fun: %lu''
          [VaStr (vname @ [NUL]), VaU64 (ucast (header_type f)), VaU64 (if multi then 1 else 0)]]))))))"

fun funcs_calls :: "d_pcie_func list \<Rightarrow> log_call list res" where
  "funcs_calls [] = Ret []"
| "funcs_calls (f # fs) = rbind (bootstrap_fun_calls f) (\<lambda>cs. rbind (funcs_calls fs) (\<lambda>ds. Ret (cs @ ds)))"

text \<open>The calls of \<open>d_pcie_bootstrap\<close> for a table of \<open>len\<close> bytes, when it has left the state \<open>st\<close>.\<close>

definition d_pcie_calls :: "u64 \<Rightarrow> pcie_state \<Rightarrow> log_call list res" where
  "d_pcie_calls len st =
     rbind (funcs_calls (funcs st)) (\<lambda>cs.
     Ret (Log_Call LOG_LEVEL_INFO Drivers_Pcie_C 554 ''PCIe init, MCFG len: %lu, group count: %lu'' [VaU64 len, VaU64 (group_cnt st)] # cs))"

subsection \<open>ACPI\<close>

text \<open>A string in memory of which at most \<open>n\<close> characters are looked at, and one up to its terminator.\<close>

definition mem_string :: "memory \<Rightarrow> u64 \<Rightarrow> nat \<Rightarrow> buf" where
  "mem_string mem p n = takeWhile (\<lambda>c. c \<noteq> NUL) (map (\<lambda>i. char_of (unat (mem (p + of_nat i)))) [0..<n]) @ [NUL]"

partial_function (option) mem_c_string :: "memory \<Rightarrow> u64 \<Rightarrow> buf option" where
  "mem_c_string mem p =
     (if mem p = 0 then Some [NUL] else Option.bind (mem_c_string mem (p + 1)) (\<lambda>cs. Some (char_of (unat (mem p)) # cs)))"

definition c_string :: "memory \<Rightarrow> u64 \<Rightarrow> buf res" where
  "c_string mem p = (case mem_c_string mem p of None \<Rightarrow> Stop Diverges | Some s \<Rightarrow> Ret s)"

definition sdt_visit_calls :: "memory \<Rightarrow> u64 \<Rightarrow> pcie_state \<Rightarrow> log_call list res" where
  "sdt_visit_calls mem h st =
     (if sdt_is_mcfg mem h then rbind (sdt_visit mem h st) (d_pcie_calls (ucast (sdt_len mem h - 44))) else Ret [])"

definition init_xsdt_calls :: "memory \<Rightarrow> u64 \<Rightarrow> pcie_state \<Rightarrow> log_call list res" where
  "init_xsdt_calls mem xsdt st =
     (let entry_cnt = (ucast (sdt_len mem xsdt) - sizeof_sdt_header) div 8 in
      count_loop 0 (unat entry_cnt) (\<lambda>i cs.
        let h = xsdt_entry mem xsdt i in
        rbind (c_string mem h) (\<lambda>signature.
        rbind (sdt_visit_calls mem h st) (\<lambda>ds.
        Ret (cs @ Log_Call LOG_LEVEL_INFO Drivers_Acpi_C 68 ''%lu: %s'' [VaU64 (of_nat i), VaStr signature] # ds))))
        [Log_Call LOG_LEVEL_INFO Drivers_Acpi_C 53 ''XSDT length: %lu, header: %lu'' [VaU64 (ucast (sdt_len mem xsdt)), VaU64 sizeof_sdt_header],
         Log_Call LOG_LEVEL_INFO Drivers_Acpi_C 60 ''XSDT entry count: %lu'' [VaU64 entry_cnt]])"

definition acpi_64_calls :: "memory \<Rightarrow> u64 \<Rightarrow> pcie_state \<Rightarrow> log_call list res" where
  "acpi_64_calls mem rsdp st =
     rbind (c_string mem rsdp) (\<lambda>signature.
     rbind (init_xsdt_calls mem (mem_u64 mem (rsdp + 24)) st) (\<lambda>cs.
     Ret ([Log_Call LOG_LEVEL_INFO Drivers_Acpi_C 89 ''ACPI 64 signature: %s'' [VaStr signature],
           Log_Call LOG_LEVEL_INFO Drivers_Acpi_C 91 ''ACPI 64 revision: %lu'' [VaU64 (ucast (mem (rsdp + 15)))],
           Log_Call LOG_LEVEL_INFO Drivers_Acpi_C 99 ''ACPI 64 XSDT paddr: %lu'' [VaU64 (mem_u64 mem (rsdp + 24))]] @ cs)))"

definition init_rsdt_calls :: "memory \<Rightarrow> u64 \<Rightarrow> pcie_state \<Rightarrow> log_call list res" where
  "init_rsdt_calls mem rsdt st =
     (let entry_cnt = (ucast (sdt_len mem rsdt) - sizeof_sdt_header) div 4 in
      count_loop 0 (unat entry_cnt) (\<lambda>i cs.
        let sdt = rsdt_entry mem rsdt i in
        rbind (sdt_visit_calls mem sdt st) (\<lambda>ds.
        Ret (cs @ Log_Call LOG_LEVEL_INFO Drivers_Acpi_C 120 ''signature: %.4s'' [VaStr (mem_string mem sdt 4)] # ds)))
        [Log_Call LOG_LEVEL_INFO Drivers_Acpi_C 112 ''ACPI init RSDT, %lu SDTs found: '' [VaU64 entry_cnt]])"

definition acpi_32_calls :: "memory \<Rightarrow> u64 \<Rightarrow> pcie_state \<Rightarrow> log_call list res" where
  "acpi_32_calls mem info st =
     rbind (init_rsdt_calls mem (ucast (mem_u32 mem (info + 16))) st) (\<lambda>cs.
     Ret (Log_Call LOG_LEVEL_INFO Drivers_Acpi_C 150 ''ACPI revision: %lu'' [VaU64 (ucast (mem (info + 15)))] # cs))"

subsection \<open>What a call writes\<close>

text \<open>The format with its arguments in pieces, and the text they make.\<close>

fun pieces_of :: "buf \<Rightarrow> va_arg list \<Rightarrow> piece list" where
  "pieces_of [] va = []"
| "pieces_of (c # cs) va =
     (if c \<noteq> CHR ''%'' then Lit c # pieces_of cs va
      else if take 1 cs = ''%'' then Percent # pieces_of (drop 1 cs) va
      else if take 1 cs = ''s'' then
        (case va of VaStr s # va \<Rightarrow> PStr (butlast s) # pieces_of (drop 1 cs) va | _ \<Rightarrow> [])
      else if take 2 cs = ''lu'' then
        (case va of VaU64 v # va \<Rightarrow> PUint v # pieces_of (drop 2 cs) va | _ \<Rightarrow> [])
      else if take 3 cs = ''.4s'' then
        (case va of VaStr s # va \<Rightarrow> PStrN 4 (butlast s) # pieces_of (drop 3 cs) va | _ \<Rightarrow> [])
      else [])"

abbreviation call_pieces :: "log_call \<Rightarrow> piece list" where
  "call_pieces c \<equiv> pieces_of (call_format c) (call_args c)"

definition call_text :: "log_call \<Rightarrow> buf" where
  "call_text c = concat (map piece_text (call_pieces c))"

text \<open>A call the log can render: the pieces are its format and arguments, and the text fits the buffer.\<close>

definition call_ok :: "log_call \<Rightarrow> bool" where
  "call_ok c \<longleftrightarrow> concat (map piece_fmt (call_pieces c)) = call_format c \<and> concat (map piece_args (call_pieces c)) = call_args c \<and>
     (\<forall>x \<in> set (call_pieces c). piece_ok x) \<and> NUL \<notin> set (call_format c) \<and> length (call_format c) < 18446744073709551616 \<and>
     length (call_text c) < 256"

abbreviation calls_ok :: "log_call list \<Rightarrow> bool" where
  "calls_ok cs \<equiv> \<forall>c \<in> set cs. call_ok c"

lemma dec_len: "length (dec_digits (unat (v :: u64))) \<le> 20"
  using u64_dec_digits [of v] by simp

lemma mem_section_call_ok: "call_ok (mem_section_call sec)"
  using dec_len [of "st_base sec"] dec_len [of "st_len sec"] by (simp add: call_ok_def call_text_def mem_section_call_def)

lemma mem_frame_1_calls_ok: "calls_ok (mem_frame_1_calls secs n ks ke)"
proof -
  have "call_ok (mem_size_call n)" using dec_len [of n] by (simp add: call_ok_def call_text_def mem_size_call_def)
  moreover have "call_ok (mem_kernel_call ks ke)"
    using dec_len [of ks] dec_len [of ke] by (simp add: call_ok_def call_text_def mem_kernel_call_def)
  ultimately show ?thesis by (auto simp: mem_frame_1_calls_def mem_section_call_ok)
qed

lemma mem_frame_2_calls_ok: "calls_ok (mem_frame_2_calls secs)"
proof -
  have "call_ok (Log_Call LOG_LEVEL_INFO Mem_Frame_C 287 ''Frames map size: %lu, pages: %lu'' [VaU64 a, VaU64 b])" for a b
    using dec_len [of a] dec_len [of b] by (simp add: call_ok_def call_text_def)
  then show ?thesis by (simp add: mem_frame_2_calls_def Let_def)
qed

lemma d_vesa_calls_ok: "calls_ok (d_vesa_calls v)"
  using dec_len [of "vesa_width v"] dec_len [of "vesa_height v"] dec_len [of "vesa_depth v"] dec_len [of "vesa_buf v"]
  by (simp add: call_ok_def call_text_def d_vesa_calls_def)

text \<open>The names of devices and classes are short and have no terminator inside.\<close>

definition short_name :: "string \<Rightarrow> bool" where
  "short_name n \<longleftrightarrow> NUL \<notin> set n \<and> length n \<le> 64"

lemma device_names_short:
  "device_name_8086 vendor device = Ret n \<Longrightarrow> short_name n" "device_name_1234 vendor device = Ret n \<Longrightarrow> short_name n"
  by (auto simp: device_name_8086_def device_name_1234_def kassert_def short_name_def split: if_splits)

lemma iden_name_short: "iden_name vendor device = Ret (v, d) \<Longrightarrow> short_name v \<and> short_name d"
proof -
  assume "iden_name vendor device = Ret (v, d)"
  then obtain vn dn where l: "iden_lookup vendor device = Ret (vn, dn)" "v = (case vn of None \<Rightarrow> ''Unknown vendor'' | Some v \<Rightarrow> v)"
    "d = (case dn of None \<Rightarrow> ''Unknown device'' | Some d \<Rightarrow> d)" by (auto simp: iden_name_def)
  have "vn = Some x \<Longrightarrow> short_name x" for x using l(1) by (auto simp: iden_lookup_def short_name_def split: if_splits)
  moreover have "dn = Some x \<Longrightarrow> short_name x" for x
    using l(1) device_names_short unfolding iden_lookup_def by (auto split: if_splits) (auto simp: short_name_def)
  ultimately show ?thesis unfolding l(2,3) by (auto simp: short_name_def split: option.splits)
qed

definition finds_short :: "string option res \<Rightarrow> bool" where
  "finds_short r \<longleftrightarrow> (\<forall>n. r = Ret (Some n) \<longrightarrow> short_name n)"

lemma finds_short_intros:
  "finds_short x \<Longrightarrow> finds_short y \<Longrightarrow> finds_short (if b then x else y)"
  "finds_short (Ret None)" "finds_short (Stop e)" "short_name n \<Longrightarrow> finds_short (Ret (Some n))"
  by (auto simp: finds_short_def)

lemma class_name_short: "class_name base sub pi = Ret n \<Longrightarrow> short_name n"
proof -
  assume n: "class_name base sub pi = Ret n"
  have "finds_short (class_lookup base sub pi)"
    unfolding class_lookup_def by (intro finds_short_intros) (simp_all add: short_name_def EN_DASH_def)
  then show ?thesis using n by (auto simp: class_name_def finds_short_def short_name_def split: option.splits)
qed

lemma bootstrap_fun_calls_ok: "bootstrap_fun_calls f = Ret cs \<Longrightarrow> calls_ok cs"
proof -
  assume "bootstrap_fun_calls f = Ret cs"
  then obtain ics ccs v d c m where r: "iden_name_calls (vendor_id f) (device_id f) = Ret ics" "iden_name (vendor_id f) (device_id f) = Ret (v, d)"
    "class_name_calls (base_class f) (sub_class f) (fn_pi f) = Ret ccs" "class_name (base_class f) (sub_class f) (fn_pi f) = Ret c"
    "cs = ics @ ccs @
       [Log_Call LOG_LEVEL_INFO Drivers_Pcie_C 514 ''[%lu,%lu,%lu]: %s, %s''
          [VaU64 (fn_bus f), VaU64 (fn_dev f), VaU64 (fn_fun f), VaStr (c @ [NUL]), VaStr (d @ [NUL])],
        Log_Call LOG_LEVEL_INFO Drivers_Pcie_C 516 ''%s, header_type: %lu, multi_fun: %lu''
          [VaStr (v @ [NUL]), VaU64 (ucast (header_type f)), VaU64 m]]"
    by (auto simp: bootstrap_fun_calls_def)
  note n = iden_name_short [OF r(2)] class_name_short [OF r(4)]
  have one: "call_ok (Log_Call lv src no ''Unknown device: %lu'' [VaU64 x])" "call_ok (Log_Call lv src no ''Unknown vendor: %lu'' [VaU64 x])"
    "call_ok (Log_Call lv src no ''Unknown class code: %lu,%lu,%lu'' [VaU64 x, VaU64 y, VaU64 z])" for lv src no x y z
    using dec_len [of x] dec_len [of y] dec_len [of z] by (simp_all add: call_ok_def call_text_def)
  have "calls_ok ics" using r(1) by (auto simp: iden_name_calls_def device_name_calls_def one split: if_splits)
  moreover have "calls_ok ccs" using r(3) by (auto simp: class_name_calls_def one split: if_splits)
  moreover have "call_ok (Log_Call LOG_LEVEL_INFO Drivers_Pcie_C 514 ''[%lu,%lu,%lu]: %s, %s''
      [VaU64 x, VaU64 y, VaU64 z, VaStr (c @ [NUL]), VaStr (d @ [NUL])])" for x y z
    using dec_len [of x] dec_len [of y] dec_len [of z] n by (simp add: call_ok_def call_text_def short_name_def)
  moreover have "call_ok (Log_Call LOG_LEVEL_INFO Drivers_Pcie_C 516 ''%s, header_type: %lu, multi_fun: %lu'' [VaStr (v @ [NUL]), VaU64 x, VaU64 y])" for x y
    using dec_len [of x] dec_len [of y] n by (simp add: call_ok_def call_text_def short_name_def)
  ultimately show ?thesis unfolding r(5) by auto
qed

lemma funcs_calls_ok: "funcs_calls fs = Ret cs \<Longrightarrow> calls_ok cs"
proof (induction fs arbitrary: cs)
  case (Cons f fs)
  obtain as bs where ab: "bootstrap_fun_calls f = Ret as" "funcs_calls fs = Ret bs" "cs = as @ bs"
    using Cons.prems by (auto split: sum.splits simp: rbind_def)
  have "calls_ok as" "calls_ok bs" using bootstrap_fun_calls_ok [OF ab(1)] Cons.IH [OF ab(2)] .
  then show ?case unfolding ab(3) by auto
qed simp

lemma d_pcie_calls_ok: "d_pcie_calls len st = Ret cs \<Longrightarrow> calls_ok cs"
proof -
  assume "d_pcie_calls len st = Ret cs"
  then obtain ds where d: "funcs_calls (funcs st) = Ret ds"
    "cs = Log_Call LOG_LEVEL_INFO Drivers_Pcie_C 554 ''PCIe init, MCFG len: %lu, group count: %lu'' [VaU64 len, VaU64 (group_cnt st)] # ds"
    by (auto simp: d_pcie_calls_def)
  have "call_ok (Log_Call LOG_LEVEL_INFO Drivers_Pcie_C 554 ''PCIe init, MCFG len: %lu, group count: %lu'' [VaU64 len, VaU64 (group_cnt st)])"
    using dec_len [of len] dec_len [of "group_cnt st"] by (simp add: call_ok_def call_text_def)
  then show ?thesis using funcs_calls_ok [OF d(1)] unfolding d(2) by simp
qed

lemma mem_string_short: "NUL \<notin> set (butlast (mem_string mem p n))" "mem_string mem p n = butlast (mem_string mem p n) @ [NUL]"
  by (auto simp: mem_string_def dest: set_takeWhileD)

lemma signature_call_ok: "call_ok (Log_Call lv src no ''signature: %.4s'' [VaStr (mem_string mem p n)])"
  using mem_string_short [of mem p n] by (simp add: call_ok_def call_text_def dec_digits_eval char_of_def bit_0 min_less_iff_disj)

lemma sdt_visit_calls_ok: "sdt_visit_calls mem h st = Ret cs \<Longrightarrow> calls_ok cs"
  using d_pcie_calls_ok by (auto simp: sdt_visit_calls_def split: if_splits)

lemma init_rsdt_calls_ok:
  assumes "init_rsdt_calls mem rsdt st = Ret cs"
  shows "calls_ok cs"
proof -
  let ?n = "(ucast (sdt_len mem rsdt) - sizeof_sdt_header) div 4 :: u64"
  let ?c = "\<lambda>i. Log_Call LOG_LEVEL_INFO Drivers_Acpi_C 120 ''signature: %.4s'' [VaStr (mem_string mem (rsdt_entry mem rsdt i) 4)]"
  let ?body = "\<lambda>i cs. rbind (sdt_visit_calls mem (rsdt_entry mem rsdt i) st) (\<lambda>ds. Ret (cs @ ?c i # ds))"
  have keep: "count_loop i n ?body ts = Ret us \<Longrightarrow> calls_ok ts \<Longrightarrow> calls_ok us" for i n ts us
  proof (induction n arbitrary: i ts)
    case (Suc n)
    obtain ds where ds: "sdt_visit_calls mem (rsdt_entry mem rsdt i) st = Ret ds" using Suc.prems(1) by auto
    have "count_loop (Suc i) n ?body (ts @ ?c i # ds) = Ret us" using Suc.prems(1) by (simp add: ds)
    moreover have "calls_ok (ts @ ?c i # ds)" using Suc.prems(2) signature_call_ok sdt_visit_calls_ok [OF ds] by auto
    ultimately show ?case by (rule Suc.IH)
  qed simp
  have run: "count_loop 0 (unat ?n) ?body [Log_Call LOG_LEVEL_INFO Drivers_Acpi_C 112 ''ACPI init RSDT, %lu SDTs found: '' [VaU64 ?n]] = Ret cs"
    using assms by (simp only: init_rsdt_calls_def Let_def)
  have first: "call_ok (Log_Call LOG_LEVEL_INFO Drivers_Acpi_C 112 ''ACPI init RSDT, %lu SDTs found: '' [VaU64 k])" for k
    using dec_len [of k] by (simp add: call_ok_def call_text_def)
  have "calls_ok [Log_Call LOG_LEVEL_INFO Drivers_Acpi_C 112 ''ACPI init RSDT, %lu SDTs found: '' [VaU64 ?n]]"
    unfolding list.set ball_simps by (intro conjI first TrueI)
  from keep [OF run this] show ?thesis .
qed

lemma acpi_32_calls_ok: "acpi_32_calls mem info st = Ret cs \<Longrightarrow> calls_ok cs"
proof -
  assume "acpi_32_calls mem info st = Ret cs"
  moreover have "call_ok (Log_Call LOG_LEVEL_INFO Drivers_Acpi_C 150 ''ACPI revision: %lu'' [VaU64 x])" for x
    using dec_len [of x] by (simp add: call_ok_def call_text_def)
  ultimately show ?thesis using init_rsdt_calls_ok by (auto simp: acpi_32_calls_def)
qed

end
