(* ===== verification/Kernel_Main.thy ===== *)
theory Kernel_Main
  imports Mem_Page Interrupts Kernel_Lines
begin

text \<open>
  \<open>src/src/kernel/kernel_main.c\<close>: the boot information of the boot loader is copied and its tags are looked up,
  then the parts of the kernel are started in order. \<open>_boot_info\<close> is the record \<open>multi_boot_info\<close>; its byte array
  lies at \<open>info_addr\<close>, a null pointer is 0; \<open>msg0\<close> is what the message buffer on the
  stack holds at the start.
\<close>

subsection \<open>The boot information\<close>

definition MULTI_BOOT_TAG_TYPE_MMAP :: nat where "MULTI_BOOT_TAG_TYPE_MMAP = 6"
definition MULTI_BOOT_TAG_TYPE_FRAME_BUFFER :: nat where "MULTI_BOOT_TAG_TYPE_FRAME_BUFFER = 8"
definition MULTI_BOOT_TAG_TYPE_ELF_SYMBOLS :: nat where "MULTI_BOOT_TAG_TYPE_ELF_SYMBOLS = 9"
definition MULTI_BOOT_TAG_TYPE_ACPI_OLD :: nat where "MULTI_BOOT_TAG_TYPE_ACPI_OLD = 14"
definition MULTI_BOOT_TAG_TYPE_ACPI_NEW :: nat where "MULTI_BOOT_TAG_TYPE_ACPI_NEW = 15"
definition MULTI_BOOT_INFO_SLOT_COUNT :: u32 where "MULTI_BOOT_INFO_SLOT_COUNT = 128"
definition MULTI_BOOT_INFO_CAP :: u64 where "MULTI_BOOT_INFO_CAP = 1024 * 1024"

record multi_boot_info =
  info_addr :: u64
  total_size :: u64
  ptrs :: "u64 list"
  lens :: "u64 list"

text \<open>The types the switch lets through: command line, loader name, old memory information, boot device,
  memory map, VBE, frame buffer, ELF symbols, power management and both ACPI descriptions.\<close>

definition known_tag :: "u32 \<Rightarrow> bool" where
  "known_tag type \<longleftrightarrow> type \<in> {1, 2, 4, 5, 6, 7, 8, 9, 10, 14, 15}"

definition multi_boot_info_save_tag :: "buf \<Rightarrow> u64 \<Rightarrow> u32 \<Rightarrow> u32 \<Rightarrow> multi_boot_info \<Rightarrow> (u64 \<times> multi_boot_info) res" where
  "multi_boot_info_save_tag msg0 ptr type sz info =
     (if \<not> known_tag type then
        let msg_part = ''Invalid multiboot info tag type: '' @ [NUL] in
        rbind (str_len msg_part) (\<lambda>n.
        rbind (str_buf_marshal_str msg0 0 128 msg_part n) (\<lambda>(msg, msg_ptr).
        rbind (str_buf_marshal_uint msg msg_ptr 128 (ucast type)) (\<lambda>(msg, n).
        rbind (buf_set msg (msg_ptr + n) NUL) panic_with)))
      else
        kassert (type < MULTI_BOOT_INFO_SLOT_COUNT)
        (kassert (ptrs info ! unat type = 0)
        (kassert (lens info ! unat type = 0)
          (let info = info\<lparr>lens := (lens info)[unat type := ucast (sz - 8)]\<rparr>;
               info = info\<lparr>ptrs := (ptrs info)[unat type := ptr]\<rparr>
           in Ret (ptr + ucast sz - 8, info)))))"

definition multi_boot_info_process_tag_header :: "memory \<Rightarrow> u64 \<Rightarrow> (u64 \<times> u32 \<times> u32) res" where
  "multi_boot_info_process_tag_header m ptr =
     kassert (ptr mod 8 = 0)
       (let type = mem_u32 m ptr; ptr = ptr + 4; sz = mem_u32 m ptr; ptr = ptr + 4 in Ret (ptr, type, sz))"

text \<open>One round of the loop, and whether it left the loop.\<close>

definition multi_boot_info_round :: "buf \<Rightarrow> memory \<Rightarrow> u64 \<Rightarrow> multi_boot_info \<Rightarrow> (bool \<times> u64 \<times> multi_boot_info) res" where
  "multi_boot_info_round msg0 m ptr info =
     rbind (multi_boot_info_process_tag_header m ptr) (\<lambda>(ptr, type, sz).
     if type = 0 then Ret (True, ptr, info)
     else
       rbind (multi_boot_info_save_tag msg0 ptr type sz info) (\<lambda>(ptr, info).
       rbind (mm_align_up ptr 8) (\<lambda>ptr. Ret (False, ptr, info))))"

partial_function (option) multi_boot_info_loop :: "buf \<Rightarrow> memory \<Rightarrow> u64 \<Rightarrow> multi_boot_info \<Rightarrow> (u64 \<times> multi_boot_info) res option" where
  "multi_boot_info_loop msg0 m ptr info =
     (if ptr - info_addr info < total_size info then
        (case multi_boot_info_round msg0 m ptr info of
           Inl e \<Rightarrow> Some (Inl e)
         | Inr (left, ptr, info) \<Rightarrow> if left then Some (Ret (ptr, info)) else multi_boot_info_loop msg0 m ptr info)
      else Some (Ret (ptr, info)))"

definition multi_boot_info_save :: "buf \<Rightarrow> u64 \<Rightarrow> multi_boot_info \<Rightarrow> memory \<Rightarrow> (multi_boot_info \<times> memory) res" where
  "multi_boot_info_save msg0 boot info m =
     (let info = info\<lparr>total_size := mem_le 4 m boot\<rparr>; reserved = mem_u32 m (boot + 4) in
      kassert (total_size info < MULTI_BOOT_INFO_CAP)
      (kassert (reserved = 0)
        (let m = mm_copy m (info_addr info) boot (total_size info);
             info = info\<lparr>ptrs := replicate 128 0, lens := replicate 128 0\<rparr> in
         case multi_boot_info_loop msg0 m (info_addr info + 8) info of
           None \<Rightarrow> Stop Diverges
         | Some r \<Rightarrow> rbind r (\<lambda>(ptr, info). kassert (ptr - info_addr info = total_size info) (Ret (info, m))))))"

subsection \<open>Starting the kernel\<close>

text \<open>
  The machine: interrupt controller, descriptor table and ports, the boot information, memory by bytes, the
  variables of the log, and the states of the parts. The endless loop at the end is left out: the result is
  the state in which the machine halts.
\<close>

record kernel_state = intr_state +
  boot_info :: multi_boot_info
  km_bytes :: memory
  km_row :: u64
  km_col :: u64
  km_video_write :: bool
  km_mem :: mem_state
  km_vesa :: vesa_state
  km_pcie :: pcie_state

text \<open>
  What the compiler, the linker and the boot code give: the address of a function of the kernel, those of the
  stubs of the interrupts and of the table, the paths of the source files, the revision, the ends of the boot
  stack, and what the buffers on the stack hold at the start.
\<close>

record kernel_env =
  env_fn :: u64
  env_isr :: "nat \<Rightarrow> u64"
  env_irq :: "nat \<Rightarrow> u64"
  env_idt :: u64
  env_file :: "source_file \<Rightarrow> buf"
  env_revision :: buf
  boot_stack_bottom :: u64
  boot_stack_top :: u64
  env_tag_msg :: buf
  env_log_msg :: buf
  env_log_buf :: buf

definition bytes_from :: "memory \<Rightarrow> u64 \<Rightarrow> u64 \<Rightarrow> u8 list" where
  "bytes_from m p n = map (\<lambda>i. m (p + of_nat i)) [0..<unat n]"

definition tag_required :: "nat \<Rightarrow> multi_boot_info \<Rightarrow> (u64 \<Rightarrow> u64 \<Rightarrow> 'a res) \<Rightarrow> 'a res" where
  "tag_required type info k = kassert (ptrs info ! type \<noteq> 0) (kassert (lens info ! type \<noteq> 0) (k (ptrs info ! type) (lens info ! type)))"

text \<open>The state of the log inside the machine, and the macro \<open>log_line_format\<close> at a line of a source file.\<close>

definition log_part :: "kernel_state \<Rightarrow> log_state" where
  "log_part s = \<lparr>answers = answers s, reads = reads s, events = events s, screen_row = km_row s, screen_col = km_col s,
     write_screen = km_video_write s, log_vesa = km_vesa s, log_mem = km_bytes s\<rparr>"

definition km_log :: "kernel_env \<Rightarrow> log_call \<Rightarrow> kernel_state \<Rightarrow> kernel_state res" where
  "km_log env c s =
     rbind (log_line_format_v (env_log_msg env) (env_log_buf env) (call_level c) (env_file env (call_file c)) (call_line c)
       (call_format c @ [NUL]) (call_args c) (log_part s)) (\<lambda>l.
     Ret (s\<lparr>reads := reads l, events := events l, km_row := screen_row l, km_col := screen_col l, km_bytes := log_mem l\<rparr>))"

fun km_logs :: "kernel_env \<Rightarrow> log_call list \<Rightarrow> kernel_state \<Rightarrow> kernel_state res" where
  "km_logs env [] s = Ret s"
| "km_logs env (c # cs) s = rbind (km_log env c s) (km_logs env cs)"

abbreviation main_call :: "u64 \<Rightarrow> buf \<Rightarrow> va_arg list \<Rightarrow> log_call" where
  "main_call \<equiv> Log_Call LOG_LEVEL_INFO Kernel_Main_C"

text \<open>The choice between the two ACPI descriptions: the state of the PCIe driver and the lines logged on the way.\<close>

definition km_acpi :: "multi_boot_info \<Rightarrow> memory \<Rightarrow> pcie_state \<Rightarrow> (pcie_state \<times> log_call list) res" where
  "km_acpi info m pst =
     (if ptrs info ! MULTI_BOOT_TAG_TYPE_ACPI_NEW \<noteq> 0 then
        tag_required MULTI_BOOT_TAG_TYPE_ACPI_NEW info (\<lambda>rsdp _.
        rbind (acpi_bootstrap_64 m rsdp pst) (\<lambda>pst'. rbind (acpi_64_calls m rsdp pst) (\<lambda>cs. Ret (pst', cs))))
      else
        tag_required MULTI_BOOT_TAG_TYPE_ACPI_OLD info (\<lambda>rsdp len.
        rbind (acpi_bootstrap_32 m rsdp len pst) (\<lambda>pst'. rbind (acpi_32_calls m rsdp pst) (\<lambda>cs. Ret (pst', cs)))))"

text \<open>
  The lines of a part are logged when it has returned. Those of \<open>mem_bootstrap_2\<close> come before it moves the frame
  buffer, so they are logged with the old one.
\<close>

definition kernal_main :: "kernel_env \<Rightarrow> u64 \<Rightarrow> kernel_state \<Rightarrow> kernel_state res" where
  "kernal_main env multi_boot s =
     rbind (serial_init s) (\<lambda>s.
     rbind (km_log env (main_call 165 ''cold_spot started..'' []) s) (\<lambda>s.
     rbind (km_log env (main_call 166 ''git revision: %s'' [VaStr (env_revision env)]) s) (\<lambda>s.
     rbind (multi_boot_info_save (env_tag_msg env) multi_boot (boot_info s) (km_bytes s)) (\<lambda>(info, m).
     let s = s\<lparr>boot_info := info, km_bytes := m\<rparr> in
     tag_required MULTI_BOOT_TAG_TYPE_ELF_SYMBOLS info (\<lambda>elf elf_len.
     tag_required MULTI_BOOT_TAG_TYPE_MMAP info (\<lambda>mmap mmap_len.
     rbind (mem_bootstrap_1 (env_fn env) (bytes_from m elf elf_len) (bytes_from m mmap mmap_len) mmap_len (km_mem s)) (\<lambda>mst.
     rbind (km_logs env (mem_frame_1_calls (sections mst) (pmem_size mst) (kern_start_pa mst) (kern_end_pa mst)) s) (\<lambda>s.
     let s = s\<lparr>km_mem := mst, km_video_write := True\<rparr> in
     tag_required MULTI_BOOT_TAG_TYPE_FRAME_BUFFER info (\<lambda>fb fb_len.
     rbind (d_vesa_bootstrap (km_bytes s) fb fb_len (km_vesa s)) (\<lambda>v.
     rbind (km_logs env (d_vesa_calls v) (s\<lparr>km_vesa := v\<rparr>)) (\<lambda>s.
     rbind (km_acpi info (km_bytes s) (km_pcie s)) (\<lambda>(pst, acpi_lines).
     rbind (km_logs env acpi_lines (s\<lparr>km_pcie := pst\<rparr>)) (\<lambda>s.
     rbind (intr_init (env_isr env) (env_irq env) (env_idt env) s) (\<lambda>s.
     rbind (km_log env (main_call 209 ''Boot stack bottom: %lu, top: %lu'' [VaU64 (boot_stack_bottom env), VaU64 (boot_stack_top env)]) s) (\<lambda>s.
     rbind (mem_bootstrap_2 (km_pcie s) (km_vesa s) (km_mem s)) (\<lambda>(mst, v).
     rbind (km_logs env (mem_frame_2_calls (sections (km_mem s))) s) (\<lambda>s.
     km_log env (main_call 255 ''cold_spot ended.'' []) (s\<lparr>km_mem := mst, km_vesa := v\<rparr>))))))))))))))))))"

subsection \<open>The search for tags ends\<close>

lemma length_filter_update:
  "i < length xs \<Longrightarrow> P (xs ! i) \<Longrightarrow> \<not> P y \<Longrightarrow> length (filter P (xs[i := y])) < length (filter P xs)"
proof (induction xs arbitrary: i)
  case (Cons x xs)
  then show ?case by (cases i) auto
qed simp

lemma ends_save_tag: "ends (multi_boot_info_save_tag msg0 ptr type sz info)"
  unfolding multi_boot_info_save_tag_def Let_def str_len_def str_buf_marshal_str_def str_buf_marshal_uint_def panic_with_def
  by (auto intro!: ends_intros)

lemma ends_round: "ends (multi_boot_info_round msg0 m ptr info)"
  unfolding multi_boot_info_round_def multi_boot_info_process_tag_header_def Let_def mm_align_up_def
  by (auto intro!: ends_intros ends_save_tag)

definition free_slots :: "multi_boot_info \<Rightarrow> nat" where
  "free_slots info = length (filter ((=) 0) (ptrs info))"

lemma round_uses_slot:
  assumes "multi_boot_info_round msg0 m ptr info = Ret (False, ptr', info')" "length (ptrs info) = 128" "ptr + 8 \<noteq> 0"
  shows "free_slots info' < free_slots info" "length (ptrs info') = 128" "info_addr info' = info_addr info" "total_size info' = total_size info"
proof -
  let ?type = "mem_u32 m ptr"
  have t: "?type < 128" "ptrs info ! unat ?type = 0"
    and i: "info' = info\<lparr>lens := (lens info)[unat ?type := ucast (mem_u32 m (ptr + 4) - 8)], ptrs := (ptrs info)[unat ?type := ptr + 8]\<rparr>"
    using assms(1) by (auto simp: multi_boot_info_round_def multi_boot_info_process_tag_header_def multi_boot_info_save_tag_def Let_def
        MULTI_BOOT_INFO_SLOT_COUNT_def panic_with_def add.assoc split: if_splits)
  have "unat ?type < 128" using t(1) by (simp add: word_less_nat_alt)
  then have "length (filter ((=) 0) ((ptrs info)[unat ?type := ptr + 8])) < length (filter ((=) 0) (ptrs info))"
    using t(2) assms(2,3) by (intro length_filter_update) auto
  then show "free_slots info' < free_slots info" by (simp add: i free_slots_def)
  show "length (ptrs info') = 128" "info_addr info' = info_addr info" "total_size info' = total_size info" using assms(2) by (simp_all add: i)
qed

lemma loop_ends:
  assumes "length (ptrs info) = 128" "unat (info_addr info) + 1048584 < 18446744073709551616" "total_size info < MULTI_BOOT_INFO_CAP"
  shows "\<exists>r. multi_boot_info_loop msg0 m ptr info = Some r \<and> ends r"
  using assms
proof (induction "free_slots info" arbitrary: ptr info rule: less_induct)
  case less
  show ?case
  proof (cases "ptr - info_addr info < total_size info")
    case False
    then show ?thesis by (subst multi_boot_info_loop.simps) simp
  next
    case True
    define d where "d = ptr - info_addr info"
    have d: "unat d < 1048576" using True less.prems(3) by (simp add: d_def word_less_nat_alt MULTI_BOOT_INFO_CAP_def)
    then have d8: "unat (d + 8) = unat d + 8" by (simp add: unat_u64_add)
    then have "unat (info_addr info + (d + 8)) = unat (info_addr info) + (unat d + 8)"
      using less.prems(2) d by (subst unat_u64_add) auto
    then have nz: "ptr + 8 \<noteq> 0" by (auto simp: u64_eq_iff_unat d_def)
    show ?thesis
    proof (cases "multi_boot_info_round msg0 m ptr info")
      case (Inl e)
      then show ?thesis using True ends_round [of msg0 m ptr info] by (subst multi_boot_info_loop.simps) (simp add: ends_def)
    next
      case (Inr x)
      then obtain left ptr' info' where x: "multi_boot_info_round msg0 m ptr info = Ret (left, ptr', info')" by (cases x) auto
      show ?thesis
      proof (cases left)
        case True
        then show ?thesis using \<open>ptr - info_addr info < total_size info\<close> x by (subst multi_boot_info_loop.simps) simp
      next
        case False
        note u = round_uses_slot [OF _ less.prems(1) nz, of msg0 m ptr' info']
        have "\<exists>r. multi_boot_info_loop msg0 m ptr' info' = Some r \<and> ends r"
          using less.hyps [OF u(1,2)] u(3,4) less.prems(2,3) x False by simp
        then show ?thesis using True x False by (subst multi_boot_info_loop.simps) simp
      qed
    qed
  qed
qed

text \<open>
  C35: the search for tags ends, whatever the boot information contains: every round that goes on has used one of
  the 128 slots, which none before it used. \<open>_boot_info\<close> is anywhere but at the end of the address space.
\<close>

theorem multi_boot_info_save_ends:
  assumes "unat (info_addr info) + 1048584 < 18446744073709551616"
  shows "multi_boot_info_save msg0 boot info m \<noteq> Stop Diverges"
proof -
  let ?m = "mm_copy m (info_addr info) boot (mem_le 4 m boot)"
    and ?info = "info\<lparr>total_size := mem_le 4 m boot, ptrs := replicate 128 0, lens := replicate 128 0\<rparr>"
  have "\<exists>r. multi_boot_info_loop msg0 ?m (info_addr info + 8) ?info = Some r \<and> ends r" if "mem_le 4 m boot < MULTI_BOOT_INFO_CAP"
    using that assms by (intro loop_ends) simp_all
  then have "ends (multi_boot_info_save msg0 boot info m)"
    unfolding multi_boot_info_save_def Let_def by (auto intro!: ends_intros)
  then show ?thesis by (simp add: ends_def)
qed

theorem multi_boot_info_save_ends_witness:
  "multi_boot_info_save [] 0x9000 \<lparr>info_addr = 0x100000, total_size = 0, ptrs = [], lens = []\<rparr> (\<lambda>a. if a = 0x9000 then 40 else 0) \<noteq> Stop Diverges"
  by (rule multi_boot_info_save_ends) simp

subsection \<open>Reading well-formed boot information\<close>

definition le32 :: "u32 \<Rightarrow> u8 list" where
  "le32 v = [ucast v, ucast (drop_bit 8 v), ucast (drop_bit 16 v), ucast (drop_bit 24 v)]"

definition bytes_at :: "memory \<Rightarrow> u64 \<Rightarrow> u8 list \<Rightarrow> bool" where
  "bytes_at m a bs \<longleftrightarrow> (\<forall>i<length bs. m (a + of_nat i) = bs ! i)"

text \<open>
  A tag is its type, its contents and the padding up to the next multiple of eight; the boot information is a
  header, the tags, and the tag that ends them.
\<close>

type_synonym boot_tag = "u32 \<times> u8 list \<times> u8 list"

definition tag_wf :: "boot_tag \<Rightarrow> bool" where
  "tag_wf = (\<lambda>(type, d, pad). known_tag type \<and> length pad < 8 \<and> (length d + length pad) mod 8 = 0)"

definition tag_bytes :: "boot_tag \<Rightarrow> u8 list" where
  "tag_bytes = (\<lambda>(type, d, pad). le32 type @ le32 (of_nat (8 + length d)) @ d @ pad)"

definition boot_bytes :: "boot_tag list \<Rightarrow> u8 list" where
  "boot_bytes tags = (let body = concat (map tag_bytes tags) in
     le32 (of_nat (16 + length body)) @ le32 0 @ body @ le32 0 @ le32 8)"

lemma length_le32 [simp]: "length (le32 v) = 4"
  by (simp add: le32_def)

lemma bytes_at_append: "bytes_at m a (xs @ ys) \<longleftrightarrow> bytes_at m a xs \<and> bytes_at m (a + of_nat (length xs)) ys"
proof -
  have "(\<forall>i<length xs + length ys. P i) \<longleftrightarrow> (\<forall>i<length xs. P i) \<and> (\<forall>j<length ys. P (length xs + j))" for P
    by (auto simp: less_diff_conv2) (metis add_diff_inverse_nat nat_add_left_cancel_less)
  then show ?thesis by (simp add: bytes_at_def nth_append add.assoc)
qed

lemma le_value_le32: "le_value (le32 v) = ucast v"
proof -
  have e: "(ucast (drop_bit k v) :: u8) = ucast (drop_bit k (ucast v :: u64))" for k
    by (rule bit_word_eqI) (auto simp: bit_simps dest: bit_imp_le_length)
  have z: "drop_bit 32 (ucast v :: u64) = 0" by (rule bit_word_eqI) (auto simp: bit_simps dest: bit_imp_le_length)
  have "le_value [ucast (drop_bit 24 (ucast v :: u64))] = drop_bit 24 (ucast v)" by (rule le_value_split) (simp add: le_value_def z)
  then have "le_value [ucast (drop_bit 16 (ucast v :: u64)), ucast (drop_bit 24 (ucast v :: u64))] = drop_bit 16 (ucast v)"
    by (intro le_value_split) simp
  then have "le_value [ucast (drop_bit 8 (ucast v :: u64)), ucast (drop_bit 16 (ucast v :: u64)), ucast (drop_bit 24 (ucast v :: u64))] = drop_bit 8 (ucast v)"
    by (intro le_value_split) simp
  from le_value_split [OF this] show ?thesis using e [of 0] e by (simp add: le32_def)
qed

lemma mem_le32:
  assumes "bytes_at m a (le32 v)"
  shows "mem_le 4 m a = ucast v" "mem_u32 m a = v"
proof -
  have "map (\<lambda>i. m (a + of_nat i)) [0..<4] = le32 v"
    using assms by (intro nth_equalityI) (auto simp: bytes_at_def)
  then show "mem_le 4 m a = ucast v" by (simp add: mem_le_def le_value_le32)
  moreover have "ucast (ucast v :: u64) = v" by (rule bit_word_eqI) (auto simp: bit_simps)
  ultimately show "mem_u32 m a = v" by simp
qed

lemma unat_u64_of_nat: "n < 18446744073709551616 \<Longrightarrow> unat (of_nat n :: u64) = n"
  by (simp add: unat_of_nat)

lemma tag_bytes_length: "length (tag_bytes (type, d, pad)) = 8 + length d + length pad"
  by (simp add: tag_bytes_def)

text \<open>The next tag starts where the padding ends.\<close>

lemma align_after_tag:
  assumes "(p :: u64) mod 8 = 0" "(k + j) mod 8 = 0" "j < 8" "unat p + k + 16 < 18446744073709551616"
  shows "mm_align_up (p + of_nat k) 8 = Ret (p + of_nat (k + j))"
proof -
  have pk: "unat (p + of_nat n) = unat p + n" if "n < k + 8" for n
  proof -
    have "unat (of_nat n :: u64) = n" using that assms(4) by (intro unat_u64_of_nat) linarith
    then show ?thesis using that assms(4) by (subst unat_u64_add) auto
  qed
  have p7: "unat (p + of_nat k + 7) = unat p + k + 7" using pk [of k] assms(4) by (subst unat_u64_add) auto
  have "unat p mod 8 = 0" using arg_cong [OF assms(1), of unat] by (simp add: unat_mod del: mod_0_imp_dvd)
  then have "8 dvd unat p" by (simp add: dvd_eq_mod_eq_0)
  then obtain a where a: "unat p = 8 * a" by blast
  obtain b where b: "k + j = 8 * b" using assms(2) by blast
  have "unat ((p + of_nat k + 7) AND NOT 7) = (unat p + k + 7) div 8 * 8"
    using unat_and_not_mask [of 3 "p + of_nat k + 7"] by (simp add: p7)
  also have "\<dots> = unat p + (k + j)"
  proof -
    have "unat p + k + 7 = 8 * (a + b) + (7 - j)" using a b assms(3) by arith
    then have "(unat p + k + 7) div 8 = a + b" by (simp add: assms(3))
    then show ?thesis using a b by simp
  qed
  finally have "(p + of_nat k + 7) AND NOT 7 = p + of_nat (k + j)" unfolding u64_eq_iff_unat using pk [of "k + j"] assms(3) by simp
  then show ?thesis by (simp add: mm_align_up_def Let_def math_is_pow2_def)
qed

lemma round_reads_tag:
  assumes m: "bytes_at m p (tag_bytes (type, d, pad))" and wf: "tag_wf (type, d, pad)" and p: "p mod 8 = 0"
    and n: "unat p + length d + 32 < 18446744073709551616" "length d < 1048576"
    and free: "ptrs info ! unat type = 0" "lens info ! unat type = 0"
  shows "multi_boot_info_round msg0 m p info =
    Ret (False, p + of_nat (length (tag_bytes (type, d, pad))),
      info\<lparr>lens := (lens info)[unat type := of_nat (length d)], ptrs := (ptrs info)[unat type := p + 8]\<rparr>)"
    and "bytes_at m (p + 8) d"
proof -
  have b: "bytes_at m p (le32 type)" "bytes_at m (p + 4) (le32 (of_nat (8 + length d)))" "bytes_at m (p + 8) d"
    using m by (auto simp: tag_bytes_def bytes_at_append add.assoc)
  show "bytes_at m (p + 8) d" by (rule b(3))
  have known: "known_tag type" "type < 128" "type \<noteq> 0" using wf by (auto simp: tag_wf_def known_tag_def)
  have sz: "(of_nat (8 + length d) :: u32) - 8 = of_nat (length d)" by simp
  have "unat (of_nat (length d) :: u32) = length d" "unat (of_nat (8 + length d) :: u32) = 8 + length d"
    using n(2) by (simp_all add: unat_of_nat del: of_nat_add)
  then have u: "(ucast (of_nat (length d) :: u32) :: u64) = of_nat (length d)" "(ucast (of_nat (8 + length d) :: u32) :: u64) = of_nat (8 + length d)"
    using n(2) by (simp_all add: u64_eq_iff_unat unsigned_ucast_eq unat_of_nat take_bit_eq_mod del: of_nat_add)
  have "mm_align_up (p + of_nat (8 + length d)) 8 = Ret (p + of_nat (8 + length d + length pad))"
    using wf n by (intro align_after_tag [OF p]) (auto simp: tag_wf_def add.assoc simp del: mod_0_imp_dvd)
  moreover have "p + 8 + ucast (of_nat (8 + length d) :: u32) - 8 = p + of_nat (8 + length d)" unfolding u(2) by simp
  ultimately show "multi_boot_info_round msg0 m p info =
    Ret (False, p + of_nat (length (tag_bytes (type, d, pad))),
      info\<lparr>lens := (lens info)[unat type := of_nat (length d)], ptrs := (ptrs info)[unat type := p + 8]\<rparr>)"
    unfolding multi_boot_info_round_def multi_boot_info_process_tag_header_def Let_def add.assoc tag_bytes_length
    using mem_le32(2) [OF b(1)] mem_le32(2) [OF b(2)] known free p
    by (simp add: multi_boot_info_save_tag_def MULTI_BOOT_INFO_SLOT_COUNT_def Let_def sz u del: of_nat_add)
qed

lemma aligned_8_add: "(a :: u64) mod 8 = 0 \<Longrightarrow> k mod 8 = 0 \<Longrightarrow> (a + of_nat k) mod 8 = 0"
proof -
  assume a: "a mod 8 = 0" and k: "k mod 8 = 0"
  have "unat a mod 8 = 0" using arg_cong [OF a, of unat] by (simp add: unat_mod del: mod_0_imp_dvd)
  moreover have "unat (of_nat k :: u64) mod 8 = k mod 8" by (simp add: unat_of_nat mod_mod_cancel)
  ultimately have "(unat a + unat (of_nat k :: u64)) mod 8 = 0" using k by (metis add_0 mod_0 mod_add_eq)
  then have "unat (a + of_nat k) mod 8 = 0" by (simp add: unat_word_ariths(1) mod_mod_cancel del: mod_0_imp_dvd)
  then show ?thesis by (simp add: u64_eq_iff_unat unat_mod)
qed

text \<open>What the slots say after a run over some tags, against the slots before it.\<close>

definition tags_saved :: "memory \<Rightarrow> boot_tag list \<Rightarrow> multi_boot_info \<Rightarrow> multi_boot_info \<Rightarrow> bool" where
  "tags_saved m tags info info' \<longleftrightarrow>
     info_addr info' = info_addr info \<and> total_size info' = total_size info \<and> length (ptrs info') = 128 \<and> length (lens info') = 128 \<and>
     (\<forall>(type, d, pad) \<in> set tags. ptrs info' ! unat type \<noteq> 0 \<and> lens info' ! unat type = of_nat (length d) \<and> bytes_at m (ptrs info' ! unat type) d \<and>
        (\<forall>k<length d. ptrs info' ! unat type + of_nat k - info_addr info < total_size info)) \<and>
     (\<forall>i<128. i \<notin> (\<lambda>tag. unat (fst tag)) ` set tags \<longrightarrow> ptrs info' ! i = ptrs info ! i \<and> lens info' ! i = lens info ! i)"

lemma tags_saved_Cons:
  assumes "tags_saved m tags (info\<lparr>lens := (lens info)[unat type := of_nat (length d)], ptrs := (ptrs info)[unat type := q]\<rparr>) info'"
    and "type \<notin> fst ` set tags" "unat type < 128" "q \<noteq> 0" "bytes_at m q d" "length (ptrs info) = 128" "length (lens info) = 128"
    and "\<forall>k<length d. q + of_nat k - info_addr info < total_size info"
  shows "tags_saved m ((type, d, pad) # tags) info info'"
proof -
  have "unat type \<notin> (\<lambda>tag. unat (fst tag)) ` set tags"
    using assms(2) by (force simp: image_iff word_unat_eq_iff)
  then have "ptrs info' ! unat type = q" "lens info' ! unat type = of_nat (length d)"
    using assms(1,3,6,7) by (auto simp: tags_saved_def)
  then show ?thesis using assms by (auto simp: tags_saved_def)
qed

lemma loop_reads_tags:
  assumes "bytes_at m (info_addr info + of_nat off) (concat (map tag_bytes tags) @ le32 0 @ le32 8)"
    and "\<forall>tag \<in> set tags. tag_wf tag" "distinct (map fst tags)" "info_addr info mod 8 = 0" "off mod 8 = 0"
    and "length (ptrs info) = 128" "length (lens info) = 128"
    and "\<forall>tag \<in> set tags. ptrs info ! unat (fst tag) = 0 \<and> lens info ! unat (fst tag) = 0"
    and "off + length (concat (map tag_bytes tags)) + 8 = unat (total_size info)" "unat (total_size info) < 1048576"
    and "unat (info_addr info) + 2097152 < 18446744073709551616"
  shows "\<exists>info'. multi_boot_info_loop msg0 m (info_addr info + of_nat off) info = Some (Ret (info_addr info + total_size info, info')) \<and>
    tags_saved m tags info info'"
  using assms
proof (induction tags arbitrary: info off)
  case Nil
  let ?p = "info_addr info + of_nat off"
  have off: "unat (of_nat off :: u64) = off" "of_nat off + 8 = total_size info"
  proof -
    show o: "unat (of_nat off :: u64) = off" using Nil.prems(9,10) by (intro unat_u64_of_nat) simp
    show "of_nat off + 8 = total_size info" unfolding u64_eq_iff_unat using o Nil.prems(9,10) by (subst unat_u64_add) auto
  qed
  have "bytes_at m ?p (le32 0)" "bytes_at m (?p + 4) (le32 8)" using Nil.prems(1) by (simp_all add: bytes_at_append)
  note r = mem_le32(2) [OF this(1)] mem_le32(2) [OF this(2)]
  have al: "?p mod 8 = 0" by (rule aligned_8_add [OF Nil.prems(4,5)])
  have "multi_boot_info_round msg0 m ?p info = Ret (True, info_addr info + total_size info, info)"
    unfolding off(2) [symmetric] multi_boot_info_round_def multi_boot_info_process_tag_header_def Let_def
    using r al by (simp add: add.assoc)
  moreover have "of_nat off < total_size info" using off Nil.prems(9) by (simp add: word_less_nat_alt)
  ultimately have "multi_boot_info_loop msg0 m ?p info = Some (Ret (info_addr info + total_size info, info))"
    by (subst multi_boot_info_loop.simps) simp
  then show ?case using Nil.prems(6,7) by (auto simp: tags_saved_def)
next
  case (Cons tag tags)
  obtain type d pad where tag: "tag = (type, d, pad)" by (cases tag)
  let ?p = "info_addr info + of_nat off" and ?n = "length (tag_bytes tag)"
  let ?info = "info\<lparr>lens := (lens info)[unat type := of_nat (length d)], ptrs := (ptrs info)[unat type := ?p + 8]\<rparr>"
  have len: "?n = 8 + length d + length pad" unfolding tag by (rule tag_bytes_length)
  have small: "off + ?n < 1048576" using Cons.prems(9,10) by simp
  have off: "unat (of_nat off :: u64) = off" using small by (intro unat_u64_of_nat) simp
  have up: "unat ?p = unat (info_addr info) + off" using off small Cons.prems(11) by (subst unat_u64_add) auto
  have al: "?p mod 8 = 0" by (rule aligned_8_add [OF Cons.prems(4,5)])
  have bt: "bytes_at m ?p (tag_bytes tag)" "bytes_at m (?p + of_nat ?n) (concat (map tag_bytes tags) @ le32 0 @ le32 8)"
    using Cons.prems(1) by (simp_all add: bytes_at_append)
  have wf: "tag_wf (type, d, pad)" using Cons.prems(2) tag by simp
  then have t: "unat type < 128" "(off + ?n) mod 8 = 0"
    using Cons.prems(5) len by (auto simp: tag_wf_def known_tag_def add.assoc simp del: mod_0_imp_dvd)
  have "multi_boot_info_round msg0 m ?p info = Ret (False, ?p + of_nat ?n, ?info)" and d: "bytes_at m (?p + 8) d"
    using round_reads_tag(1) [OF bt(1) [unfolded tag] wf al, of info msg0] round_reads_tag(2) [OF bt(1) [unfolded tag] wf al, of info] up len small Cons.prems(8,11) tag by auto
  moreover have "of_nat off < total_size info" using off Cons.prems(9) by (simp add: word_less_nat_alt)
  ultimately have go: "multi_boot_info_loop msg0 m ?p info = multi_boot_info_loop msg0 m (info_addr ?info + of_nat (off + ?n)) ?info"
    by (subst multi_boot_info_loop.simps) (simp add: add.assoc)
  have new: "type \<notin> fst ` set tags" using Cons.prems(3) tag by auto
  have "\<exists>info'. multi_boot_info_loop msg0 m (info_addr ?info + of_nat (off + ?n)) ?info = Some (Ret (info_addr ?info + total_size ?info, info')) \<and>
      tags_saved m tags ?info info'"
  proof (rule Cons.IH)
    show "\<forall>tag \<in> set tags. ptrs ?info ! unat (fst tag) = 0 \<and> lens ?info ! unat (fst tag) = 0"
    proof
      fix other
      assume o: "other \<in> set tags"
      then have "unat (fst other) \<noteq> unat type" using new by (auto simp flip: word_unat_eq_iff)
      then show "ptrs ?info ! unat (fst other) = 0 \<and> lens ?info ! unat (fst other) = 0" using Cons.prems(8) o by simp
    qed
  qed (use Cons.prems bt(2) t(2) in \<open>auto simp: add.assoc simp del: mod_0_imp_dvd\<close>)
  then obtain info' where i: "multi_boot_info_loop msg0 m ?p info = Some (Ret (info_addr info + total_size info, info'))" "tags_saved m tags ?info info'"
    unfolding go by auto
  have "unat (?p + 8) = unat ?p + 8" using up small Cons.prems(11) by (subst unat_u64_add) auto
  then have "?p + 8 \<noteq> 0" by (auto simp: u64_eq_iff_unat)
  moreover have "?p + 8 + of_nat k - info_addr info < total_size info" if "k < length d" for k
  proof -
    have u: "unat (of_nat (off + 8 + k) :: u64) = off + 8 + k" using small len that by (intro unat_u64_of_nat) simp
    have e: "?p + 8 + of_nat k - info_addr info = of_nat (off + 8 + k)" by simp
    show ?thesis unfolding e word_less_nat_alt u using that len Cons.prems(9) by simp
  qed
  ultimately show ?case using tags_saved_Cons [OF i(2) new t(1) _ d Cons.prems(6,7)] i(1) tag by blast
qed

lemma boot_info_reads:
  assumes boot: "bytes_at m boot (boot_bytes tags)" and tags: "\<forall>tag \<in> set tags. tag_wf tag" "distinct (map fst tags)"
    and size: "length (boot_bytes tags) < 1048576" "info_addr info mod 8 = 0" "unat (info_addr info) + 2097152 < 18446744073709551616"
    and apart: "info_addr info = boot \<or> of_nat (length (boot_bytes tags)) \<le> info_addr info - boot"
  shows "\<exists>info' m'. multi_boot_info_save msg0 boot info m = Ret (info', m') \<and>
    bytes_at m' (info_addr info') (boot_bytes tags) \<and> info_addr info' = info_addr info \<and>
    (\<forall>a. \<not> a - info_addr info < of_nat (length (boot_bytes tags)) \<longrightarrow> m' a = m a) \<and>
    (\<forall>i<128. case map_of (map (\<lambda>(type, d, pad). (unat type, d)) tags) i of
       None \<Rightarrow> ptrs info' ! i = 0 \<and> lens info' ! i = 0
     | Some d \<Rightarrow> ptrs info' ! i \<noteq> 0 \<and> lens info' ! i = of_nat (length d) \<and> bytes_at m' (ptrs info' ! i) d \<and>
         (\<forall>k<length d. ptrs info' ! i + of_nat k - info_addr info < of_nat (length (boot_bytes tags))))"
proof -
  let ?body = "concat (map tag_bytes tags)" and ?bs = "boot_bytes tags"
  define n where "n = length ?bs"
  have n: "n = 16 + length ?body" "n < 1048576" using size(1) by (simp_all add: n_def boot_bytes_def Let_def)
  have bs: "?bs = le32 (of_nat n) @ le32 0 @ ?body @ le32 0 @ le32 8" by (simp add: boot_bytes_def n(1) Let_def)
  have un: "unat (of_nat n :: u64) = n" using n(2) by (intro unat_u64_of_nat) simp
  have "unat (of_nat n :: u32) = n" using n(2) by (simp add: unat_of_nat)
  then have u32: "(ucast (of_nat n :: u32) :: u64) = of_nat n" using un n(2) by (simp add: u64_eq_iff_unat unsigned_ucast_eq take_bit_eq_mod)
  have rd: "mem_le 4 m boot = of_nat n" "mem_u32 m (boot + 4) = 0"
    using mem_le32 [of m boot "of_nat n"] mem_le32 [of m "boot + 4" 0] boot u32 by (simp_all add: bs bytes_at_append)
  let ?m = "mm_copy m (info_addr info) boot (of_nat n)"
    and ?info = "info\<lparr>total_size := of_nat n, ptrs := replicate 128 0, lens := replicate 128 0\<rparr>"
  have copy: "bytes_at ?m (info_addr info) ?bs"
    unfolding bytes_at_def n_def [symmetric]
  proof (intro allI impI)
    fix i assume i: "i < n"
    have "(of_nat i :: u64) < of_nat n" using i n(2) un by (simp add: word_less_nat_alt unat_u64_of_nat)
    then have "?m (info_addr info + of_nat i) = m (boot + of_nat i)"
      using mm_copy_moves [of "info_addr info" boot "of_nat n" m] apart by (simp add: n_def)
    then show "?m (info_addr info + of_nat i) = ?bs ! i" using boot i by (simp add: bytes_at_def n_def)
  qed
  have "\<exists>info'. multi_boot_info_loop msg0 ?m (info_addr ?info + of_nat 8) ?info = Some (Ret (info_addr ?info + total_size ?info, info')) \<and>
      tags_saved ?m tags ?info info'"
  proof (rule loop_reads_tags)
    show "bytes_at ?m (info_addr ?info + of_nat 8) (?body @ le32 0 @ le32 8)" using copy by (simp add: bs bytes_at_append add.assoc)
    show "8 + length ?body + 8 = unat (total_size ?info)" using n un by simp
    show "\<forall>tag \<in> set tags. ptrs ?info ! unat (fst tag) = 0 \<and> lens ?info ! unat (fst tag) = 0"
      using tags(1) by (auto simp: tag_wf_def known_tag_def)
  qed (use tags size n un in simp_all)
  then obtain info' where l: "multi_boot_info_loop msg0 ?m (info_addr info + 8) ?info = Some (Ret (info_addr info + of_nat n, info'))"
    and saved: "tags_saved ?m tags ?info info'" by auto
  have "(of_nat n :: u64) < MULTI_BOOT_INFO_CAP" using n(2) un by (simp add: word_less_nat_alt MULTI_BOOT_INFO_CAP_def)
  then have "multi_boot_info_save msg0 boot info m = Ret (info', ?m)"
    using rd l saved by (simp add: multi_boot_info_save_def Let_def tags_saved_def)
  moreover have "case map_of (map (\<lambda>(type, d, pad). (unat type, d)) tags) i of
       None \<Rightarrow> ptrs info' ! i = 0 \<and> lens info' ! i = 0
     | Some d \<Rightarrow> ptrs info' ! i \<noteq> 0 \<and> lens info' ! i = of_nat (length d) \<and> bytes_at ?m (ptrs info' ! i) d \<and>
         (\<forall>k<length d. ptrs info' ! i + of_nat k - info_addr info < of_nat n)" if "i < 128" for i
  proof (cases "map_of (map (\<lambda>(type, d, pad). (unat type, d)) tags) i")
    case None
    then have "i \<notin> (\<lambda>tag. unat (fst tag)) ` set tags" by (force simp: map_of_eq_None_iff image_image case_prod_beta)
    then show ?thesis using None saved that by (simp add: tags_saved_def)
  next
    case (Some d)
    from map_of_SomeD [OF Some] obtain type pad where "(type, d, pad) \<in> set tags" "i = unat type" by auto
    then show ?thesis using Some saved by (fastforce simp: tags_saved_def)
  qed
  moreover have "?m a = m a" if "\<not> a - info_addr info < of_nat n" for a
    using mm_copy_moves [of "info_addr info" boot "of_nat n" m] apart that by (simp add: n_def)
  ultimately show ?thesis using copy saved unfolding n_def [symmetric] by (auto simp: tags_saved_def)
qed

text \<open>
  C24: the boot information is read as it was written. For tags of different known types, with their padding and
  the end tag in place, and a copy that does not run over its source, \<open>_multi_boot_info_save\<close> returns; the slot
  of every tag holds the length of its contents and an address at which memory holds them, and all other
  slots are empty.
\<close>

theorem multi_boot_info_save_reads:
  assumes boot: "bytes_at m boot (boot_bytes tags)" and tags: "\<forall>tag \<in> set tags. tag_wf tag" "distinct (map fst tags)"
    and size: "length (boot_bytes tags) < 1048576" "info_addr info mod 8 = 0" "unat (info_addr info) + 2097152 < 18446744073709551616"
    and apart: "info_addr info = boot \<or> of_nat (length (boot_bytes tags)) \<le> info_addr info - boot"
  shows "\<exists>info' m'. multi_boot_info_save msg0 boot info m = Ret (info', m') \<and>
    bytes_at m' (info_addr info') (boot_bytes tags) \<and> info_addr info' = info_addr info \<and>
    (\<forall>i<128. case map_of (map (\<lambda>(type, d, pad). (unat type, d)) tags) i of
       None \<Rightarrow> ptrs info' ! i = 0 \<and> lens info' ! i = 0
     | Some d \<Rightarrow> ptrs info' ! i \<noteq> 0 \<and> lens info' ! i = of_nat (length d) \<and> bytes_at m' (ptrs info' ! i) d)"
proof -
  obtain info' m' where r: "multi_boot_info_save msg0 boot info m = Ret (info', m')" "bytes_at m' (info_addr info') (boot_bytes tags)"
    "info_addr info' = info_addr info"
    and slots: "\<forall>i<128. case map_of (map (\<lambda>(type, d, pad). (unat type, d)) tags) i of
       None \<Rightarrow> ptrs info' ! i = 0 \<and> lens info' ! i = 0
     | Some d \<Rightarrow> ptrs info' ! i \<noteq> 0 \<and> lens info' ! i = of_nat (length d) \<and> bytes_at m' (ptrs info' ! i) d \<and>
         (\<forall>k<length d. ptrs info' ! i + of_nat k - info_addr info < of_nat (length (boot_bytes tags)))"
    using boot_info_reads [OF assms] by blast
  show ?thesis using r slots by (intro exI [of _ info'] exI [of _ m']) (auto split: option.splits)
qed

text \<open>A command line of three characters and a frame buffer tag, in memory at \<open>0x9000\<close>.\<close>

definition sample_tags :: "boot_tag list" where
  "sample_tags = [(1, [0x61, 0x62, 0], [0, 0, 0, 0, 0]), (8, [1, 2, 3, 4, 5, 6, 7, 8], [])]"

definition sample_boot :: memory where
  "sample_boot a = (if unat a - 0x9000 < length (boot_bytes sample_tags) then boot_bytes sample_tags ! (unat a - 0x9000) else 0)"

definition sample_info :: multi_boot_info where
  "sample_info = \<lparr>info_addr = 0x100000, total_size = 0, ptrs = [], lens = []\<rparr>"

lemma sample_boot_bytes: "length (boot_bytes sample_tags) = 48" "bytes_at sample_boot 0x9000 (boot_bytes sample_tags)"
proof -
  show l: "length (boot_bytes sample_tags) = 48" by (simp add: boot_bytes_def sample_tags_def tag_bytes_def)
  have "unat (0x9000 + of_nat i :: u64) = 0x9000 + i" if "i < 48" for i
    using that by (subst unat_u64_add) (auto simp: unat_of_nat)
  then show "bytes_at sample_boot 0x9000 (boot_bytes sample_tags)" by (simp add: bytes_at_def sample_boot_def l)
qed

theorem multi_boot_info_save_reads_witness:
  "\<exists>info' m'. multi_boot_info_save [] 0x9000 sample_info sample_boot = Ret (info', m') \<and>
     lens info' ! 1 = 3 \<and> bytes_at m' (ptrs info' ! 8) [1, 2, 3, 4, 5, 6, 7, 8] \<and> ptrs info' ! 6 = 0"
proof -
  have "\<exists>info' m'. multi_boot_info_save [] 0x9000 sample_info sample_boot = Ret (info', m') \<and>
    bytes_at m' (info_addr info') (boot_bytes sample_tags) \<and> info_addr info' = info_addr sample_info \<and>
    (\<forall>i<128. case map_of (map (\<lambda>(type, d, pad). (unat type, d)) sample_tags) i of
       None \<Rightarrow> ptrs info' ! i = 0 \<and> lens info' ! i = 0
     | Some d \<Rightarrow> ptrs info' ! i \<noteq> 0 \<and> lens info' ! i = of_nat (length d) \<and> bytes_at m' (ptrs info' ! i) d)"
    using sample_boot_bytes
    by (intro multi_boot_info_save_reads) (simp_all add: sample_tags_def tag_wf_def known_tag_def sample_info_def)
  then obtain info' m' where r: "multi_boot_info_save [] 0x9000 sample_info sample_boot = Ret (info', m')"
    and f: "\<And>i. i < 128 \<Longrightarrow> case map_of (map (\<lambda>(type, d, pad). (unat type, d)) sample_tags) i of
       None \<Rightarrow> ptrs info' ! i = 0 \<and> lens info' ! i = 0
     | Some d \<Rightarrow> ptrs info' ! i \<noteq> 0 \<and> lens info' ! i = of_nat (length d) \<and> bytes_at m' (ptrs info' ! i) d" by blast
  show ?thesis using r f [of 1] f [of 8] f [of 6] by (simp add: sample_tags_def)
qed

subsection \<open>The first lines\<close>

lemma km_log_sends:
  assumes "line_ready (answers s)" "\<not> km_video_write s" "length (env_log_msg env) = 64" "length (env_log_buf env) = 256"
    and "env_file env (call_file c) = concat (map (\<lambda>d. CHR ''/'' # d) ds) @ ''/src/'' @ name @ [NUL]"
    and "\<forall>d \<in> set ds. plain_dir d" "NUL \<notin> set name" "hd (name @ [NUL]) \<noteq> CHR ''0''" "length name < 18446744073709551616"
    and "call_ok c"
  shows "\<exists>r es. km_log env c s = Ret (s\<lparr>reads := r, events := events s @ es\<rparr>)"
proof -
  have "log_ok (log_part s)" using assms(1,2) by (simp add: log_ok_def log_part_def)
  moreover have "concat (map piece_fmt (call_pieces c)) = call_format c" "concat (map piece_args (call_pieces c)) = call_args c"
    "\<forall>x \<in> set (call_pieces c). piece_ok x" "NUL \<notin> set (call_format c)" "length (call_format c) < 18446744073709551616"
    "length (concat (map piece_text (call_pieces c))) < 256"
    using assms(10) by (simp_all add: call_ok_def call_text_def)
  ultimately show ?thesis
    using log_line_logged [of "log_part s" "env_log_msg env" "env_log_buf env" ds name "call_pieces c" "call_level c" "call_line c"] assms(3-9)
    by (clarsimp simp: km_log_def assms(2,5) logged_def log_part_def) blast
qed

text \<open>
  Without the ELF symbols or the memory map, \<open>kernal_main\<close> stops at an assertion before the memory is set up; with
  a serial line that becomes ready again and again, nothing before it stops.
\<close>

lemma kernal_main_missing_tag:
  assumes "line_ready (answers s)" "\<not> km_video_write s" "length (env_log_msg env) = 64" "length (env_log_buf env) = 256"
    and "env_file env Kernel_Main_C = concat (map (\<lambda>d. CHR ''/'' # d) ds) @ ''/src/'' @ name @ [NUL]"
    and "\<forall>d \<in> set ds. plain_dir d" "NUL \<notin> set name" "hd (name @ [NUL]) \<noteq> CHR ''0''" "length name < 18446744073709551616"
    and "env_revision env = revision @ [NUL]" "NUL \<notin> set revision" "length revision < 200"
    and "multi_boot_info_save (env_tag_msg env) mb (boot_info s) (km_bytes s) = Ret (info, m)" "ptrs info ! 9 = 0 \<or> ptrs info ! 6 = 0"
  shows "kernal_main env mb s = Stop AssertFail"
proof -
  let ?c1 = "main_call 165 ''cold_spot started..'' []" and ?c2 = "main_call 166 ''git revision: %s'' [VaStr (env_revision env)]"
  define run where "run u u' \<longleftrightarrow> (answers u' = answers u \<and> km_video_write u' = km_video_write u \<and> boot_info u' = boot_info u \<and> km_bytes u' = km_bytes u)" for u u' :: kernel_state
  obtain s1 where s1: "serial_init s = Ret s1" "run s s1"
    by (auto simp: serial_init_def byte_get_def SPEED_115200_BAUDS_def Let_def port_write_byte_def run_def)
  have ok: "call_ok ?c1" "call_ok ?c2" using assms(10-12) by (simp_all add: call_ok_def call_text_def)
  have "\<exists>u. km_log env ?c1 s1 = Ret u \<and> run s1 u"
    using km_log_sends [of s1 env ?c1, OF _ _ assms(3,4) _ assms(6-9) ok(1)] s1(2) assms(1,2,5) by (force simp: run_def)
  then obtain s2 where s2: "km_log env ?c1 s1 = Ret s2" "run s1 s2" by blast
  have "\<exists>u. km_log env ?c2 s2 = Ret u \<and> run s2 u"
    using km_log_sends [of s2 env ?c2, OF _ _ assms(3,4) _ assms(6-9) ok(2)] s1(2) s2(2) assms(1,2,5) by (force simp: run_def)
  then obtain s3 where s3: "km_log env ?c2 s2 = Ret s3" "run s2 s3" by blast
  have "boot_info s3 = boot_info s" "km_bytes s3 = km_bytes s" using s1(2) s2(2) s3(2) by (simp_all add: run_def)
  then show ?thesis unfolding kernal_main_def s1 rbind_Inr s2 s3
    using assms(13,14) by (auto simp: tag_required_def Let_def kassert_def MULTI_BOOT_TAG_TYPE_ELF_SYMBOLS_def MULTI_BOOT_TAG_TYPE_MMAP_def)
qed

end
