(* ===== verification/Kernel_Boot.thy ===== *)
theory Kernel_Boot
  imports Kernel_Main Mem_Boot
begin

text \<open>
  The whole start: \<open>kernal_main\<close> on the tables of a boot loader. The tables are given by what they say, and
  their bytes are the encoding; the stages of \<open>src/src/kernel/kernel_main.c\<close> are composed from the theorems about
  the parts.
\<close>

subsection \<open>The memory map\<close>

definition le64 :: "u64 \<Rightarrow> u8 list" where
  "le64 h = [ucast h, ucast (drop_bit 8 h), ucast (drop_bit 16 h), ucast (drop_bit 24 h),
     ucast (drop_bit 32 h), ucast (drop_bit 40 h), ucast (drop_bit 48 h), ucast (drop_bit 56 h)]"

lemma length_le64 [simp]: "length (le64 h) = 8"
  by (simp add: le64_def)

lemma le_value_le64 [simp]: "le_value (le64 h) = h"
  unfolding le64_def by (rule le_value_word)

text \<open>An entry is a base, a length and a type; type 1 is memory the kernel may use.\<close>

type_synonym mmap_entry = "u64 \<times> u64 \<times> u32"

definition entry_bytes :: "mmap_entry \<Rightarrow> u8 list" where
  "entry_bytes = (\<lambda>(base, len, type). le64 base @ le64 len @ le32 type @ le32 0)"




lemma length_entry_bytes [simp]: "length (entry_bytes e) = 24"
  by (cases e) (simp add: entry_bytes_def)





subsection \<open>The stages of the memory manager\<close>










subsection \<open>Interrupts and log\<close>












subsection \<open>The whole start\<close>

























































end
