(* ===== verification/Cpu.thy ===== *)
theory Cpu
  imports Kernel_Prelude
begin

text \<open>
  \<open>src/src/cpu/cpu.c\<close> and the two one-instruction functions of \<open>src/src/interrupts/interrupts.c\<close>: the registers the
  kernel reads and writes by \<open>movq\<close>, and the interrupt flag that \<open>sti\<close> sets and \<open>cli\<close> clears.
\<close>

record cpu_state =
  cr2 :: u64
  cr3 :: u64
  rbp :: u64
  rsp :: u64
  intr_flag :: bool

definition cpu_read_cr2 :: "cpu_state \<Rightarrow> u64" where "cpu_read_cr2 c = cr2 c"
definition cpu_write_cr3 :: "u64 \<Rightarrow> cpu_state \<Rightarrow> cpu_state" where "cpu_write_cr3 value c = c\<lparr>cr3 := value\<rparr>"
definition cpu_read_cr3 :: "cpu_state \<Rightarrow> u64" where "cpu_read_cr3 c = cr3 c"
definition cpu_read_rbp :: "cpu_state \<Rightarrow> u64" where "cpu_read_rbp c = rbp c"
definition cpu_write_rbp :: "u64 \<Rightarrow> cpu_state \<Rightarrow> cpu_state" where "cpu_write_rbp value c = c\<lparr>rbp := value\<rparr>"
definition cpu_read_rsp :: "cpu_state \<Rightarrow> u64" where "cpu_read_rsp c = rsp c"
definition cpu_write_rsp :: "u64 \<Rightarrow> cpu_state \<Rightarrow> cpu_state" where "cpu_write_rsp value c = c\<lparr>rsp := value\<rparr>"

definition intr_irq_enable :: "cpu_state \<Rightarrow> cpu_state" where "intr_irq_enable c = c\<lparr>intr_flag := True\<rparr>"
definition intr_irq_disable :: "cpu_state \<Rightarrow> cpu_state" where "intr_irq_disable c = c\<lparr>intr_flag := False\<rparr>"

text \<open>A register that was written reads back, and writes to different registers do not meet.\<close>

lemma cpu_registers:
  "cpu_read_cr3 (cpu_write_cr3 x c) = x" "cpu_read_rbp (cpu_write_rbp x c) = x" "cpu_read_rsp (cpu_write_rsp x c) = x"
  "cpu_read_cr3 (cpu_write_rsp x c) = cpu_read_cr3 c" "cpu_write_rsp x (cpu_write_rbp y c) = cpu_write_rbp y (cpu_write_rsp x c)"
  "intr_flag (intr_irq_enable c)" "\<not> intr_flag (intr_irq_disable c)" "cpu_read_cr2 (cpu_write_cr3 x c) = cpu_read_cr2 c"
  by (simp_all add: cpu_read_cr2_def cpu_read_cr3_def cpu_write_cr3_def cpu_read_rbp_def cpu_write_rbp_def cpu_read_rsp_def cpu_write_rsp_def
      intr_irq_enable_def intr_irq_disable_def)

end
