(* ===== verification/Interrupts_Run.thy ===== *)
theory Interrupts_Run
  imports Drivers_Time Cpu
begin

text \<open>
  The machine while it runs on interrupts: after \<open>intr_init\<close> the drivers of \<open>drivers_time.c\<close> and \<open>drivers_keyboard.c\<close>
  may be started, interrupts may be enabled and disabled (\<open>interrupts.c\<close>), and while they are enabled an interrupt
  may arrive at any time. Steps that stop the kernel have no successor.
\<close>

inductive irq_step :: "u64 \<Rightarrow> u64 \<Rightarrow> buf \<Rightarrow> cpu_state \<times> kb_state \<Rightarrow> cpu_state \<times> kb_state \<Rightarrow> bool" for t k msg0 where
  enable: "irq_step t k msg0 (c, s) (intr_irq_enable c, s)"
| disable: "irq_step t k msg0 (c, s) (intr_irq_disable c, s)"
| start_time: "time_init t s = Ret s' \<Longrightarrow> irq_step t k msg0 (c, s) (c, s')"
| start_keyboard: "keyboard_init k s = Ret s' \<Longrightarrow> irq_step t k msg0 (c, s) (c, s')"
| interrupt: "intr_flag c \<Longrightarrow> intr_irq_handler (call_handler t k) msg0 iid stack s = Ret s' \<Longrightarrow> irq_step t k msg0 (c, s) (c, s')"

inductive_cases irq_stepE: "irq_step t k msg0 (c, s) (c', s')"

text \<open>Well-formed states: the tables have their sizes, and the only handlers are those of the two drivers at their numbers.\<close>

definition irq_wf :: "u64 \<Rightarrow> u64 \<Rightarrow> kb_state \<Rightarrow> bool" where
  "irq_wf t k s \<longleftrightarrow> length (handlers s) = 256 \<and> length (video_buffer s) = 4000 \<and>
     (\<forall>i<256. handlers s ! i = 0 \<or> i = 32 \<and> handlers s ! i = t \<or> i = 33 \<and> handlers s ! i = k)"

lemma irq_wf_cong: "handlers s' = handlers s \<Longrightarrow> length (video_buffer s') = length (video_buffer s) \<Longrightarrow> irq_wf t k s' = irq_wf t k s"
  by (simp add: irq_wf_def)

lemma wait_data_keeps:
  assumes "wait_data_available s = Some r"
  shows "\<exists>n es. r = Ret (s\<lparr>reads := n, events := es\<rparr>)"
proof (rule wait_data_available.raw_induct [where P = "\<lambda>s r. \<exists>n es. r = Ret (s\<lparr>reads := n, events := es\<rparr>)", OF _ assms])
  fix f :: "'a io_scheme \<Rightarrow> 'a io_scheme res option" and s r
  assume IH: "\<And>s r. f s = Some r \<Longrightarrow> \<exists>n es. r = Ret (s\<lparr>reads := n, events := es\<rparr>)"
    and body: "(case port_read_byte PORT_NO_KEYBOARD_CMD s of (status, s) \<Rightarrow>
      (case status_data_is_empty status of Inl e \<Rightarrow> Some (Inl e) | Inr none \<Rightarrow> if none then f s else Some (Ret s))) = Some r"
  let ?s = "s\<lparr>reads := Suc (reads s), events := events s @ [Port_In PORT_NO_KEYBOARD_CMD (answers s (reads s))]\<rparr>"
  have b: "byte_bit_get b 0 = Ret (bit b 0)" for b using u8_single_bit [of b 0] by (simp add: byte_bit_get_def)
  have "f ?s = Some r \<or> r = Ret ?s"
    using body by (simp add: port_read_byte_def status_data_is_empty_def b split: if_splits)
  then show "\<exists>n es. r = Ret (s\<lparr>reads := n, events := es\<rparr>)" using IH [of ?s r] by auto
qed

text \<open>The keyboard handler keeps the tables; it can only wait forever.\<close>

lemma keyboard_handler_keeps:
  fixes s :: kb_state
  assumes "length (video_buffer s) = 4000"
  shows "keyboard_irq_handler iid para s = Stop Diverges \<or>
    (\<exists>s'. keyboard_irq_handler iid para s = Ret s' \<and> handlers s' = handlers s \<and> length (video_buffer s') = 4000)"
proof (cases "wait_data_available s")
  case None
  then show ?thesis by (simp add: keyboard_irq_handler_def)
next
  case (Some r)
  obtain n es where r: "r = Ret (s\<lparr>reads := n, events := es\<rparr>)" using wait_data_keeps [OF Some] by blast
  have put: "screen_write_at ch 0 0 (video_buffer s) = Ret (put_cell 0 0 (\<lambda>(_, at). (ch, at)) (video_buffer s))" for ch
    using screen_ops_put(1) [OF assms, of 0 0 ch] by simp
  show ?thesis using Some r assms by (auto simp: keyboard_irq_handler_def port_read_byte_def Let_def put)
qed

lemma register_keeps:
  assumes "irq_wf t k s" "intr_handler_register iid h s = Ret s'" "iid = INTR_ID_IRQ_TIME \<and> h = t \<or> iid = INTR_ID_IRQ_KEYBOARD \<and> h = k"
  shows "irq_wf t k s'"
proof -
  have n: "unat INTR_ID_IRQ_TIME = 32" "unat INTR_ID_IRQ_KEYBOARD = 33" "INTR_ID_IRQ_TIME < INTR_ID_MAX" "INTR_ID_IRQ_KEYBOARD < INTR_ID_MAX"
    by (simp_all add: INTR_ID_IRQ_TIME_def INTR_ID_IRQ_KEYBOARD_def INTR_ID_MAX_def)
  have l: "length (handlers s) = 256" "h \<noteq> 0" "iid < INTR_ID_MAX" using assms n by (auto simp: irq_wf_def intr_handler_register_def)
  have s': "s' = s\<lparr>handlers := (handlers s)[unat iid := h]\<rparr>" using assms(2) register_once [OF l(1,3,2)] by (simp split: if_splits)
  have "handlers s' ! i = 0 \<or> i = 32 \<and> handlers s' ! i = t \<or> i = 33 \<and> handlers s' ! i = k" if "i < 256" for i
  proof (cases "i = unat iid")
    case True
    then show ?thesis using assms(3) n l that by (auto simp: s')
  next
    case False
    then have "handlers s' ! i = handlers s ! i" by (simp add: s')
    then show ?thesis using assms(1) that unfolding irq_wf_def by simp
  qed
  then show ?thesis using assms(1) unfolding irq_wf_def s' by simp
qed

text \<open>What an interrupt does in a well-formed state.\<close>

lemma irq_outcome:
  assumes wf: "irq_wf t k s" and a: "length msg0 = 128" "t \<noteq> 0" "k \<noteq> 0" "t \<noteq> k"
  shows "intr_irq_handler (call_handler t k) msg0 iid stack s =
    (let ack = port_write_byte PORT_NO_PIC_MASTER_CMD 0x20 s in
     if iid \<ge> 40 then Stop AssertFail
     else if handlers s ! unat iid = 0 then Stop (KernelPanic (''Unhandled IRQ, id: '' @ dec_digits (unat iid)))
     else if iid = INTR_ID_IRQ_TIME then Ret ack
     else keyboard_irq_handler INTR_ID_IRQ_KEYBOARD stack ack)"
    (is "_ = ?rhs")
proof -
  have run: "intr_irq_handler (call_handler t k) msg0 iid stack s =
    (if iid \<ge> 40 then Stop AssertFail
     else if handlers s ! unat iid = 0 then Stop (KernelPanic (''Unhandled IRQ, id: '' @ dec_digits (unat iid)))
     else call_handler t k (handlers s ! unat iid) iid stack (port_write_byte PORT_NO_PIC_MASTER_CMD 0x20 s))"
    using wf a(1) by (intro irq_dispatch) (simp_all add: irq_wf_def)
  have "call_handler t k (handlers s ! unat iid) iid stack u =
      (if iid = INTR_ID_IRQ_TIME then Ret u else keyboard_irq_handler INTR_ID_IRQ_KEYBOARD stack u)"
    if "\<not> iid \<ge> 40" "handlers s ! unat iid \<noteq> 0" for u
  proof -
    have "unat iid < 256" using that(1) by (simp add: word_le_nat_alt)
    then have "unat iid = 32 \<and> handlers s ! unat iid = t \<or> unat iid = 33 \<and> handlers s ! unat iid = k"
      using wf that(2) unfolding irq_wf_def by blast
    then have "iid = INTR_ID_IRQ_TIME \<and> handlers s ! unat iid = t \<or> iid = INTR_ID_IRQ_KEYBOARD \<and> handlers s ! unat iid = k"
      by (auto simp: INTR_ID_IRQ_TIME_def INTR_ID_IRQ_KEYBOARD_def u64_eq_iff_unat)
    then show ?thesis using a(4) by (auto simp: call_handler_def time_irq_handler_def INTR_ID_IRQ_TIME_def INTR_ID_IRQ_KEYBOARD_def)
  qed
  then show ?thesis unfolding run Let_def by auto
qed

lemma irq_step_keeps:
  assumes step: "irq_step t k msg0 x y" and wf: "irq_wf t k (snd x)" and a: "length msg0 = 128" "t \<noteq> 0" "k \<noteq> 0" "t \<noteq> k"
  shows "irq_wf t k (snd y)"
  using step
proof cases
  case (start_time s s' c)
  then show ?thesis using register_keeps [of t k s _ t s'] wf by (auto simp: time_init_def)
next
  case (start_keyboard s s' c)
  then show ?thesis using register_keeps [of t k s _ k s'] wf by (auto simp: keyboard_init_def)
next
  case (interrupt c iid stack s s')
  let ?ack = "port_write_byte PORT_NO_PIC_MASTER_CMD 0x20 s"
  have ack: "handlers ?ack = handlers s" "video_buffer ?ack = video_buffer s" by (simp_all add: port_write_byte_def)
  have wf': "irq_wf t k s" using wf interrupt by simp
  then have "s' = ?ack \<or> keyboard_irq_handler INTR_ID_IRQ_KEYBOARD stack ?ack = Ret s'"
    using interrupt(4) unfolding irq_outcome [OF wf' a] Let_def by (simp split: if_splits)
  then have "handlers s' = handlers s \<and> length (video_buffer s') = length (video_buffer s)"
    using keyboard_handler_keeps [of ?ack INTR_ID_IRQ_KEYBOARD stack] ack wf' by (auto simp: irq_wf_def)
  then show ?thesis using interrupt(2) wf' irq_wf_cong [of s' s t k] by simp
qed (use wf in simp_all)

text \<open>
  C27: the interrupt system is well-typed. From a table without handlers, after any sequence of starting the two
  drivers, enabling and disabling interrupts, and interrupts that arrive while they are enabled, the tables
  are well-formed. In such a state an interrupt never calls a wild address: a number from 40 on fails an
  assertion, a number without handler stops the kernel with a message, a tick is acknowledged and nothing
  else, and a key is acknowledged and goes to the keyboard handler, which returns or waits forever.
\<close>

theorem irq_machine_typed:
  assumes run: "(irq_step t k msg0)\<^sup>*\<^sup>* (c0, s0) (c, s)" and start: "handlers s0 = replicate 256 0" "length (video_buffer s0) = 4000"
    and a: "length msg0 = 128" "t \<noteq> 0" "k \<noteq> 0" "t \<noteq> k"
  shows "irq_wf t k s \<and> (\<forall>iid stack. case intr_irq_handler (call_handler t k) msg0 iid stack s of
      Inr s' \<Rightarrow> iid < 40 \<and> handlers s ! unat iid \<noteq> 0 \<and> irq_wf t k s' \<and> (iid = INTR_ID_IRQ_TIME \<longrightarrow> s' = port_write_byte PORT_NO_PIC_MASTER_CMD 0x20 s)
    | Inl e \<Rightarrow> e = AssertFail \<and> iid \<ge> 40 \<or>
        iid < 40 \<and> handlers s ! unat iid = 0 \<and> e = KernelPanic (''Unhandled IRQ, id: '' @ dec_digits (unat iid)) \<or>
        iid = INTR_ID_IRQ_KEYBOARD \<and> e = Diverges)"
proof -
  have "irq_wf t k (snd (c, s))" using run
  proof (induction rule: rtranclp_induct)
    case base
    then show ?case using start by (simp add: irq_wf_def)
  next
    case (step y z)
    then show ?case using irq_step_keeps [OF step.hyps(2) _ a] by blast
  qed
  then have wf: "irq_wf t k s" by simp
  let ?ack = "port_write_byte PORT_NO_PIC_MASTER_CMD 0x20 s"
  have ack: "handlers ?ack = handlers s" "video_buffer ?ack = video_buffer s" by (simp_all add: port_write_byte_def)
  have kb: "keyboard_irq_handler INTR_ID_IRQ_KEYBOARD stack ?ack = Stop Diverges \<or>
      (\<exists>s'. keyboard_irq_handler INTR_ID_IRQ_KEYBOARD stack ?ack = Ret s' \<and> irq_wf t k s')" for stack
    using keyboard_handler_keeps [of ?ack INTR_ID_IRQ_KEYBOARD stack] ack wf by (auto simp: irq_wf_def)
  have num: "iid = INTR_ID_IRQ_TIME \<or> iid = INTR_ID_IRQ_KEYBOARD" if "iid < 40" "handlers s ! unat iid \<noteq> 0" for iid
  proof -
    have "unat iid < 256" using that(1) by (simp add: word_less_nat_alt)
    then have "unat iid = 32 \<or> unat iid = 33" using wf that(2) unfolding irq_wf_def by blast
    then show ?thesis by (auto simp: INTR_ID_IRQ_TIME_def INTR_ID_IRQ_KEYBOARD_def u64_eq_iff_unat)
  qed
  have "irq_wf t k ?ack" using wf ack irq_wf_cong [of ?ack s t k] by simp
  note out = this kb num
  have "case intr_irq_handler (call_handler t k) msg0 iid stack s of
      Inr s' \<Rightarrow> iid < 40 \<and> handlers s ! unat iid \<noteq> 0 \<and> irq_wf t k s' \<and> (iid = INTR_ID_IRQ_TIME \<longrightarrow> s' = ?ack)
    | Inl e \<Rightarrow> e = AssertFail \<and> iid \<ge> 40 \<or>
        iid < 40 \<and> handlers s ! unat iid = 0 \<and> e = KernelPanic (''Unhandled IRQ, id: '' @ dec_digits (unat iid)) \<or>
        iid = INTR_ID_IRQ_KEYBOARD \<and> e = Diverges" for iid stack
  proof (cases "iid < 40 \<and> handlers s ! unat iid \<noteq> 0")
    case False
    then show ?thesis unfolding irq_outcome [OF wf a] Let_def by (cases "iid \<ge> 40") (simp_all add: not_le)
  next
    case True
    then have run: "intr_irq_handler (call_handler t k) msg0 iid stack s =
        (if iid = INTR_ID_IRQ_TIME then Ret ?ack else keyboard_irq_handler INTR_ID_IRQ_KEYBOARD stack ?ack)"
      unfolding irq_outcome [OF wf a] Let_def by (simp add: not_le [symmetric])
    show ?thesis using True out(1) out(2) [of stack] out(3) [of iid] unfolding run by auto
  qed
  then show ?thesis using wf by blast
qed

text \<open>The timer started and interrupts enabled.\<close>

definition sample_irq :: kb_state where
  "sample_irq = \<lparr>answers = (\<lambda>_. 0), reads = 0, events = [], idt = [], idt_register = (0, 0), handlers = replicate 256 0, video_buffer = replicate 4000 0\<rparr>"

theorem irq_machine_typed_witness:
  "\<exists>c s. (irq_step 0x1000 0x2000 (replicate 128 NUL))\<^sup>*\<^sup>* (\<lparr>cr2 = 0, cr3 = 0, rbp = 0, rsp = 0, intr_flag = False\<rparr>, sample_irq) (c, s) \<and>
     intr_flag c \<and> handlers s ! 32 = 0x1000 \<and> irq_wf 0x1000 0x2000 s"
proof -
  let ?c = "\<lparr>cr2 = 0, cr3 = 0, rbp = 0, rsp = 0, intr_flag = False\<rparr>" and ?s = "sample_irq\<lparr>handlers := (replicate 256 0)[32 := 0x1000]\<rparr>"
  let ?step = "irq_step 0x1000 0x2000 (replicate 128 NUL)"
  have "time_init 0x1000 sample_irq = Ret ?s"
    by (simp add: time_init_def register_once sample_irq_def INTR_ID_IRQ_TIME_def INTR_ID_MAX_def)
  then have 1: "?step (?c, sample_irq) (?c, ?s)" by (rule irq_step.start_time)
  have 2: "?step (?c, ?s) (intr_irq_enable ?c, ?s)" by (rule irq_step.enable)
  from 1 2 have run: "?step\<^sup>*\<^sup>* (?c, sample_irq) (intr_irq_enable ?c, ?s)" by (meson converse_rtranclp_into_rtranclp rtranclp.rtrancl_refl)
  have "irq_wf 0x1000 0x2000 ?s" using irq_machine_typed [OF run] by (simp add: sample_irq_def)
  then show ?thesis using run by (intro exI [of _ "intr_irq_enable ?c"] exI [of _ ?s]) (simp add: intr_irq_enable_def)
qed

end
