(* ===== verification/Drivers_Nvme.thy ===== *)
theory Drivers_Nvme
  imports Mm_Allocator Drivers_Pcie
begin

text \<open>
  \<open>src/src/drivers/drivers_nvme.c\<close>: the controllers among the PCIe functions, and the size of their registers,
  found by writing ones into the first base address register and reading back. What the device makes of a
  write to its configuration space is the parameter \<open>dev\<close>: it takes memory after the write to memory as it
  reads afterwards. The array of controllers is the list \<open>ctrls\<close>; its field \<open>regs\<close> is never set.
\<close>

definition CLASS_CODE_BASE :: u8 where "CLASS_CODE_BASE = 0x01"
definition CLASS_CODE_SUB :: u8 where "CLASS_CODE_SUB = 0x08"
definition CFG_SPACE_BAR_0 :: u64 where "CFG_SPACE_BAR_0 = 0x10"
definition CFG_SPACE_BAR_0_BASE_MASK :: u32 where "CFG_SPACE_BAR_0_BASE_MASK = 0xFFFFC000"
definition CTRL_CAP :: nat where "CTRL_CAP = 32"

record d_nvme_ctrl =
  ctrl_mm :: u64
  ctrl_pcie :: d_pcie_func
  reg_size :: u64

record nvme_state =
  nv_all :: all_state
  nv_mem :: memory
  ctrls :: "d_nvme_ctrl list"

definition ctrl_add :: "(memory \<Rightarrow> memory) \<Rightarrow> pcie_state \<Rightarrow> d_pcie_func \<Rightarrow> nvme_state \<Rightarrow> nvme_state res" where
  "ctrl_add dev pst f st =
     inbounds (length (ctrls st) < CTRL_CAP)
     (rbind (mm_allocator_new (nv_all st)) (\<lambda>(all, a).
      rbind (d_pcie_cfg_space_write_dword pst f CFG_SPACE_BAR_0 0xFFFFFFFF (nv_mem st)) (\<lambda>m.
      let m = dev m in
      rbind (d_pcie_cfg_space_read_dword m pst f CFG_SPACE_BAR_0) (\<lambda>bar0.
      let byt = ucast (bar0 AND 0xFF) :: u8 in
      kassert (byt = 4)
        (let bar0 = bar0 AND CFG_SPACE_BAR_0_BASE_MASK in
         rbind (mm_align_class (ucast bar0)) (\<lambda>sz.
         Ret (st\<lparr>nv_all := a, nv_mem := m, ctrls := ctrls st @ [\<lparr>ctrl_mm = all, ctrl_pcie = f, reg_size = sz\<rparr>]\<rparr>)))))))"

definition nvme_func :: "(memory \<Rightarrow> memory) \<Rightarrow> pcie_state \<Rightarrow> nat \<Rightarrow> nvme_state \<Rightarrow> nvme_state res" where
  "nvme_func dev pst i st =
     rbind (d_pcie_get_func pst i) (\<lambda>f.
     if d_pcie_func_get_base_class f = CLASS_CODE_BASE \<and> d_pcie_func_get_sub_class f = CLASS_CODE_SUB then
       rbind (ctrl_add dev pst f st) (\<lambda>st.
       rbind (d_pcie_func_get_vendor_name f) (\<lambda>_.
       rbind (d_pcie_func_get_device_name f) (\<lambda>_. Ret st)))
     else Ret st)"

definition d_nvme_bootstrap :: "(memory \<Rightarrow> memory) \<Rightarrow> pcie_state \<Rightarrow> nvme_state \<Rightarrow> nvme_state res" where
  "d_nvme_bootstrap dev pst st =
     rbind (d_pcie_get_func_cnt pst) (\<lambda>func_cnt. count_loop 0 func_cnt (nvme_func dev pst) st)"

subsection \<open>The size of the registers\<close>

text \<open>
  A 64-bit, not prefetchable register of \<open>2^k\<close> bytes reads back as the complement of \<open>2^k - 1\<close> with the type in
  its low bits. From 16 KB on, the mask and \<open>mm_align_class\<close> give \<open>2^k\<close>.
\<close>

lemma bit_four: "bit (4 :: 'a :: len word) n \<longleftrightarrow> possible_bit TYPE('a word) 2 \<and> n = 2"
proof -
  have "(4 :: 'a word) = 2 ^ 2" by simp
  then show ?thesis by (simp only: bit_exp_iff) auto
qed

lemma bar_size:
  assumes "14 \<le> k" "k < 32"
  shows "mm_align_class (ucast ((NOT (2 ^ k - 1) OR 4 :: u32) AND CFG_SPACE_BAR_0_BASE_MASK)) = Ret (2 ^ k)"
    "ucast ((NOT (2 ^ k - 1) OR 4 :: u32) AND 0xFF) = (4 :: u8)"
proof -
  let ?x = "NOT (2 ^ k - 1) OR 4 :: u32"
  have m: "CFG_SPACE_BAR_0_BASE_MASK = NOT (mask 14)" by (simp add: CFG_SPACE_BAR_0_BASE_MASK_def mask_eq_exp_minus_1)
  have e: "?x = NOT (mask k) OR 4" by (simp add: mask_eq_exp_minus_1)
  have x: "?x AND CFG_SPACE_BAR_0_BASE_MASK = NOT (mask k)"
    unfolding m e by (rule bit_word_eqI) (simp only: bit_simps bit_four, use assms in auto)
  have "unat (NOT (mask k) :: u32) = 2 ^ 32 - 2 ^ k"
  proof -
    have "(2 :: nat) ^ k < 4294967296" using power_strict_increasing [OF assms(2), of "2 :: nat"] by simp
    moreover have "(2 :: u32) ^ k = of_nat (2 ^ k)" by simp
    ultimately have "unat (2 ^ k :: u32) = 2 ^ k" by (simp add: unat_of_nat del: of_nat_power of_nat_numeral)
    then have "unat (0 - 2 ^ k :: u32) = 2 ^ 32 - 2 ^ k" unfolding unat_sub_if' by simp
    then show ?thesis by (simp add: minus_exp_eq_not_mask [symmetric])
  qed
  then have u: "unat (ucast (NOT (mask k) :: u32) :: u64) = 2 ^ 32 - 2 ^ k"
    by (simp add: unsigned_ucast_eq take_bit_eq_mod)
  have f: "(2 :: nat) ^ 32 - 2 ^ k = 2 ^ k * (2 ^ (32 - k) - 1)" using assms(2) by (simp add: diff_mult_distrib2 flip: power_add)
  have odd: "odd ((2 :: nat) ^ (32 - k) - 1)" using assms(2) by simp
  have div: "2 ^ j dvd (2 :: nat) ^ 32 - 2 ^ k \<longleftrightarrow> j \<le> k" for j
  proof
    assume d: "2 ^ j dvd (2 :: nat) ^ 32 - 2 ^ k"
    show "j \<le> k"
    proof (rule ccontr)
      assume "\<not> j \<le> k"
      then have "2 ^ Suc k dvd (2 :: nat) ^ j" by (intro le_imp_power_dvd) simp
      then have "2 ^ k * 2 dvd 2 ^ k * ((2 :: nat) ^ (32 - k) - 1)" using d unfolding f by (simp add: dvd_trans mult.commute)
      then show False using odd by (simp only: nat_mult_dvd_cancel_disj) simp
    qed
  next
    assume "j \<le> k"
    then show "2 ^ j dvd (2 :: nat) ^ 32 - 2 ^ k" unfolding f by (intro dvd_mult2 le_imp_power_dvd)
  qed
  show "mm_align_class (ucast (?x AND CFG_SPACE_BAR_0_BASE_MASK)) = Ret (2 ^ k)"
  proof -
    let ?w = "ucast (NOT (mask k) :: u32) :: u64"
    have "\<not> 2 ^ 63 dvd unat ?w" unfolding u div using assms(2) by simp
    moreover have "2 ^ 1 dvd unat ?w" unfolding u div using assms(1) by simp
    ultimately obtain j where j: "mm_align_class ?w = Ret (2 ^ j)" "2 ^ j dvd unat ?w" "\<not> 2 ^ Suc j dvd unat ?w"
      using mm_align_class_max [of ?w] unfolding power_one_right by (metis (full_types))
    have "j = k" using j(2,3) unfolding u div by simp
    then show ?thesis using j(1) unfolding x by simp
  qed
  show "ucast (?x AND 0xFF) = (4 :: u8)"
  proof -
    have "ucast (?x AND mask 8) = (4 :: u8)"
      unfolding e by (rule bit_word_eqI) (simp only: bit_simps bit_four, use assms in auto)
    then show ?thesis by (simp add: mask_eq_exp_minus_1)
  qed
qed

lemma ctrl_add_sizes:
  assumes "length (ctrls st) < 32" "mm_allocator_new (nv_all st) = Ret (all, a)" "14 \<le> k" "k < 32"
    and "d_pcie_cfg_space_write_dword pst f 0x10 0xFFFFFFFF (nv_mem st) = Ret m"
    and "d_pcie_cfg_space_read_dword (dev m) pst f 0x10 = Ret (NOT (2 ^ k - 1) OR 4)"
  shows "ctrl_add dev pst f st = Ret (st\<lparr>nv_all := a, nv_mem := dev m, ctrls := ctrls st @ [\<lparr>ctrl_mm = all, ctrl_pcie = f, reg_size = 2 ^ k\<rparr>]\<rparr>)"
  using assms bar_size [of k] by (simp add: ctrl_add_def CTRL_CAP_def CFG_SPACE_BAR_0_def Let_def)

text \<open>The 33rd controller is written behind the array.\<close>

lemma ctrl_add_overruns: "length (ctrls st) = 32 \<Longrightarrow> ctrl_add dev pst f st = Stop OutOfBounds"
  by (simp add: ctrl_add_def CTRL_CAP_def)

end
