(* ===== verification/Spec2Isabelle.thy ===== *)
theory Spec2Isabelle
  imports Mm_Heap_Test Mm_Boot_Map Mm_Boot_Early Drivers_Acpi Drivers_Time Panel Mem_Boot Mem_Heap Tui Kernel_Panic Kernel_Boot Interrupts_Run Drivers_Nvme
begin

text \<open>
  A verification development of cing, a kernel in C for x86-64.

  \<^bold>\<open>The program.\<close> The boot loader enters \<open>kernal_main\<close> (\<open>src/src/kernel/kernel_main.c\<close>) with the address of the
  multiboot information. It starts the serial line, copies the boot information and looks up its tags, starts
  the memory manager of \<open>src/src/mem\<close> in stages, the frame buffer, the search of the ACPI tables for the PCIe
  configuration space, and the interrupts, and halts. \<open>src/src/mm\<close> is the other memory manager of the
  repository, with frames, page tables, a buddy heap and region allocators; the PCIe and NVMe drivers use it.
  Texts are formatted by \<open>src/src/containers\<close>; the log, the panic report, the panel and the text interface
  show them on the serial line, the text screen and the frame buffer.

  \<^bold>\<open>How C is modelled.\<close> Integers are words of their width and wrap as in C. A function that may stop returns
  a value of \<open>'a res\<close>: \<open>Ret\<close> a result, or \<open>Stop\<close> with the reason, which is a failed \<open>kernel_assert\<close>, a
  \<open>kernel_panic\<close> with its message, an access outside an object, a division by zero, a page fault, an operation
  C leaves undefined, or a loop that never ends. Static variables are the fields of one record per component;
  pointers are addresses (\<open>u64\<close>, null is 0), and memory is a map from addresses to bytes, or to 64-bit table
  entries where the code only keeps page tables there. Arrays and strings are lists, with every access outside
  them a stop. Parts of a C function that are definitions of their own (bodies of loops, cases) are mapped to
  the lines they translate.

  \<^bold>\<open>Theories.\<close>
  \<^item> \<open>Kernel_Prelude\<close>: types, outcomes, the collections \<open>run_simps\<close> and \<open>page_arith\<close>, words and lists.
    \<open>Kernel_Loops\<close>: counting loops with their rules, little-endian values in memory.
  \<^item> \<open>Util\<close> (\<open>util_math.c\<close>, \<open>util_random.c\<close>): logarithms, powers of two, random numbers; where the loops end
    and where not.
  \<^item> \<open>Containers_String\<close> (\<open>containers_string.c\<close>): the writers of text into a buffer. The locale \<open>marshaller\<close> is
    their common contract (what is written, what is returned, what happens without room), \<open>marshaller_seq\<close> two
    of them in a row; every writer is an interpretation. The format interpreter renders exactly the text that
    the format describes, and ends for every format.
  \<^item> \<open>Mm\<close>, \<open>Mm_Table\<close>, \<open>Mm_Frame\<close>, \<open>Mm_Page\<close> (\<open>mm.c\<close>, \<open>mm_frame.c\<close>, \<open>mm_page.c\<close>): alignment, byte copies, table
    entries, the direct access window, free frames threaded through the frames themselves, mapping of pages.
    \<open>walk\<close> is the translation the processor makes; \<open>mm_inv\<close> is the invariant of tables, window and free list.
    The locale \<open>frame_stack\<close> is the contract of the frame allocator, \<open>pager\<close> that of the mapper.
  \<^item> \<open>Mm_Boot\<close>, \<open>Mm_Boot_Elf\<close>, \<open>Mm_Boot_Window\<close>, \<open>Mm_Boot_Early\<close>, \<open>Mm_Boot_Map\<close>: the bootstrap of this manager,
    with the address spaces it builds. It does not run through: the early map reads a variable that is not
    set, with an outcome for each value, and \<open>_init_direct_access\<close> leaves its array of tables; what its loops
    establish is shown for tables inside the array, and the mappings after it for any state with the window.
  \<^item> \<open>Buddy_Tiling\<close>, \<open>Mm_Heap\<close>, \<open>Mm_Heap_Contract\<close> (\<open>mm_heap.c\<close>): the buddy allocator, refined by tilings of the
    heap; the locale \<open>block_allocator\<close> is what its callers rely on. \<open>Mm_Allocator\<close> (\<open>mm_allocator.c\<close>) uses it.
    \<open>Mm_Heap_Test\<close>: the checks of the built-in tests, and that free buddies are always merged.
    \<open>Mm_Sample\<close>: concrete states that satisfy the invariants.
  \<^item> \<open>Mem_Frame\<close>, \<open>Mem_Frame_Map\<close>, \<open>Mem_Page\<close>, \<open>Mem_Page_Map\<close>, \<open>Mem_Boot\<close>, \<open>Mem_Heap\<close> (\<open>src/src/mem\<close>): the manager the
    kernel boots with. The sections and the kernel's extent are recorded as the boot loader gives them (the check
    of their order wraps, so that sections are apart only where no end wraps), the first stage maps memory to itself, \<open>mem_page_map\<close> updates the translation by a run of pages, the second
    stage maps exactly the kernel and the frame buffer; the heap cannot be created.
  \<^item> \<open>Drivers_Port\<close>, \<open>Drivers_Screen\<close>, \<open>Drivers_Vesa\<close>, \<open>Drivers_Pcie\<close>, \<open>Drivers_Acpi\<close>, \<open>Drivers_Nvme\<close>, \<open>Drivers_Time\<close>
    (\<open>src/src/drivers\<close>) and \<open>Interrupts\<close> (\<open>interrupts.c\<close>, \<open>drivers_keyboard.c\<close>): ports as a trace of events; the text
    screen as a grid of cells (locale \<open>cell_screen\<close>); pixels in the frame buffer; the enumeration of PCIe
    functions; the walk over the ACPI tables; controllers and the size of their registers; gates as the
    processor reads them, and the dispatch of interrupts to the timer and the keyboard.
  \<^item> \<open>Cpu\<close> (\<open>cpu.c\<close>, enabling and disabling of interrupts): the registers and the interrupt flag.
    \<open>Interrupts_Run\<close>: the machine while it runs on interrupts, as a step relation; drivers start, the flag
    changes and interrupts arrive in any order, and the table of handlers stays well-formed.
  \<^item> \<open>Panel\<close> (\<open>src/src/panel\<close>): the text area as a bounded sequence of rows, and its drawing.
  \<^item> \<open>Video_Font\<close>, \<open>Video\<close> (\<open>video.c\<close>), \<open>Tui\<close> (\<open>tui.c\<close>): the font and the drawing of characters and tiles. The
    locale \<open>canvas\<close> says what it means to paint a set of pixels; the frame buffer is its interpretation.
  \<^item> \<open>Log\<close> (\<open>log.c\<close>), \<open>Kernel_Panic\<close> (\<open>kernel_panic.c\<close>), \<open>Kernel_Main\<close> (\<open>kernel_main.c\<close>): lines of the log on serial
    line and screen, the report of a panic, the boot information and the order of the start. \<open>Kernel_Lines\<close>: the
    log lines of the parts that \<open>kernal_main\<close> starts, as lists of calls in the order the parts make them;
    \<open>kernal_main\<close> makes the calls of a part when the part has returned. \<open>Kernel_Boot\<close> composes the stages: on a
    machine that is ready and with boot information that is in order, \<open>kernal_main\<close> runs to its end, and the
    serial line has sent every line of the start and nothing else.
  \<^item> This theory: the screen across the second stage, a property of the page tables and the drawing together.

  \<^bold>\<open>Loops.\<close> A loop with a counter is \<open>count_loop\<close> or a function with its measure. A loop without a bound in the
  source is a partial function with values in \<open>option\<close>, and \<open>None\<close> becomes \<open>Stop Diverges\<close>; the theorems about
  such loops say that they return (or that they never do). Two recursions have fuel: the format interpreter,
  with one more than the length of the format, which never runs out because every round consumes a character,
  and \<open>coalescing_block\<close> with 16, enough because the class of a block grows with every call and stays below 16.

  \<^bold>\<open>Parameters.\<close> What devices answer to reads of ports is a sequence of bytes in the state, and what a PCIe
  device makes of a write is a function; stated hypotheses are that the serial line becomes ready again and
  again and that the keyboard controller has data at some time. Addresses of functions, interrupt stubs and
  static arrays, paths of source files and the revision come from compiler and linker and are parameters (the
  line number of a log call that spans lines is that of its first line), as
  is the call of a handler through its address. What an array on the stack holds at the start is a parameter
  too, and so is the value of the one variable that is read before it is written.

  \<^bold>\<open>Not modelled.\<close> The assembly of the boot code and the interrupt stubs; the log lines of parts that
  \<open>kernal_main\<close> does not start (the manager in \<open>src/src/mm\<close> and \<open>drivers_nvme.c\<close>), which change nothing but ports and
  screen; drawing of log lines into memory that the same part still reads (the theorem about the start asks for a
  frame buffer apart from the tables); the table of \<open>tui_fonts.c\<close>, which repeats the font of \<open>video.c\<close> and which no
  code reads; the bytes that users keep in heap blocks, and with them the built-in tests that fill and compare
  these bytes (what the tests check of the heap itself is modelled). A failed assertion is the value
  \<open>Stop AssertFail\<close> where it happens; what its report then does is the model \<open>kernel_assert_fail\<close>.
\<close>

subsection \<open>The screen across the change of the address space\<close>

text \<open>Memory as the processor sees it through the page tables of a state.\<close>

definition seen :: "mem_state \<Rightarrow> memory \<Rightarrow> memory" where
  "seen s m a = (case mem_walk s a of None \<Rightarrow> 0 | Some p \<Rightarrow> m p)"

text \<open>A driver with its buffer moved to the window of the frame buffer, and the tables that map this window.\<close>

definition fb_moved :: "vesa_state \<Rightarrow> mem_state \<Rightarrow> bool" where
  "fb_moved v s \<longleftrightarrow> vesa_ok v \<and> unat (d_vesa_get_frame_buffer_len v) < 3840 * 4096 \<and>
     (\<forall>d. unat d < unat (d_vesa_get_frame_buffer_len v) \<longrightarrow> mem_walk s (VA_48_FRAME_BUFFER + d) = Some (vesa_buf v + d))"

lemma fb_moved_ok:
  assumes "fb_moved v s"
  shows "vesa_ok (v\<lparr>vesa_buf := VA_48_FRAME_BUFFER\<rparr>)"
proof -
  have "unat (d_vesa_get_frame_buffer_len v) = unat (vesa_width v) * unat (vesa_height v) * 4"
    using assms by (auto simp: fb_moved_def vesa_ok_def d_vesa_get_frame_buffer_len_def unat_u64_mult)
  then show ?thesis using assms by (auto simp: fb_moved_def vesa_ok_def unat_FRAME_BUFFER)
qed

lemma fb_moved_pixel:
  assumes moved: "fb_moved v s" and q: "q \<in> on_screen v"
  shows "pixel (v\<lparr>vesa_buf := VA_48_FRAME_BUFFER\<rparr>) (seen s m) q = pixel v m q"
proof -
  obtain x y where q': "q = (x, y)" "x < vesa_width v" "y < vesa_height v" using q by (auto simp: on_screen_def)
  have ok: "vesa_ok v" using moved by (simp add: fb_moved_def)
  let ?o = "(y * vesa_width v + x) * 4"
  have addr: "pixel_addr v x y = vesa_buf v + ?o" "pixel_addr (v\<lparr>vesa_buf := VA_48_FRAME_BUFFER\<rparr>) x y = VA_48_FRAME_BUFFER + ?o"
    by (simp_all add: pixel_addr_def)
  have "vesa_ok (v\<lparr>vesa_buf := 0\<rparr>)" using ok by (simp add: vesa_ok_def)
  note u = pixel_unat [OF this, of x y]
  have len: "unat ?o + 4 \<le> unat (d_vesa_get_frame_buffer_len v)"
    using u q' by (simp add: pixel_addr_def d_vesa_get_frame_buffer_len_def)
  have byt: "seen s m (VA_48_FRAME_BUFFER + ?o + k) = m (vesa_buf v + ?o + k)" if "unat k < 4" for k
  proof -
    have "unat (?o + k) = unat ?o + unat k"
      using len that unat_u64_bound [of "d_vesa_get_frame_buffer_len v"] by (intro unat_u64_add) simp
    then have "mem_walk s (VA_48_FRAME_BUFFER + (?o + k)) = Some (vesa_buf v + (?o + k))"
      using moved len that unfolding fb_moved_def by simp
    then show ?thesis by (simp add: seen_def add.assoc)
  qed
  show ?thesis unfolding q'(1) pixel_def using byt [of 0] byt [of 1] byt [of 2] byt [of 3] by (simp add: addr Let_def)
qed

lemma stage_2_moves:
  assumes "stage_2_ready v s" "vesa_ok v"
  shows "\<exists>s'. mem_page_bootstrap_2 v s = Ret (s', v\<lparr>vesa_buf := VA_48_FRAME_BUFFER\<rparr>) \<and> fb_moved v s'"
proof -
  obtain s' where run: "mem_page_bootstrap_2 v s = Ret (s', v\<lparr>vesa_buf := VA_48_FRAME_BUFFER\<rparr>)"
    and walk: "\<And>a. mem_walk s' a =
      (if unat a < 4096 * (unat (kern_end_pa s) div 4096) then Some a
       else if unat VA_48_FRAME_BUFFER \<le> unat a \<and> unat a < unat VA_48_FRAME_BUFFER + unat (d_vesa_get_frame_buffer_len v)
         then Some (vesa_buf v + (a - VA_48_FRAME_BUFFER)) else None)"
    using stage_2_maps [OF assms(1)] by blast
  have rd: "unat (d_vesa_get_frame_buffer_len v) < 3840 * 4096" "unat (kern_end_pa s) \<le> 2 ^ 47" using assms(1) by (auto simp: stage_2_ready_def)
  have "mem_walk s' (VA_48_FRAME_BUFFER + d) = Some (vesa_buf v + d)" if "unat d < unat (d_vesa_get_frame_buffer_len v)" for d
  proof -
    have "unat (VA_48_FRAME_BUFFER + d) = unat VA_48_FRAME_BUFFER + unat d"
      using that rd(1) by (intro unat_u64_add) (simp add: unat_FRAME_BUFFER)
    moreover have "4096 * (unat (kern_end_pa s) div 4096) \<le> 140737488355328" using rd(2) by simp
    ultimately show ?thesis using that by (simp add: walk unat_FRAME_BUFFER)
  qed
  then show ?thesis using run rd assms(2) by (auto simp: fb_moved_def)
qed

text \<open>
  C5: the screen survives the change of the address space. When the second stage has moved the frame buffer of
  the driver to its window, every pixel is the one it was, and a character drawn through the new tables
  comes out on the same pixels and in the same colours as one drawn before the change.
\<close>

theorem stage_2_keeps_screen:
  assumes "stage_2_ready v s" "vesa_ok v" "row < video_char_row_max v" "col < video_char_col_max v"
  shows "\<exists>s' v' u m'. mem_page_bootstrap_2 v s = Ret (s', v') \<and>
    (\<forall>q \<in> on_screen v. pixel v' (seen s' m) q = pixel v m q) \<and>
    video_draw_char v' row col ch (seen s' m) = Ret u \<and> video_draw_char v row col ch m = Ret m' \<and>
    (\<forall>q \<in> on_screen v. pixel v' u q = pixel v m' q)"
proof -
  let ?v = "v\<lparr>vesa_buf := VA_48_FRAME_BUFFER\<rparr>"
  obtain s' where s': "mem_page_bootstrap_2 v s = Ret (s', ?v)" "fb_moved v s'" using stage_2_moves [OF assms(1,2)] by blast
  note same = fb_moved_pixel [OF s'(2), of _ m]
  have max: "video_char_row_max ?v = video_char_row_max v" "video_char_col_max ?v = video_char_col_max v" "on_screen ?v = on_screen v"
    by (simp_all add: video_char_row_max_def video_char_col_max_def d_vesa_get_height_def d_vesa_get_width_def on_screen_def)
  obtain m' where m': "video_draw_char v row col ch m = Ret m'" "painted v 255 255 255 (char_pixels row col ch) m m'"
    using draw_char_paints [OF assms(2-4)] by blast
  obtain u where u: "video_draw_char ?v row col ch (seen s' m) = Ret u" "painted ?v 255 255 255 (char_pixels row col ch) (seen s' m) u"
    using draw_char_paints [OF fb_moved_ok [OF s'(2)]] assms(3,4) max by force
  have "\<forall>q \<in> on_screen v. pixel ?v u q = pixel v m' q"
    using m'(2) u(2) same unfolding painted_def max by simp
  then show ?thesis using s'(1) m'(1) u(1) same by blast
qed

theorem stage_2_keeps_screen_witness:
  "\<exists>s' v' u m'. mem_page_bootstrap_2 sample_vesa (sample_stage 1) = Ret (s', v') \<and>
    (\<forall>q \<in> on_screen sample_vesa. pixel v' (seen s' (\<lambda>_. 7)) q = pixel sample_vesa (\<lambda>_. 7) q) \<and>
    video_draw_char v' 47 127 0x41 (seen s' (\<lambda>_. 7)) = Ret u \<and> video_draw_char sample_vesa 47 127 0x41 (\<lambda>_. 7) = Ret m' \<and>
    (\<forall>q \<in> on_screen sample_vesa. pixel v' u q = pixel sample_vesa m' q)"
  by (rule stage_2_keeps_screen [OF sample_ready])
    (simp_all add: vesa_ok_def sample_vesa_def video_char_row_max_def video_char_col_max_def d_vesa_get_height_def d_vesa_get_width_def)

end
